(* ===== verification/Prelude.thy ===== *)
theory Prelude
  imports Main "HOL-Library.Word"
begin

unbundle bit_operations_syntax

text \<open>
  Shared vocabulary of the development: machine integers, the faults a C or C++ operation
  can run into, the block copies and comparisons of the C library with their bounds made
  explicit, and generic lemmas on results, lists and words that the components share.
\<close>

named_theorems mem_simps \<open>equations of the bounded memory operations\<close>
named_theorems fault_free \<open>operations that return instead of faulting\<close>

section \<open>Machine types and faults\<close>

type_synonym u8 = "8 word"
type_synonym u32 = "32 word"
type_synonym u64 = "64 word"

text \<open>
  What a C or C++ operation runs into when it leaves defined behaviour, or when an
  \<open>assert\<close> stops it. An operation that may do so returns a value of \<open>'a res\<close>.
\<close>

datatype fault =
    NullDeref
  | OutOfBounds
  | UseAfterFree
  | InvalidFree
  | SignedOverflow
  | AssertFail
  | DivByZero
  | MissingReturn

type_synonym 'a res = "fault + 'a"

text \<open>Sequencing: the rest of a body runs only when the operation before it returned.\<close>

definition bind_res :: "'a res \<Rightarrow> ('a \<Rightarrow> 'b res) \<Rightarrow> 'b res" where
  "bind_res r f = (case r of Inl e \<Rightarrow> Inl e | Inr a \<Rightarrow> f a)"

lemma bind_res_simps [simp]: "bind_res (Inr a) f = f a" "bind_res (Inl e) f = Inl e"
  by (simp_all add: bind_res_def)

lemma bind_res_Inr_iff: "bind_res r f = Inr b \<longleftrightarrow> (\<exists>a. r = Inr a \<and> f a = Inr b)"
  by (cases r) auto

text \<open>The same for operations that may also fail to return.\<close>

lemma bind_opt_Inr_iff:
  "Option.bind x (\<lambda>r. case r of Inl e \<Rightarrow> Some (Inl e) | Inr a \<Rightarrow> f a) = Some (Inr b) \<longleftrightarrow>
     (\<exists>a. x = Some (Inr a) \<and> f a = Some (Inr b))"
proof (cases x)
  case (Some r)
  then show ?thesis by (cases r) auto
qed simp

text \<open>Sequencing of operations with loops that may not end: \<open>None\<close> is a run out of fuel.\<close>

definition bind_run :: "'a res option \<Rightarrow> ('a \<Rightarrow> 'b res option) \<Rightarrow> 'b res option" where
  "bind_run x f = (case x of None \<Rightarrow> None | Some (Inl e) \<Rightarrow> Some (Inl e) | Some (Inr a) \<Rightarrow> f a)"

abbreviation ret :: "'a \<Rightarrow> 'a res option" where
  "ret a \<equiv> Some (Inr a)"

lemma bind_run_simps [simp]:
  "bind_run None f = None" "bind_run (Some (Inl e)) f = Some (Inl e)" "bind_run (ret a) f = f a"
  by (simp_all add: bind_run_def)

definition check :: "bool \<Rightarrow> unit res" where
  "check b = (if b then Inr () else Inl AssertFail)"

lemma check_simps [simp]: "check True = Inr ()" "check False = Inl AssertFail"
  by (simp_all add: check_def)

definition returns :: "'a res \<Rightarrow> bool" where
  "returns r \<longleftrightarrow> (case r of Inl _ \<Rightarrow> False | Inr _ \<Rightarrow> True)"

lemma returns_simps [simp]: "returns (Inr a)" "\<not> returns (Inl e)"
  by (simp_all add: returns_def)

lemma returns_iff: "returns r \<longleftrightarrow> (\<exists>a. r = Inr a)"
  by (cases r) auto

text \<open>Arithmetic of the 32-bit \<open>int\<close>, where overflow is undefined.\<close>

definition int_fits :: "int \<Rightarrow> bool" where
  "int_fits x \<longleftrightarrow> - (2 ^ 31) \<le> x \<and> x < 2 ^ 31"

lemma int_fits_nat: "n < 2 ^ 31 \<Longrightarrow> int_fits (int n)"
  by (simp add: int_fits_def)

definition add_int :: "int \<Rightarrow> int \<Rightarrow> int res" where
  "add_int x y = (if int_fits (x + y) then Inr (x + y) else Inl SignedOverflow)"

lemma add_int_ok [fault_free]: "int_fits (x + y) \<Longrightarrow> add_int x y = Inr (x + y)"
  by (simp add: add_int_def)

text \<open>The same for the 64-bit signed types.\<close>

definition int64_fits :: "int \<Rightarrow> bool" where
  "int64_fits x \<longleftrightarrow> - (2 ^ 63) \<le> x \<and> x < 2 ^ 63"

definition add_int64 :: "int \<Rightarrow> int \<Rightarrow> int res" where
  "add_int64 x y = (if int64_fits (x + y) then Inr (x + y) else Inl SignedOverflow)"

lemma add_int64_ok [fault_free]: "int64_fits (x + y) \<Longrightarrow> add_int64 x y = Inr (x + y)"
  by (simp add: add_int64_def)

section \<open>Block copies and comparisons\<close>

text \<open>
  \<open>memcpy dst doff src soff n\<close> is \<open>memcpy(dst + doff, src + soff, n)\<close> for two
  objects that do not overlap, \<open>memcmp_eq\<close> is \<open>memcmp(a + ao, b + bo, n) == 0\<close>.
  An access past the end of an object is \<open>OutOfBounds\<close>.
\<close>

definition memcpy :: "'a list \<Rightarrow> nat \<Rightarrow> 'a list \<Rightarrow> nat \<Rightarrow> nat \<Rightarrow> 'a list res" where
  "memcpy dst doff src soff n =
     (if soff + n \<le> length src \<and> doff + n \<le> length dst
      then Inr (take doff dst @ take n (drop soff src) @ drop (doff + n) dst)
      else Inl OutOfBounds)"

definition memcmp_eq :: "'a list \<Rightarrow> nat \<Rightarrow> 'a list \<Rightarrow> nat \<Rightarrow> nat \<Rightarrow> bool res" where
  "memcmp_eq a ao b bo n =
     (if ao + n \<le> length a \<and> bo + n \<le> length b
      then Inr (take n (drop ao a) = take n (drop bo b))
      else Inl OutOfBounds)"

lemma memcpy_ok [fault_free]:
  "soff + n \<le> length src \<Longrightarrow> doff + n \<le> length dst \<Longrightarrow>
     memcpy dst doff src soff n =
       Inr (take doff dst @ take n (drop soff src) @ drop (doff + n) dst)"
  by (simp add: memcpy_def)

lemma memcpy_length: "memcpy dst doff src soff n = Inr dst' \<Longrightarrow> length dst' = length dst"
  by (auto simp: memcpy_def split: if_splits)

lemma memcpy_nth:
  assumes "memcpy dst doff src soff n = Inr dst'" and "i < length dst"
  shows "dst' ! i = (if doff \<le> i \<and> i < doff + n then src ! (soff + (i - doff)) else dst ! i)"
proof -
  have len: "length (take n (drop soff src)) = n" "length (take doff dst) = doff"
    and dst': "dst' = take doff dst @ take n (drop soff src) @ drop (doff + n) dst"
    and "doff + n \<le> length dst" and src: "soff \<le> length src"
    using assms by (auto simp: memcpy_def split: if_splits)
  with assms show ?thesis
    unfolding dst' by (simp only: nth_append len) (auto simp: nth_append len src)
qed

lemma memcpy_0 [simp]:
  "soff \<le> length src \<Longrightarrow> doff \<le> length dst \<Longrightarrow> memcpy dst doff src soff 0 = Inr dst"
  by (simp add: memcpy_def)

lemma memcmp_eq_ok [fault_free]:
  "ao + n \<le> length a \<Longrightarrow> bo + n \<le> length b \<Longrightarrow>
     memcmp_eq a ao b bo n = Inr (take n (drop ao a) = take n (drop bo b))"
  by (simp add: memcmp_eq_def)

section \<open>Searching\<close>

text \<open>What a search is for: the end of the first occurrence of the pattern, or 0.\<close>

definition first_match_end :: "u8 list \<Rightarrow> u8 list \<Rightarrow> nat \<Rightarrow> int" where
  "first_match_end xs pat i =
     (case List.find (\<lambda>j. take (length pat) (drop j xs) = pat) [i..<Suc (length xs - length pat)] of
        None \<Rightarrow> 0
      | Some j \<Rightarrow> int (j + length pat))"

lemma first_match_end_step:
  assumes "i \<le> length xs - length pat"
  shows "first_match_end xs pat i =
    (if take (length pat) (drop i xs) = pat then int (i + length pat) else first_match_end xs pat (Suc i))"
  using assms by (simp add: first_match_end_def upt_conv_Cons del: upt_Suc)

lemma first_match_end_stop: "length xs - length pat < i \<Longrightarrow> first_match_end xs pat i = 0"
  by (simp add: first_match_end_def)

section \<open>Words\<close>

lemma sint_small: "unat (x::u32) < 2 ^ 31 \<Longrightarrow> sint x = int (unat x)"
proof -
  assume "unat x < 2 ^ 31"
  then have "int (unat x) < int (2 ^ 31)" by (simp only: of_nat_less_iff)
  then have "uint x < 2 ^ 31" by simp
  then have "signed_take_bit 31 (uint x) = uint x"
    by (intro signed_take_bit_int_eq_self) (auto intro: order_trans [OF _ uint_ge_0])
  then show ?thesis by (simp add: sint_uint)
qed

lemma unat_add_small:
  fixes x y :: u32
  assumes "unat x + unat y < 2 ^ 32"
  shows "unat (x + y) = unat x + unat y"
  using assms by (simp add: unat_word_ariths)

lemma unat_sub_small: "unat y \<le> unat x \<Longrightarrow> unat (x - y) = unat x - unat (y :: u32)"
  by (simp add: unat_sub word_le_nat_alt)

text \<open>Masking with a power of two less one is reduction modulo that power.\<close>

lemma unat_and_mask:
  fixes x :: "'a::len word"
  assumes "unat m = 2 ^ k" and "k < LENGTH('a)"
  shows "unat (x AND (m - 1)) = unat x mod 2 ^ k"
proof -
  have "m = word_of_nat (unat m)" by simp
  with assms have "m = 2 ^ k" by simp
  then have "x AND (m - 1) = take_bit k x"
    by (simp add: take_bit_eq_mask mask_eq_decr_exp)
  then have "unat (x AND (m - 1)) = take_bit k (unat x)"
    by (simp only: unsigned_take_bit_eq)
  then show ?thesis by (simp only: take_bit_eq_mod)
qed

lemma unat_pow_of_two_bound:
  fixes m :: "'a::len word"
  assumes "unat m = 2 ^ k"
  shows "k < LENGTH('a)"
proof (rule ccontr)
  assume "\<not> k < LENGTH('a)"
  then have "(2::nat) ^ LENGTH('a) \<le> 2 ^ k"
    by (simp add: power_increasing)
  with assms show False
    using unsigned_less [of m] by (metis linorder_not_less of_nat_less_iff of_nat_numeral of_nat_power)
qed

text \<open>A number and its predecessor have no common bit exactly when it is a power of two.\<close>

lemma and_pred_eq_0_imp_pow2:
  fixes n :: nat
  shows "0 < n \<Longrightarrow> n AND (n - 1) = 0 \<Longrightarrow> \<exists>k. n = 2 ^ k"
proof (induction n rule: less_induct)
  case (less n)
  show ?case
  proof (cases "even n")
    case True
    then obtain m where m: "n = 2 * m" by blast
    with less.prems have "0 < m" by simp
    then have pred_half: "(2 * m - Suc 0) div 2 = m - Suc 0" by presburger
    have "n AND (n - 1) = 2 * (m AND (m - 1))"
      using m \<open>0 < m\<close> pred_half by (subst and_nat_rec) simp
    with less.prems have "m AND (m - 1) = 0" by simp
    with less.IH [of m] m \<open>0 < m\<close> obtain k where "m = 2 ^ k" by auto
    with m show ?thesis by (metis power_Suc)
  next
    case False
    then obtain m where m: "n = 2 * m + 1" by (metis oddE)
    have "n AND (n - 1) = 2 * (m AND m)"
      using m by (subst and_nat_rec) simp
    with less.prems m have "n = 2 ^ 0" by simp
    then show ?thesis ..
  qed
qed

lemma pow2_and_pred_eq_0:
  fixes n :: nat
  assumes "n = 2 ^ k"
  shows "n AND (n - 1) = 0"
proof -
  have "n - 1 = mask k"
    using assms by (simp add: mask_eq_exp_minus_1)
  then have "n AND (n - 1) = take_bit k n"
    by (simp add: take_bit_eq_mask)
  with assms show ?thesis by (simp add: take_bit_eq_mod)
qed

end
