(* ===== verification/Interfaces.thy ===== *)
theory Interfaces
  imports Prelude
begin

text \<open>
  The contracts between the components and their clients, as locales. Each is interpreted on
  the model of the code in the theory of the component that provides it:
  \<open>invariant_system\<close> (a step relation with an inductive invariant), \<open>byte_stream\<close> (a
  bounded first-in-first-out buffer of bytes) and \<open>fifo_queue\<close> (a queue of messages).
\<close>

section \<open>Step relations with an invariant\<close>

locale invariant_system =
  fixes start :: "'s \<Rightarrow> bool"
    and step :: "'s \<Rightarrow> 's \<Rightarrow> bool"
    and inv :: "'s \<Rightarrow> bool"
  assumes inv_start: "start s \<Longrightarrow> inv s"
    and inv_step: "inv s \<Longrightarrow> step s t \<Longrightarrow> inv t"
begin

lemma inv_steps: "step\<^sup>*\<^sup>* s t \<Longrightarrow> inv s \<Longrightarrow> inv t"
  by (induction rule: rtranclp_induct) (auto intro: inv_step)

lemma inv_reachable: "start s \<Longrightarrow> step\<^sup>*\<^sup>* s t \<Longrightarrow> inv t"
  by (blast intro: inv_steps inv_start)

end

section \<open>Byte streams\<close>

text \<open>
  A client of a byte stream puts blocks at its end and drops bytes from its front. The
  client's view is one operation list; \<open>put_bytes\<close> and \<open>dropped\<close> are what it wrote and
  how much it gave up.
\<close>

datatype stream_op = Put "u8 list" | Drop nat

fun put_bytes :: "stream_op list \<Rightarrow> u8 list" where
  "put_bytes [] = []"
| "put_bytes (Put xs # ops) = xs @ put_bytes ops"
| "put_bytes (Drop n # ops) = put_bytes ops"

fun dropped :: "stream_op list \<Rightarrow> nat" where
  "dropped [] = 0"
| "dropped (Put xs # ops) = dropped ops"
| "dropped (Drop n # ops) = n + dropped ops"

text \<open>The client's run over any implementation, stopping at a fault, and its obligation.\<close>

fun stream_run :: "('b \<Rightarrow> u8 list \<Rightarrow> 'b res) \<Rightarrow> ('b \<Rightarrow> nat \<Rightarrow> 'b res) \<Rightarrow> 'b \<Rightarrow> stream_op list \<Rightarrow> 'b res" where
  "stream_run put del b [] = Inr b"
| "stream_run put del b (Put xs # ops) =
     (case put b xs of Inl e \<Rightarrow> Inl e | Inr b' \<Rightarrow> stream_run put del b' ops)"
| "stream_run put del b (Drop n # ops) =
     (case del b n of Inl e \<Rightarrow> Inl e | Inr b' \<Rightarrow> stream_run put del b' ops)"

fun stream_fits :: "nat \<Rightarrow> nat \<Rightarrow> stream_op list \<Rightarrow> bool" where
  "stream_fits cap l [] = True"
| "stream_fits cap l (Put xs # ops) = (l + length xs \<le> cap \<and> stream_fits cap (l + length xs) ops)"
| "stream_fits cap l (Drop n # ops) = (n \<le> l \<and> stream_fits cap (l - n) ops)"

locale byte_stream =
  fixes invar :: "'b \<Rightarrow> bool"
    and contents :: "'b \<Rightarrow> u8 list"
    and capacity :: "'b \<Rightarrow> nat"
    and put :: "'b \<Rightarrow> u8 list \<Rightarrow> 'b res"
    and del :: "'b \<Rightarrow> nat \<Rightarrow> 'b res"
  assumes contents_le: "invar b \<Longrightarrow> length (contents b) \<le> capacity b"
    and put_law: "invar b \<Longrightarrow> length (contents b) + length xs \<le> capacity b \<Longrightarrow>
      \<exists>b'. put b xs = Inr b' \<and> invar b' \<and> capacity b' = capacity b \<and> contents b' = contents b @ xs"
    and del_law: "invar b \<Longrightarrow> n \<le> length (contents b) \<Longrightarrow>
      \<exists>b'. del b n = Inr b' \<and> invar b' \<and> capacity b' = capacity b \<and> contents b' = drop n (contents b)"
begin

text \<open>
  A client that never overfills the buffer and never drops more than it holds reads back
  what it wrote, in order.
\<close>

lemma run_contents:
  "invar b \<Longrightarrow> stream_fits (capacity b) (length (contents b)) ops \<Longrightarrow>
     \<exists>b'. stream_run put del b ops = Inr b' \<and> invar b' \<and> capacity b' = capacity b
        \<and> contents b' = drop (dropped ops) (contents b @ put_bytes ops)"
proof (induction ops arbitrary: b)
  case (Cons op ops)
  show ?case
  proof (cases op)
    case (Put xs)
    with Cons.prems obtain b1 where "put b xs = Inr b1" "invar b1" "capacity b1 = capacity b"
        "contents b1 = contents b @ xs"
      using put_law [of b xs] by auto
    with Cons.IH [of b1] Cons.prems Put show ?thesis by simp
  next
    case (Drop n)
    with Cons.prems obtain b1 where "del b n = Inr b1" "invar b1" "capacity b1 = capacity b"
        "contents b1 = drop n (contents b)"
      using del_law [of b n] by auto
    moreover from Cons.prems Drop
    have "drop n (contents b) @ put_bytes ops = drop n (contents b @ put_bytes ops)"
      by simp
    ultimately show ?thesis
      using Cons.IH [of b1] Cons.prems Drop by (auto simp del: drop_append simp: add.commute)
  qed
qed simp

end

section \<open>Message queues\<close>

text \<open>Up to \<open>n\<close> dequeues, stopping when the queue reports that it is empty.\<close>

fun queue_drain :: "('q \<Rightarrow> 'a option \<times> 'q) \<Rightarrow> nat \<Rightarrow> 'q \<Rightarrow> 'a list \<times> 'q" where
  "queue_drain deq 0 q = ([], q)"
| "queue_drain deq (Suc n) q = (case deq q of (None, q') \<Rightarrow> ([], q')
     | (Some x, q') \<Rightarrow> (let (xs, q'') = queue_drain deq n q' in (x # xs, q'')))"

locale fifo_queue =
  fixes invar :: "'q \<Rightarrow> bool"
    and items :: "'q \<Rightarrow> 'a list"
    and enq :: "'q \<Rightarrow> 'a \<Rightarrow> 'q"
    and deq :: "'q \<Rightarrow> 'a option \<times> 'q"
  assumes enq_law: "invar q \<Longrightarrow> invar (enq q x) \<and> items (enq q x) = items q @ [x]"
    and deq_law: "invar q \<Longrightarrow> deq q = (r, q') \<Longrightarrow>
      invar q' \<and> (case items q of [] \<Rightarrow> r = None \<and> items q' = [] | x # xs \<Rightarrow> r = Some x \<and> items q' = xs)"
begin

lemma foldl_enq:
  "invar q \<Longrightarrow> invar (foldl enq q xs) \<and> items (foldl enq q xs) = items q @ xs"
  by (induction xs arbitrary: q) (auto simp: enq_law)

text \<open>Dequeuing \<open>n\<close> times hands out the first \<open>n\<close> messages in order.\<close>

lemma drain_items:
  "invar q \<Longrightarrow> fst (queue_drain deq n q) = take n (items q) \<and> items (snd (queue_drain deq n q)) = drop n (items q)
     \<and> invar (snd (queue_drain deq n q))"
proof (induction n arbitrary: q)
  case (Suc n)
  obtain r q' where d: "deq q = (r, q')" by fastforce
  with Suc.prems deq_law have law: "invar q'"
    "case items q of [] \<Rightarrow> r = None \<and> items q' = [] | x # xs \<Rightarrow> r = Some x \<and> items q' = xs"
    by blast+
  show ?case
    using law d Suc.IH [of q'] by (cases "items q") (auto simp: split_beta)
qed simp

lemma enq_drain: "invar q \<Longrightarrow> items q = [] \<Longrightarrow> fst (queue_drain deq (length xs) (foldl enq q xs)) = xs"
  using drain_items [of "foldl enq q xs" "length xs"] foldl_enq [of q xs] by simp

end

end
