(* ===== verification/RingBuffer.thy ===== *)
theory RingBuffer
  imports Interfaces
begin

unbundle bit_operations_syntax

text \<open>
  The ring buffer of \<^verbatim>\<open>Network_Buffer_Design/RingBuffer/ringbuffer.c\<close>. The indices
  \<open>head\<close> and \<open>tail\<close> run freely over 32 bits and are masked at each access; the storage is
  a list of \<open>size\<close> bytes. \<open>rb_inline\<close> records where \<open>buf\<close> points: into the block that
  also holds the struct (as \<open>buffer_new\<close> leaves it) or to a block of its own. Shown: the
  power-of-two test is exact, the invariant is kept, adding and deleting refine appending to
  and dropping from a byte list over any wrap-around of the indices, and removal and search
  agree with that list where their index arithmetic is right.
\<close>

section \<open>The data\<close>

record ringbuffer_s =
  rb_size :: u32
  rb_tail :: u32
  rb_head :: u32
  rb_buf :: "u8 list"
  rb_inline :: bool

section \<open>Operations\<close>

definition is_pow_of_two :: "u32 \<Rightarrow> bool" where
  "is_pow_of_two x = (if x < 2 then False else (x AND (x - 1)) = 0)"

text \<open>The loop of \<open>roundup_pow_of_two\<close>: it counts the bits of \<open>x\<close> into \<open>i\<close>.\<close>

function roundup_loop :: "u32 \<Rightarrow> nat \<Rightarrow> nat" where
  "roundup_loop x i = (if x \<noteq> 0 then roundup_loop (drop_bit 1 x) (i + 1) else i)"
  by pat_completeness auto
termination
proof (relation "measure (\<lambda>(x, i). unat x)")
  fix x :: u32 and i :: nat
  assume "x \<noteq> 0"
  then have "unat x div 2 < unat x" by (simp add: unat_gt_0)
  then show "((drop_bit 1 x, i + 1), (x, i)) \<in> measure (\<lambda>(x, i). unat x)"
    by (simp add: drop_bit_eq_div unat_div)
qed simp

declare roundup_loop.simps [simp del]

definition roundup_pow_of_two :: "u32 \<Rightarrow> u32" where
  "roundup_pow_of_two x =
     (if x = 0 then 2
      else let i = roundup_loop x 0 in push_bit 1 1)"

text \<open>
  \<open>alloc\<close> is what \<open>malloc\<close> hands out for a number of data bytes: the bytes found there, or
  \<open>None\<close> when it returns a null pointer, which the code then writes through.
\<close>

definition buffer_new :: "(nat \<Rightarrow> u8 list option) \<Rightarrow> u32 \<Rightarrow> ringbuffer_s res" where
  "buffer_new alloc sz =
     (let sz = (if \<not> is_pow_of_two sz then roundup_pow_of_two sz else sz)
      in case alloc (unat sz) of
           None \<Rightarrow> Inl NullDeref
         | Some mem \<Rightarrow> Inr \<lparr>rb_size = sz, rb_tail = 0, rb_head = 0, rb_buf = mem, rb_inline = True\<rparr>)"

definition buffer_len :: "ringbuffer_s \<Rightarrow> u32" where
  "buffer_len r = rb_tail r - rb_head r"

definition buf_remain :: "ringbuffer_s \<Rightarrow> u32" where
  "buf_remain r = rb_size r - buffer_len r"

definition buf_pos :: "ringbuffer_s \<Rightarrow> u32 \<Rightarrow> u32" where
  "buf_pos r x = x AND (rb_size r - 1)"

definition buffer_add :: "ringbuffer_s \<Rightarrow> u8 list \<Rightarrow> u32 \<Rightarrow> (int \<times> ringbuffer_s) res" where
  "buffer_add r data sz =
     (if sz > buf_remain r then Inr (-1, r)
      else let d = min sz (rb_size r - buf_pos r (rb_tail r))
           in case memcpy (rb_buf r) (unat (buf_pos r (rb_tail r))) data 0 (unat d) of
                Inl e \<Rightarrow> Inl e
              | Inr b1 \<Rightarrow>
                 (case memcpy b1 0 data (unat d) (unat (sz - d)) of
                    Inl e \<Rightarrow> Inl e
                  | Inr b2 \<Rightarrow> Inr (0, r\<lparr>rb_buf := b2, rb_tail := rb_tail r + sz\<rparr>)))"

definition buf_isEmpty :: "ringbuffer_s \<Rightarrow> bool" where
  "buf_isEmpty r \<longleftrightarrow> rb_head r = rb_tail r"

text \<open>The result is the returned \<open>int\<close>, the bytes of the caller's buffer, and the ring.\<close>

definition buffer_remove :: "ringbuffer_s \<Rightarrow> u8 list \<Rightarrow> u32 \<Rightarrow> (int \<times> u8 list \<times> ringbuffer_s) res" where
  "buffer_remove r data sz =
     (if buf_isEmpty r then Inl AssertFail
      else let sz = min sz (buffer_len r);
               d = min sz (rb_size r - buf_pos r (rb_tail r))
           in case memcpy data 0 (rb_buf r) (unat (buf_pos r (rb_head r))) (unat d) of
                Inl e \<Rightarrow> Inl e
              | Inr out1 \<Rightarrow>
                 (case memcpy out1 (unat d) (rb_buf r) 0 (unat (sz - d)) of
                    Inl e \<Rightarrow> Inl e
                  | Inr out2 \<Rightarrow> Inr (sint sz, out2, r\<lparr>rb_head := rb_head r + sz\<rparr>)))"

definition buffer_delete :: "ringbuffer_s \<Rightarrow> u32 \<Rightarrow> int \<times> ringbuffer_s" where
  "buffer_delete r sz =
     (let sz = (if sz > buffer_len r then buffer_len r else sz)
      in (sint sz, r\<lparr>rb_head := rb_head r + sz\<rparr>))"

text \<open>
  The search loop from index \<open>i\<close> on. The guard compares \<open>i\<close>, converted to unsigned, with
  the unsigned difference \<open>buffer_len(r) - len\<close>; \<open>i\<close> itself is an \<open>int\<close>, so counting past
  its largest value is a fault.
\<close>

function search_from :: "ringbuffer_s \<Rightarrow> u8 list \<Rightarrow> u32 \<Rightarrow> nat \<Rightarrow> int res" where
  "search_from r data len i =
     (if i \<ge> 2 ^ 31 then Inl SignedOverflow
      else if word_of_nat i \<le> buffer_len r - len
      then let pos = buf_pos r (rb_head r + word_of_nat i);
               next = (\<lambda>_::unit.
                 case memcmp_eq (rb_buf r) (unat pos) data 0 (unat len) of
                   Inl e \<Rightarrow> Inl e
                 | Inr True \<Rightarrow> add_int (int i) (sint len)
                 | Inr False \<Rightarrow> search_from r data len (i + 1))
           in if \<not> int_fits (sint pos + sint len) then Inl SignedOverflow
              else if pos + len > rb_size r
              then case memcmp_eq (rb_buf r) (unat pos) data 0 (unat (rb_size r - pos)) of
                     Inl e \<Rightarrow> Inl e
                   | Inr False \<Rightarrow> Inr 0
                   | Inr True \<Rightarrow>
                      (case memcmp_eq (rb_buf r) 0 data (unat (rb_size r - pos)) (unat (pos + len - rb_size r)) of
                         Inl e \<Rightarrow> Inl e
                       | Inr True \<Rightarrow> add_int (int i) (sint len)
                       | Inr False \<Rightarrow> next ())
              else next ()
      else Inr 0)"
  by pat_completeness auto
termination
  by (relation "measure (\<lambda>(r, data, len, i). 2 ^ 31 - i)") auto

declare search_from.simps [simp del]

definition buffer_search :: "ringbuffer_s \<Rightarrow> u8 list \<Rightarrow> u32 \<Rightarrow> int res" where
  "buffer_search r data len = search_from r data len 0"

text \<open>
  The pointer that is returned is a byte offset into the ring's storage. \<open>free(r->buf)\<close> is
  an invalid free when \<open>buf\<close> points behind the struct in the same block.
\<close>

definition buffer_write_atomost :: "(nat \<Rightarrow> u8 list option) \<Rightarrow> ringbuffer_s \<Rightarrow> (nat \<times> ringbuffer_s) res" where
  "buffer_write_atomost alloc r =
     (let hpos = buf_pos r (rb_head r); tpos = buf_pos r (rb_tail r)
      in if tpos < hpos
         then case alloc (unat (rb_size r)) of
                None \<Rightarrow> Inl NullDeref
              | Some tmp \<Rightarrow>
                 (case memcpy tmp 0 (rb_buf r) (unat hpos) (unat (rb_size r - hpos)) of
                    Inl e \<Rightarrow> Inl e
                  | Inr t1 \<Rightarrow>
                     (case memcpy t1 (unat (rb_size r - hpos)) (rb_buf r) 0 (unat tpos) of
                        Inl e \<Rightarrow> Inl e
                      | Inr t2 \<Rightarrow>
                         (if rb_inline r then Inl InvalidFree
                          else Inr (0, r\<lparr>rb_buf := t2, rb_inline := False\<rparr>))))
         else Inr (unat hpos, r))"

section \<open>Invariant and abstraction\<close>

definition rb_inv :: "ringbuffer_s \<Rightarrow> bool" where
  "rb_inv r \<longleftrightarrow> is_pow_of_two (rb_size r) \<and> length (rb_buf r) = unat (rb_size r)
     \<and> buffer_len r \<le> rb_size r"

text \<open>The stored bytes in the order they were added.\<close>

definition rb_contents :: "ringbuffer_s \<Rightarrow> u8 list" where
  "rb_contents r =
     map (\<lambda>i. rb_buf r ! ((unat (rb_head r) + i) mod unat (rb_size r))) [0..<unat (buffer_len r)]"

section \<open>Arithmetic of the masked indices\<close>

lemma is_pow_of_two_iff: "is_pow_of_two x \<longleftrightarrow> (\<exists>k. 0 < k \<and> k < 32 \<and> unat x = 2 ^ k)"
proof (cases "x < 2")
  case True
  then have "unat x < 2" by (simp add: word_less_nat_alt)
  moreover have "(2::nat) \<le> 2 ^ k" if "0 < k" for k
    using that by (simp add: self_le_power)
  ultimately have "\<nexists>k. 0 < k \<and> unat x = 2 ^ k" by (metis not_less)
  with True show ?thesis by (auto simp: is_pow_of_two_def)
next
  case False
  then have "2 \<le> unat x" by (simp add: word_less_nat_alt not_less)
  then have "x \<noteq> 0" by auto
  then have "unat (x AND (x - 1)) = unat x AND (unat x - 1)"
    by (simp add: unsigned_and_eq unat_minus_one)
  then have "is_pow_of_two x \<longleftrightarrow> unat x AND (unat x - 1) = 0"
    using False by (simp add: is_pow_of_two_def flip: unat_eq_0)
  also have "\<dots> \<longleftrightarrow> (\<exists>k. unat x = 2 ^ k)"
    using \<open>2 \<le> unat x\<close> and_pred_eq_0_imp_pow2 pow2_and_pred_eq_0 by (metis not_numeral_le_zero gr0I)
  also have "\<dots> \<longleftrightarrow> (\<exists>k. 0 < k \<and> k < 32 \<and> unat x = 2 ^ k)"
    using \<open>2 \<le> unat x\<close> unat_pow_of_two_bound [of x] by (auto intro!: gr0I)
  finally show ?thesis .
qed

lemma rb_invE:
  assumes "rb_inv r"
  obtains k where "0 < k" "k < 32" "unat (rb_size r) = 2 ^ k" "length (rb_buf r) = 2 ^ k"
    "unat (buffer_len r) \<le> 2 ^ k"
  using assms by (auto simp: rb_inv_def is_pow_of_two_iff word_le_nat_alt)

lemma unat_buf_pos:
  assumes "rb_inv r"
  shows "unat (buf_pos r x) = unat x mod unat (rb_size r)"
  using assms by (elim rb_invE) (simp add: buf_pos_def unat_and_mask)

lemma rb_size_pos: "rb_inv r \<Longrightarrow> 0 < unat (rb_size r)"
  by (elim rb_invE) simp

text \<open>The ring's size divides the range of the indices, so their wrap-around is harmless.\<close>

lemma unat_add_mod_size:
  assumes "rb_inv r"
  shows "unat (x + y :: u32) mod unat (rb_size r) = (unat x + unat y) mod unat (rb_size r)"
proof -
  obtain k where "k < 32" and size: "unat (rb_size r) = 2 ^ k"
    using assms by (rule rb_invE)
  then have "(2::nat) ^ k dvd 2 ^ 32" by (intro le_imp_power_dvd) simp
  then show ?thesis
    by (simp add: unat_word_ariths mod_mod_cancel size)
qed

lemma tail_pos:
  assumes "rb_inv r"
  shows "unat (buf_pos r (rb_tail r))
    = (unat (rb_head r) + unat (buffer_len r)) mod unat (rb_size r)"
  using unat_add_mod_size [OF assms, of "rb_head r" "buffer_len r"]
  by (simp add: unat_buf_pos [OF assms] buffer_len_def)

lemma length_rb_contents [simp]: "length (rb_contents r) = unat (buffer_len r)"
  by (simp add: rb_contents_def)

lemma nth_rb_contents:
  "i < unat (buffer_len r) \<Longrightarrow>
     rb_contents r ! i = rb_buf r ! ((unat (rb_head r) + i) mod unat (rb_size r))"
  by (simp add: rb_contents_def)

lemma ring_distance:
  assumes "0 < (s::nat)"
  shows "((a mod s) + s - (b mod s)) mod s = nat ((int a - int b) mod int s)"
proof -
  have "b mod s \<le> s" using assms by (simp add: less_imp_le)
  then have "int (((a mod s) + s - (b mod s)) mod s)
      = (int a mod int s - int b mod int s + int s) mod int s"
    by (simp add: of_nat_diff zmod_int algebra_simps)
  also have "\<dots> = (int a - int b) mod int s"
    by (simp only: mod_add_self2 mod_diff_eq)
  finally have "int (((a mod s) + s - (b mod s)) mod s) = (int a - int b) mod int s" .
  then show ?thesis by (metis nat_int)
qed

section \<open>Writing a block into the ring\<close>

text \<open>
  The two copies of \<open>buffer_add\<close>: the first up to the end of the storage, the second from
  its start. Cell \<open>j\<close> gets the byte at its distance from the write position.
\<close>

lemma ring_write:
  assumes t: "t < s" and buf: "length buf = s" and xs: "length xs \<le> s" "n = length xs"
    and d: "d = min n (s - t)"
  shows "\<exists>b1 b2. memcpy buf t xs 0 d = Inr b1 \<and> memcpy b1 0 xs d (n - d) = Inr b2
     \<and> length b2 = s
     \<and> (\<forall>j < s. b2 ! j = (if (j + s - t) mod s < n then xs ! ((j + s - t) mod s) else buf ! j))"
proof -
  define b1 where "b1 = take t buf @ take d xs @ drop (t + d) buf"
  have b1: "memcpy buf t xs 0 d = Inr b1"
    using assms by (simp add: memcpy_ok b1_def)
  then have len1: "length b1 = s" using buf by (metis memcpy_length)
  obtain b2 where b2: "memcpy b1 0 xs d (n - d) = Inr b2"
    using len1 xs d t by (simp add: memcpy_ok)
  then have len2: "length b2 = s" using len1 by (metis memcpy_length)
  have "b2 ! j = (if (j + s - t) mod s < n then xs ! ((j + s - t) mod s) else buf ! j)"
    if j: "j < s" for j
  proof (cases "t \<le> j")
    case True
    then have "(j + s - t) mod s = j - t" using j t by (simp add: mod_if)
    then show ?thesis
      using True j t d xs buf
      by (auto simp: memcpy_nth [OF b2] memcpy_nth [OF b1] len1 min_def)
  next
    case False
    then have "(j + s - t) mod s = j + s - t" using j t by (simp add: mod_if)
    then show ?thesis
      using False j t d xs buf
      by (auto simp: memcpy_nth [OF b2] memcpy_nth [OF b1] len1 min_def add.commute)
  qed
  with b1 b2 len2 show ?thesis by blast
qed

section \<open>Adding and deleting refine the byte list\<close>

lemma unat_buf_remain:
  "rb_inv r \<Longrightarrow> unat (buf_remain r) = unat (rb_size r) - unat (buffer_len r)"
  by (simp add: buf_remain_def rb_inv_def unat_sub_if' word_le_nat_alt)

lemma buf_full_iff:
  assumes "rb_inv r"
  shows "sz > buf_remain r \<longleftrightarrow> unat (rb_size r) < unat (buffer_len r) + unat sz"
proof -
  have "unat (buffer_len r) \<le> unat (rb_size r)"
    using assms by (simp add: rb_inv_def word_le_nat_alt)
  then show ?thesis
    by (auto simp: word_less_nat_alt unat_buf_remain [OF assms])
qed

lemma unat_min_word: "unat (min x y) = min (unat x) (unat y)"
  by (simp add: min_def word_le_nat_alt)

lemma len_after_add:
  assumes "rb_inv r" and "unat (buffer_len r) + unat sz \<le> unat (rb_size r)"
  shows "unat (rb_tail r + sz - rb_head r) = unat (buffer_len r) + unat sz"
proof -
  have sum: "rb_tail r + sz - rb_head r = buffer_len r + sz"
    by (simp add: buffer_len_def)
  have "unat (rb_size r) < 2 ^ 32"
    using unsigned_less [of "rb_size r"] by simp
  then have "unat (buffer_len r + sz) = unat (buffer_len r) + unat sz"
    using assms(2) by (simp add: unat_word_ariths)
  then show ?thesis by (simp only: sum)
qed

text \<open>The write position is \<open>l\<close> cells after the read position, so no stored byte is hit.\<close>

lemma distance_stored:
  assumes "i < l" "l \<le> (s::nat)"
  shows "((h + i) mod s + s - (h + l) mod s) mod s = s + i - l"
proof -
  have "(int (h + i) - int (h + l)) mod int s = (int i - int l + int s) mod int s"
    by (simp only: mod_add_self2) simp
  also have "\<dots> = int s + int i - int l"
    using assms by (subst mod_pos_pos_trivial) auto
  finally have "(int (h + i) - int (h + l)) mod int s = int s + int i - int l" .
  with assms show ?thesis
    by (subst ring_distance) (auto simp: nat_eq_iff)
qed

lemma distance_new:
  assumes "m < (s::nat)"
  shows "((h + (l + m)) mod s + s - (h + l) mod s) mod s = m"
  using assms by (subst ring_distance) (auto simp: nat_eq_iff)

lemma contents_after_write:
  assumes inv: "rb_inv r" and fit: "unat (buffer_len r) + unat sz \<le> unat (rb_size r)"
    and data: "length data = unat sz"
    and buf: "\<And>j. j < unat (rb_size r) \<Longrightarrow>
       b ! j = (let m = (j + unat (rb_size r) - unat (buf_pos r (rb_tail r))) mod unat (rb_size r)
                in if m < unat sz then data ! m else rb_buf r ! j)"
  shows "rb_contents (r\<lparr>rb_buf := b, rb_tail := rb_tail r + sz\<rparr>) = rb_contents r @ data"
proof (rule nth_equalityI)
  let ?r = "r\<lparr>rb_buf := b, rb_tail := rb_tail r + sz\<rparr>"
  let ?h = "unat (rb_head r)" and ?l = "unat (buffer_len r)" and ?s = "unat (rb_size r)"
  have len: "unat (buffer_len ?r) = ?l + unat sz"
    using len_after_add [OF inv fit] by (simp add: buffer_len_def)
  then show "length (rb_contents ?r) = length (rb_contents r @ data)"
    using data by simp
  fix i assume "i < length (rb_contents ?r)"
  with len have i: "i < ?l + unat sz" by simp
  have s: "0 < ?s" by (rule rb_size_pos [OF inv])
  then have nth: "rb_contents ?r ! i
      = (let m = ((?h + i) mod ?s + ?s - (?h + ?l) mod ?s) mod ?s
         in if m < unat sz then data ! m else rb_buf r ! ((?h + i) mod ?s))"
    using i len buf [of "(?h + i) mod ?s"] by (simp add: nth_rb_contents tail_pos [OF inv])
  show "rb_contents ?r ! i = (rb_contents r @ data) ! i"
  proof (cases "i < ?l")
    case True
    then have "((?h + i) mod ?s + ?s - (?h + ?l) mod ?s) mod ?s = ?s + i - ?l"
      using fit by (intro distance_stored) auto
    then show ?thesis
      using nth True fit by (auto simp: Let_def nth_append nth_rb_contents)
  next
    case False
    then have "((?h + i) mod ?s + ?s - (?h + ?l) mod ?s) mod ?s = i - ?l"
      using distance_new [of "i - ?l" ?s ?h ?l] i fit by simp
    then show ?thesis
      using nth False i by (auto simp: Let_def nth_append)
  qed
qed

lemma buffer_add_ok:
  assumes inv: "rb_inv r" and data: "length data = unat sz"
    and fit: "unat (buffer_len r) + unat sz \<le> unat (rb_size r)"
  shows "\<exists>r'. buffer_add r data sz = Inr (0, r') \<and> rb_inv r' \<and> rb_size r' = rb_size r
     \<and> rb_contents r' = rb_contents r @ data"
proof -
  let ?s = "unat (rb_size r)" and ?t = "unat (buf_pos r (rb_tail r))"
  define d where "d = min sz (rb_size r - buf_pos r (rb_tail r))"
  have t: "?t < ?s"
    using rb_size_pos [OF inv] by (simp add: unat_buf_pos [OF inv])
  then have d: "unat d = min (unat sz) (?s - ?t)"
    by (simp add: d_def unat_min_word unat_sub_if')
  then have sub: "unat (sz - d) = unat sz - unat d"
    by (simp add: unat_sub_if')
  have buf: "length (rb_buf r) = ?s" using inv by (simp add: rb_inv_def)
  have "length data \<le> ?s" using data fit by simp
  then obtain b1 b2 where b: "memcpy (rb_buf r) ?t data 0 (unat d) = Inr b1"
      "memcpy b1 0 data (unat d) (unat sz - unat d) = Inr b2" "length b2 = ?s"
      "\<forall>j < ?s. b2 ! j = (if (j + ?s - ?t) mod ?s < unat sz then data ! ((j + ?s - ?t) mod ?s)
         else rb_buf r ! j)"
    using ring_write [OF t buf _ data [symmetric] d] by blast
  let ?r = "r\<lparr>rb_buf := b2, rb_tail := rb_tail r + sz\<rparr>"
  have "\<not> sz > buf_remain r"
    using fit by (simp add: buf_full_iff [OF inv])
  then have "buffer_add r data sz = Inr (0, ?r)"
    using b(1,2) sub by (simp add: buffer_add_def flip: d_def)
  moreover have "rb_inv ?r"
    using inv b(3) len_after_add [OF inv fit] fit
    by (simp add: rb_inv_def buffer_len_def word_le_nat_alt)
  moreover have "rb_contents ?r = rb_contents r @ data"
    using b(4) by (intro contents_after_write [OF inv fit data]) (auto simp: Let_def)
  ultimately show ?thesis by auto
qed

lemma buffer_add_rejects:
  assumes "rb_inv r" and "unat (rb_size r) < unat (buffer_len r) + unat sz"
  shows "buffer_add r data sz = Inr (-1, r)"
  using assms by (simp add: buffer_add_def buf_full_iff)

lemma advance_head:
  assumes inv: "rb_inv r" and le: "sz \<le> buffer_len r"
  shows "rb_inv (r\<lparr>rb_head := rb_head r + sz\<rparr>)"
    and "rb_contents (r\<lparr>rb_head := rb_head r + sz\<rparr>) = drop (unat sz) (rb_contents r)"
proof -
  let ?r = "r\<lparr>rb_head := rb_head r + sz\<rparr>"
  have "buffer_len ?r = buffer_len r - sz" by (simp add: buffer_len_def)
  with le have len: "unat (buffer_len ?r) = unat (buffer_len r) - unat sz"
    by (simp add: unat_sub_if' word_le_nat_alt)
  with inv show "rb_inv ?r"
    by (auto simp: rb_inv_def word_le_nat_alt)
  show "rb_contents ?r = drop (unat sz) (rb_contents r)"
  proof (rule nth_equalityI)
    fix i assume i: "i < length (rb_contents ?r)"
    have "(unat (rb_head r + sz) + i) mod unat (rb_size r)
        = (unat (rb_head r) + (unat sz + i)) mod unat (rb_size r)"
      using mod_add_cong [OF unat_add_mod_size [OF inv, of "rb_head r" sz] refl, of i]
      by (simp only: add.assoc)
    with i len show "rb_contents ?r ! i = drop (unat sz) (rb_contents r) ! i"
      by (simp add: nth_rb_contents)
  qed (simp add: len)
qed

lemma buffer_delete_ok:
  assumes "rb_inv r"
  shows "rb_inv (snd (buffer_delete r sz))"
    and "rb_size (snd (buffer_delete r sz)) = rb_size r"
    and "rb_contents (snd (buffer_delete r sz)) = drop (unat sz) (rb_contents r)"
proof -
  define sz' where "sz' = (if sz > buffer_len r then buffer_len r else sz)"
  have del: "snd (buffer_delete r sz) = r\<lparr>rb_head := rb_head r + sz'\<rparr>"
    by (simp add: buffer_delete_def sz'_def Let_def)
  have le: "sz' \<le> buffer_len r" by (simp add: sz'_def not_less)
  have "drop (unat sz') (rb_contents r) = drop (unat sz) (rb_contents r)"
    by (simp add: sz'_def word_less_nat_alt)
  with advance_head [OF assms le] show
    "rb_inv (snd (buffer_delete r sz))"
    "rb_size (snd (buffer_delete r sz)) = rb_size r"
    "rb_contents (snd (buffer_delete r sz)) = drop (unat sz) (rb_contents r)"
    by (simp_all add: del)
qed

section \<open>Removing\<close>

text \<open>
  Reading a block of \<open>n\<close> stored bytes with the split taken at the read position.
\<close>

lemma ring_read:
  assumes inv: "rb_inv r" and n: "n \<le> unat (buffer_len r)" and out: "n \<le> length out"
    and d: "d = min n (unat (rb_size r) - unat (buf_pos r (rb_head r)))"
  shows "\<exists>o1. memcpy out 0 (rb_buf r) (unat (buf_pos r (rb_head r))) d = Inr o1
     \<and> memcpy o1 d (rb_buf r) 0 (n - d) = Inr (take n (rb_contents r) @ drop n out)"
proof -
  let ?s = "unat (rb_size r)" and ?h = "unat (buf_pos r (rb_head r))"
  have buf: "length (rb_buf r) = ?s" and len: "unat (buffer_len r) \<le> ?s"
    using inv by (auto simp: rb_inv_def word_le_nat_alt)
  have h: "?h < ?s" "?h = unat (rb_head r) mod ?s"
    using rb_size_pos [OF inv] by (simp_all add: unat_buf_pos [OF inv])
  obtain o1 where o1: "memcpy out 0 (rb_buf r) ?h d = Inr o1"
    using d h buf out by (simp add: memcpy_ok)
  then have l1: "length o1 = length out" by (rule memcpy_length)
  obtain o2 where o2: "memcpy o1 d (rb_buf r) 0 (n - d) = Inr o2"
    using d h buf out l1 n len by (simp add: memcpy_ok)
  have "o2 = take n (rb_contents r) @ drop n out"
  proof (rule nth_equalityI)
    show "length o2 = length (take n (rb_contents r) @ drop n out)"
      using memcpy_length [OF o2] l1 n out by simp
    fix i assume "i < length o2"
    then have i: "i < length out" using memcpy_length [OF o2] l1 by simp
    have pos: "(unat (rb_head r) + i) mod ?s = (if ?h + i < ?s then ?h + i else ?h + i - ?s)"
      if "i < n"
    proof -
      have "(unat (rb_head r) + i) mod ?s = (?h + i) mod ?s"
        by (simp add: h(2) mod_add_left_eq)
      with that n len h(1) show ?thesis by (simp add: mod_if)
    qed
    show "o2 ! i = (take n (rb_contents r) @ drop n out) ! i"
      using i n d out h(1) pos
      by (auto simp: memcpy_nth [OF o2] memcpy_nth [OF o1] l1 nth_append nth_rb_contents min_def add.commute)
  qed
  with o1 o2 show ?thesis by blast
qed

lemma buffer_remove_ok:
  assumes inv: "rb_inv r" and ne: "buffer_len r \<noteq> 0"
    and n: "n = min sz (buffer_len r)" and out: "unat n \<le> length out"
    and split: "min n (rb_size r - buf_pos r (rb_tail r)) = min n (rb_size r - buf_pos r (rb_head r))"
  shows "\<exists>r'. buffer_remove r out sz = Inr (sint n, take (unat n) (rb_contents r) @ drop (unat n) out, r')
     \<and> rb_inv r' \<and> rb_size r' = rb_size r \<and> rb_contents r' = drop (unat n) (rb_contents r)"
proof -
  define d where "d = min n (rb_size r - buf_pos r (rb_tail r))"
  have h: "unat (buf_pos r (rb_head r)) < unat (rb_size r)"
    using rb_size_pos [OF inv] by (simp add: unat_buf_pos [OF inv])
  have ud: "unat d = min (unat n) (unat (rb_size r) - unat (buf_pos r (rb_head r)))"
    using split h by (simp add: d_def unat_min_word unat_sub_if')
  then have sub: "unat (n - d) = unat n - unat d" by (simp add: unat_sub_if')
  have le: "n \<le> buffer_len r" by (simp add: n)
  have "\<not> buf_isEmpty r" using ne by (auto simp: buf_isEmpty_def buffer_len_def)
  then have "buffer_remove r out sz = Inr (sint n, take (unat n) (rb_contents r) @ drop (unat n) out,
      r\<lparr>rb_head := rb_head r + n\<rparr>)"
    using ring_read [OF inv _ out ud] le sub
    by (auto simp: buffer_remove_def Let_def word_le_nat_alt simp flip: n d_def)
  with advance_head [OF inv le] show ?thesis by simp
qed

section \<open>Searching\<close>

definition rb_linear :: "ringbuffer_s \<Rightarrow> bool" where
  "rb_linear r \<longleftrightarrow> unat (buf_pos r (rb_head r)) + unat (buffer_len r) \<le> unat (rb_size r)"

lemma linear_pos:
  assumes "rb_inv r" "rb_linear r" "i < unat (buffer_len r)"
  shows "(unat (rb_head r) + i) mod unat (rb_size r) = unat (buf_pos r (rb_head r)) + i"
proof -
  have "(unat (rb_head r) + i) mod unat (rb_size r) = (unat (buf_pos r (rb_head r)) + i) mod unat (rb_size r)"
    by (simp add: unat_buf_pos [OF assms(1)] mod_add_left_eq)
  with assms show ?thesis by (simp add: rb_linear_def)
qed

lemma linear_slice:
  assumes "rb_inv r" "rb_linear r" "i + n \<le> unat (buffer_len r)"
  shows "take n (drop (unat (buf_pos r (rb_head r)) + i) (rb_buf r)) = take n (drop i (rb_contents r))"
proof (rule nth_equalityI)
  have len: "length (rb_buf r) = unat (rb_size r)" using assms(1) by (simp add: rb_inv_def)
  then show "length (take n (drop (unat (buf_pos r (rb_head r)) + i) (rb_buf r)))
      = length (take n (drop i (rb_contents r)))"
    using assms by (simp add: rb_linear_def)
  fix j assume "j < length (take n (drop (unat (buf_pos r (rb_head r)) + i) (rb_buf r)))"
  then have "j < n" by simp
  with assms len linear_pos [of r "i + j"]
  show "take n (drop (unat (buf_pos r (rb_head r)) + i) (rb_buf r)) ! j = take n (drop i (rb_contents r)) ! j"
    by (simp add: rb_linear_def nth_rb_contents add.assoc)
qed

lemma search_step:
  assumes inv: "rb_inv r" and lin: "rb_linear r" and small: "unat (rb_size r) < 2 ^ 31"
    and data: "length data = unat len" and len: "0 < unat len" "unat len \<le> unat (buffer_len r)"
    and i: "i \<le> unat (buffer_len r) - unat len"
  shows "search_from r data len i =
    (if take (unat len) (drop i (rb_contents r)) = data then Inr (int (i + unat len))
     else search_from r data len (i + 1))"
proof -
  let ?l = "unat (buffer_len r)" and ?s = "unat (rb_size r)" and ?h = "unat (buf_pos r (rb_head r))"
  define pos where "pos = buf_pos r (rb_head r + word_of_nat i)"
  have ls: "?l \<le> ?s" using inv by (simp add: rb_inv_def word_le_nat_alt)
  then have i31: "i < 2 ^ 31" "i < ?l" using i len small by linarith+
  then have ui: "unat (word_of_nat i :: u32) = i" by (simp add: unat_of_nat)
  have "unat pos = ?h + i"
    using linear_pos [OF inv lin i31(2)]
    by (simp add: pos_def unat_buf_pos [OF inv] unat_add_mod_size [OF inv] ui)
  moreover have "?h + i + unat len \<le> ?s" using lin i len by (simp add: rb_linear_def)
  ultimately have pos: "unat pos = ?h + i" "unat pos + unat len \<le> ?s" by simp_all
  then have "unat (pos + len) = unat pos + unat len"
    using small by (simp add: unat_word_ariths)
  with pos have nowrap: "\<not> pos + len > rb_size r" by (simp add: word_less_nat_alt)
  have sint: "sint pos = int (unat pos)" "sint len = int (unat len)"
    using pos small by (intro sint_small; linarith)+
  have fits: "int_fits (sint pos + sint len)" "int_fits (int i + sint len)"
    using pos small int_fits_nat [of "unat pos + unat len"] int_fits_nat [of "i + unat len"]
    by (simp_all only: sint of_nat_add)
  have guard: "word_of_nat i \<le> buffer_len r - len"
    using i len by (simp add: word_le_nat_alt ui unat_sub_if')
  have "memcmp_eq (rb_buf r) (unat pos) data 0 (unat len)
      = Inr (take (unat len) (drop i (rb_contents r)) = data)"
    using pos data inv linear_slice [OF inv lin, of i "unat len"] i len
    by (simp add: memcmp_eq_ok rb_inv_def)
  moreover have "add_int (int i) (sint len) = Inr (int (i + unat len))"
    using fits(2) by (simp add: add_int_ok sint)
  ultimately show ?thesis
    using i31 guard fits nowrap
    by (subst search_from.simps) (simp add: Let_def flip: pos_def)
qed

lemma search_from_ok:
  assumes "rb_inv r" "rb_linear r" "unat (rb_size r) < 2 ^ 31" "length data = unat len"
    "0 < unat len" "unat len \<le> unat (buffer_len r)" "i \<le> Suc (unat (buffer_len r) - unat len)"
  shows "search_from r data len i = Inr (first_match_end (rb_contents r) data i)"
  using assms(7)
proof (induction i rule: inc_induct)
  case base
  let ?i = "Suc (unat (buffer_len r) - unat len)"
  have "unat (buffer_len r) \<le> unat (rb_size r)"
    using assms(1) by (simp add: rb_inv_def word_le_nat_alt)
  then have "?i < 2 ^ 31" using assms(3,5,6) by linarith
  then have "unat (word_of_nat ?i :: u32) = ?i" by (simp add: unat_of_nat del: of_nat_Suc)
  moreover have "unat (buffer_len r - len) = unat (buffer_len r) - unat len"
    using assms(6) by (simp add: unat_sub_if')
  ultimately have "\<not> (word_of_nat ?i :: u32) \<le> buffer_len r - len"
    by (simp add: word_le_nat_alt del: of_nat_Suc)
  with \<open>?i < 2 ^ 31\<close> show ?case
    by (subst search_from.simps) (simp add: first_match_end_stop assms(4))
next
  case (step i)
  then show ?case
    using search_step [OF assms(1-6), of i] first_match_end_step [of i "rb_contents r" data] assms(4)
    by simp
qed

section \<open>The ring buffer as a byte stream\<close>

definition rb_put :: "ringbuffer_s \<Rightarrow> u8 list \<Rightarrow> ringbuffer_s res" where
  "rb_put r xs =
     (case buffer_add r xs (word_of_nat (length xs)) of
        Inl e \<Rightarrow> Inl e
      | Inr (c, r') \<Rightarrow> if c = 0 then Inr r' else Inl AssertFail)"

definition rb_drop :: "ringbuffer_s \<Rightarrow> nat \<Rightarrow> ringbuffer_s res" where
  "rb_drop r n = Inr (snd (buffer_delete r (word_of_nat n)))"

lemma unat_size_word: "n \<le> unat (x::u32) \<Longrightarrow> unat (word_of_nat n :: u32) = n"
proof -
  assume "n \<le> unat x"
  moreover have "unat x < 2 ^ 32" using unsigned_less [of x] by simp
  ultimately have "n < 2 ^ 32" by (rule le_less_trans)
  then show ?thesis by (simp add: unat_of_nat)
qed

interpretation ring: byte_stream rb_inv rb_contents "\<lambda>r. unat (rb_size r)" rb_put rb_drop
proof (unfold_locales, goal_cases)
  case (1 r)
  then show ?case by (simp add: rb_inv_def word_le_nat_alt)
next
  case (2 r xs)
  then have "unat (word_of_nat (length xs) :: u32) = length xs"
    by (intro unat_size_word [of _ "rb_size r"]) simp
  with 2 buffer_add_ok [of r xs "word_of_nat (length xs)"] show ?case
    by (auto simp: rb_put_def)
next
  case (3 r n)
  then have "unat (word_of_nat n :: u32) = n"
    by (intro unat_size_word [of _ "buffer_len r"]) simp
  with 3 buffer_delete_ok [of r "word_of_nat n"] show ?case
    by (simp add: rb_drop_def)
qed

section \<open>Properties\<close>

text \<open>A ring of four bytes whose indices are about to wrap around their 32 bits.\<close>

definition wrapping_ring :: ringbuffer_s where
  "wrapping_ring = \<lparr>rb_size = 4, rb_tail = 1, rb_head = - 2, rb_buf = [30, 0, 10, 20], rb_inline = True\<rparr>"

lemmas ring_eval = wrapping_ring_def rb_inv_def is_pow_of_two_def buffer_len_def buf_pos_def

text \<open>
  C1: a client of the ring buffer that only adds blocks that fit and deletes bytes that are
  there never meets a fault or a refusal, and at every point the ring holds exactly the bytes
  added so far, in order, less those deleted, however often the 32-bit indices and the
  positions in the storage wrap around.
\<close>

theorem ring_stream:
  assumes "rb_inv r" and "stream_fits (unat (rb_size r)) (unat (buffer_len r)) ops"
  shows "\<exists>r'. stream_run rb_put rb_drop r ops = Inr r' \<and> rb_inv r' \<and> rb_size r' = rb_size r
    \<and> rb_contents r' = drop (dropped ops) (rb_contents r @ put_bytes ops)"
  using ring.run_contents [OF assms(1)] assms(2) by (auto simp: word_unat_eq_iff)

theorem ring_stream_witness:
  "\<exists>r'. stream_run rb_put rb_drop wrapping_ring [Drop 2, Put [40, 50, 60], Drop 1] = Inr r'
    \<and> rb_inv r' \<and> rb_size r' = rb_size wrapping_ring
    \<and> rb_contents r' = drop 3 (rb_contents wrapping_ring @ [40, 50, 60])"
  using ring_stream [of wrapping_ring "[Drop 2, Put [40, 50, 60], Drop 1]"]
  by (simp add: ring_eval)

text \<open>
  \<open>buffer_add\<close> of a block of \<open>sz\<close> bytes returns 0 with the block appended when it
  fits into the free space, and otherwise -1 with the ring unchanged; it never writes outside
  the storage.
\<close>

theorem buffer_add_spec:
  assumes "rb_inv r" and "length data = unat sz"
  shows "if unat (buffer_len r) + unat sz \<le> unat (rb_size r)
    then \<exists>r'. buffer_add r data sz = Inr (0, r') \<and> rb_inv r' \<and> rb_contents r' = rb_contents r @ data
    else buffer_add r data sz = Inr (-1, r)"
  using buffer_add_ok [OF assms] buffer_add_rejects [OF assms(1)] by auto

theorem buffer_add_spec_witness:
  "\<exists>r'. buffer_add wrapping_ring [40] 1 = Inr (0, r') \<and> rb_inv r'
    \<and> rb_contents r' = rb_contents wrapping_ring @ [40]"
  using buffer_add_spec [of wrapping_ring "[40]" 1] by (simp add: ring_eval)

text \<open>
  C2: \<open>buffer_remove\<close> hands out the oldest \<open>min sz len\<close> bytes, in order, and leaves the
  rest, whenever the length of the first copy, which the code computes from the tail position,
  is the one the head position gives. In that case the reads stay inside the storage.
\<close>

theorem buffer_remove_spec:
  assumes "rb_inv r" and "buffer_len r \<noteq> 0" and "n = min sz (buffer_len r)"
    and "unat n \<le> length out"
    and "min n (rb_size r - buf_pos r (rb_tail r)) = min n (rb_size r - buf_pos r (rb_head r))"
  shows "\<exists>r'. buffer_remove r out sz = Inr (sint n, take (unat n) (rb_contents r) @ drop (unat n) out, r')
    \<and> rb_inv r' \<and> rb_contents r' = drop (unat n) (rb_contents r)"
  using buffer_remove_ok [OF assms] by auto

theorem buffer_remove_spec_witness:
  "\<exists>r'. buffer_remove wrapping_ring [0, 0, 0] 2
      = Inr (sint (2::u32), take 2 (rb_contents wrapping_ring) @ [0], r')
    \<and> rb_inv r' \<and> rb_contents r' = drop 2 (rb_contents wrapping_ring)"
  using buffer_remove_spec [of wrapping_ring 2 2 "[0, 0, 0]"] by (simp add: ring_eval min_def)

text \<open>
  C3: on a ring whose bytes do not straddle the end of the storage, of a size below 2 ^ 31, and for a
  pattern that is neither empty nor longer than the stored bytes, \<open>buffer_search\<close> returns the end of the first
  occurrence of the pattern in the stored bytes, counted from the head, and 0 when there is none. The end,
  \<open>i + len\<close>, is what the code returns; the comment in \<open>ringbuffer.h\<close> promises the start
  (\<open>buffer_search_not_start\<close> below). For a longer pattern the bound of the loop wraps around and bytes that are not
  stored are searched (\<open>buffer_search_stale\<close>).
\<close>

theorem buffer_search_spec:
  assumes "rb_inv r" and "rb_linear r" and "unat (rb_size r) < 2 ^ 31"
    and "length data = unat len" and "0 < unat len" and "unat len \<le> unat (buffer_len r)"
  shows "buffer_search r data len = Inr (first_match_end (rb_contents r) data 0)"
  using search_from_ok [OF assms] by (simp add: buffer_search_def)

definition linear_ring :: ringbuffer_s where
  "linear_ring = \<lparr>rb_size = 8, rb_tail = 7, rb_head = 1, rb_buf = [0, 65, 13, 66, 13, 10, 67, 0], rb_inline = True\<rparr>"

lemma linear_ring_contents: "rb_contents linear_ring = [65, 13, 66, 13, 10, 67]"
  by (simp add: rb_contents_def linear_ring_def buffer_len_def upt_rec)

theorem buffer_search_spec_witness: "buffer_search linear_ring [13, 10] 2 = Inr 5"
proof -
  have "buffer_search linear_ring [13, 10] 2 = Inr (first_match_end (rb_contents linear_ring) [13, 10] 0)"
    by (rule buffer_search_spec)
      (simp_all add: rb_linear_def linear_ring_def rb_inv_def is_pow_of_two_def buffer_len_def buf_pos_def)
  also have "first_match_end (rb_contents linear_ring) [13, 10] 0 = 5"
    unfolding linear_ring_contents by (simp add: first_match_end_def upt_rec)
  finally show ?thesis .
qed

section \<open>Where the code departs from its purpose\<close>

text \<open>\<open>roundup_pow_of_two\<close> returns 2 for every argument: the counted bits are not used.\<close>

lemma roundup_is_two: "roundup_pow_of_two x = 2"
  by (simp add: roundup_pow_of_two_def Let_def push_bit_eq_mult)

lemma buffer_new_size:
  assumes "length mem = unat (if is_pow_of_two sz then sz else 2)"
  shows "\<exists>r. buffer_new (\<lambda>_. Some mem) sz = Inr r \<and> rb_inv r \<and> rb_contents r = []
    \<and> rb_size r = (if is_pow_of_two sz then sz else 2)"
  using assms
  by (auto simp: buffer_new_def Let_def roundup_is_two rb_inv_def buffer_len_def rb_contents_def
      is_pow_of_two_def)

text \<open>
  The first copy of \<open>buffer_remove\<close> is cut at the tail instead of the head: three bytes
  added to an empty ring of four come back as their first byte and its repetition.
\<close>

lemma buffer_remove_misreads:
  "\<exists>r r'. rb_inv r \<and> rb_contents r = [1, 2, 3]
     \<and> buffer_remove r [0, 0, 0] 3 = Inr (3, [1, 1, 2], r')"
proof (intro exI conjI)
  let ?r = "\<lparr>rb_size = 4, rb_tail = 3, rb_head = 0, rb_buf = [1, 2, 3, 0], rb_inline = True\<rparr>"
  show "rb_inv ?r" by (simp add: rb_inv_def is_pow_of_two_def buffer_len_def)
  show "rb_contents ?r = [1, 2, 3]" by (simp add: rb_contents_def buffer_len_def upt_rec)
  show "buffer_remove ?r [0, 0, 0] 3 = Inr (3, [1, 1, 2], ?r\<lparr>rb_head := 3\<rparr>)"
    by (simp add: buffer_remove_def buf_isEmpty_def buffer_len_def buf_pos_def memcpy_def Let_def min_def
        word_le_nat_alt)
qed

text \<open>
  When the pattern straddles the end of the storage and its first part differs, the search
  gives up, although the pattern may still follow.
\<close>

lemma buffer_search_misses:
  "\<exists>r. rb_inv r \<and> rb_contents r = [9, 1, 2] \<and> buffer_search r [1, 2] 2 = Inr 0"
proof (intro exI conjI)
  let ?r = "\<lparr>rb_size = 4, rb_tail = 6, rb_head = 3, rb_buf = [1, 2, 0, 9], rb_inline = True\<rparr>"
  show "rb_inv ?r" by (simp add: rb_inv_def is_pow_of_two_def buffer_len_def)
  show "rb_contents ?r = [9, 1, 2]" by (simp add: rb_contents_def buffer_len_def upt_rec)
  show "buffer_search ?r [1, 2] 2 = Inr 0"
    by (simp add: buffer_search_def search_from.simps buf_pos_def buffer_len_def memcmp_eq_def
        int_fits_def Let_def)
qed

text \<open>The only occurrence of the pattern starts at index 3, and 5 is returned.\<close>

lemma buffer_search_not_start:
  "buffer_search linear_ring [13, 10] 2 = Inr 5"
  "i + 2 \<le> length (rb_contents linear_ring) \<Longrightarrow> take 2 (drop i (rb_contents linear_ring)) = [13, 10] \<longleftrightarrow> i = 3"
proof -
  show "buffer_search linear_ring [13, 10] 2 = Inr 5"
    by (simp add: buffer_search_def search_from.simps linear_ring_def buf_pos_def buffer_len_def memcmp_eq_def
        int_fits_def add_int_def Let_def)
  assume "i + 2 \<le> length (rb_contents linear_ring)"
  then have "i \<in> {0, 1, 2, 3, 4}" by (auto simp: linear_ring_contents)
  then show "take 2 (drop i (rb_contents linear_ring)) = [13, 10] \<longleftrightarrow> i = 3"
    by (auto simp: linear_ring_contents)
qed

text \<open>An empty ring: the bound \<open>buffer_len(r) - len\<close> wraps around, and a byte that was deleted long ago is found.\<close>

lemma buffer_search_stale:
  "\<exists>r. rb_inv r \<and> rb_contents r = [] \<and> buffer_search r [7] 1 = Inr 1"
proof (intro exI conjI)
  let ?r = "\<lparr>rb_size = 4, rb_tail = 4, rb_head = 4, rb_buf = [7, 8, 9, 0], rb_inline = True\<rparr>"
  show "rb_inv ?r" by (simp add: rb_inv_def is_pow_of_two_def buffer_len_def)
  show "rb_contents ?r = []" by (simp add: rb_contents_def buffer_len_def)
  show "buffer_search ?r [7] 1 = Inr 1"
    by (simp add: buffer_search_def search_from.simps buf_pos_def buffer_len_def memcmp_eq_def
        int_fits_def add_int_def Let_def)
qed

text \<open>
  On wrapped contents \<open>buffer_write_atomost\<close> frees the interior pointer that
  \<open>buffer_new\<close> stored: no wrapped ring made by \<open>buffer_new\<close> survives it.
\<close>

lemma buffer_write_atomost_wrapped:
  assumes "rb_inline r" and "buf_pos r (rb_tail r) < buf_pos r (rb_head r)"
  shows "\<not> returns (buffer_write_atomost alloc r)"
  using assms by (auto simp: buffer_write_atomost_def Let_def split: option.splits sum.splits)

end
