(* ===== verification/ChainBuffer.thy ===== *)
theory ChainBuffer
  imports Prelude
begin

unbundle bit_operations_syntax

text \<open>
  The chain buffer of \<^verbatim>\<open>Network_Buffer_Design/ChainBuffer/chainbuffer.c\<close>: a list of
  blocks linked by \<open>next\<close>, each with bytes from \<open>misalign\<close> on. The blocks live in a map from
  addresses, since the buffer points to them from \<open>head\<close>, \<open>tail\<close> and, through a pointer to a
  pointer, \<open>last_with_data\<close>. An access to an address that holds nothing is \<open>UseAfterFree\<close>.

  A loop along \<open>next\<close> has fuel for one step more than there were calls of \<open>malloc\<close>; without a
  cycle there are fewer blocks than that, so \<open>None\<close> means that the links form a cycle.
\<close>

section \<open>The data\<close>

record buf_chain_s =
  ch_next :: "nat option"
  ch_buffer_len :: u32
  ch_misalign :: u32
  ch_offset :: u32
  ch_buffer :: "u8 list"

text \<open>What a \<open>buf_chain_t **\<close> points to: the field \<open>head\<close> of the buffer or the field \<open>next\<close> of a block.\<close>

datatype chain_slot = HeadSlot | NextSlot nat

record buffer_s =
  b_head :: "nat option"
  b_tail :: "nat option"
  b_last_with_data :: "chain_slot option"
  b_total_len :: u32
  b_last_read_pos :: u32

text \<open>
  The buffer with the memory: the blocks, which requests \<open>malloc\<close> grants (by their number and size),
  the bytes it leaves in a block, and how many requests there were. The address of a block is the
  number of its request.
\<close>

record chain_state =
  buf :: buffer_s
  chains :: "nat \<Rightarrow> buf_chain_s option"
  grants :: "nat \<Rightarrow> nat \<Rightarrow> bool"
  garbage :: "nat \<Rightarrow> nat \<Rightarrow> u8"
  mallocs :: nat

definition chain_fuel :: "chain_state \<Rightarrow> nat" where
  "chain_fuel s = Suc (mallocs s)"

definition deref_ptr :: "'a option \<Rightarrow> 'a res" where
  "deref_ptr p = (case p of None \<Rightarrow> Inl NullDeref | Some a \<Rightarrow> Inr a)"

definition rd_chain :: "chain_state \<Rightarrow> nat \<Rightarrow> buf_chain_s res" where
  "rd_chain s a = (case chains s a of None \<Rightarrow> Inl UseAfterFree | Some c \<Rightarrow> Inr c)"

definition upd_chain :: "nat \<Rightarrow> (buf_chain_s \<Rightarrow> buf_chain_s) \<Rightarrow> chain_state \<Rightarrow> chain_state res" where
  "upd_chain a f s = bind_res (rd_chain s a) (\<lambda>c. Inr (s\<lparr>chains := (chains s)(a \<mapsto> f c)\<rparr>))"

definition free_chain :: "nat \<Rightarrow> chain_state \<Rightarrow> chain_state res" where
  "free_chain a s =
     (case chains s a of None \<Rightarrow> Inl InvalidFree | Some _ \<Rightarrow> Inr (s\<lparr>chains := (chains s)(a := None)\<rparr>))"

definition upd_buf :: "(buffer_s \<Rightarrow> buffer_s) \<Rightarrow> chain_state \<Rightarrow> chain_state" where
  "upd_buf f s = s\<lparr>buf := f (buf s)\<rparr>"

definition rd_slot :: "chain_state \<Rightarrow> chain_slot \<Rightarrow> nat option res" where
  "rd_slot s sl =
     (case sl of
        HeadSlot \<Rightarrow> Inr (b_head (buf s))
      | NextSlot a \<Rightarrow> bind_res (rd_chain s a) (\<lambda>c. Inr (ch_next c)))"

definition wr_slot :: "chain_slot \<Rightarrow> nat option \<Rightarrow> chain_state \<Rightarrow> chain_state res" where
  "wr_slot sl p s =
     (case sl of
        HeadSlot \<Rightarrow> Inr (upd_buf (\<lambda>b. b\<lparr>b_head := p\<rparr>) s)
      | NextSlot a \<Rightarrow> upd_chain a (\<lambda>c. c\<lparr>ch_next := p\<rparr>) s)"

text \<open>\<open>*buf->last_with_data\<close>\<close>

definition last_data :: "chain_state \<Rightarrow> nat option res" where
  "last_data s = bind_res (deref_ptr (b_last_with_data (buf s))) (rd_slot s)"

definition MIN_BUFFER_SIZE :: u32 where "MIN_BUFFER_SIZE = 1024"
definition BUFFER_CHAIN_MAX_AUTO_SIZE :: u32 where "BUFFER_CHAIN_MAX_AUTO_SIZE = 4096"
definition MAX_TO_REALIGN_IN_EXPAND :: u32 where "MAX_TO_REALIGN_IN_EXPAND = 2048"
definition BUFFER_CHAIN_MAX :: u32 where "BUFFER_CHAIN_MAX = 16 * 1024 * 1024"

text \<open>The size of the struct with 64-bit pointers.\<close>

definition BUFFER_CHAIN_SIZE :: u32 where "BUFFER_CHAIN_SIZE = 32"

section \<open>Making and freeing blocks\<close>

definition buffer_len :: "chain_state \<Rightarrow> u32" where
  "buffer_len s = b_total_len (buf s)"

definition buffer_new :: "bool \<Rightarrow> u32 \<Rightarrow> buffer_s option" where
  "buffer_new granted sz =
     (if granted then Some \<lparr>b_head = None, b_tail = None, b_last_with_data = None, b_total_len = 0, b_last_read_pos = 0\<rparr>
      else None)"

text \<open>
  The loop that doubles \<open>to_alloc\<close>: after 32 shifts it is zero and stays so, and the loop does not end.
\<close>

fun double_loop :: "nat \<Rightarrow> u32 \<Rightarrow> u32 \<Rightarrow> u32 option" where
  "double_loop 0 to_alloc sz = None"
| "double_loop (Suc k) to_alloc sz =
     (if to_alloc < sz then double_loop k (push_bit 1 to_alloc) sz else Some to_alloc)"

definition chain_malloc :: "u32 \<Rightarrow> chain_state \<Rightarrow> nat option \<times> chain_state" where
  "chain_malloc to_alloc s =
     (let a = mallocs s; s = s\<lparr>mallocs := a + 1\<rparr> in
      if grants s a (unat to_alloc) then
        (Some a, s\<lparr>chains := (chains s)(a \<mapsto>
           \<lparr>ch_next = None, ch_buffer_len = to_alloc - BUFFER_CHAIN_SIZE, ch_misalign = 0, ch_offset = 0,
            ch_buffer = map (garbage s a) [0..<unat (to_alloc - BUFFER_CHAIN_SIZE)]\<rparr>)\<rparr>)
      else (None, s))"

definition buf_chain_new :: "u32 \<Rightarrow> chain_state \<Rightarrow> (nat option \<times> chain_state) option" where
  "buf_chain_new sz s =
     (if sz > BUFFER_CHAIN_MAX - BUFFER_CHAIN_SIZE then Some (None, s)
      else
        let sz = sz + BUFFER_CHAIN_SIZE in
        case (if sz < BUFFER_CHAIN_MAX div 2 then double_loop 33 MIN_BUFFER_SIZE sz else Some sz) of
          None \<Rightarrow> None
        | Some to_alloc \<Rightarrow> Some (chain_malloc to_alloc s))"

fun buf_chain_free_all :: "nat \<Rightarrow> nat option \<Rightarrow> chain_state \<Rightarrow> chain_state res option" where
  "buf_chain_free_all 0 p s = None"
| "buf_chain_free_all (Suc k) None s = ret s"
| "buf_chain_free_all (Suc k) (Some a) s =
     bind_run (Some (rd_chain s a)) (\<lambda>c.
     bind_run (Some (free_chain a s)) (\<lambda>s.
     buf_chain_free_all k (ch_next c) s))"

text \<open>The struct of the buffer itself is not freed.\<close>

definition buffer_free :: "chain_state \<Rightarrow> chain_state res option" where
  "buffer_free s = buf_chain_free_all (chain_fuel s) (b_head (buf s)) s"

section \<open>Inserting blocks\<close>

fun empty_slot :: "nat \<Rightarrow> chain_slot \<Rightarrow> chain_state \<Rightarrow> chain_slot res option" where
  "empty_slot 0 sl s = None"
| "empty_slot (Suc k) sl s =
     bind_run (Some (rd_slot s sl)) (\<lambda>p.
     case p of
       None \<Rightarrow> ret sl
     | Some a \<Rightarrow>
         bind_run (Some (rd_chain s a)) (\<lambda>c.
         if ch_offset c \<noteq> 0 then empty_slot k (NextSlot a) s else ret sl))"

definition free_empty_chains :: "chain_state \<Rightarrow> (chain_slot \<times> chain_state) res option" where
  "free_empty_chains s =
     bind_run (Some (deref_ptr (b_last_with_data (buf s)))) (\<lambda>sl.
     bind_run (empty_slot (chain_fuel s) sl s) (\<lambda>ch.
     bind_run (Some (rd_slot s ch)) (\<lambda>p.
     if p \<noteq> None then
       bind_run (buf_chain_free_all (chain_fuel s) p s) (\<lambda>s.
       bind_run (Some (wr_slot ch None s)) (\<lambda>s.
       ret (ch, s)))
     else ret (ch, s))))"

definition buf_chain_insert :: "nat \<Rightarrow> chain_state \<Rightarrow> chain_state res option" where
  "buf_chain_insert chain s =
     bind_run (Some (last_data s)) (\<lambda>p.
     bind_run
       (if p = None then ret (upd_buf (\<lambda>b. b\<lparr>b_head := Some chain, b_tail := Some chain\<rparr>) s)
        else
          bind_run (free_empty_chains s) (\<lambda>(ch, s).
          bind_run (Some (wr_slot ch (Some chain) s)) (\<lambda>s.
          bind_run (Some (rd_chain s chain)) (\<lambda>c.
          let s = (if ch_offset c \<noteq> 0 then upd_buf (\<lambda>b. b\<lparr>b_last_with_data := Some ch\<rparr>) s else s)
          in ret (upd_buf (\<lambda>b. b\<lparr>b_tail := Some chain\<rparr>) s))))) (\<lambda>s.
     bind_run (Some (rd_chain s chain)) (\<lambda>c.
     ret (upd_buf (\<lambda>b. b\<lparr>b_total_len := b_total_len b + ch_offset c\<rparr>) s))))"

definition buf_chain_insert_new :: "u32 \<Rightarrow> chain_state \<Rightarrow> (nat option \<times> chain_state) res option" where
  "buf_chain_insert_new len s =
     (case buf_chain_new len s of
        None \<Rightarrow> None
      | Some (None, s) \<Rightarrow> ret (None, s)
      | Some (Some a, s) \<Rightarrow> bind_run (buf_chain_insert a s) (\<lambda>s. ret (Some a, s)))"

section \<open>Adding\<close>

definition buf_chain_should_realign :: "buf_chain_s \<Rightarrow> u32 \<Rightarrow> bool" where
  "buf_chain_should_realign c len \<longleftrightarrow>
     ch_buffer_len c - ch_offset c \<ge> len \<and> ch_offset c < ch_buffer_len c div 2 \<and>
     ch_offset c \<le> MAX_TO_REALIGN_IN_EXPAND"

text \<open>\<open>memmove\<close> within the block.\<close>

definition buf_chain_align :: "buf_chain_s \<Rightarrow> buf_chain_s res" where
  "buf_chain_align c =
     bind_res (memcpy (ch_buffer c) 0 (ch_buffer c) (unat (ch_misalign c)) (unat (ch_offset c))) (\<lambda>b.
     Inr (c\<lparr>ch_buffer := b, ch_misalign := 0\<rparr>))"

text \<open>Writing \<open>n\<close> bytes of \<open>data\<close> from \<open>from\<close> on behind the bytes of a block.\<close>

definition write_end :: "nat \<Rightarrow> u8 list \<Rightarrow> nat \<Rightarrow> u32 \<Rightarrow> chain_state \<Rightarrow> chain_state res" where
  "write_end a data start n s =
     bind_res (rd_chain s a) (\<lambda>c.
     bind_res (memcpy (ch_buffer c) (unat (ch_misalign c) + unat (ch_offset c)) data start (unat n)) (\<lambda>b.
     upd_chain a (\<lambda>c. c\<lparr>ch_buffer := b\<rparr>) s))"

definition add_total :: "u32 \<Rightarrow> chain_state \<Rightarrow> chain_state" where
  "add_total n = upd_buf (\<lambda>b. b\<lparr>b_total_len := b_total_len b + n\<rparr>)"

definition grow_offset :: "nat \<Rightarrow> u32 \<Rightarrow> chain_state \<Rightarrow> chain_state res" where
  "grow_offset a n = upd_chain a (\<lambda>c. c\<lparr>ch_offset := ch_offset c + n\<rparr>)"

text \<open>The size \<open>buffer_add\<close> asks for when it needs a further block.\<close>

definition spill_size :: "buf_chain_s \<Rightarrow> u32 \<Rightarrow> u32" where
  "spill_size c len =
     (let to_alloc = ch_buffer_len c;
          to_alloc = (if to_alloc \<le> BUFFER_CHAIN_MAX_AUTO_SIZE div 2 then push_bit 1 to_alloc else to_alloc)
      in if len > to_alloc then len else to_alloc)"

text \<open>The end of \<open>buffer_add\<close>, when the block \<open>a\<close> has no space for all of the data.\<close>

definition add_spilling :: "nat \<Rightarrow> u32 \<Rightarrow> u8 list \<Rightarrow> u32 \<Rightarrow> chain_state \<Rightarrow> (int \<times> chain_state) res option" where
  "add_spilling a remain data len s =
     bind_run (Some (rd_chain s a)) (\<lambda>c.
     case buf_chain_new (spill_size c len) s of
          None \<Rightarrow> None
        | Some (None, s) \<Rightarrow> ret (-1, s)
        | Some (Some tmp, s) \<Rightarrow>
            bind_run
              (if remain \<noteq> 0 then
                 bind_run (Some (write_end a data 0 remain s)) (\<lambda>s.
                 bind_run (Some (grow_offset a remain s)) (\<lambda>s. ret (add_total remain s)))
               else ret s) (\<lambda>s.
            let len = len - remain in
            bind_run (Some (rd_chain s tmp)) (\<lambda>t.
            bind_run (Some (memcpy (ch_buffer t) 0 data (unat remain) (unat len))) (\<lambda>b.
            bind_run (Some (upd_chain tmp (\<lambda>t. t\<lparr>ch_buffer := b, ch_offset := len\<rparr>) s)) (\<lambda>s.
            bind_run (buf_chain_insert tmp s) (\<lambda>s.
            ret (-1, s)))))))"

text \<open>Adding with the block to start with.\<close>

definition add_at :: "nat \<Rightarrow> u8 list \<Rightarrow> u32 \<Rightarrow> chain_state \<Rightarrow> (int \<times> chain_state) res option" where
  "add_at a data len s =
     bind_run (Some (rd_chain s a)) (\<lambda>c.
     let remain = ch_buffer_len c - ch_misalign c - ch_offset c in
     if remain \<ge> len then
       bind_run (Some (write_end a data 0 len s)) (\<lambda>s.
       bind_run (Some (grow_offset a len s)) (\<lambda>s.
       ret (0, add_total len s)))
     else if buf_chain_should_realign c len then
       bind_run (Some (buf_chain_align c)) (\<lambda>c.
       bind_run (Some (upd_chain a (\<lambda>_. c) s)) (\<lambda>s.
       bind_run (Some (write_end a data 0 len s)) (\<lambda>s.
       ret (0, add_total len s))))
     else add_spilling a remain data len s)"

definition buffer_add :: "u8 list \<Rightarrow> u32 \<Rightarrow> chain_state \<Rightarrow> (int \<times> chain_state) res option" where
  "buffer_add data len s =
     (if len > BUFFER_CHAIN_MAX - b_total_len (buf s) then ret (-1, s)
      else
        bind_run (Some (last_data s)) (\<lambda>p.
        let chain = (case p of None \<Rightarrow> b_tail (buf s) | Some a \<Rightarrow> Some a) in
        bind_run (case chain of None \<Rightarrow> buf_chain_insert_new len s | Some a \<Rightarrow> ret (Some a, s)) (\<lambda>(chain, s).
        case chain of
          None \<Rightarrow> ret (-1, s)
        | Some a \<Rightarrow> add_at a data len s)))"

section \<open>Copying out and deleting\<close>

text \<open>The loop of \<open>buf_copyout\<close>: the block, the caller's bytes and the position in them.\<close>

fun copyout_loop :: "nat \<Rightarrow> chain_state \<Rightarrow> u32 \<Rightarrow> nat option \<Rightarrow> u8 list \<Rightarrow> nat \<Rightarrow>
  (nat option \<times> u8 list \<times> nat) res option" where
  "copyout_loop 0 s len chain data pos = None"
| "copyout_loop (Suc k) s len chain data pos =
     (if len = 0 then ret (chain, data, pos)
      else
        bind_run (Some (deref_ptr chain)) (\<lambda>a.
        bind_run (Some (rd_chain s a)) (\<lambda>c.
        if len \<ge> ch_offset c then
          bind_run (Some (memcpy data pos (ch_buffer c) (unat (ch_misalign c)) (unat (ch_offset c)))) (\<lambda>data.
          copyout_loop k s len (ch_next c) data (pos + unat (ch_offset c)))
        else ret (chain, data, pos))))"

definition buf_copyout :: "u8 list \<Rightarrow> u32 \<Rightarrow> chain_state \<Rightarrow> (u32 \<times> u8 list) res option" where
  "buf_copyout data len s =
     (let len = (if len > b_total_len (buf s) then b_total_len (buf s) else len) in
      if len = 0 then ret (0, data)
      else
        bind_run (copyout_loop (chain_fuel s) s len (b_head (buf s)) data 0) (\<lambda>(chain, data, pos).
        bind_run (Some (deref_ptr chain)) (\<lambda>a.
        bind_run (Some (rd_chain s a)) (\<lambda>c.
        bind_run (Some (memcpy data pos (ch_buffer c) (unat (ch_misalign c)) (unat len))) (\<lambda>data.
        ret (len, data))))))"

definition ZERO_CHAIN :: "chain_state \<Rightarrow> chain_state" where
  "ZERO_CHAIN = upd_buf (\<lambda>b. b\<lparr>b_head := None, b_tail := None, b_last_with_data := Some HeadSlot, b_total_len := 0\<rparr>)"

text \<open>The loop of \<open>buffer_delete\<close> that frees the blocks that are used up.\<close>

fun delete_loop :: "nat \<Rightarrow> nat option \<Rightarrow> u32 \<Rightarrow> chain_state \<Rightarrow> (nat \<times> u32 \<times> chain_state) res option" where
  "delete_loop 0 chain remaining s = None"
| "delete_loop (Suc k) chain remaining s =
     bind_run (Some (deref_ptr chain)) (\<lambda>a.
     bind_run (Some (rd_chain s a)) (\<lambda>c.
     if remaining \<ge> ch_offset c then
       bind_run (Some (last_data s)) (\<lambda>p.
       let s = (if p = Some a then upd_buf (\<lambda>b. b\<lparr>b_last_with_data := Some HeadSlot\<rparr>) s else s);
           s = (if b_last_with_data (buf s) = Some (NextSlot a)
                then upd_buf (\<lambda>b. b\<lparr>b_last_with_data := Some HeadSlot\<rparr>) s else s) in
       bind_run (Some (free_chain a s)) (\<lambda>s.
       delete_loop k (ch_next c) (remaining - ch_offset c) s))
     else ret (a, remaining, s)))"

definition buffer_delete :: "u32 \<Rightarrow> chain_state \<Rightarrow> (int \<times> chain_state) res option" where
  "buffer_delete len s =
     (let old_len = b_total_len (buf s) in
      if old_len = 0 then ret (0, s)
      else if len \<ge> old_len then
        bind_run (buf_chain_free_all (chain_fuel s) (b_head (buf s)) s) (\<lambda>s.
        ret (sint old_len, ZERO_CHAIN s))
      else
        let s = upd_buf (\<lambda>b. b\<lparr>b_total_len := b_total_len b - len\<rparr>) s in
        bind_run (delete_loop (chain_fuel s) (b_head (buf s)) len s) (\<lambda>(a, remaining, s).
        let s = upd_buf (\<lambda>b. b\<lparr>b_head := Some a\<rparr>) s in
        bind_run
          (Some (upd_chain a (\<lambda>c. c\<lparr>ch_misalign := ch_misalign c + remaining, ch_offset := ch_offset c - remaining\<rparr>) s)) (\<lambda>s.
        ret (sint len, s))))"

definition buffer_remove :: "u8 list \<Rightarrow> u32 \<Rightarrow> chain_state \<Rightarrow> (int \<times> u8 list \<times> chain_state) res option" where
  "buffer_remove data len s =
     bind_run (buf_copyout data len s) (\<lambda>(n, data).
     if n > 0 then
       bind_run (buffer_delete n s) (\<lambda>(r, s).
       ret (sint (if r < 0 then -1 else n), data, s))
     else ret (sint n, data, s))"

section \<open>Searching\<close>

text \<open>\<open>memcmp(chain->buffer + chain->misalign + from, sep + off, n) == 0\<close>\<close>

definition cmp_at :: "buf_chain_s \<Rightarrow> int \<Rightarrow> u8 list \<Rightarrow> int \<Rightarrow> int \<Rightarrow> bool res" where
  "cmp_at c start sep off n =
     (let p = uint (ch_misalign c) + start in
      if p < 0 \<or> off < 0 \<or> n < 0 then Inl OutOfBounds
      else memcmp_eq (ch_buffer c) (nat p) sep (nat off) (nat n))"

fun check_sep :: "nat \<Rightarrow> chain_state \<Rightarrow> nat option \<Rightarrow> int \<Rightarrow> u8 list \<Rightarrow> int \<Rightarrow> int \<Rightarrow> bool res option" where
  "check_sep 0 s chain start sep off len = None"
| "check_sep (Suc k) s chain start sep off len =
     bind_run (Some (deref_ptr chain)) (\<lambda>a.
     bind_run (Some (rd_chain s a)) (\<lambda>c.
     let sz = sint (ch_offset c - word_of_int start) in
     if sz \<ge> len then Some (cmp_at c start sep off len)
     else
       bind_run (if sz > 0 then Some (cmp_at c start sep off sz) else ret True) (\<lambda>same.
       if \<not> same then ret False
       else check_sep k s (ch_next c) 0 sep (off + sz) (len - sz))))"

text \<open>The loop that finds the block of \<open>last_read_pos\<close>, with the bytes up to the end of the block.\<close>

fun skip_loop :: "nat \<Rightarrow> chain_state \<Rightarrow> nat \<Rightarrow> u32 \<Rightarrow> (nat \<times> u32) option res option" where
  "skip_loop 0 s a bytes = None"
| "skip_loop (Suc k) s a bytes =
     (if bytes \<le> b_last_read_pos (buf s) then
        bind_run (Some (rd_chain s a)) (\<lambda>c.
        case ch_next c of
          None \<Rightarrow> ret None
        | Some b \<Rightarrow> bind_run (Some (rd_chain s b)) (\<lambda>d. skip_loop k s b (bytes + ch_offset d)))
      else ret (Some (a, bytes)))"

text \<open>
  The loop over the positions, with the \<open>int\<close>s of the code; it gives the result and the new
  \<open>last_read_pos\<close>.
\<close>

function search_loop :: "chain_state \<Rightarrow> u8 list \<Rightarrow> int \<Rightarrow> nat \<Rightarrow> int \<Rightarrow> int \<Rightarrow> int \<Rightarrow> (int \<times> u32) res option" where
  "search_loop s sep seplen a start bytes i =
     (if word_of_int i \<le> b_total_len (buf s) - word_of_int seplen then
        bind_run (check_sep (chain_fuel s) s (Some a) start sep 0 seplen) (\<lambda>found.
        if found then bind_run (Some (add_int i seplen)) (\<lambda>r. ret (r, 0))
        else
          bind_run (Some (add_int start 1)) (\<lambda>start.
          bind_run (Some (add_int bytes (-1))) (\<lambda>bytes.
          if bytes = 0 then
            bind_run (Some (rd_chain s a)) (\<lambda>c.
            case ch_next c of
              None \<Rightarrow> ret (0, word_of_int i)
            | Some b \<Rightarrow>
                bind_run (Some (rd_chain s b)) (\<lambda>d.
                if \<not> int_fits (i + 1) then Some (Inl SignedOverflow)
                else search_loop s sep seplen b 0 (sint (ch_offset d)) (i + 1)))
          else if \<not> int_fits (i + 1) then Some (Inl SignedOverflow)
          else search_loop s sep seplen a start bytes (i + 1))))
      else ret (0, word_of_int i))"
  by pat_completeness auto
termination
  by (relation "measure (\<lambda>(s, sep, seplen, a, start, bytes, i). nat (2 ^ 31 - i))") (auto simp: int_fits_def)

declare search_loop.simps [simp del]

definition buffer_search :: "u8 list \<Rightarrow> int \<Rightarrow> chain_state \<Rightarrow> (int \<times> chain_state) res option" where
  "buffer_search sep seplen s =
     (case b_head (buf s) of
        None \<Rightarrow> ret (0, s)
      | Some a \<Rightarrow>
          bind_run (Some (rd_chain s a)) (\<lambda>c.
          bind_run (skip_loop (chain_fuel s) s a (ch_offset c)) (\<lambda>found.
          case found of
            None \<Rightarrow> ret (0, s)
          | Some (a, bytes) \<Rightarrow>
              bind_run (Some (rd_chain s a)) (\<lambda>c.
              let bytes = bytes - b_last_read_pos (buf s); start = ch_offset c - bytes in
              bind_run
                (search_loop s sep seplen a (sint start) (sint bytes) (sint (b_last_read_pos (buf s)))) (\<lambda>(r, pos).
              ret (r, upd_buf (\<lambda>b. b\<lparr>b_last_read_pos := pos\<rparr>) s))))))"

section \<open>One block for all data\<close>

text \<open>The first loop of \<open>buffer_write_atmost\<close>; what it finds is not used.\<close>

fun scan_loop :: "nat \<Rightarrow> chain_state \<Rightarrow> nat option \<Rightarrow> u32 \<Rightarrow> unit res option" where
  "scan_loop 0 s p remaining = None"
| "scan_loop (Suc k) s None remaining = ret ()"
| "scan_loop (Suc k) s (Some a) remaining =
     bind_run (Some (rd_chain s a)) (\<lambda>c.
     if ch_offset c \<ge> remaining then ret ()
     else scan_loop k s (ch_next c) (remaining - ch_offset c))"

text \<open>\<open>memcpy\<close> of bytes of one block to a position in the block \<open>tmp\<close>.\<close>

definition copy_to :: "nat \<Rightarrow> nat \<Rightarrow> nat \<Rightarrow> u32 \<Rightarrow> chain_state \<Rightarrow> chain_state res" where
  "copy_to tmp pos a n s =
     bind_res (rd_chain s a) (\<lambda>c.
     bind_res (rd_chain s tmp) (\<lambda>t.
     bind_res (memcpy (ch_buffer t) pos (ch_buffer c) (unat (ch_misalign c)) (unat n)) (\<lambda>b.
     upd_chain tmp (\<lambda>t. t\<lparr>ch_buffer := b\<rparr>) s)))"

text \<open>
  The loop that moves whole blocks: the next block, the bytes still to be moved, the position in
  \<open>tmp\<close> and whether the block \<open>lwd\<close> was freed.
\<close>

fun merge_loop :: "nat \<Rightarrow> nat \<Rightarrow> nat option \<Rightarrow> nat option \<Rightarrow> u32 \<Rightarrow> nat \<Rightarrow> bool \<Rightarrow> chain_state \<Rightarrow>
  (nat option \<times> u32 \<times> nat \<times> bool \<times> chain_state) res option" where
  "merge_loop 0 tmp lwd chain sz pos removed s = None"
| "merge_loop (Suc k) tmp lwd None sz pos removed s = ret (None, sz, pos, removed, s)"
| "merge_loop (Suc k) tmp lwd (Some a) sz pos removed s =
     bind_run (Some (rd_chain s a)) (\<lambda>c.
     if sz \<ge> ch_offset c then
       bind_run (Some (copy_to tmp pos a (ch_offset c) s)) (\<lambda>s.
       bind_run (Some (free_chain a s)) (\<lambda>s.
       merge_loop k tmp lwd (ch_next c) (sz - ch_offset c) (pos + unat (ch_offset c)) (removed \<or> lwd = Some a) s))
     else ret (Some a, sz, pos, removed, s))"

text \<open>
  The second half: \<open>tmp\<close> gets the data from the position on. The branch for
  \<open>removed_last_with_datap\<close> tests \<open>removed_last_with_data\<close> again and is never taken.
\<close>

definition gather :: "nat \<Rightarrow> nat option \<Rightarrow> u32 \<Rightarrow> nat \<Rightarrow> chain_state \<Rightarrow> ((nat \<times> u32) option \<times> chain_state) res option" where
  "gather tmp chain sz pos s =
     bind_run (Some (last_data s)) (\<lambda>lwd.
     bind_run (merge_loop (chain_fuel s) tmp lwd chain sz pos False s) (\<lambda>(chain, sz, pos, removed, s).
     bind_run
       (case chain of
          None \<Rightarrow> ret (upd_buf (\<lambda>b. b\<lparr>b_tail := Some tmp\<rparr>) s)
        | Some a \<Rightarrow>
            bind_run (Some (copy_to tmp pos a sz s)) (\<lambda>s.
            Some (upd_chain a (\<lambda>c. c\<lparr>ch_misalign := ch_misalign c + sz, ch_offset := ch_offset c - sz\<rparr>) s))) (\<lambda>s.
     bind_run (Some (upd_chain tmp (\<lambda>t. t\<lparr>ch_next := chain\<rparr>) s)) (\<lambda>s.
     let s = (if removed then upd_buf (\<lambda>b. b\<lparr>b_last_with_data := Some HeadSlot\<rparr>) s else s) in
     bind_run (Some (rd_chain s tmp)) (\<lambda>t.
     ret (Some (tmp, ch_misalign t), s))))))"

text \<open>The returned pointer is a block and the position of a byte in it, or null.\<close>

definition buffer_write_atmost :: "chain_state \<Rightarrow> ((nat \<times> u32) option \<times> chain_state) res option" where
  "buffer_write_atmost s =
     bind_run (Some (deref_ptr (b_head (buf s)))) (\<lambda>a.
     bind_run (Some (rd_chain s a)) (\<lambda>c.
     let sz = b_total_len (buf s) in
     if ch_offset c \<ge> sz then ret (Some (a, ch_misalign c), s)
     else
       bind_run (scan_loop (chain_fuel s) s (ch_next c) (sz - ch_offset c)) (\<lambda>_.
       if ch_buffer_len c - ch_misalign c \<ge> sz then
         bind_run (Some (upd_chain a (\<lambda>c. c\<lparr>ch_offset := sz\<rparr>) s)) (\<lambda>s.
         gather a (ch_next c) (sz - ch_offset c) (unat (ch_misalign c) + unat (ch_offset c)) s)
       else
         case buf_chain_new sz s of
           None \<Rightarrow> None
         | Some (None, s) \<Rightarrow> ret (None, s)
         | Some (Some tmp, s) \<Rightarrow>
             bind_run (Some (upd_chain tmp (\<lambda>t. t\<lparr>ch_offset := sz\<rparr>) s)) (\<lambda>s.
             gather tmp (Some a) sz 0 (upd_buf (\<lambda>b. b\<lparr>b_head := Some tmp\<rparr>) s)))))"

end
