(* ===== verification/ChainBufferCorrect.thy ===== *)
theory ChainBufferCorrect
  imports ChainBuffer
begin

unbundle bit_operations_syntax

text \<open>
  Well-formed chain buffers and what making, adding, freeing, deleting and copying do to them. A
  well-formed buffer owns exactly the blocks of a list, linked in this order; its contents are the
  bytes of these blocks. The blocks are kept apart from the heap that holds them, so that the lemmas
  speak about lists.
\<close>

section \<open>Well-formed buffers\<close>

type_synonym block = "nat \<times> buf_chain_s"

fun linked :: "nat option \<Rightarrow> block list \<Rightarrow> bool" where
  "linked p [] \<longleftrightarrow> p = None"
| "linked p ((a, c) # cs) \<longleftrightarrow> p = Some a \<and> linked (ch_next c) cs"

definition chain_ok :: "buf_chain_s \<Rightarrow> bool" where
  "chain_ok c \<longleftrightarrow> length (ch_buffer c) = unat (ch_buffer_len c) \<and>
     unat (ch_misalign c) + unat (ch_offset c) \<le> unat (ch_buffer_len c) \<and>
     0 < unat (ch_buffer_len c) \<and> unat (ch_buffer_len c) \<le> 2 ^ 24 - 32 \<and>
     (ch_offset c = 0 \<longrightarrow> ch_misalign c = 0)"

definition chain_bytes :: "buf_chain_s \<Rightarrow> u8 list" where
  "chain_bytes c = take (unat (ch_offset c)) (drop (unat (ch_misalign c)) (ch_buffer c))"

definition contents :: "block list \<Rightarrow> u8 list" where
  "contents cs = concat (map (chain_bytes \<circ> snd) cs)"

definition last_slot :: "block list \<Rightarrow> chain_slot" where
  "last_slot cs = (if butlast cs = [] then HeadSlot else NextSlot (fst (last (butlast cs))))"

definition blocks_ok :: "nat \<Rightarrow> block list \<Rightarrow> bool" where
  "blocks_ok n cs \<longleftrightarrow> distinct (map fst cs) \<and> (\<forall>(a, c) \<in> set cs. a < n \<and> chain_ok c) \<and>
     (1 < length cs \<longrightarrow> (\<forall>(a, c) \<in> set cs. ch_offset c \<noteq> 0))"

text \<open>
  \<open>buffer_wf s cs\<close>: the memory of the buffer consists of the blocks \<open>cs\<close>, linked in this order; the
  last block is the one new data goes to.
\<close>

definition buffer_wf :: "chain_state \<Rightarrow> block list \<Rightarrow> bool" where
  "buffer_wf s cs \<longleftrightarrow> linked (b_head (buf s)) cs \<and> chains s = map_of cs \<and> blocks_ok (mallocs s) cs \<and>
     b_tail (buf s) = map_option fst (if cs = [] then None else Some (last cs)) \<and>
     b_last_with_data (buf s) = Some (last_slot cs) \<and>
     unat (b_total_len (buf s)) = length (contents cs) \<and> length (contents cs) \<le> 2 ^ 24"

lemmas nat_alt = word_le_nat_alt word_less_nat_alt

lemma contents_simps [simp]:
  "contents [] = []" "contents (x # cs) = chain_bytes (snd x) @ contents cs"
  "contents (cs @ ds) = contents cs @ contents ds"
  by (simp_all add: contents_def)

lemma length_chain_bytes: "chain_ok c \<Longrightarrow> length (chain_bytes c) = unat (ch_offset c)"
  by (auto simp: chain_bytes_def chain_ok_def)

lemma linked_tl: "linked p (ds @ (b, d) # cs) \<Longrightarrow> linked (ch_next d) cs"
  by (induction ds arbitrary: p) auto

lemma linked_change:
  "linked p (ds @ (a, c) # cs) \<Longrightarrow> linked (ch_next c') es \<Longrightarrow> linked p (ds @ (a, c') # es)"
  by (induction ds arbitrary: p) auto

lemma map_of_change:
  "a \<notin> fst ` set ds \<Longrightarrow> (map_of (ds @ (a, c) # cs))(a \<mapsto> c') = map_of (ds @ (a, c') # cs)"
  by (induction ds) (auto simp: fun_upd_twist [where c = a] simp del: map_of_append)

lemma map_of_snoc: "a \<notin> fst ` set cs \<Longrightarrow> (map_of cs)(a \<mapsto> c) = map_of (cs @ [(a, c)])"
  by (induction cs) (auto simp: fun_upd_twist [where c = a] simp del: map_of_append)

lemma map_of_free: "a \<notin> fst ` set cs \<Longrightarrow> (map_of ((a, c) # cs))(a := None) = map_of cs"
  using map_of_eq_None_iff [of cs a] by (auto simp: fun_eq_iff)

lemma blocks_le: assumes "blocks_ok n cs" shows "length cs \<le> n"
proof -
  have "set (map fst cs) \<subseteq> {..<n}" using assms by (auto simp: blocks_ok_def)
  then have "card (set (map fst cs)) \<le> n" by (metis card_lessThan card_mono finite_lessThan)
  then show ?thesis using assms by (simp add: blocks_ok_def distinct_card del: set_map)
qed


lemma wf_empty [simp]: "buffer_wf s [] \<longleftrightarrow> chains s = Map.empty \<and> b_head (buf s) = None \<and> b_tail (buf s) = None \<and>
    b_last_with_data (buf s) = Some HeadSlot \<and> b_total_len (buf s) = 0"
  by (auto simp: buffer_wf_def blocks_ok_def last_slot_def unat_eq_0)

lemma wf_block:
  assumes "buffer_wf s cs" "(a, c) \<in> set cs"
  shows "chains s a = Some c" "chain_ok c" "a < mallocs s"
  using assms by (auto simp: buffer_wf_def blocks_ok_def)

lemma rd_chain_wf: "buffer_wf s cs \<Longrightarrow> (a, c) \<in> set cs \<Longrightarrow> rd_chain s a = Inr c"
  by (simp add: rd_chain_def wf_block)

lemma last_data_wf:
  assumes "buffer_wf s cs"
  shows "last_data s = Inr (if cs = [] then None else Some (fst (last cs)))"
proof (cases cs rule: rev_cases)
  case (snoc ds x)
  obtain a c where x: "x = (a, c)" by fastforce
  show ?thesis
  proof (cases ds rule: rev_cases)
    case Nil
    with assms snoc x show ?thesis
      by (simp add: last_data_def buffer_wf_def last_slot_def deref_ptr_def rd_slot_def)
  next
    case (snoc es y)
    obtain b d where y: "y = (b, d)" by fastforce
    have "rd_chain s b = Inr d" using rd_chain_wf [OF assms, of b d] \<open>cs = ds @ [x]\<close> snoc y by simp
    moreover have "ch_next d = Some a"
      using assms linked_tl [of "b_head (buf s)" es b d "[(a, c)]"] \<open>cs = ds @ [x]\<close> snoc x y
      by (simp add: buffer_wf_def)
    ultimately show ?thesis
      using assms \<open>cs = ds @ [x]\<close> snoc x y
      by (simp add: last_data_def buffer_wf_def last_slot_def deref_ptr_def rd_slot_def butlast_append)
  qed
qed (use assms in \<open>simp add: last_data_def deref_ptr_def rd_slot_def\<close>)

section \<open>New blocks\<close>

lemma double_loop_total:
  "unat sz \<le> 2 ^ 23 \<Longrightarrow> j \<le> 23 \<Longrightarrow> 23 < k + j \<Longrightarrow>
     \<exists>t. double_loop k (2 ^ j) sz = Some t \<and> unat sz \<le> unat t \<and> unat t \<le> 2 ^ 23 \<and> 2 ^ j \<le> unat t"
proof (induction k arbitrary: j)
  case (Suc k)
  have j: "unat (2 ^ j :: u32) = 2 ^ j"
  proof -
    have "(2::nat) ^ j < 2 ^ 32" using Suc.prems(2) by (intro power_strict_increasing) auto
    then have "unat (word_of_nat (2 ^ j) :: u32) = 2 ^ j"
      using Suc.prems(2) by (simp only: unsigned_of_nat) (simp add: take_bit_nat_eq_self)
    then show ?thesis by simp
  qed
  have le: "(2::nat) ^ j \<le> 2 ^ 23" using Suc.prems(2) by (intro power_increasing) auto
  show ?case
  proof (cases "2 ^ j < sz")
    case True
    then have "2 ^ j < unat sz" by (simp add: word_less_nat_alt j)
    with Suc.prems(1) have "(2::nat) ^ j < 2 ^ 23" by linarith
    then have "j < 23" by (rule power_less_imp_less_exp [of "2::nat", rotated]) simp
    moreover have "push_bit 1 (2 ^ j) = (2 ^ Suc j :: u32)" by (simp only: push_bit_eq_mult power_Suc) simp
    moreover have "(2::nat) ^ j \<le> 2 ^ Suc j" by simp
    moreover obtain t where "double_loop k (2 ^ Suc j) sz = Some t" "unat sz \<le> unat t" "unat t \<le> 2 ^ 23"
        "2 ^ Suc j \<le> unat t"
      using Suc.IH [of "Suc j"] Suc.prems \<open>j < 23\<close> by auto
    ultimately show ?thesis using True by (intro exI [of _ t]) (auto simp: mult.commute intro: order_trans)
  next
    case False
    then have "unat sz \<le> 2 ^ j" using j by (simp add: not_less word_le_nat_alt)
    then show ?thesis using False j le by simp
  qed
qed simp

definition fresh_block :: "nat \<Rightarrow> chain_state \<Rightarrow> u32 \<Rightarrow> buf_chain_s" where
  "fresh_block a s n = \<lparr>ch_next = None, ch_buffer_len = n, ch_misalign = 0, ch_offset = 0,
     ch_buffer = map (garbage s a) [0..<unat n]\<rparr>"

lemma buf_chain_new_cases:
  "(buf_chain_new sz s = Some (None, s) \<and> 2 ^ 24 - 32 < unat sz) \<or>
   (\<exists>n. unat sz \<le> unat n \<and> 0 < unat n \<and> unat n \<le> 2 ^ 24 - 32 \<and> unat sz \<le> 2 ^ 24 - 32 \<and>
      buf_chain_new sz s =
        (if grants s (mallocs s) (unat n + 32)
         then Some (Some (mallocs s), s\<lparr>mallocs := Suc (mallocs s), chains := (chains s)(mallocs s \<mapsto> fresh_block (mallocs s) s n)\<rparr>)
         else Some (None, s\<lparr>mallocs := Suc (mallocs s)\<rparr>)))"
proof (cases "sz > BUFFER_CHAIN_MAX - BUFFER_CHAIN_SIZE")
  case True
  then show ?thesis by (simp add: buf_chain_new_def BUFFER_CHAIN_MAX_def BUFFER_CHAIN_SIZE_def word_less_nat_alt)
next
  case False
  then have sz: "unat sz \<le> 2 ^ 24 - 32"
    by (simp add: BUFFER_CHAIN_MAX_def BUFFER_CHAIN_SIZE_def word_le_nat_alt not_less)
  then have sz32: "unat (sz + 32) = unat sz + 32" by (subst unat_add_small) simp_all
  define t where "t = (if sz + 32 < BUFFER_CHAIN_MAX div 2 then double_loop 33 MIN_BUFFER_SIZE (sz + 32) else Some (sz + 32))"
  have "\<exists>n. t = Some n \<and> unat sz + 32 \<le> unat n \<and> unat n \<le> 2 ^ 24 \<and> 32 < unat n"
  proof (cases "sz + 32 < BUFFER_CHAIN_MAX div 2")
    case True
    then have "unat (sz + 32) \<le> 2 ^ 23" by (simp add: BUFFER_CHAIN_MAX_def word_less_nat_alt)
    from double_loop_total [OF this, of 10 33] show ?thesis
      using True sz32 by (auto simp: t_def MIN_BUFFER_SIZE_def)
  next
    case False
    then have "t = Some (sz + 32)" by (simp add: t_def)
    moreover have "2 ^ 23 \<le> unat (sz + 32)" using False by (simp add: BUFFER_CHAIN_MAX_def word_le_nat_alt not_less)
    ultimately show ?thesis using sz sz32 by simp
  qed
  then obtain n where n: "t = Some n" "unat sz + 32 \<le> unat n" "unat n \<le> 2 ^ 24" "32 < unat n" by blast
  have m: "unat (n - 32) = unat n - 32" using n by (subst unat_sub_small) simp_all
  have "buf_chain_new sz s = Some (chain_malloc n s)"
    using False n(1) by (simp add: buf_chain_new_def t_def BUFFER_CHAIN_SIZE_def)
  then have "buf_chain_new sz s =
     (if grants s (mallocs s) (unat (n - 32) + 32)
      then Some (Some (mallocs s), s\<lparr>mallocs := Suc (mallocs s), chains := (chains s)(mallocs s \<mapsto> fresh_block (mallocs s) s (n - 32))\<rparr>)
      else Some (None, s\<lparr>mallocs := Suc (mallocs s)\<rparr>))"
    using n m by (simp add: chain_malloc_def fresh_block_def BUFFER_CHAIN_SIZE_def Let_def)
  then show ?thesis using n m sz by (intro disjI2 exI [of _ "n - 32"]) (simp, linarith)
qed

section \<open>Adding\<close>

definition space :: "buf_chain_s \<Rightarrow> nat" where
  "space c = unat (ch_buffer_len c) - unat (ch_misalign c) - unat (ch_offset c)"

lemma write_grow:
  assumes "chains s a = Some c" "chain_ok c" and n: "unat n \<le> space c" and "unat n \<le> length data"
  shows "\<exists>b c'. c' = c\<lparr>ch_buffer := b, ch_offset := ch_offset c + n\<rparr> \<and> chain_ok c' \<and>
    chain_bytes c' = chain_bytes c @ take (unat n) data \<and> unat (ch_offset c') = unat (ch_offset c) + unat n \<and>
    write_end a data 0 n s = Inr (s\<lparr>chains := (chains s)(a \<mapsto> c\<lparr>ch_buffer := b\<rparr>)\<rparr>)"
proof -
  have fits: "unat (ch_misalign c) + unat (ch_offset c) + unat n \<le> unat (ch_buffer_len c)"
    using n assms(2) by (auto simp: space_def chain_ok_def)
  define b where "b = take (unat (ch_misalign c) + unat (ch_offset c)) (ch_buffer c) @ take (unat n) data @
    drop (unat (ch_misalign c) + unat (ch_offset c) + unat n) (ch_buffer c)"
  have len: "length (ch_buffer c) = unat (ch_buffer_len c)" using assms(2) by (simp add: chain_ok_def)
  have off: "unat (ch_offset c + n) = unat (ch_offset c) + unat n"
    using assms(2) fits by (intro unat_add_small) (simp add: chain_ok_def)
  have "write_end a data 0 n s = Inr (s\<lparr>chains := (chains s)(a \<mapsto> c\<lparr>ch_buffer := b\<rparr>)\<rparr>)"
    using assms fits len by (simp add: write_end_def rd_chain_def upd_chain_def memcpy_def b_def)
  moreover have "length b = unat (ch_buffer_len c)" using assms fits len by (simp add: b_def)
  moreover have "take (unat (ch_offset c) + unat n) (drop (unat (ch_misalign c)) b) = chain_bytes c @ take (unat n) data"
    using assms fits len by (simp add: b_def chain_bytes_def drop_take)
  ultimately show ?thesis
    using assms fits off by (intro exI [of _ b]) (auto simp: chain_ok_def chain_bytes_def unat_eq_0 [symmetric])
qed

lemma grow_offset_upd: "grow_offset a n (s\<lparr>chains := m(a \<mapsto> c)\<rparr>) =
    Inr (s\<lparr>chains := m(a \<mapsto> c\<lparr>ch_offset := ch_offset c + n\<rparr>)\<rparr>)"
  by (simp add: grow_offset_def upd_chain_def rd_chain_def)

text \<open>Growing the last block by \<open>n\<close> bytes.\<close>

lemma wf_grow:
  assumes wf: "buffer_wf s (ds @ [(a, c)])" and c': "chain_ok c'" "ch_next c' = ch_next c"
    "unat (ch_offset c') = unat (ch_offset c) + unat n" "length (contents (ds @ [(a, c)])) + unat n \<le> 2 ^ 24"
  shows "buffer_wf (add_total n (s\<lparr>chains := (chains s)(a \<mapsto> c')\<rparr>)) (ds @ [(a, c')])"
proof -
  have l: "linked (b_head (buf s)) (ds @ (a, c) # [])" using wf by (simp add: buffer_wf_def)
  have fresh: "a \<notin> fst ` set ds" using wf by (auto simp: buffer_wf_def blocks_ok_def)
  have "chain_ok c" using wf_block [OF wf, of a c] by simp
  then have lens: "length (chain_bytes c') = length (chain_bytes c) + unat n"
    using c' by (simp add: length_chain_bytes)
  have "unat (b_total_len (buf s) + n) = unat (b_total_len (buf s)) + unat n"
    using wf c'(4) by (intro unat_add_small) (simp add: buffer_wf_def)
  moreover have "linked (b_head (buf s)) (ds @ [(a, c')])"
    using linked_tl [OF l] linked_change [OF l, of c' "[]"] c'(2) by simp
  moreover have "last_slot (ds @ [(a, c')]) = last_slot (ds @ [(a, c)])" by (simp add: last_slot_def)
  moreover have "blocks_ok (mallocs s) (ds @ [(a, c')])"
    using wf c' by (auto simp: buffer_wf_def blocks_ok_def) (metis unat_eq_0 add_is_0)+
  moreover have "(chains s)(a \<mapsto> c') = map_of (ds @ [(a, c')])"
    using wf map_of_change [OF fresh, of c "[]" c'] by (simp add: buffer_wf_def)
  ultimately show ?thesis
    using wf c'(4) lens by (simp add: buffer_wf_def add_total_def upd_buf_def del: map_of_append)
qed

text \<open>Linking a new last block in.\<close>

lemma insert_first:
  assumes wf: "buffer_wf s []" and c: "chain_ok c" "ch_next c = None" "ch_offset c = 0" and t: "t < m"
  shows "\<exists>s'. buf_chain_insert t (s\<lparr>mallocs := m, chains := (chains s)(t \<mapsto> c)\<rparr>) = ret s' \<and>
    buffer_wf s' [(t, c)] \<and> grants s' = grants s \<and> mallocs s' = m"
proof -
  have "chain_bytes c = []" using c(3) by (simp add: chain_bytes_def)
  then show ?thesis
    using wf c t by (simp add: buf_chain_insert_def last_data_def deref_ptr_def rd_slot_def rd_chain_def upd_buf_def
        buffer_wf_def blocks_ok_def last_slot_def)
qed

lemma insert_last:
  assumes wf: "buffer_wf s (ds @ [(a, c)])" and c: "ch_offset c \<noteq> 0"
    and tc: "chain_ok tc" "ch_next tc = None" "ch_offset tc \<noteq> 0" and t: "mallocs s \<le> t" "t < m"
    and len: "length (contents (ds @ [(a, c)])) + unat (ch_offset tc) \<le> 2 ^ 24"
  shows "\<exists>s'. buf_chain_insert t (s\<lparr>mallocs := m, chains := (chains s)(t \<mapsto> tc)\<rparr>) = ret s' \<and>
    buffer_wf s' (ds @ [(a, c\<lparr>ch_next := Some t\<rparr>), (t, tc)])"
proof -
  let ?cs = "ds @ [(a, c)]" and ?s = "s\<lparr>mallocs := m, chains := (chains s)(t \<mapsto> tc)\<rparr>"
  let ?a = "c\<lparr>ch_next := Some t\<rparr>"
  have ac: "chains s a = Some c" "chain_ok c" "a < mallocs s" using wf_block [OF wf, of a c] by auto
  then have at: "a \<noteq> t" using t by simp
  have fuel: "\<exists>k. chain_fuel ?s = Suc (Suc k)" using t by (cases m) (auto simp: chain_fuel_def)
  have lt: "\<forall>(b, d) \<in> set ?cs. b < t" using wf t by (auto simp: buffer_wf_def blocks_ok_def)
  have l: "linked (b_head (buf s)) (ds @ (a, c) # [])" using wf by (simp add: buffer_wf_def)
  have next_c: "ch_next c = None" using linked_tl [OF l] by simp
  have slot: "rd_slot ?s (last_slot ?cs) = Inr (Some a)"
    using last_data_wf [OF wf] wf lt
    by (cases ds rule: rev_cases)
      (auto simp: last_data_def buffer_wf_def deref_ptr_def rd_slot_def last_slot_def rd_chain_def butlast_append
        split: option.splits)
  have lwd: "b_last_with_data (buf s) = Some (last_slot ?cs)" using wf by (simp add: buffer_wf_def)
  have "free_empty_chains ?s = ret (NextSlot a, ?s)"
    using fuel slot at ac c next_c
    by (auto simp: free_empty_chains_def lwd deref_ptr_def rd_chain_def rd_slot_def)
  then have run: "buf_chain_insert t ?s = ret (upd_buf (\<lambda>b. b\<lparr>b_last_with_data := Some (NextSlot a), b_tail := Some t,
      b_total_len := b_total_len b + ch_offset tc\<rparr>) (?s\<lparr>chains := (chains s)(t \<mapsto> tc, a \<mapsto> ?a)\<rparr>))"
    using slot ac at tc(3)
    by (simp add: buf_chain_insert_def last_data_def lwd deref_ptr_def wr_slot_def upd_chain_def rd_chain_def upd_buf_def)
  have fresh: "a \<notin> fst ` set ds" "t \<notin> fst ` set (ds @ [(a, ?a)])"
    using wf lt by (auto simp: buffer_wf_def blocks_ok_def)
  have "(chains s)(t \<mapsto> tc, a \<mapsto> ?a) = (map_of (ds @ [(a, ?a)]))(t \<mapsto> tc)"
    using wf at map_of_change [OF fresh(1), of c "[]" ?a] by (simp add: buffer_wf_def fun_upd_twist [OF at [symmetric]] del: map_of_append)
  also have "\<dots> = map_of (ds @ [(a, ?a), (t, tc)])"
    using map_of_snoc [OF fresh(2), of tc] by (simp del: map_of_append)
  finally have maps: "(chains s)(t \<mapsto> tc, a \<mapsto> ?a) = map_of (ds @ [(a, ?a), (t, tc)])" .
  have "linked (b_head (buf s)) (ds @ (a, ?a) # [(t, tc)])"
    using linked_change [OF l, of ?a "[(t, tc)]"] tc(2) by simp
  moreover have "unat (b_total_len (buf s) + ch_offset tc) = unat (b_total_len (buf s)) + unat (ch_offset tc)"
    using wf len by (intro unat_add_small) (simp add: buffer_wf_def)
  moreover have "chain_bytes ?a = chain_bytes c" by (simp add: chain_bytes_def)
  moreover have "blocks_ok m (ds @ [(a, ?a), (t, tc)])"
  proof -
    have "chain_ok ?a" using ac(2) by (simp add: chain_ok_def)
    moreover have "\<forall>(b, d) \<in> set ds. ch_offset d \<noteq> 0"
      using wf by (cases ds) (auto simp: buffer_wf_def blocks_ok_def)
    moreover have "\<forall>(b, d) \<in> set ds. b < m \<and> chain_ok d \<and> b \<noteq> t"
      using wf t by (fastforce simp: buffer_wf_def blocks_ok_def)
    moreover have "distinct (map fst ds)" "a < m" using wf ac t by (auto simp: buffer_wf_def blocks_ok_def)
    ultimately show ?thesis using fresh at tc c t by (auto simp: blocks_ok_def)
  qed
  ultimately show ?thesis
    unfolding run maps using wf tc len
    by (simp add: buffer_wf_def upd_buf_def last_slot_def butlast_append length_chain_bytes del: map_of_append)
qed


definition spills :: "block list \<Rightarrow> u32 \<Rightarrow> bool" where
  "spills cs len \<longleftrightarrow> cs \<noteq> [] \<and> space (snd (last cs)) < unat len"

definition realigns :: "block list \<Rightarrow> u32 \<Rightarrow> bool" where
  "realigns cs len \<longleftrightarrow> spills cs len \<and> buf_chain_should_realign (snd (last cs)) len"

lemma unat_remain: "chain_ok c \<Longrightarrow> unat (ch_buffer_len c - ch_misalign c - ch_offset c) = space c"
proof -
  assume c: "chain_ok c"
  then have "unat (ch_buffer_len c - ch_misalign c) = unat (ch_buffer_len c) - unat (ch_misalign c)"
    by (intro unat_sub_small) (simp add: chain_ok_def)
  with c show ?thesis by (subst unat_sub_small) (auto simp: space_def chain_ok_def)
qed

lemma add_fits:
  assumes wf: "buffer_wf s (ds @ [(a, c)])" and n: "unat n \<le> space c" "unat n \<le> length data"
    "length (contents (ds @ [(a, c)])) + unat n \<le> 2 ^ 24"
  shows "\<exists>s' c'. bind_run (Some (write_end a data 0 n s)) (\<lambda>s. bind_run (Some (grow_offset a n s)) (\<lambda>s.
      ret (0::int, add_total n s))) = ret (0, s') \<and> buffer_wf s' (ds @ [(a, c')]) \<and>
    chain_bytes c' = chain_bytes c @ take (unat n) data"
proof -
  have c: "chains s a = Some c" "chain_ok c" using wf_block [OF wf, of a c] by auto
  then obtain b c' where b: "c' = c\<lparr>ch_buffer := b, ch_offset := ch_offset c + n\<rparr>" "chain_ok c'"
    "chain_bytes c' = chain_bytes c @ take (unat n) data" "unat (ch_offset c') = unat (ch_offset c) + unat n"
    "write_end a data 0 n s = Inr (s\<lparr>chains := (chains s)(a \<mapsto> c\<lparr>ch_buffer := b\<rparr>)\<rparr>)"
    using write_grow [OF c n(1,2)] by blast
  then show ?thesis
    using wf_grow [OF wf b(2) _ b(4) n(3)] by (auto simp: grow_offset_upd)
qed

lemma fill_rest:
  assumes "chains s a = Some c" "chain_ok c" "unat n \<le> space c" "unat n \<le> length data"
  shows "\<exists>c'. (if n \<noteq> 0 then bind_run (Some (write_end a data 0 n s)) (\<lambda>s. bind_run (Some (grow_offset a n s)) (\<lambda>s.
      ret (add_total n s))) else ret s) = ret (add_total n (s\<lparr>chains := (chains s)(a \<mapsto> c')\<rparr>)) \<and>
    chain_ok c' \<and> chain_bytes c' = chain_bytes c @ take (unat n) data \<and>
    unat (ch_offset c') = unat (ch_offset c) + unat n \<and> ch_next c' = ch_next c"
proof (cases "n = 0")
  case True
  moreover have "add_total 0 (s\<lparr>chains := (chains s)(a \<mapsto> c)\<rparr>) = s"
    using assms(1) by (simp add: add_total_def upd_buf_def fun_upd_idem)
  ultimately show ?thesis using assms by (intro exI [of _ c]) simp
next
  case False
  obtain b c' where b: "c' = c\<lparr>ch_buffer := b, ch_offset := ch_offset c + n\<rparr>" "chain_ok c'"
    "chain_bytes c' = chain_bytes c @ take (unat n) data" "unat (ch_offset c') = unat (ch_offset c) + unat n"
    "write_end a data 0 n s = Inr (s\<lparr>chains := (chains s)(a \<mapsto> c\<lparr>ch_buffer := b\<rparr>)\<rparr>)"
    using write_grow [OF assms] by blast
  then show ?thesis using False by (intro exI [of _ c']) (simp add: grow_offset_upd)
qed

lemma fresh_block_ok: "0 < unat n \<Longrightarrow> unat n \<le> 2 ^ 24 - 32 \<Longrightarrow> chain_ok (fresh_block a s n)"
  by (simp add: chain_ok_def fresh_block_def)

text \<open>The new block with its data, in \<open>add_spilling\<close>.\<close>

lemma fill_fresh:
  assumes "0 < unat k" "unat k \<le> unat n" "unat n \<le> 2 ^ 24 - 32" "st + unat k \<le> length data"
  shows "\<exists>b. memcpy (ch_buffer (fresh_block a s n)) 0 data st (unat k) = Inr b \<and>
    chain_ok ((fresh_block a s n)\<lparr>ch_buffer := b, ch_offset := k\<rparr>) \<and>
    chain_bytes ((fresh_block a s n)\<lparr>ch_buffer := b, ch_offset := k\<rparr>) = take (unat k) (drop st data)"
  using assms by (auto simp: memcpy_def fresh_block_def chain_ok_def chain_bytes_def)

lemma spill_size_bounds:
  assumes "chain_ok c"
  shows "unat len \<le> unat (spill_size c len)"
    "2 ^ 24 - 32 < unat (spill_size c len) \<Longrightarrow> 2 ^ 24 - 32 < unat len"
proof -
  show "unat len \<le> unat (spill_size c len)"
    by (auto simp: spill_size_def Let_def word_less_nat_alt not_less)
  show "2 ^ 24 - 32 < unat len" if big: "2 ^ 24 - 32 < unat (spill_size c len)"
  proof (cases "ch_buffer_len c \<le> BUFFER_CHAIN_MAX_AUTO_SIZE div 2")
    case True
    then have "unat (ch_buffer_len c) \<le> 2048" by (simp add: BUFFER_CHAIN_MAX_AUTO_SIZE_def word_le_nat_alt)
    moreover from this have "unat (push_bit 1 (ch_buffer_len c)) = 2 * unat (ch_buffer_len c)"
      by (simp add: push_bit_eq_mult unat_word_ariths)
    ultimately show ?thesis using big True by (auto simp: spill_size_def Let_def split: if_splits)
  next
    case False
    then show ?thesis using big assms by (auto simp: spill_size_def Let_def chain_ok_def split: if_splits)
  qed
qed

lemma add_spilling_wf:
  assumes wf: "buffer_wf s (ds @ [(a, c)])" and len: "space c < unat len" "unat len \<le> length data"
    "length (contents (ds @ [(a, c)])) + unat len \<le> 2 ^ 24"
  shows "\<exists>s' cs'. add_spilling a (ch_buffer_len c - ch_misalign c - ch_offset c) data len s = ret (-1, s') \<and>
    buffer_wf s' cs' \<and>
    (contents cs' = contents (ds @ [(a, c)]) @ take (unat len) data \<or>
     contents cs' = contents (ds @ [(a, c)]) \<and> (2 ^ 24 - 32 < unat len \<or> (\<exists>k n. \<not> grants s k n)))"
proof -
  let ?cs = "ds @ [(a, c)]"
  define r where "r = ch_buffer_len c - ch_misalign c - ch_offset c"
  have c: "chains s a = Some c" "chain_ok c" "a < mallocs s" using wf_block [OF wf, of a c] by auto
  have r: "unat r = space c" using c(2) by (simp add: r_def unat_remain)
  have ur: "unat (len - r) = unat len - space c" using len r by (simp add: unat_sub_small)
  have unfold: "add_spilling a r data len s = (case buf_chain_new (spill_size c len) s of
          None \<Rightarrow> None
        | Some (None, s) \<Rightarrow> ret (-1, s)
        | Some (Some tmp, s) \<Rightarrow>
            bind_run
              (if r \<noteq> 0 then
                 bind_run (Some (write_end a data 0 r s)) (\<lambda>s.
                 bind_run (Some (grow_offset a r s)) (\<lambda>s. ret (add_total r s)))
               else ret s) (\<lambda>s.
            bind_run (Some (rd_chain s tmp)) (\<lambda>t.
            bind_run (Some (memcpy (ch_buffer t) 0 data (unat r) (unat (len - r)))) (\<lambda>b.
            bind_run (Some (upd_chain tmp (\<lambda>t. t\<lparr>ch_buffer := b, ch_offset := len - r\<rparr>) s)) (\<lambda>s.
            bind_run (buf_chain_insert tmp s) (\<lambda>s. ret (-1, s)))))))"
    unfolding add_spilling_def Let_def using c(1) by (simp add: rd_chain_def)
  consider (big) "buf_chain_new (spill_size c len) s = Some (None, s)" "2 ^ 24 - 32 < unat len"
    | (refused) n where "buf_chain_new (spill_size c len) s = Some (None, s\<lparr>mallocs := Suc (mallocs s)\<rparr>)"
        "\<not> grants s (mallocs s) n"
    | (granted) n where "unat len \<le> unat n" "unat n \<le> 2 ^ 24 - 32" "buf_chain_new (spill_size c len) s =
        Some (Some (mallocs s), s\<lparr>mallocs := Suc (mallocs s), chains := (chains s)(mallocs s \<mapsto> fresh_block (mallocs s) s n)\<rparr>)"
    using buf_chain_new_cases [of "spill_size c len" s] spill_size_bounds [OF c(2), of len]
    by (auto split: if_splits intro: order_trans)
  then show ?thesis
  proof cases
    case big
    then show ?thesis using wf by (intro exI [of _ s] exI [of _ ?cs]) (simp add: unfold flip: r_def)
  next
    case (refused n)
    moreover have "buffer_wf (s\<lparr>mallocs := Suc (mallocs s)\<rparr>) ?cs"
      using wf by (fastforce simp: buffer_wf_def blocks_ok_def)
    ultimately show ?thesis by (intro exI [of _ "s\<lparr>mallocs := Suc (mallocs s)\<rparr>"] exI [of _ ?cs]) (auto simp: unfold simp flip: r_def)
  next
    case (granted n)
    let ?t = "mallocs s" and ?f = "fresh_block (mallocs s) s n"
    let ?s1 = "s\<lparr>mallocs := Suc ?t, chains := (chains s)(?t \<mapsto> ?f)\<rparr>"
    have at: "a \<noteq> ?t" using c(3) by simp
    obtain c' where fill: "(if r \<noteq> 0 then
         bind_run (Some (write_end a data 0 r ?s1)) (\<lambda>s. bind_run (Some (grow_offset a r s)) (\<lambda>s. ret (add_total r s)))
       else ret ?s1) = ret (add_total r (?s1\<lparr>chains := (chains ?s1)(a \<mapsto> c')\<rparr>))"
      and c': "chain_ok c'" "chain_bytes c' = chain_bytes c @ take (unat r) data"
        "unat (ch_offset c') = unat (ch_offset c) + unat r" "ch_next c' = ch_next c"
      using fill_rest [of ?s1 a c r data] c at r len by auto
    have "unat (len - r) \<le> unat n" using granted(1) ur by linarith
    then obtain b where b: "memcpy (ch_buffer ?f) 0 data (unat r) (unat (len - r)) = Inr b"
      "chain_ok (?f\<lparr>ch_buffer := b, ch_offset := len - r\<rparr>)"
      "chain_bytes (?f\<lparr>ch_buffer := b, ch_offset := len - r\<rparr>) = take (unat (len - r)) (drop (unat r) data)"
      using fill_fresh [of "len - r" n "unat r" data ?t s] granted(1,2) len ur r by auto
    let ?tc = "?f\<lparr>ch_buffer := b, ch_offset := len - r\<rparr>"
    let ?sa = "add_total r (s\<lparr>chains := (chains s)(a \<mapsto> c')\<rparr>)"
    have wfa: "buffer_wf ?sa (ds @ [(a, c')])"
      using wf_grow [OF wf c'(1,4,3)] len r by simp
    have total: "length (contents (ds @ [(a, c')])) + unat (ch_offset ?tc) \<le> 2 ^ 24"
      using len r ur c'(2) by simp
    have off: "ch_offset c' \<noteq> 0" "ch_offset ?tc \<noteq> 0" "ch_next ?tc = None"
      using c'(3) c(2) r len ur by (auto simp: unat_eq_0 [symmetric] chain_ok_def space_def fresh_block_def)
    obtain s' where s': "buf_chain_insert ?t (?sa\<lparr>mallocs := Suc ?t, chains := (chains ?sa)(?t \<mapsto> ?tc)\<rparr>) = ret s'"
      "buffer_wf s' (ds @ [(a, c'\<lparr>ch_next := Some ?t\<rparr>), (?t, ?tc)])"
      using insert_last [OF wfa off(1) b(2) off(3,2) _ _ total, of ?t "Suc ?t"] by (auto simp: add_total_def upd_buf_def)
    have "add_total r (?s1\<lparr>chains := (chains ?s1)(a \<mapsto> c')\<rparr>) =
        ?sa\<lparr>mallocs := Suc ?t, chains := (chains ?sa)(?t \<mapsto> ?f)\<rparr>"
      by (simp add: add_total_def upd_buf_def fun_upd_twist [OF at])
    then have "add_spilling a r data len s = ret (-1, s')"
      unfolding unfold granted(3) using b(1) s'(1)
      by (simp add: fill rd_chain_def upd_chain_def)
    moreover have "contents (ds @ [(a, c'\<lparr>ch_next := Some ?t\<rparr>), (?t, ?tc)]) = contents ?cs @ take (unat len) data"
    proof -
      have "take (unat r) data @ take (unat (len - r)) (drop (unat r) data) = take (unat len) data"
        using take_add [of "unat r" "unat (len - r)" data] ur r len by simp
      moreover have "chain_bytes (c'\<lparr>ch_next := Some ?t\<rparr>) = chain_bytes c'" by (simp add: chain_bytes_def)
      ultimately show ?thesis using c'(2) b(3) by simp
    qed
    ultimately show ?thesis using s'(2) unfolding r_def by blast
  qed
qed

text \<open>The case of an empty buffer: a first block is made and then filled.\<close>

lemma insert_new_first:
  assumes wf: "buffer_wf s []"
  shows "(\<exists>s'. buf_chain_insert_new len s = ret (None, s') \<and> buffer_wf s' [] \<and>
      (2 ^ 24 - 32 < unat len \<or> (\<exists>k n. \<not> grants s k n))) \<or>
    (\<exists>s' t c. buf_chain_insert_new len s = ret (Some t, s') \<and> buffer_wf s' [(t, c)] \<and> unat len \<le> space c \<and>
      chain_bytes c = [])"
proof -
  consider (big) "buf_chain_new len s = Some (None, s)" "2 ^ 24 - 32 < unat len"
    | (refused) n where "buf_chain_new len s = Some (None, s\<lparr>mallocs := Suc (mallocs s)\<rparr>)" "\<not> grants s (mallocs s) n"
    | (granted) n where "unat len \<le> unat n" "0 < unat n" "unat n \<le> 2 ^ 24 - 32" "buf_chain_new len s =
        Some (Some (mallocs s), s\<lparr>mallocs := Suc (mallocs s), chains := (chains s)(mallocs s \<mapsto> fresh_block (mallocs s) s n)\<rparr>)"
    using buf_chain_new_cases [of len s] by (auto split: if_splits)
  then show ?thesis
  proof cases
    case big
    then show ?thesis using wf by (simp add: buf_chain_insert_new_def)
  next
    case (refused n)
    then show ?thesis using wf by (auto simp: buf_chain_insert_new_def)
  next
    case (granted n)
    let ?t = "mallocs s" and ?f = "fresh_block (mallocs s) s n"
    have f: "chain_ok ?f" "ch_next ?f = None" "ch_offset ?f = 0" "space ?f = unat n" "chain_bytes ?f = []"
      using granted(2,3) fresh_block_ok by (simp_all add: fresh_block_def space_def chain_bytes_def)
    obtain s' where "buf_chain_insert ?t (s\<lparr>mallocs := Suc ?t, chains := (chains s)(?t \<mapsto> ?f)\<rparr>) = ret s'"
      "buffer_wf s' [(?t, ?f)]"
      using insert_first [OF wf f(1-3), of ?t "Suc ?t"] by auto
    then show ?thesis using granted f(4,5) by (auto simp: buf_chain_insert_new_def)
  qed
qed

lemma add_at_fits:
  assumes wf: "buffer_wf s (ds @ [(a, c)])" and n: "unat len \<le> space c" "unat len \<le> length data"
    "length (contents (ds @ [(a, c)])) + unat len \<le> 2 ^ 24"
  shows "\<exists>s' c'. add_at a data len s = ret (0, s') \<and> buffer_wf s' (ds @ [(a, c')]) \<and>
    chain_bytes c' = chain_bytes c @ take (unat len) data"
proof -
  have c: "chain_ok c" "rd_chain s a = Inr c" using wf_block [OF wf, of a c] by (auto simp: rd_chain_def)
  have cmp: "ch_buffer_len c - ch_misalign c - ch_offset c \<ge> len"
    using unat_remain [OF c(1)] n(1) by (simp add: word_le_nat_alt)
  from add_fits [OF wf n] show ?thesis using c(2) cmp by (auto simp: add_at_def Let_def)
qed

lemma add_block:
  assumes wf: "buffer_wf s (ds @ [(a, c)])" and len: "unat len \<le> length data"
    "length (contents (ds @ [(a, c)])) + unat len \<le> 2 ^ 24"
    and noalign: "\<not> realigns (ds @ [(a, c)]) len"
  shows "\<exists>r s' cs'. add_at a data len s = ret (r, s') \<and> buffer_wf s' cs' \<and>
    (contents cs' = contents (ds @ [(a, c)]) @ take (unat len) data \<and> r = (if space c < unat len then -1 else 0) \<or>
     contents cs' = contents (ds @ [(a, c)]) \<and> r = -1 \<and> (2 ^ 24 - 32 < unat len \<or> (\<exists>k n. \<not> grants s k n)))"
proof -
  have c: "chain_ok c" "rd_chain s a = Inr c" using wf_block [OF wf, of a c] by (auto simp: rd_chain_def)
  have cmp: "ch_buffer_len c - ch_misalign c - ch_offset c \<ge> len \<longleftrightarrow> \<not> space c < unat len"
    using unat_remain [OF c(1)] by (simp add: word_le_nat_alt not_less)
  show ?thesis
  proof (cases "space c < unat len")
    case False
    then have "unat len \<le> space c" by simp
    from add_at_fits [OF wf this len] obtain s' c' where "add_at a data len s = ret (0, s')"
      "buffer_wf s' (ds @ [(a, c')])" "chain_bytes c' = chain_bytes c @ take (unat len) data" by blast
    then show ?thesis
      using False by (intro exI [of _ 0] exI [of _ s'] exI [of _ "ds @ [(a, c')]"]) simp
  next
    case True
    then have "\<not> buf_chain_should_realign c len" using noalign by (simp add: realigns_def spills_def)
    moreover from add_spilling_wf [OF wf True len] obtain s' cs' where
      "add_spilling a (ch_buffer_len c - ch_misalign c - ch_offset c) data len s = ret (-1, s')" "buffer_wf s' cs'"
      "contents cs' = contents (ds @ [(a, c)]) @ take (unat len) data \<or>
       contents cs' = contents (ds @ [(a, c)]) \<and> (2 ^ 24 - 32 < unat len \<or> (\<exists>k n. \<not> grants s k n))" by blast
    ultimately show ?thesis
      using True c(2) cmp by (intro exI [of _ "-1"] exI [of _ s'] exI [of _ cs']) (auto simp: add_at_def Let_def)
  qed
qed

lemma buffer_add_wf:
  assumes wf: "buffer_wf s cs" and len: "unat len \<le> length data" and noalign: "\<not> realigns cs len"
  shows "\<exists>r s' cs'. buffer_add data len s = ret (r, s') \<and> buffer_wf s' cs' \<and>
    (contents cs' = contents cs @ take (unat len) data \<and> r = (if spills cs len then -1 else 0) \<or>
     contents cs' = contents cs \<and> r = -1 \<and>
       (2 ^ 24 - 32 < length (contents cs) + unat len \<or> (\<exists>k n. \<not> grants s k n)))"
proof -
  have total: "unat (b_total_len (buf s)) = length (contents cs)" "length (contents cs) \<le> 2 ^ 24"
    using wf by (simp_all add: buffer_wf_def)
  have "unat (BUFFER_CHAIN_MAX - b_total_len (buf s)) = 2 ^ 24 - length (contents cs)"
    using total by (subst unat_sub_small) (simp_all add: BUFFER_CHAIN_MAX_def)
  then have cmp: "len > BUFFER_CHAIN_MAX - b_total_len (buf s) \<longleftrightarrow> 2 ^ 24 < length (contents cs) + unat len"
    using total by (auto simp: word_less_nat_alt)
  show ?thesis
  proof (cases "2 ^ 24 < length (contents cs) + unat len")
    case True
    then have "buffer_add data len s = ret (-1, s)" using cmp by (simp add: buffer_add_def)
    then show ?thesis using wf True by (intro exI [of _ "-1"] exI [of _ s] exI [of _ cs]) simp
  next
    case small: False
    show ?thesis
    proof (cases cs rule: rev_cases)
      case (snoc ds x)
      obtain a c where x: "x = (a, c)" by fastforce
      have "last_data s = Inr (Some a)" using last_data_wf [OF wf] snoc x by simp
      then have run: "buffer_add data len s = add_at a data len s" using cmp small by (simp add: buffer_add_def)
      have pre: "buffer_wf s (ds @ [(a, c)])" "length (contents (ds @ [(a, c)])) + unat len \<le> 2 ^ 24"
        "\<not> realigns (ds @ [(a, c)]) len" using wf small noalign snoc x by simp_all
      have "\<And>A. 2 ^ 24 - 32 < unat len \<or> A \<Longrightarrow> 2 ^ 24 - 32 < length (contents cs) + unat len \<or> A" by auto
      with add_block [OF pre(1) len pre(2,3)] show ?thesis
        unfolding run snoc x spills_def by fastforce
    next
      case Nil
      have "last_data s = Inr None" using last_data_wf [OF wf] Nil by simp
      moreover have "b_tail (buf s) = None" using wf Nil by simp
      ultimately have unfold: "buffer_add data len s = bind_run (buf_chain_insert_new len s) (\<lambda>(chain, s).
        case chain of
          None \<Rightarrow> ret (-1, s)
        | Some a \<Rightarrow> add_at a data len s)"
        using cmp small by (simp add: buffer_add_def)
      from insert_new_first [of s len] wf Nil consider
        (no) s' where "buf_chain_insert_new len s = ret (None, s')" "buffer_wf s' []"
          "2 ^ 24 - 32 < unat len \<or> (\<exists>k n. \<not> grants s k n)"
        | (yes) s' t c where "buf_chain_insert_new len s = ret (Some t, s')" "buffer_wf s' [(t, c)]" "unat len \<le> space c"
          "chain_bytes c = []" by blast
      then show ?thesis
      proof cases
        case no
        then show ?thesis
          unfolding unfold using Nil by (intro exI [of _ "-1"] exI [of _ s'] exI [of _ "[]"]) auto
      next
        case yes
        from add_at_fits [of s' "[]" t c len data] yes(2-4) len small Nil obtain s'' c' where
          "add_at t data len s' = ret (0, s'')" "buffer_wf s'' [(t, c')]" "chain_bytes c' = take (unat len) data" by auto
        then show ?thesis
          unfolding unfold using yes(1) Nil
          by (intro exI [of _ 0] exI [of _ s''] exI [of _ "[(t, c')]"]) (simp add: spills_def)
      qed
    qed
  qed
qed

section \<open>Freeing and deleting\<close>

lemma free_first:
  assumes "chains s = map_of ((a, c) # cs)" "a \<notin> fst ` set cs"
  shows "free_chain a s = Inr (s\<lparr>chains := map_of cs\<rparr>)"
proof -
  have "(chains s)(a := None) = map_of cs" unfolding assms(1) by (rule map_of_free [OF assms(2)])
  moreover have "chains s a = Some c" using assms(1) by simp
  ultimately show ?thesis by (simp add: free_chain_def)
qed

lemma free_all_wf:
  "linked p cs \<Longrightarrow> chains s = map_of cs \<Longrightarrow> distinct (map fst cs) \<Longrightarrow> length cs < k \<Longrightarrow>
     buf_chain_free_all k p s = ret (s\<lparr>chains := Map.empty\<rparr>)"
proof (induction cs arbitrary: p s k)
  case Nil
  then show ?case by (cases k) simp_all
next
  case (Cons x cs)
  obtain a c where x: "x = (a, c)" by fastforce
  obtain j where k: "k = Suc j" using Cons.prems by (cases k) auto
  have "free_chain a s = Inr (s\<lparr>chains := map_of cs\<rparr>)"
    using Cons.prems(3) x by (intro free_first [OF Cons.prems(2) [unfolded x]]) simp
  with Cons.IH [of "ch_next c" "s\<lparr>chains := map_of cs\<rparr>" j] Cons.prems x k show ?case
    by (simp add: rd_chain_def)
qed

lemma buffer_free_wf: "buffer_wf s cs \<Longrightarrow> buffer_free s = ret (s\<lparr>chains := Map.empty\<rparr>)"
  using free_all_wf [of "b_head (buf s)" cs s "chain_fuel s"] blocks_le [of "mallocs s" cs]
  by (simp add: buffer_free_def chain_fuel_def buffer_wf_def blocks_ok_def)

text \<open>The block \<open>last_with_data\<close> stands for, when it is not the first one.\<close>

lemma last_data_linked:
  assumes "linked p cs" "\<forall>(b, d) \<in> set cs. chains s b = Some d" "1 < length cs"
    "b_last_with_data (buf s) = Some (last_slot cs)"
  shows "last_data s = Inr (Some (fst (last cs)))"
proof -
  obtain es x y where cs: "cs = es @ [x, y]"
    using assms(3) by (cases cs rule: rev_cases; cases "butlast cs" rule: rev_cases) auto
  obtain b d a c where xy: "x = (b, d)" "y = (a, c)" by fastforce
  have "ch_next d = Some a" using linked_tl [of p es b d "[(a, c)]"] assms(1) cs xy by simp
  moreover have "chains s b = Some d" using assms(2) cs xy by simp
  ultimately show ?thesis
    using assms(4) cs xy by (simp add: last_data_def last_slot_def deref_ptr_def rd_slot_def rd_chain_def butlast_append)
qed

lemma last_data_blocks:
  assumes "linked p cs" "chains s = map_of cs" "distinct (map fst cs)" "1 < length cs"
    "b_last_with_data (buf s) = Some (last_slot cs)"
  shows "last_data s = Inr (Some (fst (last cs)))"
  using assms by (intro last_data_linked [of p]) auto

lemma delete_loop_wf:
  assumes "linked p cs" "chains s = map_of cs" "distinct (map fst cs)" "\<forall>(a, c) \<in> set cs. chain_ok c"
    "b_last_with_data (buf s) = Some (last_slot cs)" "unat n < length (contents cs)" "length cs < k"
  shows "\<exists>es a c ds n'. cs = es @ (a, c) # ds \<and> unat n' < unat (ch_offset c) \<and>
    drop (unat n) (contents cs) = drop (unat n') (contents ((a, c) # ds)) \<and>
    delete_loop k p n s = ret (a, n', s\<lparr>chains := map_of ((a, c) # ds),
      buf := (buf s)\<lparr>b_last_with_data := Some (last_slot ((a, c) # ds))\<rparr>\<rparr>)"
  using assms
proof (induction cs arbitrary: p s n k)
  case (Cons x cs)
  obtain a c where x: "x = (a, c)" by fastforce
  obtain j where k: "k = Suc j" using Cons.prems by (cases k) auto
  have p: "p = Some a" "rd_chain s a = Inr c" "chain_ok c" using Cons.prems x by (auto simp: rd_chain_def)
  have len: "length (chain_bytes c) = unat (ch_offset c)" using p(3) by (rule length_chain_bytes)
  show ?case
  proof (cases "ch_offset c \<le> n")
    case False
    have "delete_loop k p n s = ret (a, n, s)"
      using False p k by (simp add: deref_ptr_def)
    moreover have "s\<lparr>chains := map_of (x # cs), buf := (buf s)\<lparr>b_last_with_data := Some (last_slot (x # cs))\<rparr>\<rparr> = s"
      unfolding Cons.prems(2) [symmetric] Cons.prems(5) [symmetric] by simp
    ultimately show ?thesis
      using False x by (intro exI [of _ "[]"], intro exI [of _ a] exI [of _ c], intro exI [of _ cs] exI [of _ n])
        (simp only: append_Nil, simp add: word_less_nat_alt not_le)
  next
    case True
    then have off: "unat (ch_offset c) \<le> unat n" by (simp add: word_le_nat_alt)
    then have un: "unat (n - ch_offset c) = unat n - unat (ch_offset c)" by (rule unat_sub_small)
    with off Cons.prems(6) x len have rest: "unat (n - ch_offset c) < length (contents cs)" by simp
    then have ne: "cs \<noteq> []" by auto
    have "a \<noteq> fst (last cs)" using Cons.prems(3) x ne by (cases cs rule: rev_cases) auto
    with last_data_blocks [OF Cons.prems(1-3) _ Cons.prems(5)] ne x
    have data: "last_data s = Inr (Some (fst (last cs)))" "Some (fst (last cs)) \<noteq> Some a" by auto
    have slot: "last_slot (x # cs) = (if length cs = 1 then NextSlot a else last_slot cs)"
      using ne x by (cases cs rule: rev_cases) (auto simp: last_slot_def)
    have other: "last_slot cs \<noteq> NextSlot a"
    proof
      assume "last_slot cs = NextSlot a"
      then have "butlast cs \<noteq> []" "a = fst (last (butlast cs))" by (auto simp: last_slot_def split: if_splits)
      then have "a \<in> fst ` set cs" using in_set_butlastD [OF last_in_set [of "butlast cs"]] by simp
      with Cons.prems(3) x show False by simp
    qed
    define s1 where "s1 = s\<lparr>buf := (buf s)\<lparr>b_last_with_data := Some (last_slot cs)\<rparr>\<rparr>"
    have s1: "(if b_last_with_data (buf s) = Some (NextSlot a)
        then upd_buf (\<lambda>b. b\<lparr>b_last_with_data := Some HeadSlot\<rparr>) s else s) = s1"
    proof (cases "length cs = 1")
      case True
      then show ?thesis using slot Cons.prems(5) by (auto simp: s1_def upd_buf_def last_slot_def length_Suc_conv)
    next
      case False
      then show ?thesis using slot other Cons.prems(5) by (auto simp: s1_def)
    qed
    have "free_chain a s1 = Inr (s1\<lparr>chains := map_of cs\<rparr>)"
    proof (rule free_first)
      have "chains s1 = chains s" by (simp add: s1_def)
      with Cons.prems(2) x show "chains s1 = map_of ((a, c) # cs)" by (simp only:)
      show "a \<notin> fst ` set cs" using Cons.prems(3) x by simp
    qed
    then have run: "delete_loop k p n s = delete_loop j (ch_next c) (n - ch_offset c) (s1\<lparr>chains := map_of cs\<rparr>)"
      using True p k data s1 by (simp add: deref_ptr_def)
    let ?s1 = "s1\<lparr>chains := map_of cs\<rparr>"
    have pre: "linked (ch_next c) cs" "chains ?s1 = map_of cs" "distinct (map fst cs)"
      "\<forall>(a, c) \<in> set cs. chain_ok c" "b_last_with_data (buf ?s1) = Some (last_slot cs)" "length cs < j"
      using Cons.prems x k by (simp_all add: s1_def)
    obtain es b d ds n' where ih: "cs = es @ (b, d) # ds" "unat n' < unat (ch_offset d)"
        "drop (unat (n - ch_offset c)) (contents cs) = drop (unat n') (contents ((b, d) # ds))"
        "delete_loop j (ch_next c) (n - ch_offset c) ?s1 = ret (b, n', ?s1\<lparr>chains := map_of ((b, d) # ds),
          buf := (buf ?s1)\<lparr>b_last_with_data := Some (last_slot ((b, d) # ds))\<rparr>\<rparr>)"
      using Cons.IH [OF pre(1-5) rest pre(6)] by blast
    have "drop (unat n) (contents (x # cs)) = drop (unat n') (contents ((b, d) # ds))"
      using ih(3) off un len x by simp
    moreover have "?s1\<lparr>chains := m, buf := (buf ?s1)\<lparr>b_last_with_data := q\<rparr>\<rparr> =
        s\<lparr>chains := m, buf := (buf s)\<lparr>b_last_with_data := q\<rparr>\<rparr>" for m q by (simp add: s1_def)
    ultimately have "x # cs = (x # es) @ (b, d) # ds \<and> unat n' < unat (ch_offset d) \<and>
      drop (unat n) (contents (x # cs)) = drop (unat n') (contents ((b, d) # ds)) \<and>
      delete_loop k p n s = ret (b, n', s\<lparr>chains := map_of ((b, d) # ds),
        buf := (buf s)\<lparr>b_last_with_data := Some (last_slot ((b, d) # ds))\<rparr>\<rparr>)"
      using ih(1,2,4) run by (simp only: append_Cons simp_thms)
    then show ?thesis by blast
  qed
qed simp

lemma buffer_delete_wf:
  assumes wf: "buffer_wf s cs"
  shows "\<exists>s' cs'. buffer_delete len s = ret (int (min (unat len) (length (contents cs))), s') \<and> buffer_wf s' cs' \<and>
    contents cs' = drop (unat len) (contents cs) \<and> b_last_read_pos (buf s') = b_last_read_pos (buf s)"
proof -
  have total: "unat (b_total_len (buf s)) = length (contents cs)" "length (contents cs) \<le> 2 ^ 24"
    and linked: "linked (b_head (buf s)) cs" and maps: "chains s = map_of cs" and blocks: "blocks_ok (mallocs s) cs"
    and dist: "distinct (map fst cs)" and slot: "b_last_with_data (buf s) = Some (last_slot cs)"
    using wf by (simp_all add: buffer_wf_def blocks_ok_def)
  have fuel: "length cs < chain_fuel s" using blocks_le [OF blocks] by (simp add: chain_fuel_def)
  have ints: "sint (b_total_len (buf s)) = int (length (contents cs))"
    using total by (subst sint_small) simp_all
  consider (none) "b_total_len (buf s) = 0" | (all) "b_total_len (buf s) \<noteq> 0" "b_total_len (buf s) \<le> len"
    | (part) "b_total_len (buf s) \<noteq> 0" "len < b_total_len (buf s)" by fastforce
  then show ?thesis
  proof cases
    case none
    then show ?thesis using wf total(1) by (intro exI [of _ s] exI [of _ cs]) (simp add: buffer_delete_def)
  next
    case all
    then have "length (contents cs) \<le> unat len" using total(1) by (simp add: word_le_nat_alt)
    then show ?thesis
      using all free_all_wf [OF linked maps dist fuel] ints
      by (intro exI [of _ "ZERO_CHAIN (s\<lparr>chains := Map.empty\<rparr>)"] exI [of _ "[]"])
        (simp add: buffer_delete_def Let_def ZERO_CHAIN_def upd_buf_def)
  next
    case part
    then have len: "unat len < length (contents cs)" using total(1) by (simp add: word_less_nat_alt)
    let ?s = "upd_buf (\<lambda>b. b\<lparr>b_total_len := b_total_len b - len\<rparr>) s"
    have "\<forall>(a, c) \<in> set cs. chain_ok c" using blocks by (auto simp: blocks_ok_def)
    then obtain es a c ds n where cs: "cs = es @ (a, c) # ds" and n: "unat n < unat (ch_offset c)"
      and rest: "drop (unat len) (contents cs) = drop (unat n) (contents ((a, c) # ds))"
      and loop: "delete_loop (chain_fuel ?s) (b_head (buf ?s)) len ?s = ret (a, n, ?s\<lparr>chains := map_of ((a, c) # ds),
        buf := (buf ?s)\<lparr>b_last_with_data := Some (last_slot ((a, c) # ds))\<rparr>\<rparr>)"
      using delete_loop_wf [of "b_head (buf ?s)" cs ?s len "chain_fuel ?s"] linked maps dist slot len fuel
      by (auto simp: upd_buf_def chain_fuel_def)
    let ?c = "c\<lparr>ch_misalign := ch_misalign c + n, ch_offset := ch_offset c - n\<rparr>"
    let ?t = "?s\<lparr>chains := map_of ((a, ?c) # ds), buf := (buf ?s)\<lparr>b_last_with_data := Some (last_slot ((a, c) # ds)), b_head := Some a\<rparr>\<rparr>"
    have run: "buffer_delete len s = ret (sint len, ?t)"
      using part loop not_le [of "b_total_len (buf s)" len] by (simp add: buffer_delete_def Let_def upd_chain_def rd_chain_def upd_buf_def)
    have c: "chain_ok c" using wf_block [OF wf, of a c] cs by simp
    have u: "unat (ch_misalign c + n) = unat (ch_misalign c) + unat n" "unat (ch_offset c - n) = unat (ch_offset c) - unat n"
      using c n by (auto simp: chain_ok_def intro!: unat_add_small unat_sub_small)
    then have bytes: "chain_bytes ?c = drop (unat n) (chain_bytes c)"
      using n by (simp add: chain_bytes_def drop_take add.commute)
    have ok: "chain_ok ?c" "ch_offset ?c \<noteq> 0" using c n u by (auto simp: chain_ok_def unat_eq_0 [symmetric])
    have contents: "contents ((a, ?c) # ds) = drop (unat len) (contents cs)"
      using rest bytes n length_chain_bytes [OF c] by simp
    have "unat (b_total_len (buf s) - len) = length (contents cs) - unat len"
      using total(1) len by (simp add: unat_sub_small)
    moreover have "blocks_ok (mallocs s) ((a, ?c) # ds)"
      using blocks ok unfolding cs blocks_ok_def by (cases es) auto
    moreover have "linked (Some a) ((a, ?c) # ds)" using linked_tl [of _ es a c ds] linked cs by simp
    moreover have "b_tail (buf s) = Some (fst (last ((a, ?c) # ds)))" using wf cs by (simp add: buffer_wf_def)
    moreover have "last_slot ((a, c) # ds) = last_slot ((a, ?c) # ds)" by (auto simp: last_slot_def)
    ultimately have "buffer_wf ?t ((a, ?c) # ds)"
      unfolding buffer_wf_def contents using total(2) by (simp add: upd_buf_def del: map_of.simps contents_simps)
    moreover have "sint len = int (min (unat len) (length (contents cs)))"
      using len total(2) by (subst sint_small) simp_all
    moreover have "b_last_read_pos (buf ?t) = b_last_read_pos (buf s)" by (simp add: upd_buf_def)
    ultimately show ?thesis
      using run contents by (intro exI [of _ ?t] exI [of _ "(a, ?c) # ds"] conjI) (simp_all only:)
  qed
qed

section \<open>Copying out\<close>

lemma buf_copyout_first:
  assumes wf: "buffer_wf s ((a, c) # cs)" and n: "n = min (unat len) (length (contents ((a, c) # cs)))"
    and first: "0 < n" "n < unat (ch_offset c)" and data: "n \<le> length data"
  shows "buf_copyout data len s = ret (word_of_nat n, take n (contents ((a, c) # cs)) @ drop n data)"
proof -
  let ?len = "if len > b_total_len (buf s) then b_total_len (buf s) else len"
  have total: "unat (b_total_len (buf s)) = length (contents ((a, c) # cs))" using wf by (simp add: buffer_wf_def)
  then have un: "unat ?len = n" using n by (auto simp: word_less_nat_alt)
  have c: "chain_ok c" "rd_chain s a = Inr c" using wf_block [OF wf, of a c] by (auto simp: rd_chain_def)
  have lens: "length (ch_buffer c) = unat (ch_buffer_len c)" "unat (ch_misalign c) + unat (ch_offset c) \<le> unat (ch_buffer_len c)"
    using c(1) by (auto simp: chain_ok_def)
  have cmp: "?len \<noteq> 0" "\<not> ch_offset c \<le> ?len"
    using un first by (auto simp: unat_eq_0 [symmetric] word_le_nat_alt)
  have head: "b_head (buf s) = Some a" using wf by (simp add: buffer_wf_def)
  have loop: "copyout_loop (chain_fuel s) s ?len (b_head (buf s)) data 0 = ret (Some a, data, 0)"
    using cmp c head by (simp add: chain_fuel_def deref_ptr_def)
  have mem: "memcpy data 0 (ch_buffer c) (unat (ch_misalign c)) (unat ?len) = Inr (take n (contents ((a, c) # cs)) @ drop n data)"
  proof -
    have "take n (contents ((a, c) # cs)) = take n (drop (unat (ch_misalign c)) (ch_buffer c))"
      using first(2) length_chain_bytes [OF c(1)] by (simp add: chain_bytes_def min_def)
    then show ?thesis unfolding un using first data lens by (simp add: memcpy_def)
  qed
  have "?len = word_of_nat n" unfolding un [symmetric] by simp
  then show ?thesis
    unfolding buf_copyout_def Let_def using cmp(1) loop mem c(2) by (simp add: deref_ptr_def)
qed

lemma buffer_remove_wf:
  assumes wf: "buffer_wf s cs" and n: "n = min (unat len) (length (contents cs))"
    and first: "n = 0 \<or> n < unat (ch_offset (snd (hd cs)))" and data: "n \<le> length data"
  shows "\<exists>s' cs'. buffer_remove data len s = ret (int n, take n (contents cs) @ drop n data, s') \<and> buffer_wf s' cs' \<and>
    contents cs' = drop n (contents cs)"
proof (cases "n = 0")
  case True
  have "unat (b_total_len (buf s)) = length (contents cs)" using wf by (simp add: buffer_wf_def)
  then have "(if len > b_total_len (buf s) then b_total_len (buf s) else len) = 0"
    using n True by (auto simp: word_less_nat_alt unat_eq_0 [symmetric])
  then have "buf_copyout data len s = ret (0, data)" by (simp add: buf_copyout_def Let_def)
  then show ?thesis using wf True by (intro exI [of _ s] exI [of _ cs]) (simp add: buffer_remove_def)
next
  case False
  then obtain x ds where cs: "cs = x # ds" using n by (cases cs) auto
  obtain a c where x: "x = (a, c)" by fastforce
  have out: "buf_copyout data len s = ret (word_of_nat n, take n (contents cs) @ drop n data)"
    using buf_copyout_first [of s a c ds n len data] wf n first False data cs x by simp
  have "length (contents cs) \<le> 2 ^ 24" using wf by (simp add: buffer_wf_def)
  then have "n \<le> 2 ^ 24" using n by simp
  then have un: "unat (word_of_nat n :: u32) = n"
    by (simp add: unsigned_of_nat take_bit_nat_eq_self)
  obtain s' cs' where del: "buffer_delete (word_of_nat n) s = ret (int n, s')" "buffer_wf s' cs'" "contents cs' = drop n (contents cs)"
    using buffer_delete_wf [OF wf, of "word_of_nat n"] un n by auto
  have "sint (word_of_nat n :: u32) = int n" using sint_small [of "word_of_nat n"] un \<open>n \<le> 2 ^ 24\<close> by simp
  then show ?thesis
    using out del un False by (intro exI [of _ s'] exI [of _ cs']) (simp add: buffer_remove_def word_less_nat_alt)
qed

text \<open>Taking everything out of a buffer with one block: the loop steps past the last block.\<close>

lemma buffer_remove_all_crashes:
  assumes wf: "buffer_wf s [(a, c)]" and len: "0 < unat (ch_offset c)" "unat (ch_offset c) \<le> unat len"
    and data: "unat (ch_offset c) \<le> length data"
  shows "buffer_remove data len s = Some (Inl NullDeref)"
proof -
  have c: "chain_ok c" "rd_chain s a = Inr c" using wf_block [OF wf, of a c] by (auto simp: rd_chain_def)
  have buf: "b_head (buf s) = Some a" "ch_next c = None" "unat (b_total_len (buf s)) = unat (ch_offset c)"
    using wf length_chain_bytes [OF c(1)] by (simp_all add: buffer_wf_def)
  then have total: "b_total_len (buf s) = ch_offset c" by (simp add: word_unat_eq_iff)
  then have len': "(if len > b_total_len (buf s) then b_total_len (buf s) else len) = ch_offset c"
    using len by (auto simp: word_less_nat_alt word_unat_eq_iff)
  have lens: "length (ch_buffer c) = unat (ch_buffer_len c)" "unat (ch_misalign c) + unat (ch_offset c) \<le> unat (ch_buffer_len c)"
    using c(1) by (auto simp: chain_ok_def)
  have "a < mallocs s" using wf_block [OF wf, of a c] by simp
  then obtain k where fuel: "chain_fuel s = Suc (Suc k)" by (cases "mallocs s") (auto simp: chain_fuel_def)
  have "ch_offset c \<noteq> 0" using len(1) by auto
  then have "buf_copyout data len s = Some (Inl NullDeref)"
    unfolding buf_copyout_def len' fuel using buf c lens data by (simp add: deref_ptr_def memcpy_def)
  then show ?thesis by (simp add: buffer_remove_def)
qed

end
