(* ===== verification/ChainBufferSearch.thy ===== *)
theory ChainBufferSearch
  imports ChainBufferCorrect
begin

text \<open>
  Searching and gathering on well-formed chain buffers: \<open>buffer_search\<close> finds the first match from
  \<open>last_read_pos\<close> on, across the borders of the blocks, and \<open>buffer_write_atmost\<close> moves all bytes into
  one block.
\<close>

section \<open>Comparing at a position\<close>

lemma sint_sub_nat:
  assumes "f \<le> unat (x :: u32)" "unat x < 2 ^ 31"
  shows "sint (x - word_of_int (int f)) = int (unat x - f)"
proof -
  have f: "unat (word_of_nat f :: u32) = f" using assms by (simp add: unsigned_of_nat take_bit_nat_eq_self)
  then have "unat (x - word_of_nat f) = unat x - f" using assms by (subst unat_sub_small) simp_all
  then show ?thesis using assms sint_small [of "x - word_of_nat f"] by simp
qed

lemma cmp_at_block:
  assumes "chain_ok c" "f + n \<le> unat (ch_offset c)" "off + n \<le> length sep"
  shows "cmp_at c (int f) sep (int off) (int n) = Inr (take n (drop f (chain_bytes c)) = take n (drop off sep))"
proof -
  have p: "uint (ch_misalign c) + int f = int (unat (ch_misalign c) + f)" by simp
  have "take n (drop f (chain_bytes c)) = take n (drop (unat (ch_misalign c) + f) (ch_buffer c))"
    using assms(2) by (simp add: chain_bytes_def drop_take add.commute min_def)
  moreover have "unat (ch_misalign c) + f + n \<le> length (ch_buffer c)" using assms(1,2) by (auto simp: chain_ok_def)
  ultimately show ?thesis
    unfolding cmp_at_def Let_def p using assms(3) by (simp add: memcmp_eq_def del: of_nat_add)
qed

lemma check_sep_wf:
  assumes "linked p ((a, c) # ds)" "\<forall>(b, d) \<in> set ((a, c) # ds). chains s b = Some d \<and> chain_ok d" "length ds < k"
    "f \<le> unat (ch_offset c)" "off + n \<le> length sep"
    "n \<le> length (drop f (chain_bytes c) @ contents ds)"
  shows "check_sep k s p (int f) sep (int off) (int n) =
    ret (take n (drop f (chain_bytes c) @ contents ds) = take n (drop off sep))"
  using assms
proof (induction ds arbitrary: k p a c f off n)
  case Nil
  obtain j where k: "k = Suc j" using Nil.prems(3) by (cases k) auto
  have c: "chain_ok c" "rd_chain s a = Inr c" "p = Some a" using Nil.prems by (auto simp: rd_chain_def)
  have small: "unat (ch_offset c) < 2 ^ 31" using c(1) by (auto simp: chain_ok_def)
  have len: "f + n \<le> unat (ch_offset c)" using Nil.prems(4,6) length_chain_bytes [OF c(1)] by simp
  then have "int (unat (ch_offset c) - f) \<ge> int n" by linarith
  then show ?case
    using k c cmp_at_block [OF c(1) len Nil.prems(5)] sint_sub_nat [OF Nil.prems(4) small]
    by (simp add: deref_ptr_def Let_def)
next
  case (Cons x ds)
  obtain b d where x: "x = (b, d)" by fastforce
  obtain j where k: "k = Suc j" using Cons.prems(3) by (cases k) auto
  have c: "chain_ok c" "rd_chain s a = Inr c" "p = Some a" using Cons.prems by (auto simp: rd_chain_def)
  have small: "unat (ch_offset c) < 2 ^ 31" using c(1) by (auto simp: chain_ok_def)
  define sz where "sz = unat (ch_offset c) - f"
  have sint: "sint (ch_offset c - word_of_int (int f)) = int sz"
    using sint_sub_nat [OF Cons.prems(4) small] by (simp add: sz_def)
  have blen: "length (drop f (chain_bytes c)) = sz" using length_chain_bytes [OF c(1)] by (simp add: sz_def)
  show ?case
  proof (cases "n \<le> sz")
    case True
    then have "f + n \<le> unat (ch_offset c)" using Cons.prems(4) by (simp add: sz_def)
    from cmp_at_block [OF c(1) this Cons.prems(5)] show ?thesis
      using k c sint True blen by (simp add: deref_ptr_def Let_def)
  next
    case False
    have cmp: "(if int sz > 0 then Some (cmp_at c (int f) sep (int off) (int sz)) else ret True) =
        ret (drop f (chain_bytes c) = take sz (drop off sep))"
    proof (cases "sz = 0")
      case True
      then show ?thesis using blen by simp
    next
      case sz: False
      have "f + sz \<le> unat (ch_offset c)" "off + sz \<le> length sep" using False Cons.prems(4,5) by (auto simp: sz_def)
      from cmp_at_block [OF c(1) this] show ?thesis using sz blen by simp
    qed
    have rest: "n - sz \<le> length (drop 0 (chain_bytes d) @ contents ds)" using Cons.prems(6) x blen by simp
    have ih: "check_sep j s (ch_next c) 0 sep (int off + int sz) (int n - int sz) =
        ret (take (n - sz) (chain_bytes d @ contents ds) = take (n - sz) (drop (off + sz) sep))"
      using Cons.IH [of "ch_next c" b d j 0 "off + sz" "n - sz"] Cons.prems x k rest False
      by (simp add: of_nat_diff)
    have "take n (drop f (chain_bytes c) @ contents (x # ds)) = drop f (chain_bytes c) @ take (n - sz) (chain_bytes d @ contents ds)"
      using False blen x by simp
    moreover have "take n (drop off sep) = take sz (drop off sep) @ take (n - sz) (drop (off + sz) sep)"
      using False take_add [of sz "n - sz" "drop off sep"] by (simp add: add.commute)
    moreover have "length (take sz (drop off sep)) = sz" using False Cons.prems(5) by simp
    ultimately have eq: "(take n (drop f (chain_bytes c) @ contents (x # ds)) = take n (drop off sep)) \<longleftrightarrow>
        drop f (chain_bytes c) = take sz (drop off sep) \<and>
        take (n - sz) (chain_bytes d @ contents ds) = take (n - sz) (drop (off + sz) sep)"
      using blen by (simp add: append_eq_append_conv)
    have "check_sep k s p (int f) sep (int off) (int n) =
        bind_run (if int sz > 0 then Some (cmp_at c (int f) sep (int off) (int sz)) else ret True) (\<lambda>same.
        if \<not> same then ret False else check_sep j s (ch_next c) 0 sep (int off + int sz) (int n - int sz))"
      unfolding k check_sep.simps c(3) deref_ptr_def option.case bind_run_simps c(2) Let_def sint using False by simp
    then show ?thesis unfolding eq cmp ih by simp
  qed
qed

section \<open>Searching\<close>

lemma skip_loop_wf:
  assumes "cs = es @ (a, c) # ds" "linked (Some a) ((a, c) # ds)" "\<forall>(b, d) \<in> set cs. chains s b = Some d \<and> chain_ok d"
    "unat bytes = length (contents (es @ [(a, c)]))" "length (contents cs) \<le> 2 ^ 24"
    "length (contents es) \<le> unat (b_last_read_pos (buf s))" "length ds < k"
  shows "skip_loop k s a bytes = ret None \<and> length (contents cs) \<le> unat (b_last_read_pos (buf s)) \<or>
    (\<exists>es' a' c' ds' bytes'. cs = es' @ (a', c') # ds' \<and> skip_loop k s a bytes = ret (Some (a', bytes')) \<and>
       unat bytes' = length (contents (es' @ [(a', c')])) \<and> length (contents es') \<le> unat (b_last_read_pos (buf s)) \<and>
       unat (b_last_read_pos (buf s)) < unat bytes')"
  using assms
proof (induction ds arbitrary: es a c k bytes)
  case Nil
  obtain j where k: "k = Suc j" using Nil.prems(7) by (cases k) auto
  have "rd_chain s a = Inr c" "ch_next c = None" using Nil.prems by (auto simp: rd_chain_def)
  then show ?case
    using Nil.prems k by (cases "bytes \<le> b_last_read_pos (buf s)") (auto simp: word_le_nat_alt not_le)
next
  case (Cons x ds)
  obtain b d where x: "x = (b, d)" by fastforce
  obtain j where k: "k = Suc j" using Cons.prems(7) by (cases k) auto
  have c: "rd_chain s a = Inr c" "ch_next c = Some b" "rd_chain s b = Inr d" "chain_ok d"
    using Cons.prems(1-3) x by (auto simp: rd_chain_def)
  show ?case
  proof (cases "bytes \<le> b_last_read_pos (buf s)")
    case False
    then have "skip_loop k s a bytes = ret (Some (a, bytes))" using k by simp
    moreover have "unat (b_last_read_pos (buf s)) < unat bytes" using False by (simp add: not_le word_less_nat_alt)
    ultimately show ?thesis using Cons.prems(1,4,6) by blast
  next
    case True
    then have le: "length (contents (es @ [(a, c)])) \<le> unat (b_last_read_pos (buf s))"
      using Cons.prems(4) by (simp add: word_le_nat_alt)
    have "unat (bytes + ch_offset d) = length (contents ((es @ [(a, c)]) @ [(b, d)]))"
      using Cons.prems(1,4,5) x length_chain_bytes [OF c(4)] by (subst unat_add_small) simp_all
    from Cons.IH [of "es @ [(a, c)]" b d "bytes + ch_offset d" j] this le Cons.prems x k c(2)
    have "skip_loop j s b (bytes + ch_offset d) = ret None \<and> length (contents cs) \<le> unat (b_last_read_pos (buf s)) \<or>
      (\<exists>es' a' c' ds' bytes'. cs = es' @ (a', c') # ds' \<and> skip_loop j s b (bytes + ch_offset d) = ret (Some (a', bytes')) \<and>
         unat bytes' = length (contents (es' @ [(a', c')])) \<and> length (contents es') \<le> unat (b_last_read_pos (buf s)) \<and>
         unat (b_last_read_pos (buf s)) < unat bytes')"
      by (simp del: skip_loop.simps contents_simps)
    moreover have "skip_loop k s a bytes = skip_loop j s b (bytes + ch_offset d)" using True k c by simp
    ultimately show ?thesis by (simp only:)
  qed
qed

lemma add_int_small: "m + n < 2 ^ 31 \<Longrightarrow> add_int (int m) (int n) = Inr (int (m + n))"
  by (simp add: add_int_def int_fits_def)

text \<open>
  Where a failed search from \<open>p\<close> for \<open>m\<close> bytes in \<open>n\<close> stops: behind the last position where the separator
  fits, except that the loop breaks off at the last byte without counting it when the separator is one byte.
\<close>

definition resume_pos :: "nat \<Rightarrow> nat \<Rightarrow> nat \<Rightarrow> nat" where
  "resume_pos p m n = max p (if m = 1 then n - 1 else Suc n - m)"

lemma resume_pos_simps:
  "0 < m \<Longrightarrow> m \<le> n \<Longrightarrow> i \<le> n - m \<Longrightarrow> Suc i < n \<Longrightarrow> resume_pos (Suc i) m n = resume_pos i m n"
  "0 < m \<Longrightarrow> n - m < i \<Longrightarrow> resume_pos i m n = i"
  "0 < m \<Longrightarrow> i \<le> n - m \<Longrightarrow> Suc i = n \<Longrightarrow> resume_pos i m n = i"
  by (auto simp: resume_pos_def)

lemma resume_pos_fits: "p \<le> j \<Longrightarrow> j < resume_pos p m n \<Longrightarrow> 0 < m \<Longrightarrow> m \<le> n \<Longrightarrow> j + m \<le> n"
  by (auto simp: resume_pos_def split: if_splits)

text \<open>What is found in the bytes at hand, or else in the bytes to come, is found from there.\<close>

lemma first_match_end_skip:
  assumes "i \<le> k" "\<And>j. i \<le> j \<Longrightarrow> j < k \<Longrightarrow> take (length sep) (drop j xs) \<noteq> sep"
  shows "first_match_end xs sep i = first_match_end xs sep k"
  using assms
proof (induction k rule: dec_induct)
  case (step n)
  have miss: "take (length sep) (drop n xs) \<noteq> sep" using step.prems step.hyps by simp
  have "first_match_end xs sep n = first_match_end xs sep (Suc n)"
    using miss by (cases "n \<le> length xs - length sep") (simp_all add: first_match_end_step first_match_end_stop)
  then show ?case using step by simp
qed simp

lemma no_match:
  assumes "first_match_end xs sep i = 0" "0 < length sep" "i \<le> j" "j \<le> length xs - length sep"
  shows "take (length sep) (drop j xs) \<noteq> sep"
proof (cases "List.find (\<lambda>j. take (length sep) (drop j xs) = sep) [i..<Suc (length xs - length sep)]")
  case None
  moreover have "j \<in> set [i..<Suc (length xs - length sep)]" using assms(3,4) by (auto simp del: upt_Suc)
  ultimately show ?thesis unfolding find_None_iff by blast
next
  case (Some k)
  then have "first_match_end xs sep i = int (k + length sep)" by (simp only: first_match_end_def option.case)
  then show ?thesis using assms(1,2) by linarith
qed

lemma search_resumes:
  assumes "first_match_end xs sep p = 0" "0 < length sep" "length sep \<le> length xs"
  shows "first_match_end (xs @ ys) sep p = first_match_end (xs @ ys) sep (resume_pos p (length sep) (length xs))"
proof (rule first_match_end_skip)
  fix j assume j: "p \<le> j" "j < resume_pos p (length sep) (length xs)"
  then have fits: "j + length sep \<le> length xs" using assms(2,3) by (rule resume_pos_fits)
  then have "take (length sep) (drop j (xs @ ys)) = take (length sep) (drop j xs)" by simp
  moreover have "take (length sep) (drop j xs) \<noteq> sep" using no_match [OF assms(1,2) j(1)] fits by simp
  ultimately show "take (length sep) (drop j (xs @ ys)) \<noteq> sep" by metis
qed (simp add: resume_pos_def)

lemma search_loop_wf:
  assumes blocks: "\<forall>(b, d) \<in> set cs. chains s b = Some d \<and> chain_ok d \<and> ch_offset d \<noteq> 0"
    and total: "unat (b_total_len (buf s)) = length (contents cs)" "length (contents cs) \<le> 2 ^ 24"
    and fuel: "length cs < chain_fuel s"
    and sep: "0 < length sep" "length sep \<le> length (contents cs)"
  shows "cs = es @ (a, c) # ds \<Longrightarrow> linked (Some a) ((a, c) # ds) \<Longrightarrow> i = length (contents es) + f \<Longrightarrow>
    f < unat (ch_offset c) \<Longrightarrow>
    search_loop s sep (int (length sep)) a (int f) (int (unat (ch_offset c) - f)) (int i) =
       ret (first_match_end (contents cs) sep i, if first_match_end (contents cs) sep i = 0
         then word_of_nat (resume_pos i (length sep) (length (contents cs))) else 0)"
proof (induction "length (contents cs) - i" arbitrary: es a c ds f i rule: less_induct)
  case less
  let ?xs = "contents cs" and ?m = "length sep"
  have c: "chain_ok c" "rd_chain s a = Inr c" "length (chain_bytes c) = unat (ch_offset c)"
    using blocks less.prems(1) length_chain_bytes by (auto simp: rd_chain_def)
  have len: "length ?xs = length (contents es) + unat (ch_offset c) + length (contents ds)"
    using less.prems(1) c(3) by simp
  have i: "i < length ?xs" using less.prems(3,4) len by simp
  have guard: "word_of_int (int i) \<le> b_total_len (buf s) - word_of_int (int ?m) \<longleftrightarrow> i \<le> length ?xs - ?m"
  proof -
    have "unat (word_of_nat i :: u32) = i" "unat (word_of_nat ?m :: u32) = ?m"
      using i sep(2) total(2) by (simp_all add: unsigned_of_nat take_bit_nat_eq_self)
    then show ?thesis using sep(2) total(1) by (simp add: word_le_nat_alt unat_sub_small)
  qed
  show ?case
  proof (cases "i \<le> length ?xs - ?m")
    case False
    then have "search_loop s sep (int ?m) a (int f) (int (unat (ch_offset c) - f)) (int i) = ret (0, word_of_nat i)"
      using guard by (subst search_loop.simps) simp
    moreover have "resume_pos i ?m (length ?xs) = i" using False sep(1) by (intro resume_pos_simps) simp_all
    ultimately show ?thesis using False by (simp add: first_match_end_stop)
  next
    case True
    have drop: "drop i ?xs = drop f (chain_bytes c) @ contents ds"
      using less.prems(1,3,4) c(3) by simp
    have enough: "?m \<le> length (drop f (chain_bytes c) @ contents ds)"
      using True sep(2) by (simp only: drop [symmetric] length_drop)
    have check: "check_sep (chain_fuel s) s (Some a) (int f) sep 0 (int ?m) = ret (take ?m (drop i ?xs) = sep)"
      using check_sep_wf [of "Some a" a c ds s "chain_fuel s" f 0 ?m sep] less.prems(1,2,4) blocks fuel enough
      unfolding drop by auto
    have unfold: "search_loop s sep (int ?m) a (int f) (int (unat (ch_offset c) - f)) (int i) =
       (if take ?m (drop i ?xs) = sep then bind_run (Some (add_int (int i) (int ?m))) (\<lambda>r. ret (r, 0))
        else
          bind_run (Some (add_int (int f) 1)) (\<lambda>start.
          bind_run (Some (add_int (int (unat (ch_offset c) - f)) (-1))) (\<lambda>bytes.
          if bytes = 0 then
            bind_run (Some (rd_chain s a)) (\<lambda>c.
            case ch_next c of
              None \<Rightarrow> ret (0, word_of_int (int i))
            | Some b \<Rightarrow>
                bind_run (Some (rd_chain s b)) (\<lambda>d.
                if \<not> int_fits (int i + 1) then Some (Inl SignedOverflow)
                else search_loop s sep (int ?m) b 0 (sint (ch_offset d)) (int i + 1)))
          else if \<not> int_fits (int i + 1) then Some (Inl SignedOverflow)
          else search_loop s sep (int ?m) a start bytes (int i + 1))))"
      using True guard check by (subst search_loop.simps) simp
    show ?thesis
    proof (cases "take ?m (drop i ?xs) = sep")
      case found: True
      have "add_int (int i) (int ?m) = Inr (int (i + ?m))" using i sep total by (intro add_int_small) simp
      then show ?thesis
        unfolding unfold using found True i sep(1) first_match_end_step [OF True]
        by (auto simp del: of_nat_add)
    next
      case miss: False
      have off: "unat (ch_offset c) \<le> 2 ^ 24" using c(1) by (simp add: chain_ok_def)
      have f1: "add_int (int f) 1 = Inr (int (Suc f))" using add_int_small [of f 1] less.prems(4) off by simp
      have b1: "add_int (int (unat (ch_offset c) - f)) (-1) = Inr (int (unat (ch_offset c) - Suc f))"
      proof -
        have "int (unat (ch_offset c) - f) + -1 = int (unat (ch_offset c) - Suc f)" using less.prems(4) by simp
        moreover have "int_fits (int (unat (ch_offset c) - Suc f))" using off by (intro int_fits_nat) simp
        ultimately show ?thesis by (simp only: add_int_def if_True)
      qed
      have i1: "int_fits (int i + 1)" "int i + 1 = int (Suc i)" using i total(2) by (auto simp: int_fits_def)
      have step: "first_match_end ?xs sep i = first_match_end ?xs sep (Suc i)"
        using first_match_end_step [OF True] miss by simp
      have resume: "resume_pos (Suc i) ?m (length ?xs) = resume_pos i ?m (length ?xs)" if "Suc i < length ?xs"
        using sep True that by (rule resume_pos_simps(1))
      show ?thesis
      proof (cases "Suc f = unat (ch_offset c)")
        case inside: False
        then have f: "Suc f < unat (ch_offset c)" using less.prems(4) by simp
        then have run: "search_loop s sep (int ?m) a (int f) (int (unat (ch_offset c) - f)) (int i) =
            search_loop s sep (int ?m) a (int (Suc f)) (int (unat (ch_offset c) - Suc f)) (int (Suc i))"
          unfolding unfold i1(2) using miss f1 b1 i1(1) [unfolded i1(2)] by (simp del: of_nat_Suc of_nat_diff)
        have "length ?xs - Suc i < length ?xs - i" using i by simp
        from less.hyps [OF this less.prems(1,2) _ f] less.prems(3) have
          "search_loop s sep (int ?m) a (int (Suc f)) (int (unat (ch_offset c) - Suc f)) (int (Suc i)) =
            ret (first_match_end ?xs sep (Suc i), if first_match_end ?xs sep (Suc i) = 0
              then word_of_nat (resume_pos (Suc i) ?m (length ?xs)) else 0)" by simp
        moreover have "Suc i < length ?xs" using f less.prems(3) len by simp
        ultimately show ?thesis unfolding run step using resume by simp
      next
        case last: True
        show ?thesis
        proof (cases ds)
          case Nil
          then have "Suc i = length ?xs" using less.prems(3) last len by simp
          then have "first_match_end ?xs sep (Suc i) = 0" using sep by (intro first_match_end_stop) linarith
          moreover have here: "resume_pos i ?m (length ?xs) = i" using sep(1) True \<open>Suc i = length ?xs\<close> by (rule resume_pos_simps(3))
          moreover have "ch_next c = None" using less.prems(2) Nil by simp
          ultimately show ?thesis
            unfolding unfold step using miss f1 b1 last c(2) here by simp
        next
          case (Cons x ds')
          obtain b d where x: "x = (b, d)" by fastforce
          have d: "rd_chain s b = Inr d" "ch_next c = Some b" "0 < unat (ch_offset d)" "unat (ch_offset d) < 2 ^ 31"
            using blocks less.prems(1,2) Cons x by (auto simp: rd_chain_def chain_ok_def unat_gt_0)
          then have run: "search_loop s sep (int ?m) a (int f) (int (unat (ch_offset c) - f)) (int i) =
              search_loop s sep (int ?m) b (int 0) (int (unat (ch_offset d) - 0)) (int (Suc i))"
            unfolding unfold i1(2) using miss f1 b1 i1(1) [unfolded i1(2)] last c(2) sint_small [OF d(4)] by (simp del: of_nat_Suc of_nat_diff)
          have "length ?xs - Suc i < length ?xs - i" using i by simp
          from less.hyps [OF this, of "es @ [(a, c)]" b d ds' 0] less.prems(1-3) Cons x d last c(3) have
            "search_loop s sep (int ?m) b (int 0) (int (unat (ch_offset d) - 0)) (int (Suc i)) =
              ret (first_match_end ?xs sep (Suc i), if first_match_end ?xs sep (Suc i) = 0
                then word_of_nat (resume_pos (Suc i) ?m (length ?xs)) else 0)" by simp
          moreover have "Suc i < length ?xs" using less.prems(3) last len d(3) Cons x blocks less.prems(1) length_chain_bytes [of d]
            by auto
          ultimately show ?thesis unfolding run step using resume by simp
        qed
      qed
    qed
  qed
qed

lemma buffer_search_wf:
  assumes wf: "buffer_wf s cs" and sep: "0 < length sep" "length sep \<le> length (contents cs)"
    and small: "unat (b_last_read_pos (buf s)) < 2 ^ 31"
  defines "p \<equiv> unat (b_last_read_pos (buf s))"
  shows "buffer_search sep (int (length sep)) s = ret (first_match_end (contents cs) sep p,
      upd_buf (\<lambda>b. b\<lparr>b_last_read_pos := if first_match_end (contents cs) sep p = 0
        then word_of_nat (resume_pos p (length sep) (length (contents cs))) else 0\<rparr>) s)"
proof -
  have total: "unat (b_total_len (buf s)) = length (contents cs)" "length (contents cs) \<le> 2 ^ 24"
    and linked: "linked (b_head (buf s)) cs" and blocks: "blocks_ok (mallocs s) cs"
    using wf by (simp_all add: buffer_wf_def)
  have fuel: "length cs < chain_fuel s" using blocks_le [OF blocks] by (simp add: chain_fuel_def)
  obtain x ds where cs: "cs = x # ds" using sep by (cases cs) auto
  obtain a c where x: "x = (a, c)" by fastforce
  have at: "\<forall>(b, d) \<in> set cs. chains s b = Some d \<and> chain_ok d" using wf_block [OF wf] by auto
  have c: "rd_chain s a = Inr c" "chain_ok c" using at cs x by (auto simp: rd_chain_def)
  have some: "\<forall>(b, d) \<in> set cs. chains s b = Some d \<and> chain_ok d \<and> ch_offset d \<noteq> 0"
  proof (cases ds)
    case Nil
    then show ?thesis using at cs x sep length_chain_bytes [OF c(2)] by auto
  next
    case (Cons y es)
    then have "1 < length cs" using cs by simp
    then show ?thesis using at blocks by (auto simp: blocks_ok_def)
  qed
  have head: "b_head (buf s) = Some a" using linked cs x by simp
  have off: "unat (ch_offset c) = length (contents ([] @ [(a, c)]))" using length_chain_bytes [OF c(2)] by simp
  have skip: "skip_loop (chain_fuel s) s a (ch_offset c) = ret None \<and> length (contents cs) \<le> p \<or>
    (\<exists>es' a' c' ds' bytes'. cs = es' @ (a', c') # ds' \<and> skip_loop (chain_fuel s) s a (ch_offset c) = ret (Some (a', bytes')) \<and>
       unat bytes' = length (contents (es' @ [(a', c')])) \<and> length (contents es') \<le> p \<and> p < unat bytes')"
    unfolding p_def using linked head cs x fuel at total
    by (intro skip_loop_wf [of cs "[]" a c ds s "ch_offset c" "chain_fuel s", OF _ _ _ off]) simp_all
  then show ?thesis
  proof (elim disjE exE conjE)
    assume none: "skip_loop (chain_fuel s) s a (ch_offset c) = ret None" "length (contents cs) \<le> p"
    then have "first_match_end (contents cs) sep p = 0" using sep by (intro first_match_end_stop) linarith
    moreover have "buffer_search sep (int (length sep)) s = ret (0, s)"
      using none(1) head c by (simp add: buffer_search_def)
    moreover have "resume_pos p (length sep) (length (contents cs)) = p" using none(2) sep by (intro resume_pos_simps(2)) linarith+
    ultimately show ?thesis by (simp add: p_def upd_buf_def)
  next
    fix es' a' c' ds' bytes'
    assume pos: "cs = es' @ (a', c') # ds'" "skip_loop (chain_fuel s) s a (ch_offset c) = ret (Some (a', bytes'))"
      "unat bytes' = length (contents (es' @ [(a', c')]))" "length (contents es') \<le> p" "p < unat bytes'"
    have c': "rd_chain s a' = Inr c'" "chain_ok c'" using at pos(1) by (auto simp: rd_chain_def)
    define f where "f = p - length (contents es')"
    have len: "unat bytes' = length (contents es') + unat (ch_offset c')" using pos(3) length_chain_bytes [OF c'(2)] by simp
    have f: "f < unat (ch_offset c')" "p = length (contents es') + f" using pos(4,5) len by (auto simp: f_def)
    have c'24: "unat (ch_offset c') \<le> 2 ^ 24" using c'(2) by (simp add: chain_ok_def)
    have left: "unat (bytes' - b_last_read_pos (buf s)) = unat (ch_offset c') - f"
      using pos(5) len f by (subst unat_sub_small) (simp_all add: p_def)
    then have start: "unat (ch_offset c' - (bytes' - b_last_read_pos (buf s))) = f"
      using f(1) by (subst unat_sub_small) simp_all
    have ints: "sint (bytes' - b_last_read_pos (buf s)) = int (unat (ch_offset c') - f)"
      "sint (ch_offset c' - (bytes' - b_last_read_pos (buf s))) = int f" "sint (b_last_read_pos (buf s)) = int p"
      using left start c'24 f(1) small sint_small [of "bytes' - b_last_read_pos (buf s)"]
        sint_small [of "ch_offset c' - (bytes' - b_last_read_pos (buf s))"] sint_small [of "b_last_read_pos (buf s)"]
      by (simp_all add: p_def)
    have "linked (Some a') ((a', c') # ds')" using linked_tl [of _ es' a' c' ds'] linked pos(1) by simp
    from search_loop_wf [OF some total fuel sep pos(1) this f(2,1)] show ?thesis
      unfolding buffer_search_def using head c(1) pos(2) c'(1) ints by (simp add: Let_def)
  qed
qed

section \<open>One block for all data\<close>

lemma copy_to_block:
  assumes "chains s = map_of ((tmp, t) # (a, c) # cs)" "a \<noteq> tmp" "a \<notin> fst ` set cs" "chain_ok c"
    "pos + unat (ch_offset c) \<le> length (ch_buffer t)"
  shows "bind_run (Some (copy_to tmp pos a (ch_offset c) s)) (\<lambda>s. bind_run (Some (free_chain a s)) g) =
    g (s\<lparr>chains := map_of ((tmp, t\<lparr>ch_buffer := take pos (ch_buffer t) @ chain_bytes c @ drop (pos + unat (ch_offset c)) (ch_buffer t)\<rparr>) # cs)\<rparr>)"
proof -
  let ?t = "t\<lparr>ch_buffer := take pos (ch_buffer t) @ chain_bytes c @ drop (pos + unat (ch_offset c)) (ch_buffer t)\<rparr>"
  have rd: "rd_chain s a = Inr c" "rd_chain s tmp = Inr t" using assms(1,2) by (auto simp: rd_chain_def)
  have "unat (ch_misalign c) + unat (ch_offset c) \<le> length (ch_buffer c)" using assms(4) by (simp add: chain_ok_def)
  then have copy: "copy_to tmp pos a (ch_offset c) s = Inr (s\<lparr>chains := (chains s)(tmp \<mapsto> ?t)\<rparr>)"
    using rd assms(5) by (simp add: copy_to_def upd_chain_def memcpy_def chain_bytes_def)
  have "((chains s)(tmp \<mapsto> ?t))(a := None) = map_of ((tmp, ?t) # cs)"
    unfolding assms(1) using assms(2,3) map_of_eq_None_iff [of cs a] by (auto simp: fun_eq_iff)
  moreover have "chains s a \<noteq> None" using assms(1,2) by simp
  ultimately have "free_chain a (s\<lparr>chains := (chains s)(tmp \<mapsto> ?t)\<rparr>) = Inr (s\<lparr>chains := map_of ((tmp, ?t) # cs)\<rparr>)"
    using assms(2) by (auto simp: free_chain_def)
  then show ?thesis using copy by simp
qed

lemma merge_loop_wf:
  assumes "linked p cs" "chains s = map_of ((tmp, t) # cs)" "distinct (tmp # map fst cs)" "\<forall>(a, c) \<in> set cs. chain_ok c"
    "unat sz = length (contents cs)" "pos + length (contents cs) \<le> length (ch_buffer t)" "length cs < k"
  shows "merge_loop k tmp lwd p sz pos removed s =
    ret (None, 0, pos + length (contents cs), removed \<or> lwd \<in> Some ` fst ` set cs,
      s\<lparr>chains := [tmp \<mapsto> t\<lparr>ch_buffer := take pos (ch_buffer t) @ contents cs @ drop (pos + length (contents cs)) (ch_buffer t)\<rparr>]\<rparr>)"
  using assms
proof (induction cs arbitrary: p s t sz pos removed k)
  case Nil
  obtain j where k: "k = Suc j" using Nil.prems by (cases k) auto
  have "sz = 0" using Nil.prems(5) by (simp add: unat_eq_0)
  moreover have "[tmp \<mapsto> t] = chains s" using Nil.prems(2) by (simp add: fun_eq_iff)
  then have "s\<lparr>chains := [tmp \<mapsto> t]\<rparr> = s" by simp
  ultimately show ?case using Nil.prems k by simp
next
  case (Cons x cs)
  obtain a c where x: "x = (a, c)" by fastforce
  obtain j where k: "k = Suc j" using Cons.prems(7) by (cases k) auto
  let ?off = "unat (ch_offset c)"
  let ?t = "t\<lparr>ch_buffer := take pos (ch_buffer t) @ chain_bytes c @ drop (pos + ?off) (ch_buffer t)\<rparr>"
  let ?s = "s\<lparr>chains := map_of ((tmp, ?t) # cs)\<rparr>"
  have c: "chain_ok c" "rd_chain s a = Inr c" "p = Some a" "length (chain_bytes c) = ?off"
    using Cons.prems x length_chain_bytes by (auto simp: rd_chain_def)
  have sz: "unat sz = ?off + length (contents cs)" using Cons.prems(5) x c(4) by simp
  have un: "unat (sz - ch_offset c) = length (contents cs)" using sz by (subst unat_sub_small) simp_all
  have le: "ch_offset c \<le> sz" using sz by (simp add: word_le_nat_alt)
  have copy: "bind_run (Some (copy_to tmp pos a (ch_offset c) s)) (\<lambda>s. bind_run (Some (free_chain a s)) g) = g ?s"
    for g :: "chain_state \<Rightarrow> (nat option \<times> u32 \<times> nat \<times> bool \<times> chain_state) res option"
    using Cons.prems(2,3,6) x c by (intro copy_to_block) auto
  have "merge_loop k tmp lwd p sz pos removed s =
      merge_loop j tmp lwd (ch_next c) (sz - ch_offset c) (pos + ?off) (removed \<or> lwd = Some a) ?s"
    using c le unfolding k c(3) merge_loop.simps c(2) bind_run_simps copy by simp
  also have "\<dots> = ret (None, 0, pos + ?off + length (contents cs), (removed \<or> lwd = Some a) \<or> lwd \<in> Some ` fst ` set cs,
      ?s\<lparr>chains := [tmp \<mapsto> ?t\<lparr>ch_buffer := take (pos + ?off) (ch_buffer ?t) @ contents cs @
        drop (pos + ?off + length (contents cs)) (ch_buffer ?t)\<rparr>]\<rparr>)"
    using Cons.prems x c(4) un k by (intro Cons.IH) auto
  also have "take (pos + ?off) (ch_buffer ?t) @ contents cs @ drop (pos + ?off + length (contents cs)) (ch_buffer ?t) =
      take pos (ch_buffer t) @ contents (x # cs) @ drop (pos + length (contents (x # cs))) (ch_buffer t)"
    using Cons.prems(6) x c(4) by (simp add: add.commute add.left_commute)
  finally show ?case using x c(4) by (simp add: add.assoc)
qed

text \<open>The second half of \<open>buffer_write_atmost\<close>: all further blocks go to the block \<open>tmp\<close>.\<close>

lemma gather_wf:
  assumes "linked p cs" "chains s = map_of ((tmp, t) # cs)" "distinct (tmp # map fst cs)" "\<forall>(a, c) \<in> set cs. chain_ok c"
    "unat sz = length (contents cs)" "pos + length (contents cs) \<le> length (ch_buffer t)" "length cs < chain_fuel s"
    and lwd: "last_data s = Inr lwd" "lwd \<in> Some ` fst ` set cs"
  shows "gather tmp p sz pos s = ret (Some (tmp, ch_misalign t),
    upd_buf (\<lambda>b. b\<lparr>b_tail := Some tmp, b_last_with_data := Some HeadSlot\<rparr>)
      (s\<lparr>chains := map_of [(tmp, t\<lparr>ch_buffer := take pos (ch_buffer t) @ contents cs @ drop (pos + length (contents cs)) (ch_buffer t),
        ch_next := None\<rparr>)]\<rparr>))"
  unfolding gather_def lwd(1) using lwd(2)
  by (simp add: merge_loop_wf [OF assms(1-7)] upd_chain_def rd_chain_def upd_buf_def del: One_nat_def)

lemma scan_loop_wf:
  "linked p cs \<Longrightarrow> \<forall>(a, c) \<in> set cs. chains s a = Some c \<Longrightarrow> length cs < k \<Longrightarrow> scan_loop k s p n = ret ()"
proof (induction cs arbitrary: p n k)
  case Nil
  then show ?case by (cases k) simp_all
next
  case (Cons x cs)
  obtain a c where x: "x = (a, c)" by fastforce
  obtain j where k: "k = Suc j" using Cons.prems by (cases k) auto
  show ?case using Cons.IH [of "ch_next c" j "n - ch_offset c"] Cons.prems x k by (simp add: rd_chain_def)
qed

text \<open>A buffer of one block that holds the bytes of all blocks.\<close>

lemma wf_single:
  assumes wf: "buffer_wf s cs" and c: "chain_ok c" "ch_next c = None" "chain_bytes c = contents cs" and a: "a < m"
  shows "buffer_wf (upd_buf (\<lambda>b. b\<lparr>b_tail := Some a, b_last_with_data := Some HeadSlot, b_head := Some a\<rparr>)
    (s\<lparr>chains := map_of [(a, c)], mallocs := m\<rparr>)) [(a, c)]"
  using assms by (simp add: buffer_wf_def upd_buf_def blocks_ok_def last_slot_def)

lemma buffer_write_atmost_wf:
  assumes wf: "buffer_wf s cs" and ne: "cs \<noteq> []"
  shows "(\<exists>s' a c. buffer_write_atmost s = ret (Some (a, ch_misalign c), s') \<and> buffer_wf s' [(a, c)] \<and>
      chain_bytes c = contents cs) \<or>
    (\<exists>s'. buffer_write_atmost s = ret (None, s') \<and> buffer_wf s' cs \<and>
      (2 ^ 24 - 32 < length (contents cs) \<or> (\<exists>k n. \<not> grants s k n)))"
proof -
  obtain x ds where cs: "cs = x # ds" using ne by (cases cs) auto
  obtain a c where x: "x = (a, c)" by fastforce
  have total: "unat (b_total_len (buf s)) = length (contents cs)" "length (contents cs) \<le> 2 ^ 24"
    and linked: "linked (Some a) ((a, c) # ds)" and head: "b_head (buf s) = Some a" and maps: "chains s = map_of ((a, c) # ds)"
    and dist: "distinct (map fst cs)" and slot: "b_last_with_data (buf s) = Some (last_slot cs)"
    and blocks: "blocks_ok (mallocs s) cs"
    using wf unfolding buffer_wf_def blocks_ok_def cs x by (auto simp only: linked.simps)
  have fuel: "length cs < chain_fuel s" using blocks_le [OF blocks] by (simp add: chain_fuel_def)
  have at: "\<forall>(b, d) \<in> set cs. chains s b = Some d" and ok: "\<forall>(b, d) \<in> set cs. chain_ok d"
    and lt: "\<forall>(b, d) \<in> set cs. b < mallocs s" using wf_block [OF wf] by auto
  have c: "rd_chain s a = Inr c" "chain_ok c" "length (chain_bytes c) = unat (ch_offset c)" "a < mallocs s"
    using at ok lt cs x length_chain_bytes by (auto simp: rd_chain_def)
  let ?sz = "b_total_len (buf s)"
  show ?thesis
  proof (cases ds)
    case Nil
    then have "ch_offset c \<ge> ?sz" using total(1) cs x c(3) by (simp add: word_le_nat_alt)
    then have "buffer_write_atmost s = ret (Some (a, ch_misalign c), s)"
      using head c(1) by (simp add: buffer_write_atmost_def deref_ptr_def)
    then show ?thesis using wf Nil cs x by auto
  next
    case (Cons y es)
    have more: "1 < length cs" using Cons cs by simp
    then have "\<forall>(b, d) \<in> set cs. ch_offset d \<noteq> 0" using blocks by (simp add: blocks_ok_def)
    then have "contents ds \<noteq> []" using Cons cs ok length_chain_bytes [of "snd y"]
      by (cases y) (auto simp flip: length_greater_0_conv simp: unat_gt_0)
    then have small: "\<not> ch_offset c \<ge> ?sz" using total(1) cs x c(3) by (simp add: word_le_nat_alt not_le)
    have dsz: "unat (?sz - ch_offset c) = length (contents ds)"
      using total(1) cs x c(3) by (subst unat_sub_small) simp_all
    have scan: "scan_loop (chain_fuel s) s (ch_next c) (?sz - ch_offset c) = ret ()"
      using scan_loop_wf [of "ch_next c" ds s] linked at fuel cs by auto
    have lwd: "Some (fst (last cs)) \<in> Some ` fst ` set ds" "Some (fst (last cs)) \<in> Some ` fst ` set cs"
      using Cons cs by (auto intro!: imageI simp: last_in_set)
    have bytes: "contents cs = chain_bytes c @ contents ds" using cs x by simp
    show ?thesis
    proof (cases "ch_buffer_len c - ch_misalign c \<ge> ?sz")
      case True
      then have room: "unat (ch_misalign c) + length (contents cs) \<le> unat (ch_buffer_len c)"
        using c(2) total(1) by (auto simp: word_le_nat_alt chain_ok_def unat_sub_small)
      let ?t = "c\<lparr>ch_offset := ?sz\<rparr>" and ?pos = "unat (ch_misalign c) + unat (ch_offset c)"
      let ?s = "s\<lparr>chains := map_of ((a, ?t) # ds)\<rparr>"
      let ?c = "?t\<lparr>ch_buffer := take ?pos (ch_buffer ?t) @ contents ds @ drop (?pos + length (contents ds)) (ch_buffer ?t), ch_next := None\<rparr>"
      have upd: "upd_chain a (\<lambda>c. c\<lparr>ch_offset := ?sz\<rparr>) s = Inr ?s"
        using c(1) maps by (simp add: upd_chain_def)
      have len: "length (ch_buffer c) = unat (ch_buffer_len c)" using c(2) by (simp add: chain_ok_def)
      have "(a, d) \<notin> set ds" for d using dist cs x by force
      then have "last_data ?s = Inr (Some (fst (last ((a, ?t) # ds))))"
        using linked at slot more cs x dist by (intro last_data_linked [of "Some a"]) (auto simp: last_slot_def)
      then have data: "last_data ?s = Inr (Some (fst (last cs)))" using Cons cs by simp
      have "gather a (ch_next c) (?sz - ch_offset c) ?pos ?s = ret (Some (a, ch_misalign ?t),
          upd_buf (\<lambda>b. b\<lparr>b_tail := Some a, b_last_with_data := Some HeadSlot\<rparr>) (?s\<lparr>chains := map_of [(a, ?c)]\<rparr>))"
        using linked dist ok dsz room len bytes c(3) cs x fuel
        by (intro gather_wf [OF _ _ _ _ _ _ _ data lwd(1)]) (auto simp: chain_fuel_def)
      then have run: "buffer_write_atmost s = ret (Some (a, ch_misalign ?c),
          upd_buf (\<lambda>b. b\<lparr>b_tail := Some a, b_last_with_data := Some HeadSlot, b_head := Some a\<rparr>)
            (s\<lparr>chains := map_of [(a, ?c)], mallocs := mallocs s\<rparr>))"
        unfolding buffer_write_atmost_def using head c(1) small scan True upd by (simp add: deref_ptr_def Let_def upd_buf_def)
      have bc: "chain_bytes ?c = contents cs"
        using c(2,3) len room total(1) bytes by (simp add: chain_bytes_def chain_ok_def drop_take)
      have "chain_ok ?c"
        using c(2,3) len room total(1) bytes \<open>contents ds \<noteq> []\<close> by (auto simp: chain_ok_def unat_eq_0 [symmetric])
      have "ch_next ?c = None" by simp
      from wf_single [OF wf \<open>chain_ok ?c\<close> this bc c(4)] run bc show ?thesis by blast
    next
      case False
      consider (big) "buf_chain_new ?sz s = Some (None, s)" "2 ^ 24 - 32 < unat ?sz"
        | (refused) n where "buf_chain_new ?sz s = Some (None, s\<lparr>mallocs := Suc (mallocs s)\<rparr>)" "\<not> grants s (mallocs s) n"
        | (granted) n where "unat ?sz \<le> unat n" "0 < unat n" "unat n \<le> 2 ^ 24 - 32" "buf_chain_new ?sz s =
          Some (Some (mallocs s), s\<lparr>mallocs := Suc (mallocs s), chains := (chains s)(mallocs s \<mapsto> fresh_block (mallocs s) s n)\<rparr>)"
        using buf_chain_new_cases [of ?sz s] by (auto split: if_splits)
      then show ?thesis
      proof cases
        case big
        then have "buffer_write_atmost s = ret (None, s)"
          unfolding buffer_write_atmost_def using head c(1) small scan False by (simp add: deref_ptr_def Let_def)
        then show ?thesis using wf big total(1) by auto
      next
        case (refused n)
        then have "buffer_write_atmost s = ret (None, s\<lparr>mallocs := Suc (mallocs s)\<rparr>)"
          unfolding buffer_write_atmost_def using head c(1) small scan False by (simp add: deref_ptr_def Let_def)
        moreover have "buffer_wf (s\<lparr>mallocs := Suc (mallocs s)\<rparr>) cs"
          using wf by (fastforce simp: buffer_wf_def blocks_ok_def)
        ultimately show ?thesis using refused(2) by auto
      next
        case (granted n)
        let ?m = "mallocs s"
        let ?f = "fresh_block ?m s n" let ?t = "?f\<lparr>ch_offset := ?sz\<rparr>"
        let ?s = "s\<lparr>mallocs := Suc ?m, chains := map_of ((?m, ?t) # cs), buf := (buf s)\<lparr>b_head := Some ?m\<rparr>\<rparr>"
        let ?c = "?t\<lparr>ch_buffer := take 0 (ch_buffer ?t) @ contents cs @ drop (0 + length (contents cs)) (ch_buffer ?t), ch_next := None\<rparr>"
        have f: "length (ch_buffer ?f) = unat n" "ch_misalign ?f = 0" "ch_buffer_len ?f = n" by (simp_all add: fresh_block_def)
        have mcs: "chains s = map_of cs" using maps cs x by simp
        have "chains ?s b = Some d" if "(b, d) \<in> set cs" for b d
          using that at lt mcs by fastforce
        then have "last_data ?s = Inr (Some (fst (last cs)))"
          using linked slot more cs x by (intro last_data_linked [of "Some a"]) (auto simp del: map_of.simps)
        then have "gather ?m (Some a) ?sz 0 ?s = ret (Some (?m, ch_misalign ?t),
            upd_buf (\<lambda>b. b\<lparr>b_tail := Some ?m, b_last_with_data := Some HeadSlot\<rparr>) (?s\<lparr>chains := map_of [(?m, ?c)]\<rparr>))"
          using linked dist ok total(1) granted(1) f cs x fuel lt
          by (intro gather_wf [OF _ _ _ _ _ _ _ _ lwd(2)]) (auto simp: chain_fuel_def)
        then have run: "buffer_write_atmost s = ret (Some (?m, ch_misalign ?c),
            upd_buf (\<lambda>b. b\<lparr>b_tail := Some ?m, b_last_with_data := Some HeadSlot, b_head := Some ?m\<rparr>)
              (s\<lparr>chains := map_of [(?m, ?c)], mallocs := Suc ?m\<rparr>))"
          unfolding buffer_write_atmost_def using head c(1) small scan False granted(4) mcs
          by (simp add: deref_ptr_def Let_def upd_buf_def upd_chain_def rd_chain_def)
        have "contents cs \<noteq> []" using bytes \<open>contents ds \<noteq> []\<close> by simp
        then have bc: "chain_bytes ?c = contents cs" and "chain_ok ?c"
          using f granted(1-3) total(1)
          by (auto simp: chain_bytes_def chain_ok_def unat_eq_0 [symmetric])
        have "ch_next ?c = None" by simp
        from wf_single [OF wf \<open>chain_ok ?c\<close> this bc, of ?m "Suc ?m"] run bc show ?thesis by blast
      qed
    qed
  qed
qed

end
