(* ===== verification/ChainBufferProps.thy ===== *)
theory ChainBufferProps
  imports ChainBufferSearch
begin

text \<open>
  The properties of the chain buffer on well-formed buffers, with a sample buffer of two blocks for
  their witnesses, and the calls that go wrong.
\<close>

section \<open>A small buffer\<close>

text \<open>The bytes 1, 2, 3 in a first block behind one byte that was deleted, and 13, 10 in a second block.\<close>

definition sample_block :: "nat option \<Rightarrow> u32 \<Rightarrow> u32 \<Rightarrow> u8 list \<Rightarrow> buf_chain_s" where
  "sample_block p mis off bs = \<lparr>ch_next = p, ch_buffer_len = word_of_nat (length bs), ch_misalign = mis, ch_offset = off,
     ch_buffer = bs\<rparr>"

definition sample_blocks :: "block list" where
  "sample_blocks = [(0, sample_block (Some 1) 1 3 [0, 1, 2, 3]), (1, sample_block None 0 2 [13, 10, 0, 0, 0])]"

definition sample_buf :: "u32 \<Rightarrow> chain_state" where
  "sample_buf pos = \<lparr>buf = \<lparr>b_head = Some 0, b_tail = Some 1, b_last_with_data = Some (NextSlot 0), b_total_len = 5,
       b_last_read_pos = pos\<rparr>,
     chains = map_of sample_blocks, grants = (\<lambda>_ _. True), garbage = (\<lambda>_ _. 0), mallocs = 2\<rparr>"

lemma sample_contents: "contents sample_blocks = [1, 2, 3, 13, 10]"
  by (simp add: sample_blocks_def sample_block_def chain_bytes_def)

lemma sample_wf: "buffer_wf (sample_buf pos) sample_blocks"
  unfolding buffer_wf_def sample_contents
  by (simp add: sample_buf_def sample_blocks_def sample_block_def blocks_ok_def chain_ok_def last_slot_def)

section \<open>Properties\<close>

text \<open>
  C4. \<open>buffer_add\<close> appends: on a well-formed buffer, unless it takes the branch that realigns the last
  block, the call stays in bounds, keeps the buffer well-formed and either appends the bytes, with
  result 0 when the last block had the space and -1 when a further block was linked in, or changes
  no contents and returns -1; the latter only when the buffer would exceed its maximum size or memory is refused.
\<close>

theorem buffer_add_appends:
  assumes "buffer_wf s cs" "unat len \<le> length data" "\<not> realigns cs len"
  shows "\<exists>r s' cs'. buffer_add data len s = ret (r, s') \<and> buffer_wf s' cs' \<and>
    (contents cs' = contents cs @ take (unat len) data \<and> r = (if spills cs len then -1 else 0) \<or>
     contents cs' = contents cs \<and> r = -1 \<and>
       (2 ^ 24 - 32 < length (contents cs) + unat len \<or> (\<exists>k n. \<not> grants s k n)))"
  by (rule buffer_add_wf [OF assms])

theorem buffer_add_appends_witness:
  "\<exists>s' cs'. buffer_add [7, 8, 9] 2 (sample_buf 0) = ret (0, s') \<and> buffer_wf s' cs' \<and> contents cs' = [1, 2, 3, 13, 10, 7, 8]"
proof -
  have "\<not> spills sample_blocks 2" by (simp add: spills_def space_def sample_blocks_def sample_block_def)
  then show ?thesis
    using buffer_add_appends [OF sample_wf [of 0], of 2 "[7, 8, 9]"]
    by (auto simp: realigns_def sample_contents sample_buf_def)
qed

text \<open>
  C5. \<open>buffer_delete\<close> drops from the front: on a well-formed buffer it frees exactly the blocks that are
  used up, each once and no other, keeps the buffer well-formed, drops that many bytes of the contents
  (all of them when there are fewer) and returns how many it dropped.
\<close>

theorem buffer_delete_drops:
  assumes "buffer_wf s cs"
  shows "\<exists>s' cs'. buffer_delete len s = ret (int (min (unat len) (length (contents cs))), s') \<and> buffer_wf s' cs' \<and>
    contents cs' = drop (unat len) (contents cs) \<and> b_last_read_pos (buf s') = b_last_read_pos (buf s)"
  by (rule buffer_delete_wf [OF assms])

theorem buffer_delete_drops_witness:
  "\<exists>s' cs'. buffer_delete 4 (sample_buf 0) = ret (4, s') \<and> buffer_wf s' cs' \<and> contents cs' = [10]"
  using buffer_delete_drops [OF sample_wf [of 0], of 4] by (auto simp: sample_contents)

text \<open>
  C6. For a separator that is neither empty nor longer than the contents (a longer one makes the bound of the
  loop wrap around and can crash, see below), \<open>buffer_search\<close> finds the first occurrence of the separator that starts at
  \<open>last_read_pos\<close> or later, across the borders of blocks, and returns its end, or 0 when there is none. After a success
  \<open>last_read_pos\<close> is 0; after a failure it is moved to \<open>resume_pos\<close>, and a search from there, whatever bytes have been
  appended in between, finds what a search from the old position finds: an occurrence that is completed
  later is not missed.
\<close>

theorem buffer_search_finds:
  assumes "buffer_wf s cs" "0 < length sep" "length sep \<le> length (contents cs)"
    and "unat (b_last_read_pos (buf s)) < 2 ^ 31"
  defines "p \<equiv> unat (b_last_read_pos (buf s))"
  shows "\<exists>s'. buffer_search sep (int (length sep)) s = ret (first_match_end (contents cs) sep p, s') \<and>
    (\<exists>q. s' = upd_buf (\<lambda>b. b\<lparr>b_last_read_pos := q\<rparr>) s \<and>
      (if first_match_end (contents cs) sep p \<noteq> 0 then q = 0
       else unat q = resume_pos p (length sep) (length (contents cs)) \<and>
         (\<forall>ys. first_match_end (contents cs @ ys) sep (unat q) = first_match_end (contents cs @ ys) sep p)))"
proof (cases "first_match_end (contents cs) sep p = 0")
  case True
  let ?q = "resume_pos p (length sep) (length (contents cs))"
  have "length (contents cs) \<le> 2 ^ 24" using assms(1) by (simp add: buffer_wf_def)
  then have "?q < 2 ^ 31" using assms(4) by (auto simp: resume_pos_def p_def)
  then have "unat (word_of_nat ?q :: u32) = ?q" by (simp add: unsigned_of_nat take_bit_nat_eq_self)
  then show ?thesis
    using True buffer_search_wf [OF assms(1-4)] search_resumes [OF True assms(2,3)] by (auto simp flip: p_def)
next
  case False
  then show ?thesis using buffer_search_wf [OF assms(1-4)] by (auto simp flip: p_def)
qed

theorem buffer_search_finds_witness:
  "(\<exists>s'. buffer_search [3, 13] 2 (sample_buf 1) = ret (4, s') \<and> b_last_read_pos (buf s') = 0) \<and>
   (\<exists>s'. buffer_search [10, 9] 2 (sample_buf 1) = ret (0, s') \<and> unat (b_last_read_pos (buf s')) = 4)"
proof -
  have "first_match_end [1, 2, 3, 13, 10] [3, 13] 1 = 4" "first_match_end [1, 2, 3, 13, 10] [10, 9] 1 = 0"
    by (simp_all add: first_match_end_def upt_rec)
  moreover have "unat (b_last_read_pos (buf (sample_buf 1))) = 1" "resume_pos 1 2 5 = 4"
    by (simp_all add: sample_buf_def resume_pos_def)
  ultimately show ?thesis
    using buffer_search_finds [OF sample_wf [of 1], of "[3, 13]"] buffer_search_finds [OF sample_wf [of 1], of "[10, 9]"]
    by (auto simp: sample_contents upd_buf_def resume_pos_def)
qed

text \<open>
  C7. \<open>buffer_write_atmost\<close> makes the contents contiguous: on a well-formed buffer with a block, the
  returned pointer is where all bytes of the buffer stand in order, and the buffer has exactly
  this block left; or it returns null, only when the size or the memory is refused, with the buffer as before.
\<close>

theorem buffer_write_atmost_gathers:
  assumes "buffer_wf s cs" "cs \<noteq> []"
  shows "(\<exists>s' a c. buffer_write_atmost s = ret (Some (a, ch_misalign c), s') \<and> buffer_wf s' [(a, c)] \<and>
      chain_bytes c = contents cs) \<or>
    (\<exists>s'. buffer_write_atmost s = ret (None, s') \<and> buffer_wf s' cs \<and>
      (2 ^ 24 - 32 < length (contents cs) \<or> (\<exists>k n. \<not> grants s k n)))"
  by (rule buffer_write_atmost_wf [OF assms])

theorem buffer_write_atmost_gathers_witness:
  "\<exists>s' a c. buffer_write_atmost (sample_buf 0) = ret (Some (a, ch_misalign c), s') \<and> buffer_wf s' [(a, c)] \<and>
     chain_bytes c = [1, 2, 3, 13, 10]"
proof -
  have "sample_blocks \<noteq> []" by (simp add: sample_blocks_def)
  from buffer_write_atmost_gathers [OF sample_wf [of 0] this] show ?thesis
    by (auto simp: sample_contents sample_buf_def)
qed

section \<open>Deviations\<close>

text \<open>A new buffer has a null \<open>last_with_data\<close>; the first addition reads through it.\<close>

lemma buffer_add_new_crashes:
  assumes "buffer_new True sz = Some (buf s)" "len \<le> BUFFER_CHAIN_MAX"
  shows "buffer_add data len s = Some (Inl NullDeref)"
proof -
  have "buf s = the (buffer_new True sz)" unfolding assms(1) by simp
  then have "b_last_with_data (buf s) = None" "b_total_len (buf s) = 0" by (simp_all add: buffer_new_def)
  then show ?thesis using assms(2) by (simp add: buffer_add_def last_data_def deref_ptr_def not_less)
qed

text \<open>Realigning reports success, and counts the new bytes in \<open>total_len\<close> but not in the block.\<close>

lemma realigning_loses_data:
  assumes wf: "buffer_wf s (ds @ [(a, c)])" and re: "realigns (ds @ [(a, c)]) len"
    and len: "unat len \<le> length data" "length (contents (ds @ [(a, c)])) + unat len \<le> 2 ^ 24"
  shows "\<exists>s' c'. buffer_add data len s = ret (0, s') \<and> chains s' a = Some c' \<and> ch_offset c' = ch_offset c \<and>
    b_total_len (buf s') = b_total_len (buf s) + len"
proof -
  have c: "chain_ok c" "rd_chain s a = Inr c" using wf_block [OF wf, of a c] by (auto simp: rd_chain_def)
  have lens: "length (ch_buffer c) = unat (ch_buffer_len c)" "unat (ch_misalign c) + unat (ch_offset c) \<le> unat (ch_buffer_len c)"
    using c(1) by (auto simp: chain_ok_def)
  have cond: "\<not> len \<le> ch_buffer_len c - ch_misalign c - ch_offset c" "buf_chain_should_realign c len"
    using re unat_remain [OF c(1)] by (auto simp: realigns_def spills_def word_le_nat_alt not_le)
  then have room: "unat (ch_offset c) + unat len \<le> unat (ch_buffer_len c)"
    using lens(2) by (auto simp: buf_chain_should_realign_def word_le_nat_alt unat_sub_small)
  have "unat (BUFFER_CHAIN_MAX - b_total_len (buf s)) = 2 ^ 24 - length (contents (ds @ [(a, c)]))"
    using wf by (subst unat_sub_small) (simp_all add: BUFFER_CHAIN_MAX_def buffer_wf_def)
  then have fits: "\<not> len > BUFFER_CHAIN_MAX - b_total_len (buf s)" using len(2) by (simp add: word_less_nat_alt)
  have add: "buffer_add data len s = add_at a data len s"
    using fits last_data_wf [OF wf] by (simp add: buffer_add_def)
  define b where "b = take (unat (ch_offset c)) (drop (unat (ch_misalign c)) (ch_buffer c)) @ drop (unat (ch_offset c)) (ch_buffer c)"
  let ?c = "c\<lparr>ch_buffer := b, ch_misalign := 0\<rparr>" let ?s = "s\<lparr>chains := (chains s)(a \<mapsto> ?c)\<rparr>"
  have "length b = unat (ch_buffer_len c)" using lens by (simp add: b_def)
  then have "write_end a data 0 len ?s = Inr (s\<lparr>chains := (chains s)(a \<mapsto>
      ?c\<lparr>ch_buffer := take (unat (ch_offset c)) b @ take (unat len) data @ drop (unat (ch_offset c) + unat len) b\<rparr>)\<rparr>)"
    using len(1) room by (simp add: write_end_def rd_chain_def upd_chain_def memcpy_def)
  moreover have "buf_chain_align c = Inr ?c" using lens by (simp add: buf_chain_align_def memcpy_def b_def)
  moreover have "upd_chain a (\<lambda>_. ?c) s = Inr ?s" using c(2) by (simp add: upd_chain_def)
  ultimately show ?thesis
    unfolding add using c(2) cond by (simp add: add_at_def Let_def add_total_def upd_buf_def)
qed

text \<open>
  A position left by a failed search is kept when bytes are deleted, and the next search starts behind
  a separator that is there.
\<close>

lemma stale_read_pos_misses:
  "\<exists>s'. buffer_search [13, 10] 2 (sample_buf 4) = ret (0, s') \<and> first_match_end (contents sample_blocks) [13, 10] 0 = 5"
proof -
  have "first_match_end [1, 2, 3, 13, 10] [13, 10] 4 = 0" by (simp add: first_match_end_def)
  moreover have "first_match_end [1, 2, 3, 13, 10] [13, 10] 0 = 5" by (simp add: first_match_end_def upt_rec)
  moreover have "unat (b_last_read_pos (buf (sample_buf 4))) = 4" by (simp add: sample_buf_def)
  ultimately show ?thesis
    using buffer_search_wf [OF sample_wf [of 4], of "[13, 10]"] by (auto simp: sample_contents)
qed

text \<open>A separator that is longer than the contents: the unsigned bound wraps around and the search runs off the end.\<close>

lemma long_separator_crashes:
  assumes "buffer_wf s [(a, c)]" "chain_bytes c = [13]" "b_last_read_pos (buf s) = 0"
  shows "buffer_search [13, 10] 2 s = Some (Inl NullDeref)"
proof -
  have c: "chain_ok c" "rd_chain s a = Inr c" "a < mallocs s" using wf_block [OF assms(1), of a c] by (auto simp: rd_chain_def)
  have one: "unat (ch_offset c) = 1" using length_chain_bytes [OF c(1)] assms(2) by simp
  then have off: "ch_offset c = 1" by (metis unat_1 word_unat_eq_iff)
  have "unat (b_total_len (buf s)) = 1" using assms(1,2) by (simp add: buffer_wf_def)
  then have total: "b_total_len (buf s) = 1" by (metis unat_1 word_unat_eq_iff)
  have buf: "b_head (buf s) = Some a" "ch_next c = None" using assms(1) by (simp_all add: buffer_wf_def)
  obtain k where fuel: "chain_fuel s = Suc (Suc k)" using c(3) by (cases "mallocs s") (auto simp: chain_fuel_def)
  have "cmp_at c (int 0) [13, 10] (int 0) (int 1) = Inr (take 1 (drop 0 (chain_bytes c)) = take 1 (drop 0 [13, 10]))"
    by (rule ChainBufferSearch.cmp_at_block [OF c(1)]) (simp_all add: one)
  then have "check_sep (chain_fuel s) s (Some a) 0 [13, 10] 0 2 = Some (Inl NullDeref)"
    unfolding fuel using c(2) buf off assms(2) by (simp add: deref_ptr_def Let_def)
  then have "search_loop s [13, 10] 2 a 0 1 0 = Some (Inl NullDeref)"
    by (subst search_loop.simps) (simp add: total)
  then show ?thesis
    using buf c(2) off assms(3) fuel by (simp add: buffer_search_def Let_def)
qed

text \<open>An empty buffer has no head to look at.\<close>

lemma write_atmost_empty_crashes: "buffer_wf s [] \<Longrightarrow> buffer_write_atmost s = Some (Inl NullDeref)"
  by (simp add: buffer_write_atmost_def deref_ptr_def)

end
