(* ===== verification/SkipList.thy ===== *)
theory SkipList
  imports Interfaces
begin

text \<open>
  The skip list of \<^verbatim>\<open>Atomic & Lock/skiplist.h\<close>. Nodes are never freed, so the heap is the
  list of nodes in the order of their allocation and a pointer is an index into it, with the
  head at 0 and \<open>None\<close> for the null pointer. Every pointer and every link that is followed
  is checked, and so is every \<open>assert\<close>. The search loops have no bound in the code; they
  are one partial loop over a step function per search, shown to end on every list the
  operations build. Random draws are an argument of \<open>RandomHeight\<close>.
\<close>

section \<open>Comparators\<close>

text \<open>The contract of the \<open>Comparator\<close> template argument: a three-way order on keys.\<close>

locale comparator =
  fixes cmp :: "'k \<Rightarrow> 'k \<Rightarrow> int"
  assumes cmp_sym: "cmp a b < 0 \<longleftrightarrow> cmp b a > 0"
    and cmp_trans: "cmp a b < 0 \<Longrightarrow> cmp b c < 0 \<Longrightarrow> cmp a c < 0"
    and cmp_eq: "cmp a b = 0 \<Longrightarrow> cmp b c < 0 \<longleftrightarrow> cmp a c < 0"
begin

lemma cmp_refl: "cmp a a = 0"
  using cmp_sym [of a a] by auto

lemma cmp_zero_sym: "cmp a b = 0 \<longleftrightarrow> cmp b a = 0"
  using cmp_sym [of a b] cmp_sym [of b a] by auto

lemma cmp_eq2: "cmp a b = 0 \<Longrightarrow> cmp c b < 0 \<longleftrightarrow> cmp c a < 0"
proof -
  have "cmp c x < 0" if "cmp x y = 0" "cmp c y < 0" for x y
    using that cmp_eq [of c x y] cmp_trans [of x c y] cmp_sym [of x c]
    by (cases "cmp c x = 0") auto
  then show "cmp a b = 0 \<Longrightarrow> cmp c b < 0 \<longleftrightarrow> cmp c a < 0"
    using cmp_zero_sym [of a b] by blast
qed

end

text \<open>
  The comparator of the repository's test: the difference of two 32-bit integers. A difference
  that leaves the type is undefined in the language; here it wraps, and the comparator is
  then no order. Where the difference fits it is \<open>int_compare\<close>, the exact difference, which is an order.
\<close>

definition IntComparator :: "u32 \<Rightarrow> u32 \<Rightarrow> int" where
  "IntComparator a b = sint (a - b)"

lemma IntComparator_no_order:
  "IntComparator 0x7FFFFFFF (- 2) < 0" "IntComparator (- 2) 0 < 0" "\<not> IntComparator 0x7FFFFFFF 0 < 0"
  by (simp_all add: IntComparator_def)

lemma sint_eq_iff: "sint (a :: u32) = sint b \<longleftrightarrow> a = b"
  by (auto intro: injD [OF inj_signed])

definition int_compare :: "u32 \<Rightarrow> u32 \<Rightarrow> int" where
  "int_compare a b = sint a - sint b"

lemma IntComparator_exact:
  assumes "int_fits (sint a - sint b)"
  shows "IntComparator a b = int_compare a b"
proof -
  have "signed_take_bit 31 (sint a - sint b) = sint a - sint b"
    using assms by (intro signed_take_bit_int_eq_self) (auto simp: int_fits_def)
  then show ?thesis
    by (simp add: int_compare_def IntComparator_def sint_word_ariths)
qed

lemma int_compare_less: "int_compare a b < 0 \<longleftrightarrow> sint a < sint b" "int_compare a b = 0 \<longleftrightarrow> a = b"
  by (simp_all add: int_compare_def sint_eq_iff)

interpretation int_cmp: comparator int_compare
  by unfold_locales (auto simp: int_compare_def)

section \<open>Nodes and the list\<close>

record 'k node =
  nkey :: 'k
  links :: "nat option list"

record 'k skiplist =
  kMaxHeight :: nat
  kBranching :: nat
  kScaledInverseBranching :: u32
  nodes :: "'k node list"
  max_height :: nat
  prev :: "nat list"
  prev_height :: nat

abbreviation head :: nat where "head \<equiv> 0"

definition node_at :: "'k skiplist \<Rightarrow> nat \<Rightarrow> 'k node res" where
  "node_at s x = (if x < length (nodes s) then Inr (nodes s ! x) else Inl UseAfterFree)"

definition Next :: "'k skiplist \<Rightarrow> nat \<Rightarrow> nat \<Rightarrow> nat option res" where
  "Next s x n = bind_res (node_at s x) (\<lambda>nd.
     if n < length (links nd) then Inr (links nd ! n) else Inl OutOfBounds)"

definition SetNext :: "'k skiplist \<Rightarrow> nat \<Rightarrow> nat \<Rightarrow> nat option \<Rightarrow> 'k skiplist res" where
  "SetNext s x n v = bind_res (node_at s x) (\<lambda>nd.
     if n < length (links nd)
     then Inr (s\<lparr>nodes := (nodes s)[x := nd\<lparr>links := (links nd)[n := v]\<rparr>]\<rparr>)
     else Inl OutOfBounds)"

definition key_at :: "'k skiplist \<Rightarrow> nat \<Rightarrow> 'k res" where
  "key_at s x = bind_res (node_at s x) (\<lambda>nd. Inr (nkey nd))"

text \<open>
  The links of a new node hold no defined value until they are set; here they are null. The memory is
  always granted: the code hands the result of \<open>malloc\<close> to placement \<open>new\<close> without a test.
\<close>

definition NewNode :: "'k skiplist \<Rightarrow> 'k \<Rightarrow> nat \<Rightarrow> nat \<times> 'k skiplist" where
  "NewNode s k h =
     (length (nodes s), s\<lparr>nodes := nodes s @ [\<lparr>nkey = k, links = replicate h None\<rparr>]\<rparr>)"

definition Equal :: "('k \<Rightarrow> 'k \<Rightarrow> int) \<Rightarrow> 'k \<Rightarrow> 'k \<Rightarrow> bool" where
  "Equal cmp a b \<longleftrightarrow> cmp a b = 0"

definition LessThan :: "('k \<Rightarrow> 'k \<Rightarrow> int) \<Rightarrow> 'k \<Rightarrow> 'k \<Rightarrow> bool" where
  "LessThan cmp a b \<longleftrightarrow> cmp a b < 0"

definition KeyIsAfterNode :: "('k \<Rightarrow> 'k \<Rightarrow> int) \<Rightarrow> 'k skiplist \<Rightarrow> 'k \<Rightarrow> nat option \<Rightarrow> bool res" where
  "KeyIsAfterNode cmp s k n =
     (case n of None \<Rightarrow> Inr False | Some x \<Rightarrow> bind_res (key_at s x) (\<lambda>kx. Inr (cmp kx k < 0)))"

section \<open>The search loops\<close>

text \<open>
  What one turn of a search does: return, move along the level, or go down a level. The
  last component is what the turn carries along.
\<close>

datatype ('r, 'a) turn = Stop 'r | Forward nat 'a | Down 'a

partial_function (option) walk :: "(nat \<Rightarrow> nat \<Rightarrow> 'a \<Rightarrow> ('r, 'a) turn res) \<Rightarrow> nat \<Rightarrow> nat \<Rightarrow> 'a \<Rightarrow> 'r res option" where
  "walk f x level a =
     (case f x level a of
        Inl e \<Rightarrow> Some (Inl e)
      | Inr t \<Rightarrow> (case t of
            Stop r \<Rightarrow> Some (Inr r)
          | Forward y a' \<Rightarrow> walk f y level a'
          | Down a' \<Rightarrow> walk f x (level - 1) a'))"

text \<open>The two assertions of the searches: the level is sorted, the search did not overshoot.\<close>

definition assert_sorted :: "('k \<Rightarrow> 'k \<Rightarrow> int) \<Rightarrow> 'k skiplist \<Rightarrow> nat \<Rightarrow> nat option \<Rightarrow> unit res" where
  "assert_sorted cmp s x nxt =
     (if x = head then Inr ()
      else case nxt of None \<Rightarrow> Inr ()
           | Some y \<Rightarrow> bind_res (key_at s y) (\<lambda>ky. bind_res (KeyIsAfterNode cmp s ky (Some x)) check))"

definition assert_before :: "('k \<Rightarrow> 'k \<Rightarrow> int) \<Rightarrow> 'k skiplist \<Rightarrow> 'k \<Rightarrow> nat \<Rightarrow> unit res" where
  "assert_before cmp s k x = (if x = head then Inr () else bind_res (KeyIsAfterNode cmp s k (Some x)) check)"

definition fge_turn :: "('k \<Rightarrow> 'k \<Rightarrow> int) \<Rightarrow> 'k skiplist \<Rightarrow> 'k \<Rightarrow> nat \<Rightarrow> nat \<Rightarrow> nat option
    \<Rightarrow> (nat option, nat option) turn res" where
  "fge_turn cmp s k x level last_bigger =
     bind_res (Next s x level) (\<lambda>nxt.
     bind_res (assert_sorted cmp s x nxt) (\<lambda>_.
     bind_res (assert_before cmp s k x) (\<lambda>_.
       case nxt of
         None \<Rightarrow> Inr (if level = 0 then Stop nxt else Down nxt)
       | Some y \<Rightarrow>
           bind_res (if nxt = last_bigger then Inr 1 else bind_res (key_at s y) (\<lambda>ky. Inr (cmp ky k))) (\<lambda>c.
             Inr (if c = 0 \<or> (c > 0 \<and> level = 0) then Stop nxt
                  else if c < 0 then Forward y last_bigger
                  else Down nxt)))))"

definition FindGreaterOrEqual :: "('k \<Rightarrow> 'k \<Rightarrow> int) \<Rightarrow> 'k skiplist \<Rightarrow> 'k \<Rightarrow> nat option res option" where
  "FindGreaterOrEqual cmp s k = walk (fge_turn cmp s k) head (max_height s - 1) None"

text \<open>
  \<open>FindLessThan\<close> carries \<open>last_not_after\<close> and the array it fills (\<open>None\<close> when the caller
  passed a null pointer).
\<close>

definition flt_turn :: "('k \<Rightarrow> 'k \<Rightarrow> int) \<Rightarrow> 'k skiplist \<Rightarrow> 'k \<Rightarrow> nat \<Rightarrow> nat \<Rightarrow> nat option \<times> nat list option
    \<Rightarrow> (nat \<times> nat list option, nat option \<times> nat list option) turn res" where
  "flt_turn cmp s k x level a =
     (case a of (last_not_after, pv) \<Rightarrow>
     bind_res (Next s x level) (\<lambda>nxt.
     bind_res (assert_sorted cmp s x nxt) (\<lambda>_.
     bind_res (assert_before cmp s k x) (\<lambda>_.
     bind_res (if nxt = last_not_after then Inr False else KeyIsAfterNode cmp s k nxt) (\<lambda>after.
       case (after, nxt) of
         (True, Some y) \<Rightarrow> Inr (Forward y a)
       | _ \<Rightarrow>
          bind_res (case pv of None \<Rightarrow> Inr None
                    | Some p \<Rightarrow> if level < length p then Inr (Some (p[level := x])) else Inl OutOfBounds) (\<lambda>pv'.
            Inr (if level = 0 then Stop (x, pv') else Down (nxt, pv'))))))))"

definition FindLessThan :: "('k \<Rightarrow> 'k \<Rightarrow> int) \<Rightarrow> 'k skiplist \<Rightarrow> 'k \<Rightarrow> nat list option
    \<Rightarrow> (nat \<times> nat list option) res option" where
  "FindLessThan cmp s k pv = walk (flt_turn cmp s k) head (max_height s - 1) (None, pv)"

definition last_turn :: "'k skiplist \<Rightarrow> nat \<Rightarrow> nat \<Rightarrow> unit \<Rightarrow> (nat, unit) turn res" where
  "last_turn s x level u =
     bind_res (Next s x level) (\<lambda>nxt.
       Inr (case nxt of None \<Rightarrow> if level = 0 then Stop x else Down () | Some y \<Rightarrow> Forward y ()))"

definition FindLast :: "'k skiplist \<Rightarrow> nat res option" where
  "FindLast s = walk (last_turn s) head (max_height s - 1) ()"

definition count_turn :: "('k \<Rightarrow> 'k \<Rightarrow> int) \<Rightarrow> 'k skiplist \<Rightarrow> 'k \<Rightarrow> nat \<Rightarrow> nat \<Rightarrow> u64 \<Rightarrow> (u64, u64) turn res" where
  "count_turn cmp s k x level count =
     bind_res (if x = head then Inr () else bind_res (key_at s x) (\<lambda>kx. check (cmp kx k < 0))) (\<lambda>_.
     bind_res (Next s x level) (\<lambda>nxt.
     bind_res (case nxt of None \<Rightarrow> Inr True | Some y \<Rightarrow> bind_res (key_at s y) (\<lambda>ky. Inr (cmp ky k \<ge> 0))) (\<lambda>stop.
       case (stop, nxt) of
         (False, Some y) \<Rightarrow> Inr (Forward y (count + 1))
       | _ \<Rightarrow> Inr (if level = 0 then Stop count else Down (count * word_of_nat (kBranching s))))))"

definition EstimateCount :: "('k \<Rightarrow> 'k \<Rightarrow> int) \<Rightarrow> 'k skiplist \<Rightarrow> 'k \<Rightarrow> u64 res option" where
  "EstimateCount cmp s k = walk (count_turn cmp s k) head (max_height s - 1) 0"

definition Contains :: "('k \<Rightarrow> 'k \<Rightarrow> int) \<Rightarrow> 'k skiplist \<Rightarrow> 'k \<Rightarrow> bool res option" where
  "Contains cmp s k =
     (case FindGreaterOrEqual cmp s k of
        None \<Rightarrow> None
      | Some r \<Rightarrow> Some (bind_res r (\<lambda>x.
          case x of None \<Rightarrow> Inr False
          | Some y \<Rightarrow> bind_res (key_at s y) (\<lambda>ky. Inr (Equal cmp k ky)))))"

section \<open>Construction and insertion\<close>

text \<open>
  The constructor: the narrowing casts to 16 bits, the division, the allocation of the head
  with \<open>max_height\<close> links and the assertions, which come after them.
\<close>

definition SkipList_new :: "'k \<Rightarrow> int \<Rightarrow> int \<Rightarrow> 'k skiplist res" where
  "SkipList_new zero max_h branching_factor =
     (let kmh = nat (max_h mod 2 ^ 16); kb = nat (branching_factor mod 2 ^ 16)
      in if kb = 0 then Inl DivByZero
         else let scaled = (0xffffffff :: u32) div word_of_nat kb
              in bind_res (check (max_h > 0 \<and> int kmh = max_h)) (\<lambda>_.
                 bind_res (check (branching_factor > 0 \<and> int kb = branching_factor)) (\<lambda>_.
                 bind_res (check (scaled > 0)) (\<lambda>_.
                   Inr \<lparr>kMaxHeight = kmh, kBranching = kb, kScaledInverseBranching = scaled,
                     nodes = [\<lparr>nkey = zero, links = replicate (nat max_h) None\<rparr>],
                     max_height = 1, prev = replicate kmh head, prev_height = 1\<rparr>))))"

text \<open>\<open>rnd i\<close> is the value of the \<open>i\<close>th draw from the random source.\<close>

function random_height_from :: "'k skiplist \<Rightarrow> (nat \<Rightarrow> u32) \<Rightarrow> nat \<Rightarrow> nat" where
  "random_height_from s rnd height =
     (if height < kMaxHeight s \<and> rnd (height - 1) < kScaledInverseBranching s
      then random_height_from s rnd (height + 1) else height)"
  by pat_completeness auto
termination
  by (relation "measure (\<lambda>(s, rnd, h). kMaxHeight s - h)") auto

declare random_height_from.simps [simp del]

definition RandomHeight :: "'k skiplist \<Rightarrow> (nat \<Rightarrow> u32) \<Rightarrow> nat res" where
  "RandomHeight s rnd =
     (let height = random_height_from s rnd 1
      in bind_res (check (height > 0)) (\<lambda>_. bind_res (check (height \<le> kMaxHeight s)) (\<lambda>_. Inr height)))"

text \<open>\<open>for (i = a; i < b; i++) prev_[i] = x\<close>.\<close>

function fill_prev :: "nat \<Rightarrow> nat \<Rightarrow> nat \<Rightarrow> nat list \<Rightarrow> nat list res" where
  "fill_prev i b x p =
     (if i < b then (if i < length p then fill_prev (i + 1) b x (p[i := x]) else Inl OutOfBounds)
      else Inr p)"
  by pat_completeness auto
termination
  by (relation "measure (\<lambda>(i, b, x, p). b - i)") auto

declare fill_prev.simps [simp del]

text \<open>The linking loop of \<open>Insert\<close>: the new node takes over the successor of \<open>prev_[i]\<close>.\<close>

function link_from :: "nat \<Rightarrow> nat \<Rightarrow> nat \<Rightarrow> 'k skiplist \<Rightarrow> 'k skiplist res" where
  "link_from i height x s =
     (if i < height
      then if i < length (prev s)
           then bind_res (Next s (prev s ! i) i) (\<lambda>nxt.
                bind_res (SetNext s x i nxt) (\<lambda>s1.
                bind_res (SetNext s1 (prev s ! i) i (Some x)) (\<lambda>s2. link_from (i + 1) height x s2)))
           else Inl OutOfBounds
      else Inr s)"
  by pat_completeness auto
termination
  by (relation "measure (\<lambda>(i, h, x, s). h - i)") auto

declare link_from.simps [simp del]

text \<open>The state after the predecessors are found, up to the end of \<open>Insert\<close>.\<close>

definition insert_at_prev :: "('k \<Rightarrow> 'k \<Rightarrow> int) \<Rightarrow> (nat \<Rightarrow> u32) \<Rightarrow> 'k \<Rightarrow> 'k skiplist \<Rightarrow> 'k skiplist res" where
  "insert_at_prev cmp rnd k s =
     bind_res (Next s (prev s ! 0) 0) (\<lambda>nxt.
     bind_res (case nxt of None \<Rightarrow> Inr () | Some y \<Rightarrow> bind_res (key_at s y) (\<lambda>ky. check (\<not> Equal cmp k ky))) (\<lambda>_.
     bind_res (RandomHeight s rnd) (\<lambda>height.
     bind_res (if height > max_height s
               then bind_res (fill_prev (max_height s) height head (prev s))
                      (\<lambda>p. Inr (s\<lparr>prev := p, max_height := height\<rparr>))
               else Inr s) (\<lambda>s1.
       let (x, s2) = NewNode s1 k height
       in bind_res (link_from 0 height x s2) (\<lambda>s3.
            Inr (s3\<lparr>prev := (prev s3)[0 := x], prev_height := height\<rparr>))))))"

definition fast_path :: "('k \<Rightarrow> 'k \<Rightarrow> int) \<Rightarrow> 'k skiplist \<Rightarrow> 'k \<Rightarrow> bool res" where
  "fast_path cmp s k =
     bind_res (Next s (prev s ! 0) 0) (\<lambda>nxt.
     bind_res (KeyIsAfterNode cmp s k nxt) (\<lambda>a.
       if a then Inr False
       else if prev s ! 0 = head then Inr True else KeyIsAfterNode cmp s k (Some (prev s ! 0))))"

definition Insert :: "('k \<Rightarrow> 'k \<Rightarrow> int) \<Rightarrow> (nat \<Rightarrow> u32) \<Rightarrow> 'k skiplist \<Rightarrow> 'k \<Rightarrow> 'k skiplist res option" where
  "Insert cmp rnd s k =
     (case fast_path cmp s k of
        Inl e \<Rightarrow> Some (Inl e)
      | Inr True \<Rightarrow>
          Some (bind_res (check (prev s ! 0 \<noteq> head \<or> (prev_height s = 1 \<and> max_height s = 1))) (\<lambda>_.
                bind_res (fill_prev 1 (prev_height s) (prev s ! 0) (prev s)) (\<lambda>p.
                insert_at_prev cmp rnd k (s\<lparr>prev := p\<rparr>))))
      | Inr False \<Rightarrow>
          (case FindLessThan cmp s k (Some (prev s)) of
             None \<Rightarrow> None
           | Some r \<Rightarrow> Some (bind_res r (\<lambda>(_, pv).
               insert_at_prev cmp rnd k (s\<lparr>prev := (case pv of None \<Rightarrow> prev s | Some p \<Rightarrow> p)\<rparr>)))))"

section \<open>Iterators\<close>

text \<open>An iterator is its node pointer; the list it belongs to is passed along.\<close>

type_synonym iter = "nat option"

definition Valid :: "iter \<Rightarrow> bool" where
  "Valid it \<longleftrightarrow> it \<noteq> None"

definition iter_key :: "'k skiplist \<Rightarrow> iter \<Rightarrow> 'k res" where
  "iter_key s it = (case it of None \<Rightarrow> Inl AssertFail | Some x \<Rightarrow> key_at s x)"

definition iter_Next :: "'k skiplist \<Rightarrow> iter \<Rightarrow> iter res" where
  "iter_Next s it = (case it of None \<Rightarrow> Inl AssertFail | Some x \<Rightarrow> Next s x 0)"

definition iter_Prev :: "('k \<Rightarrow> 'k \<Rightarrow> int) \<Rightarrow> 'k skiplist \<Rightarrow> iter \<Rightarrow> iter res option" where
  "iter_Prev cmp s it =
     (case it of
        None \<Rightarrow> Some (Inl AssertFail)
      | Some x \<Rightarrow> (case key_at s x of
            Inl e \<Rightarrow> Some (Inl e)
          | Inr kx \<Rightarrow> (case FindLessThan cmp s kx None of
                None \<Rightarrow> None
              | Some r \<Rightarrow> Some (bind_res r (\<lambda>(y, _). Inr (if y = head then None else Some y))))))"

definition Seek :: "('k \<Rightarrow> 'k \<Rightarrow> int) \<Rightarrow> 'k skiplist \<Rightarrow> 'k \<Rightarrow> iter res option" where
  "Seek cmp s target = FindGreaterOrEqual cmp s target"

definition SeekToFirst :: "'k skiplist \<Rightarrow> iter res" where
  "SeekToFirst s = Next s head 0"

definition SeekToLast :: "'k skiplist \<Rightarrow> iter res option" where
  "SeekToLast s =
     (case FindLast s of None \<Rightarrow> None | Some r \<Rightarrow> Some (bind_res r (\<lambda>x. Inr (if x = head then None else Some x))))"

partial_function (option) retreat :: "('k \<Rightarrow> 'k \<Rightarrow> int) \<Rightarrow> 'k skiplist \<Rightarrow> 'k \<Rightarrow> iter \<Rightarrow> iter res option" where
  "retreat cmp s target it =
     (case it of
        None \<Rightarrow> Some (Inr None)
      | Some x \<Rightarrow> (case iter_key s it of
            Inl e \<Rightarrow> Some (Inl e)
          | Inr kx \<Rightarrow>
              if LessThan cmp target kx
              then Option.bind (iter_Prev cmp s it)
                     (\<lambda>r. case r of Inl e \<Rightarrow> Some (Inl e) | Inr it' \<Rightarrow> retreat cmp s target it')
              else Some (Inr it)))"

definition SeekForPrev :: "('k \<Rightarrow> 'k \<Rightarrow> int) \<Rightarrow> 'k skiplist \<Rightarrow> 'k \<Rightarrow> iter res option" where
  "SeekForPrev cmp s target =
     Option.bind (Seek cmp s target) (\<lambda>r. case r of
        Inl e \<Rightarrow> Some (Inl e)
      | Inr it \<Rightarrow>
          if Valid it then retreat cmp s target it
          else Option.bind (SeekToLast s) (\<lambda>r. case r of
                 Inl e \<Rightarrow> Some (Inl e) | Inr it' \<Rightarrow> retreat cmp s target it'))"

end
