(* ===== verification/SkipListInsert.thy ===== *)
theory SkipListInsert
  imports SkipListCorrect
begin

text \<open>
  Insertion into the skip list: the loops of \<open>Insert\<close> in closed form, the relinking lemma,
  and the preservation of the representation, on the fast path for sequential insertions and
  on the search path.
\<close>

section \<open>The loops of insertion\<close>

lemma fill_prev_ok:
  "b \<le> length p \<Longrightarrow> \<exists>p'. fill_prev i b x p = Inr p' \<and> length p' = length p
     \<and> (\<forall>j < length p. p' ! j = (if i \<le> j \<and> j < b then x else p ! j))"
proof (induction i b x p rule: fill_prev.induct)
  case (1 i b x p)
  show ?case
  proof (cases "i < b")
    case True
    with 1 obtain p' where "fill_prev (i + 1) b x (p[i := x]) = Inr p'" "length p' = length p"
        "\<forall>j < length p. p' ! j = (if i + 1 \<le> j \<and> j < b then x else p[i := x] ! j)"
      by auto
    moreover from this True 1(2) have "\<forall>j < length p. p' ! j = (if i \<le> j \<and> j < b then x else p ! j)"
      by (auto simp: nth_list_update)
    ultimately show ?thesis using True 1(2) by (subst fill_prev.simps) auto
  next
    case False
    then show ?thesis by (subst fill_prev.simps) auto
  qed
qed

lemma random_height_bounds:
  "h \<le> kMaxHeight s \<Longrightarrow> h \<le> random_height_from s rnd h \<and> random_height_from s rnd h \<le> kMaxHeight s"
proof (induction s rnd h rule: random_height_from.induct)
  case (1 s rnd h)
  then show ?case by (subst (1 2) random_height_from.simps) auto
qed

lemma RandomHeight_ok:
  assumes "1 \<le> kMaxHeight s"
  shows "\<exists>h. RandomHeight s rnd = Inr h \<and> 1 \<le> h \<and> h \<le> kMaxHeight s"
  using random_height_bounds [OF assms, of rnd] by (auto simp: RandomHeight_def Let_def)

text \<open>What a state shares with another but for its links.\<close>

definition same_shape :: "'k skiplist \<Rightarrow> 'k skiplist \<Rightarrow> bool" where
  "same_shape s s' \<longleftrightarrow> length (nodes s') = length (nodes s) \<and> ht s' = ht s \<and> keyof s' = keyof s
     \<and> (\<exists>ns. s' = s\<lparr>nodes := ns\<rparr>)"

lemma same_shape_refl: "same_shape s s"
  by (auto simp: same_shape_def intro: exI [of _ "nodes s"])

lemma same_shape_trans: "same_shape s t \<Longrightarrow> same_shape t u \<Longrightarrow> same_shape s u"
  by (auto simp: same_shape_def)

lemma same_shape_fields:
  assumes "same_shape s s'"
  shows "prev s' = prev s" "max_height s' = max_height s" "kMaxHeight s' = kMaxHeight s"
    "prev_height s' = prev_height s" "kBranching s' = kBranching s"
    "length (nodes s') = length (nodes s)" "ht s' = ht s" "keyof s' = keyof s"
  using assms by (auto simp: same_shape_def)

lemma SetNext_ok:
  assumes "x < length (nodes s)" "n < ht s x"
  shows "\<exists>s'. SetNext s x n v = Inr s' \<and> same_shape s s'
    \<and> (\<forall>y i. lnk s' y i = (if y = x \<and> i = n then v else lnk s y i))"
proof -
  let ?nd = "nodes s ! x"
  let ?s = "s\<lparr>nodes := (nodes s)[x := ?nd\<lparr>links := (links ?nd)[n := v]\<rparr>]\<rparr>"
  have "SetNext s x n v = Inr ?s"
    using assms by (simp add: SetNext_def node_at_def ht_def)
  moreover have "same_shape s ?s"
    using assms(1) by (auto simp: same_shape_def ht_def keyof_def fun_eq_iff nth_list_update)
  moreover have "\<forall>y i. lnk ?s y i = (if y = x \<and> i = n then v else lnk s y i)"
    using assms by (auto simp: lnk_def ht_def nth_list_update)
  ultimately show ?thesis by blast
qed

lemma link_from_ok:
  assumes "x < length (nodes s)" "ht s x = h" "h \<le> length (prev s)"
    "\<And>i. i < h \<Longrightarrow> prev s ! i < length (nodes s) \<and> prev s ! i \<noteq> x \<and> i < ht s (prev s ! i)"
  shows "\<exists>s'. link_from j h x s = Inr s' \<and> same_shape s s'
    \<and> (\<forall>y i. lnk s' y i =
         (if j \<le> i \<and> i < h \<and> y = x then lnk s (prev s ! i) i
          else if j \<le> i \<and> i < h \<and> y = prev s ! i then Some x else lnk s y i))"
  using assms
proof (induction j h x s rule: link_from.induct)
  case (1 j h x s)
  show ?case
  proof (cases "j < h")
    case True
    let ?p = "prev s ! j"
    have p: "?p < length (nodes s)" "?p \<noteq> x" "j < ht s ?p" using 1(5) True by auto
    obtain s1 where s1: "SetNext s x j (lnk s ?p j) = Inr s1" "same_shape s s1"
        "\<forall>y i. lnk s1 y i = (if y = x \<and> i = j then lnk s ?p j else lnk s y i)"
      using SetNext_ok [of x s j "lnk s ?p j"] 1(2,3) True by auto
    obtain s2 where s2: "SetNext s1 ?p j (Some x) = Inr s2" "same_shape s1 s2"
        "\<forall>y i. lnk s2 y i = (if y = ?p \<and> i = j then Some x else lnk s1 y i)"
      using SetNext_ok [of ?p s1 j "Some x"] p same_shape_fields [OF s1(2)] by auto
    have shape: "same_shape s s2" using s1(2) s2(2) by (rule same_shape_trans)
    have unfold: "link_from j h x s = link_from (j + 1) h x s2"
      using True 1(4) p s1(1) s2(1) by (subst link_from.simps) (simp add: Next_ok)
    obtain s' where s': "link_from (j + 1) h x s2 = Inr s'" "same_shape s2 s'"
        "\<forall>y i. lnk s' y i =
         (if j + 1 \<le> i \<and> i < h \<and> y = x then lnk s2 (prev s ! i) i
          else if j + 1 \<le> i \<and> i < h \<and> y = prev s ! i then Some x else lnk s2 y i)"
      using 1(1) [OF True, of s2] 1(2-5) True p same_shape_fields [OF shape]
      by (auto simp: Next_ok)
    have "lnk s' y i = (if j \<le> i \<and> i < h \<and> y = x then lnk s (prev s ! i) i
          else if j \<le> i \<and> i < h \<and> y = prev s ! i then Some x else lnk s y i)" for y i
      using s'(3) s2(3) s1(3) p True by (cases "i = j") auto
    with s'(1) unfold same_shape_trans [OF shape s'(2)] show ?thesis by auto
  next
    case False
    then show ?thesis by (subst link_from.simps) (auto simp: same_shape_refl)
  qed
qed

section \<open>Relinking\<close>

lemma linkedI:
  assumes dist: "distinct L"
    and ex: "\<And>x. x \<in> set L \<Longrightarrow> \<exists>A B. L = A @ x # B \<and> (\<forall>i < ht s x. lnk s x i = find (\<lambda>y. i < ht s y) B)"
  shows "linked s L"
  unfolding linked_def
proof (intro allI impI)
  fix A x B i
  assume L: "L = A @ x # B" and i: "i < ht s x"
  then obtain A' B' where L': "L = A' @ x # B'" and lnk: "lnk s x i = find (\<lambda>y. i < ht s y) B'"
    using ex [of x] by auto
  from L dist have "x \<notin> set A" "x \<notin> set B" by auto
  then have "A @ x # B = A' @ x # B' \<longleftrightarrow> A = A' \<and> B = B'" by (rule append_Cons_eq_iff)
  with L L' lnk show "lnk s x i = find (\<lambda>y. i < ht s y) B" by simp
qed

lemma last_at_split:
  assumes "\<exists>y \<in> set A. i < ht s y"
  obtains A1 A2 where "A = A1 @ last_at s i A # A2" "i < ht s (last_at s i A)" "\<forall>y \<in> set A2. \<not> i < ht s y"
proof -
  let ?P = "\<lambda>y. i < ht s y"
  have ne: "filter ?P A \<noteq> []" using assms by (auto simp: filter_empty_conv)
  then have "last_at s i A \<in> set (filter ?P A)" unfolding last_at_def by (rule last_in_set)
  then have P: "?P (last_at s i A)" by simp
  obtain A1 z A2 where "A = A1 @ z # A2" "?P z" "\<forall>y \<in> set A2. \<not> ?P y"
    using assms split_list_last_prop [of A ?P] by blast
  moreover from this have "last_at s i A = z"
    by (simp add: last_at_def filter_empty_conv)
  ultimately show thesis using that [of A1 A2] P by simp
qed

lemma last_at_mem: "\<exists>y \<in> set A. i < ht s y \<Longrightarrow> last_at s i A \<in> set A \<and> i < ht s (last_at s i A)"
  by (erule last_at_split) (metis in_set_conv_decomp)

lemma find_cong_set: "(\<And>y. y \<in> set xs \<Longrightarrow> P y = Q y) \<Longrightarrow> find P xs = find Q xs"
  by (induction xs) auto

lemma find_none: "\<forall>y \<in> set xs. \<not> P y \<Longrightarrow> find P xs = None"
  by (induction xs) auto

lemma find_some_exists: "y \<in> set xs \<Longrightarrow> P y \<Longrightarrow> \<exists>z. find P xs = Some z"
  by (induction xs) auto

lemma last_at_link:
  assumes linked: "linked s (A @ B)" and tall: "\<exists>y \<in> set A. i < ht s y"
  shows "lnk s (last_at s i A) i = find (\<lambda>z. i < ht s z) B"
proof -
  obtain A1 A2 where A: "A = A1 @ last_at s i A # A2" "i < ht s (last_at s i A)"
      "\<forall>z \<in> set A2. \<not> i < ht s z"
    using last_at_split [OF tall] .
  have "A @ B = A1 @ last_at s i A # (A2 @ B)" by (subst (1) A(1)) simp
  then have "lnk s (last_at s i A) i = find (\<lambda>z. i < ht s z) (A2 @ B)"
    using linkedD [of s A1 "last_at s i A" "A2 @ B" i] linked A(2) by metis
  with A(3) show ?thesis by (simp add: find_append find_none)
qed

text \<open>
  A new node of height \<open>h\<close> goes between \<open>A\<close> and \<open>B\<close>: it takes over, on each of its
  levels, the link of the last node of \<open>A\<close> that has the level.
\<close>

lemma linked_insert:
  assumes linked: "linked s (A @ B)" and dist: "distinct (A @ x # B)"
    and top: "\<And>i. i < h \<Longrightarrow> \<exists>y \<in> set A. i < ht s y"
    and ht: "\<And>y. y \<in> set (A @ x # B) \<Longrightarrow> ht s' y = (if y = x then h else ht s y)"
    and lnk: "\<And>y i. y \<in> set (A @ x # B) \<Longrightarrow> i < ht s' y \<Longrightarrow> lnk s' y i =
       (if i < h \<and> y = x then lnk s (last_at s i A) i
        else if i < h \<and> y = last_at s i A then Some x else lnk s y i)"
  shows "linked s' (A @ x # B)"
proof (rule linkedI [OF dist])
  fix y assume y: "y \<in> set (A @ x # B)"
  have old: "find (\<lambda>z. i < ht s' z) C = find (\<lambda>z. i < ht s z) C"
    if "x \<notin> set C" "set C \<subseteq> set (A @ x # B)" for C i
  proof (rule find_cong_set)
    fix z assume "z \<in> set C"
    with that have "z \<noteq> x" "z \<in> set (A @ x # B)" by auto
    then show "(i < ht s' z) = (i < ht s z)" by (simp add: ht)
  qed
  consider "y = x" | "y \<in> set A" | "y \<in> set B" using y by auto
  then show "\<exists>C D. A @ x # B = C @ y # D \<and> (\<forall>i < ht s' y. lnk s' y i = find (\<lambda>z. i < ht s' z) D)"
  proof cases
    case 1
    have "lnk s' x i = find (\<lambda>z. i < ht s' z) B" if i: "i < h" for i
    proof -
      have "lnk s (last_at s i A) i = find (\<lambda>z. i < ht s z) B"
        by (rule last_at_link [OF linked top [OF i]])
      moreover have "find (\<lambda>z. i < ht s' z) B = find (\<lambda>z. i < ht s z) B"
        by (rule old) (use dist in auto)
      ultimately show ?thesis using lnk [of x i] ht [of x] i by simp
    qed
    with 1 ht [of x] show ?thesis by auto
  next
    case 2
    then obtain A1 A2 where A: "A = A1 @ y # A2" by (meson split_list)
    have yx: "y \<noteq> x" using 2 dist by auto
    have "lnk s' y i = find (\<lambda>z. i < ht s' z) (A2 @ x # B)" if i: "i < ht s' y" for i
    proof -
      have iy: "i < ht s y" using i ht [OF y] yx by simp
      have base: "lnk s y i = find (\<lambda>z. i < ht s z) (A2 @ B)"
        using linkedD [of s A1 y "A2 @ B" i] linked iy A by simp
      have fA2: "find (\<lambda>z. i < ht s' z) A2 = find (\<lambda>z. i < ht s z) A2" and fB: "find (\<lambda>z. i < ht s' z) B = find (\<lambda>z. i < ht s z) B"
        using old [of A2 i] old [of B i] dist A by auto
      have lnk': "lnk s' y i = (if i < h \<and> y = last_at s i A then Some x else lnk s y i)"
        using lnk [OF y i] yx by simp
      show ?thesis
      proof (cases "\<exists>z \<in> set A2. i < ht s z")
        case True
        then obtain z where z: "find (\<lambda>z. i < ht s z) A2 = Some z" using find_some_exists by metis
        have "last_at s i A = last_at s i A2"
          using A True by (auto simp: last_at_def filter_empty_conv)
        then have "y \<noteq> last_at s i A" using last_at_mem [OF True] dist A by auto
        then show ?thesis using lnk' base z fA2 by (simp add: find_append)
      next
        case False
        then have "last_at s i A = y" using A iy by (auto simp: last_at_def filter_empty_conv)
        moreover have "find (\<lambda>z. i < ht s z) A2 = None" using False by (intro find_none) auto
        ultimately show ?thesis using lnk' base fA2 fB ht [of x] by (auto simp: find_append)
      qed
    qed
    with A show ?thesis by (intro exI [of _ A1] exI [of _ "A2 @ x # B"]) simp
  next
    case 3
    then obtain B1 B2 where B: "B = B1 @ y # B2" by (meson split_list)
    have yx: "y \<noteq> x" and yA: "y \<notin> set A" using 3 dist by auto
    have "lnk s' y i = find (\<lambda>z. i < ht s' z) B2" if i: "i < ht s' y" for i
    proof -
      have "i < ht s y" using i ht [OF y] yx by simp
      then have "lnk s y i = find (\<lambda>z. i < ht s z) B2"
        using linkedD [of s "A @ B1" y B2 i] linked B by simp
      moreover have "y \<noteq> last_at s i A" if "i < h" using last_at_mem [OF top [OF that]] yA by auto
      moreover have "find (\<lambda>z. i < ht s' z) B2 = find (\<lambda>z. i < ht s z) B2"
        by (rule old) (use dist B in auto)
      ultimately show ?thesis using lnk [OF y i] yx by auto
    qed
    with B show ?thesis by (intro exI [of _ "A @ x # B1"] exI [of _ B2]) simp
  qed
qed

section \<open>Insertion keeps the representation\<close>

definition inserted :: "('k \<Rightarrow> 'k \<Rightarrow> int) \<Rightarrow> 'k skiplist \<Rightarrow> 'k \<Rightarrow> nat list \<Rightarrow> nat list \<Rightarrow> 'k skiplist \<Rightarrow> bool" where
  "inserted cmp s k A B s' \<longleftrightarrow>
     (let x = length (nodes s) in sl_rep cmp s' (tl A @ x # B) \<and> prev_ok s' (tl A @ x # B)
        \<and> keyof s' x = k \<and> (\<forall>y < x. keyof s' y = keyof s y))"

lemma NewNode_facts:
  assumes "NewNode s k h = (x, s')"
  shows "x = length (nodes s)" "length (nodes s') = Suc x" "prev s' = prev s"
    "kMaxHeight s' = kMaxHeight s" "max_height s' = max_height s"
    "y < x \<Longrightarrow> ht s' y = ht s y" "y < x \<Longrightarrow> keyof s' y = keyof s y" "y < x \<Longrightarrow> lnk s' y i = lnk s y i"
    "ht s' x = h" "keyof s' x = k"
  using assms by (auto simp: NewNode_def ht_def keyof_def lnk_def nth_append)

lemma last_at_cong: "(\<And>y. y \<in> set A \<Longrightarrow> ht s y = ht s' y) \<Longrightarrow> last_at s i A = last_at s' i A"
  unfolding last_at_def by (metis (mono_tags, lifting) filter_cong)

lemma raised_prev:
  assumes rep: "sl_rep cmp s L" and A: "head # L = A @ B" "A \<noteq> []"
    and len: "length (prev s) = kMaxHeight s" and prev: "\<And>i. i < max_height s \<Longrightarrow> prev s ! i = last_at s i A"
    and h: "1 \<le> h" "h \<le> kMaxHeight s"
  shows "\<exists>p. (if h > max_height s
       then bind_res (fill_prev (max_height s) h head (prev s)) (\<lambda>p. Inr (s\<lparr>prev := p, max_height := h\<rparr>))
       else Inr s) = Inr (s\<lparr>prev := p, max_height := max (max_height s) h\<rparr>)
     \<and> length p = kMaxHeight s \<and> (\<forall>i < max (max_height s) h. p ! i = last_at s i A)"
proof (cases "h > max_height s")
  case True
  obtain p where p: "fill_prev (max_height s) h head (prev s) = Inr p" "length p = kMaxHeight s"
      "\<forall>j < kMaxHeight s. p ! j = (if max_height s \<le> j \<and> j < h then head else prev s ! j)"
    using fill_prev_ok [of h "prev s" "max_height s" head] len h by auto
  obtain A' where A': "A = head # A'" "L = A' @ B" using A by (cases A) auto
  have "last_at s i A = head" if "max_height s \<le> i" "i < h" for i
  proof -
    have "\<forall>y \<in> set L. ht s y \<le> max_height s" "ht s head = kMaxHeight s"
      using rep unfolding sl_rep_def by blast+
    then have "i < ht s head" and "\<forall>y \<in> set A'. ht s y \<le> max_height s"
      using A' that h by auto
    then have "\<forall>y \<in> set A'. \<not> i < ht s y" using that by fastforce
    then have "filter (\<lambda>y. i < ht s y) A' = []" by (simp add: filter_empty_conv)
    with \<open>i < ht s head\<close> show ?thesis using A' by (simp add: last_at_def)
  qed
  with p prev len h True show ?thesis by (auto simp: max_def)
next
  case False
  moreover have "s = s\<lparr>prev := prev s, max_height := max (max_height s) h\<rparr>"
    using False by (cases s) (simp add: max_def)
  ultimately show ?thesis using prev len by (intro exI [of _ "prev s"]) (simp add: max_def)
qed

text \<open>The facts about the final state that make it represent the longer sequence.\<close>

lemma inserted_rep:
  assumes rep: "sl_rep cmp s L" and A: "head # L = A @ B" "A \<noteq> []" and x: "x = length (nodes s)"
    and lo: "\<And>a. a \<in> set A \<Longrightarrow> a \<noteq> head \<Longrightarrow> cmp (keyof s a) k < 0"
    and hi: "\<And>b. b \<in> set B \<Longrightarrow> cmp k (keyof s b) < 0"
    and h: "1 \<le> h" "h \<le> kMaxHeight s"
    and s': "length (nodes s') = Suc x" "kMaxHeight s' = kMaxHeight s" "max_height s' = max (max_height s) h"
    and ht: "ht s' x = h" "\<And>y. y < x \<Longrightarrow> ht s' y = ht s y"
    and key: "keyof s' x = k" "\<And>y. y < x \<Longrightarrow> keyof s' y = keyof s y"
    and lnk: "\<And>i. i < h \<Longrightarrow> lnk s' x i = lnk s (last_at s i A) i"
      "\<And>y i. y < x \<Longrightarrow> lnk s' y i = (if i < h \<and> y = last_at s i A then Some x else lnk s y i)"
  shows "sl_rep cmp s' (tl A @ x # B)"
proof -
  note repD = rep [unfolded sl_rep_def]
  obtain A' where A': "A = head # A'" "L = A' @ B" using A by (cases A) auto
  have set: "set A \<union> set B = {..<x}" using repD A x by (metis set_append)
  then have lt: "y < x" if "y \<in> set A \<or> y \<in> set B" for y using that by auto
  have dist: "distinct (A @ x # B)" using repD A lt by (auto simp: A' dest: lt)
  have tall: "\<exists>y \<in> set A. i < ht s y" if "i < h" for i
    using repD that h A' by auto
  have "linked s' (A @ x # B)"
  proof (rule linked_insert [where s = s and h = h])
    show "linked s (A @ B)" using repD A by simp
    show "ht s' y = (if y = x then h else ht s y)" if "y \<in> set (A @ x # B)" for y
      using that ht lt by auto
    show "lnk s' y i = (if i < h \<and> y = x then lnk s (last_at s i A) i
        else if i < h \<and> y = last_at s i A then Some x else lnk s y i)"
      if "y \<in> set (A @ x # B)" "i < ht s' y" for y i
      using that lnk ht lt by auto
  qed (use dist tall in auto)
  moreover have "sorted_wrt (\<lambda>u v. cmp (keyof s' u) (keyof s' v) < 0) (A' @ x # B)"
  proof -
    have "sorted_wrt (\<lambda>u v. cmp (keyof s u) (keyof s v) < 0) (A' @ B)" using repD A' by simp
    then have "sorted_wrt (\<lambda>u v. cmp (keyof s' u) (keyof s' v) < 0) (A' @ B)"
      by (rule sorted_wrt_mono_rel [rotated]) (use key(2) lt A' in auto)
    moreover have "cmp (keyof s' a) k < 0" if "a \<in> set A'" for a
      using that lo [of a] key(2) [of a] lt [of a] dist A' by auto
    moreover have "cmp k (keyof s' b) < 0" if "b \<in> set B" for b
      using that hi [of b] key(2) [of b] lt [of b] by simp
    ultimately show ?thesis using key(1) by (auto simp: sorted_wrt_append)
  qed
  moreover have "1 \<le> ht s' y \<and> ht s' y \<le> max_height s'" if "y \<in> set (A' @ x # B)" for y
  proof (cases "y = x")
    case False
    with that have "y \<in> set L" using A' by auto
    then have "1 \<le> ht s y \<and> ht s y \<le> max_height s" using repD by blast
    with that False show ?thesis using ht(2) [of y] lt [of y] A' s'(3) by auto
  qed (use ht(1) h s'(3) in simp)
  moreover have "set (A @ x # B) = {..<length (nodes s')}" using set s'(1) by (simp add: lessThan_Suc)
  moreover have "ht s' head = kMaxHeight s'" using ht(2) [of head] lt [of head] A' s'(2) repD by simp
  moreover have "1 \<le> max_height s'" "max_height s' \<le> kMaxHeight s'" using repD s' h by auto
  moreover have eq: "head # (tl A @ x # B) = A @ x # B" "tl A = A'" using A' by simp_all
  ultimately show ?thesis
    using dist unfolding sl_rep_def eq(1) unfolding eq(2) by blast
qed

lemma prev_ok_inserted:
  assumes A: "A \<noteq> []" "hd A = head" and x: "x \<noteq> head" and ht: "ht s' x = h" "1 \<le> h"
    and len: "length p = kMaxHeight s'" and s': "prev s' = p[0 := x]" "prev_height s' = h"
    and pv: "\<And>i. h \<le> i \<Longrightarrow> i < max_height s' \<Longrightarrow> p ! i = last_at s' i A" and m: "0 < kMaxHeight s'"
  shows "prev_ok s' (tl A @ x # B)"
proof -
  have "last_at s' i (A @ [x]) = last_at s' i A" if "h \<le> i" for i
    using that ht by (simp add: last_at_def)
  then have "prev s' ! i = last_at s' i (A @ [x])" if "h \<le> i" "i < max_height s'" for i
    using that pv [OF that] ht s' by simp
  moreover have "head # tl A @ x # B = (A @ [x]) @ B" using A by (cases A) auto
  moreover have "prev s' ! 0 = x" using s' len m by simp
  ultimately show ?thesis
    unfolding prev_ok_def using x ht s' len
    by (intro conjI exI [of _ "A @ [x]"] exI [of _ B]) auto
qed

context comparator
begin

lemma insert_at_prev_ok:
  assumes rep: "sl_rep cmp s L" and A: "head # L = A @ B" "A \<noteq> []"
    and lo: "\<And>a. a \<in> set A \<Longrightarrow> a \<noteq> head \<Longrightarrow> cmp (keyof s a) k < 0"
    and hi: "\<And>b. b \<in> set B \<Longrightarrow> cmp k (keyof s b) < 0"
    and len: "length (prev s) = kMaxHeight s" and prev: "\<And>i. i < max_height s \<Longrightarrow> prev s ! i = last_at s i A"
  shows "\<exists>s'. insert_at_prev cmp rnd k s = Inr s' \<and> inserted cmp s k A B s'"
proof -
  note repD = rep [unfolded sl_rep_def]
  define x where "x = length (nodes s)"
  obtain A' where A': "A = head # A'" "L = A' @ B" using A by (cases A) auto
  have lt: "y < x" if "y \<in> set A \<or> y \<in> set B" for y
    using sl_rep_mem [OF rep] that A unfolding x_def by (metis Un_iff set_append)
  obtain h where h: "RandomHeight s rnd = Inr h" "1 \<le> h" "h \<le> kMaxHeight s"
    using RandomHeight_ok [of s rnd] repD by auto
  have tall: "\<exists>y \<in> set A. i < ht s y" if "i < h" for i using repD that h A' by auto
  obtain p where p: "(if h > max_height s
       then bind_res (fill_prev (max_height s) h head (prev s)) (\<lambda>p. Inr (s\<lparr>prev := p, max_height := h\<rparr>))
       else Inr s) = Inr (s\<lparr>prev := p, max_height := max (max_height s) h\<rparr>)" "length p = kMaxHeight s"
      "\<And>i. i < max (max_height s) h \<Longrightarrow> p ! i = last_at s i A"
    using raised_prev [OF rep A len prev h(2,3)] by blast
  let ?s1 = "s\<lparr>prev := p, max_height := max (max_height s) h\<rparr>"
  have ht1: "ht ?s1 = ht s" "keyof ?s1 = keyof s" "lnk ?s1 = lnk s"
    by (auto simp: ht_def keyof_def lnk_def fun_eq_iff)
  obtain s2 where new: "NewNode ?s1 k h = (x, s2)" by (simp add: NewNode_def x_def)
  note n = NewNode_facts [OF new, unfolded ht1, simplified]
  have pm: "p ! i = last_at s i A" "p ! i < x" "i < ht s (p ! i)" if "i < h" for i
    using p(3) [of i] that last_at_mem [OF tall [OF that]] lt by auto
  obtain s3 where s3: "link_from 0 h x s2 = Inr s3" "same_shape s2 s3"
      "\<And>y i. lnk s3 y i = (if i < h \<and> y = x then lnk s2 (p ! i) i
          else if i < h \<and> y = p ! i then Some x else lnk s2 y i)"
    using link_from_ok [of x s2 h 0] n p(2) h pm by fastforce
  note f3 = same_shape_fields [OF s3(2)]
  define s' where "s' = s3\<lparr>prev := (prev s3)[0 := x], prev_height := h\<rparr>"
  have e: "ht s' = ht s3" "keyof s' = keyof s3" "lnk s' = lnk s3"
    by (auto simp: s'_def ht_def keyof_def lnk_def fun_eq_iff)
  have "0 < ht s (prev s ! 0)" "prev s ! 0 \<in> set A"
    using prev [of 0] repD last_at_mem [of A 0 s] tall [of 0] h by auto
  then have p0: "0 < ht s (prev s ! 0)" "prev s ! 0 < length (nodes s)" using lt by (auto simp: x_def)
  have "lnk s (prev s ! 0) 0 = find (\<lambda>z. 0 < ht s z) B"
    using last_at_link [of s A B 0] repD A tall [of 0] h prev [of 0] by simp
  then have nB: "y \<in> set B" if "lnk s (prev s ! 0) 0 = Some y" for y
    using that find_Some_iff_mem [of _ B y] by metis
  have "y < length (nodes s) \<and> cmp k (keyof s y) \<noteq> 0" if "lnk s (prev s ! 0) 0 = Some y" for y
    using lt [of y] hi [OF nB [OF that]] nB [OF that] by (simp add: x_def)
  then have "insert_at_prev cmp rnd k s = Inr s'"
    using h(1) p(1) new s3(1) p0 by (auto simp: insert_at_prev_def Next_ok key_at_ok Equal_def s'_def split: option.splits)
  moreover have "sl_rep cmp s' (tl A @ x # B)"
  proof (rule inserted_rep [OF rep A x_def lo hi h(2,3)])
    show "length (nodes s') = Suc x" "kMaxHeight s' = kMaxHeight s" "max_height s' = max (max_height s) h"
      using n f3 by (simp_all add: s'_def)
    show "ht s' x = h" "\<And>y. y < x \<Longrightarrow> ht s' y = ht s y" "keyof s' x = k" "\<And>y. y < x \<Longrightarrow> keyof s' y = keyof s y"
      using n f3 by (simp_all add: e)
    show "lnk s' x i = lnk s (last_at s i A) i" if "i < h" for i
      using s3(3) [of x i] that n pm [OF that] by (simp add: e)
    show "lnk s' y i = (if i < h \<and> y = last_at s i A then Some x else lnk s y i)" if "y < x" for y i
      using s3(3) [of y i] that n pm [of i] by (auto simp: e)
  qed
  moreover have "prev_ok s' (tl A @ x # B)"
  proof (rule prev_ok_inserted [where p = p and h = h])
    show "p ! i = last_at s' i A" if "h \<le> i" "i < max_height s'" for i
    proof -
      have "i < max (max_height s) h" using that n f3 by (simp add: s'_def)
      moreover have "last_at s i A = last_at s' i A"
        using n f3 lt by (intro last_at_cong) (simp add: e)
      ultimately show ?thesis using p(3) by simp
    qed
    show "ht s' x = h" "prev s' = p[0 := x]" "prev_height s' = h" "length p = kMaxHeight s'"
      using n f3 p(2) by (simp_all add: e(1)) (simp_all add: s'_def n f3)
    show "0 < kMaxHeight s'" using n f3 h by (simp add: s'_def)
  qed (use A' h lt [of head] in auto)
  moreover have "keyof s' x = k" "\<forall>y < x. keyof s' y = keyof s y" using n f3 by (simp_all add: e)
  ultimately show ?thesis unfolding inserted_def Let_def x_def [symmetric] by blast
qed

text \<open>A key that is there already trips the assertion, on either path.\<close>

lemma insert_at_prev_duplicate:
  assumes rep: "sl_rep cmp s L" and A: "head # L = A @ b # B" "A \<noteq> []"
    and eq: "cmp k (keyof s b) = 0" and prev: "prev s ! 0 = last_at s 0 A"
  shows "insert_at_prev cmp rnd k s = Inl AssertFail"
proof -
  have hd: "hd A = head" using A by (cases A) auto
  have "set A \<subseteq> set (head # L)" using A by auto
  then have "\<And>y. y \<in> set A \<Longrightarrow> 0 < ht s y \<and> y < length (nodes s)"
    using sl_rep_ht [OF rep] sl_rep_mem [OF rep] by blast
  then have tall: "\<exists>y \<in> set A. 0 < ht s y" and "\<And>y. y \<in> set A \<Longrightarrow> y < length (nodes s)"
    using hd_in_set [OF A(2)] by blast+
  then have m: "0 < ht s (prev s ! 0)" "prev s ! 0 < length (nodes s)"
    using last_at_mem [OF tall] prev by simp_all
  have "b \<in> set (head # L)" using A by simp
  then have b: "0 < ht s b" "b < length (nodes s)" using sl_rep_ht [OF rep] sl_rep_mem [OF rep] by blast+
  have "linked s (A @ b # B)" using rep A by (simp add: sl_rep_def)
  then have "lnk s (prev s ! 0) 0 = Some b"
    using last_at_link [of s A "b # B" 0] tall b prev by simp
  with m b eq show ?thesis by (simp add: insert_at_prev_def Next_ok key_at_ok Equal_def)
qed

lemma upper_after:
  assumes rep: "sl_rep cmp s L" and new: "\<forall>y \<in> set L. cmp k (keyof s y) \<noteq> 0" and b: "b \<in> set (upper cmp s k L)"
  shows "cmp k (keyof s b) < 0"
proof -
  have "\<not> cmp (keyof s b) k < 0" using upper_not_bef [OF rep b] by (simp add: bef_def)
  moreover have "cmp k (keyof s b) \<noteq> 0" using new b upper_subset [of s k L] by auto
  ultimately show ?thesis using cmp_sym [of "keyof s b" k] by linarith
qed

text \<open>
  On both paths the array holds the predecessors of the key when the new node is linked in.
\<close>

lemma lower_eqI:
  assumes rep: "sl_rep cmp s L" and A: "head # L = A @ B" "A \<noteq> []"
    and last: "if last A = head then L = [] else bef cmp s k (last A)"
    and hd: "\<And>b B'. B = b # B' \<Longrightarrow> \<not> bef cmp s k b"
  shows "lower cmp s k L = A"
proof -
  obtain A' where A': "A = head # A'" "L = A' @ B" using A by (cases A) auto
  have "bef cmp s k a" if a: "a \<in> set A'" for a
  proof -
    obtain C D where D: "A' = C @ a # D" using split_list [OF a] by blast
    have "L \<noteq> []" using a A' by auto
    with last have b: "bef cmp s k (last A)" by (auto split: if_splits)
    show ?thesis
    proof (cases "D = []")
      case True
      with b D A' show ?thesis by simp
    next
      case False
      have "a \<noteq> head" using rep that A' by (auto simp: sl_rep_def)
      then have "cmp (keyof s a) (keyof s (last D)) < 0"
        using sl_rep_sorted [OF rep, of "head # C" a "D @ B" "last D"] A' D False by simp
      moreover have "last A = last D" using A' D False by simp
      ultimately show ?thesis using b by (auto simp: bef_def intro: cmp_trans)
    qed
  qed
  then have "takeWhile (bef cmp s k) L = A' @ takeWhile (bef cmp s k) B" using A' by simp
  moreover have "takeWhile (bef cmp s k) B = []" using hd by (cases B) auto
  ultimately show ?thesis using A' by (simp add: lower_def)
qed

lemma fast_path_cases:
  assumes rep: "sl_rep cmp s L" and pv: "prev_ok s L"
  shows "fast_path cmp s k = Inr False \<or>
    (fast_path cmp s k = Inr True \<and> (prev s ! 0 \<noteq> head \<or> (prev_height s = 1 \<and> max_height s = 1))
     \<and> (\<exists>p. fill_prev 1 (prev_height s) (prev s ! 0) (prev s) = Inr p \<and> length p = kMaxHeight s
          \<and> (\<forall>i < max_height s. p ! i = last_at s i (lower cmp s k L))))"
proof -
  obtain A B where A: "head # L = A @ B" "A \<noteq> []" and p0: "prev s ! 0 = last A"
    and hi: "\<And>i. prev_height s \<le> i \<Longrightarrow> i < max_height s \<Longrightarrow> prev s ! i = last_at s i A"
    and ph: "if last A = head then L = [] \<and> prev_height s = 1 \<and> max_height s = 1
        else prev_height s = ht s (last A)"
    and len: "length (prev s) = kMaxHeight s"
    using pv unfolding prev_ok_def by blast
  have sub: "set A \<subseteq> set (head # L)" "set B \<subseteq> set (head # L)" using A(1) by auto
  have la: "last A \<in> set (head # L)" using sub(1) last_in_set [OF A(2)] by (rule subsetD)
  then have pm: "0 < ht s (last A)" "last A < length (nodes s)"
    using sl_rep_ht [OF rep] sl_rep_mem [OF rep] by blast+
  have last0: "last_at s 0 A = last A" by (rule last_at_0 [OF rep A(2) sub(1)])
  have "linked s (A @ B)" using rep A by (simp add: sl_rep_def)
  then have "lnk s (last A) 0 = find (\<lambda>z. 0 < ht s z) B"
    using last_at_link [of s A B 0] pm last0 A(2) by fastforce
  also have "\<dots> = (case B of [] \<Rightarrow> None | b # _ \<Rightarrow> Some b)"
    using sl_rep_ht [OF rep] sub(2) by (cases B) auto
  finally have nxt: "lnk s (last A) 0 = (case B of [] \<Rightarrow> None | b # _ \<Rightarrow> Some b)" .
  have "KeyIsAfterNode cmp s k (lnk s (last A) 0) = Inr (\<exists>b B'. B = b # B' \<and> bef cmp s k b)"
    using nxt sl_rep_mem [OF rep] sub(2) by (cases B) (auto simp: KeyIsAfterNode_ok bef_def)
  then have fp: "fast_path cmp s k = Inr (\<not> (\<exists>b B'. B = b # B' \<and> bef cmp s k b)
      \<and> (last A = head \<or> bef cmp s k (last A)))"
    using pm by (simp add: fast_path_def p0 Next_ok KeyIsAfterNode_ok bef_def)
  show ?thesis
  proof (cases "\<not> (\<exists>b B'. B = b # B' \<and> bef cmp s k b) \<and> (last A = head \<or> bef cmp s k (last A))")
    case False
    with fp show ?thesis by simp
  next
    case True
    then have low: "lower cmp s k L = A" using ph by (intro lower_eqI [OF rep A]) (auto split: if_splits)
    have "prev_height s \<le> kMaxHeight s"
    proof (cases "last A = head")
      case True
      with ph rep show ?thesis by (simp add: sl_rep_def)
    next
      case False
      with la have "last A \<in> set L" by simp
      then have "ht s (last A) \<le> max_height s" using rep unfolding sl_rep_def by blast
      with False ph rep show ?thesis by (simp add: sl_rep_def)
    qed
    then obtain p where p: "fill_prev 1 (prev_height s) (last A) (prev s) = Inr p" "length p = kMaxHeight s"
        "\<forall>j < kMaxHeight s. p ! j = (if 1 \<le> j \<and> j < prev_height s then last A else prev s ! j)"
      using fill_prev_ok [of "prev_height s" "prev s" 1 "last A"] len by auto
    have "p ! i = last_at s i A" if i: "i < max_height s" for i
    proof -
      have ik: "i < kMaxHeight s" using i rep by (simp add: sl_rep_def)
      consider "i = 0" | "1 \<le> i" "i < prev_height s" | "prev_height s \<le> i" by linarith
      then show ?thesis
      proof cases
        case 1 then show ?thesis using p(3) ik p0 last0 by simp
      next
        case 2
        then have "i < ht s (last A)" using ph by (auto split: if_splits)
        then have "last_at s i A = last A" using A(2)
          by (cases A rule: rev_cases) (auto simp: last_at_def)
        then show ?thesis using 2 p(3) ik by simp
      next
        case 3 then show ?thesis using p(3) ik hi [OF 3 i] by simp
      qed
    qed
    with fp True p low ph p0 show ?thesis by auto
  qed
qed

lemma Insert_ok:
  assumes rep: "sl_rep cmp s L" and pv: "prev_ok s L" and new: "\<forall>y \<in> set L. cmp k (keyof s y) \<noteq> 0"
  shows "\<exists>s'. Insert cmp rnd s k = Some (Inr s') \<and> inserted cmp s k (lower cmp s k L) (upper cmp s k L) s'"
proof -
  let ?A = "lower cmp s k L" and ?B = "upper cmp s k L"
  have len: "length (prev s) = kMaxHeight s" using pv by (simp add: prev_ok_def)
  have ins: "\<exists>s'. insert_at_prev cmp rnd k (s\<lparr>prev := p\<rparr>) = Inr s' \<and> inserted cmp s k ?A ?B s'"
    if p: "length p = kMaxHeight s" "\<forall>i < max_height s. p ! i = last_at s i ?A" for p
  proof -
    let ?s = "s\<lparr>prev := p\<rparr>"
    have e: "ht ?s = ht s" "keyof ?s = keyof s" "lnk ?s = lnk s"
      by (auto simp: ht_def keyof_def lnk_def fun_eq_iff)
    have rep': "sl_rep cmp ?s L" using rep by (simp add: sl_rep_def linked_def e)
    have "last_at ?s = last_at s" by (simp add: last_at_def fun_eq_iff e)
    then have "\<exists>s'. insert_at_prev cmp rnd k ?s = Inr s' \<and> inserted cmp ?s k ?A ?B s'"
      using p lower_upper [of L cmp s k] lower_bef [of _ cmp s k L] upper_after [OF rep new]
      by (intro insert_at_prev_ok [OF rep']) (auto simp: e bef_def lower_def)
    then show ?thesis by (simp add: inserted_def Let_def e)
  qed
  consider "fast_path cmp s k = Inr False"
    | p where "fast_path cmp s k = Inr True" "prev s ! 0 \<noteq> head \<or> (prev_height s = 1 \<and> max_height s = 1)"
        "fill_prev 1 (prev_height s) (prev s ! 0) (prev s) = Inr p" "length p = kMaxHeight s"
        "\<forall>i < max_height s. p ! i = last_at s i ?A"
    using fast_path_cases [OF rep pv, of k] by blast
  then show ?thesis
  proof cases
    case 1
    have "max_height s \<le> length (prev s)" using rep len by (simp add: sl_rep_def)
    then obtain p where "FindLessThan cmp s k (Some (prev s)) = Some (Inr (last_at s 0 ?A, Some p))"
        "length p = length (prev s)" "\<forall>i < max_height s. p ! i = last_at s i ?A"
      using FindLessThan_ok [OF rep, of "Some (prev s)" k] by (auto simp: prev_filled_def)
    with 1 ins [of p] len show ?thesis by (auto simp: Insert_def)
  next
    case 2
    then show ?thesis using ins [of p] by (auto simp: Insert_def)
  qed
qed

end

end
