(* ===== verification/SkipListProps.thy ===== *)
theory SkipListProps
  imports SkipListInsert "HOL-Library.Multiset"
begin

text \<open>
  The skip list against its specification, a list of keys in ascending order: what the
  constructor, insertion, lookup and the iterator promise, for any comparator and for the
  integer comparator of the repository's test, whose \<open>dump\<close> loop is modelled here.
\<close>

section \<open>Specification\<close>

definition sl_ok :: "('k \<Rightarrow> 'k \<Rightarrow> int) \<Rightarrow> 'k skiplist \<Rightarrow> 'k list \<Rightarrow> bool" where
  "sl_ok cmp s ks \<longleftrightarrow> (\<exists>L. sl_rep cmp s L \<and> prev_ok s L \<and> map (keyof s) L = ks)"

text \<open>Insertion into an ascending list.\<close>

definition ins_key :: "('k \<Rightarrow> 'k \<Rightarrow> int) \<Rightarrow> 'k \<Rightarrow> 'k list \<Rightarrow> 'k list" where
  "ins_key cmp k ks = takeWhile (\<lambda>j. cmp j k < 0) ks @ k # dropWhile (\<lambda>j. cmp j k < 0) ks"

text \<open>The client loop \<open>for each key: Insert\<close>; insertion \<open>n\<close> uses the draws \<open>rnd n\<close>.\<close>

fun insert_all :: "('k \<Rightarrow> 'k \<Rightarrow> int) \<Rightarrow> (nat \<Rightarrow> nat \<Rightarrow> u32) \<Rightarrow> nat \<Rightarrow> 'k skiplist \<Rightarrow> 'k list \<Rightarrow> 'k skiplist res option" where
  "insert_all cmp rnd n s [] = Some (Inr s)"
| "insert_all cmp rnd n s (k # ks) =
     (case Insert cmp (rnd n) s k of
        None \<Rightarrow> None
      | Some (Inl e) \<Rightarrow> Some (Inl e)
      | Some (Inr s') \<Rightarrow> insert_all cmp rnd (Suc n) s' ks)"

text \<open>The loop of \<open>dump\<close>: the keys from an iterator position to the end.\<close>

partial_function (option) dump_from :: "'k skiplist \<Rightarrow> iter \<Rightarrow> 'k list \<Rightarrow> 'k list res option" where
  "dump_from s it acc =
     (if Valid it
      then case iter_key s it of
             Inl e \<Rightarrow> Some (Inl e)
           | Inr k \<Rightarrow> (case iter_Next s it of
                 Inl e \<Rightarrow> Some (Inl e)
               | Inr it' \<Rightarrow> dump_from s it' (acc @ [k]))
      else Some (Inr acc))"

definition dump :: "'k skiplist \<Rightarrow> 'k list res option" where
  "dump s = (case SeekToFirst s of Inl e \<Rightarrow> Some (Inl e) | Inr it \<Rightarrow> dump_from s it [])"

text \<open>What an iterator stands on: a key, or past the end.\<close>

definition at_key :: "'k skiplist \<Rightarrow> iter \<Rightarrow> 'k option \<Rightarrow> bool" where
  "at_key s it k = (case k of None \<Rightarrow> \<not> Valid it | Some j \<Rightarrow> Valid it \<and> iter_key s it = Inr j)"

section \<open>Construction, insertion and lookup\<close>

lemma SkipList_new_ok:
  assumes "0 < max_h" "max_h < 2 ^ 16" "0 < br" "br < 2 ^ 16"
  shows "\<exists>s. SkipList_new zero max_h br = Inr s \<and> sl_ok cmp s []"
proof -
  obtain b m where b: "br = int b" "0 < b" "b < 65536" and m: "max_h = int m" "0 < m" "m < 65536"
    using assms zero_less_imp_eq_int by fastforce
  have "unat (word_of_nat b :: u32) = b" using b by (simp add: unat_of_nat)
  then have "unat ((0xffffffff :: u32) div word_of_nat b) = 4294967295 div b"
    by (simp add: unat_div)
  moreover have "0 < 4294967295 div b" using b by (simp add: div_greater_zero_iff)
  ultimately have scaled: "(0xffffffff :: u32) div word_of_nat b > 0"
    by (simp add: word_less_nat_alt)
  define s where "s = \<lparr>kMaxHeight = m, kBranching = b,
     kScaledInverseBranching = (0xffffffff :: u32) div word_of_nat b,
     nodes = [\<lparr>nkey = zero, links = replicate m None\<rparr>],
     max_height = 1, prev = replicate m head, prev_height = 1\<rparr>"
  have new: "SkipList_new zero max_h br = Inr s"
    using b m scaled by (simp add: SkipList_new_def Let_def s_def)
  have "linked s [head]"
    by (auto simp: linked_def s_def ht_def lnk_def Cons_eq_append_conv)
  then have "sl_rep cmp s []"
    using m by (auto simp: sl_rep_def s_def ht_def)
  moreover have "prev_ok s []"
    using m unfolding prev_ok_def by (intro conjI exI [of _ "[head]"] exI [of _ "[]"]) (simp_all add: s_def)
  ultimately show ?thesis using new by (auto simp: sl_ok_def)
qed

context comparator
begin

lemma insert_ok:
  assumes "sl_ok cmp s ks" "\<forall>j \<in> set ks. cmp k j \<noteq> 0"
  shows "\<exists>s'. Insert cmp rnd s k = Some (Inr s') \<and> sl_ok cmp s' (ins_key cmp k ks)"
proof -
  obtain L where L: "sl_rep cmp s L" "prev_ok s L" "map (keyof s) L = ks"
    using assms(1) by (auto simp: sl_ok_def)
  then obtain s' where s': "Insert cmp rnd s k = Some (Inr s')"
      "inserted cmp s k (lower cmp s k L) (upper cmp s k L) s'"
    using Insert_ok [OF L(1,2)] assms(2) by fastforce
  let ?x = "length (nodes s)" and ?T = "takeWhile (bef cmp s k) L" and ?D = "dropWhile (bef cmp s k) L"
  from s'(2) have rep: "sl_rep cmp s' (?T @ ?x # ?D)" "prev_ok s' (?T @ ?x # ?D)"
    and key: "keyof s' ?x = k" "\<forall>y < ?x. keyof s' y = keyof s y"
    by (auto simp: inserted_def Let_def lower_def upper_def)
  have old: "map (keyof s') M = map (keyof s) M" if "set M \<subseteq> set L" for M
    using that key(2) sl_rep_mem [OF L(1)] by auto
  have "map (keyof s) ?T = takeWhile (\<lambda>j. cmp j k < 0) ks" "map (keyof s) ?D = dropWhile (\<lambda>j. cmp j k < 0) ks"
    using L(3) by (auto simp: takeWhile_map dropWhile_map comp_def bef_def [abs_def])
  moreover have "map (keyof s') ?T = map (keyof s) ?T" "map (keyof s') ?D = map (keyof s) ?D"
    by (rule old; auto dest: set_takeWhileD set_dropWhileD)+
  ultimately have "map (keyof s') (?T @ ?x # ?D) = ins_key cmp k ks"
    using key(1) by (simp add: ins_key_def)
  with rep s'(1) show ?thesis by (auto simp: sl_ok_def)
qed

lemma contains_ok:
  assumes "sl_ok cmp s ks"
  shows "Contains cmp s k = Some (Inr (\<exists>j \<in> set ks. cmp k j = 0))"
  using assms Contains_ok by (fastforce simp: sl_ok_def)

lemma insert_duplicate:
  assumes "sl_ok cmp s ks" "\<exists>j \<in> set ks. cmp k j = 0"
  shows "Insert cmp rnd s k = Some (Inl AssertFail)"
proof -
  obtain L where rep: "sl_rep cmp s L" and pv: "prev_ok s L" and ks: "map (keyof s) L = ks"
    using assms(1) by (auto simp: sl_ok_def)
  then obtain y where y: "y \<in> set L" "cmp k (keyof s y) = 0" using assms(2) by auto
  then have "y \<in> set (upper cmp s k L)" "cmp (keyof s y) k = 0"
    using cmp_zero_sym [of k "keyof s y"] by (auto intro!: not_bef_upper simp: bef_def)
  then obtain U where U: "upper cmp s k L = y # U" using upper_equal [OF rep] by blast
  have dup: "insert_at_prev cmp rnd k (s\<lparr>prev := p\<rparr>) = Inl AssertFail"
    if "p ! 0 = last_at s 0 (lower cmp s k L)" for p
  proof -
    let ?s = "s\<lparr>prev := p\<rparr>"
    have e: "ht ?s = ht s" "keyof ?s = keyof s" "lnk ?s = lnk s" "last_at ?s = last_at s"
      by (auto simp: ht_def keyof_def lnk_def last_at_def fun_eq_iff)
    have "sl_rep cmp ?s L" using rep by (simp add: sl_rep_def linked_def e)
    then show ?thesis
      using that y(2) U lower_upper [of L cmp s k]
      by (intro insert_at_prev_duplicate [where A = "lower cmp s k L" and b = y and B = U]) (auto simp: e lower_def)
  qed
  have m: "0 < max_height s" "max_height s \<le> length (prev s)"
    using rep pv by (simp_all add: sl_rep_def prev_ok_def)
  show ?thesis
    using fast_path_cases [OF rep pv, of k]
  proof (elim disjE conjE exE)
    assume fp: "fast_path cmp s k = Inr False"
    obtain p where "FindLessThan cmp s k (Some (prev s)) = Some (Inr (last_at s 0 (lower cmp s k L), Some p))"
        "\<forall>i < max_height s. p ! i = last_at s i (lower cmp s k L)"
      using FindLessThan_ok [OF rep, of "Some (prev s)" k] m by (auto simp: prev_filled_def)
    with fp dup [of p] m show ?thesis by (simp add: Insert_def)
  qed (use dup m in \<open>simp_all add: Insert_def\<close>)
qed

section \<open>Iterators\<close>

lemma next_in_sequence:
  assumes "sl_rep cmp s L" "head # L = A @ x # B"
  shows "Next s x 0 = Inr (case B of [] \<Rightarrow> None | y # _ \<Rightarrow> Some y)"
proof -
  have x: "x \<in> set (head # L)" "set B \<subseteq> set (head # L)" using assms(2) by auto
  then have "0 < ht s x" "x < length (nodes s)" "\<forall>y \<in> set B. 0 < ht s y"
    using sl_rep_ht [OF assms(1)] sl_rep_mem [OF assms(1)] by blast+
  moreover from this have "lnk s x 0 = find (\<lambda>y. 0 < ht s y) B"
    using assms by (intro linkedD [of s A]) (simp_all add: sl_rep_def)
  ultimately show ?thesis by (cases B) (simp_all add: Next_ok)
qed

lemma dump_from_ok:
  assumes rep: "sl_rep cmp s L"
  shows "head # L = A @ B \<Longrightarrow> A \<noteq> [] \<Longrightarrow>
    dump_from s (case B of [] \<Rightarrow> None | y # _ \<Rightarrow> Some y) acc = Some (Inr (acc @ map (keyof s) B))"
proof (induction B arbitrary: A acc)
  case Nil
  then show ?case by (simp add: dump_from.simps Valid_def)
next
  case (Cons y B)
  have "y \<in> set (head # L)" using Cons.prems(1) by simp
  then have "y < length (nodes s)" using sl_rep_mem [OF rep] by blast
  then show ?case
    using Cons.IH [of "A @ [y]" "acc @ [keyof s y]"] Cons.prems next_in_sequence [OF rep Cons.prems(1)]
    by (subst dump_from.simps) (simp add: Valid_def iter_key_def iter_Next_def key_at_ok)
qed

lemma dump_ok: "sl_ok cmp s ks \<Longrightarrow> dump s = Some (Inr ks)"
  using next_in_sequence [of s _ "[]" head] dump_from_ok [of s _ "[head]"]
  by (fastforce simp: sl_ok_def dump_def SeekToFirst_def)

text \<open>The keys before and after a target, from the specification's list.\<close>

lemma seek_ok:
  assumes rep: "sl_rep cmp s L"
  shows "Seek cmp s t = Some (Inr (find (\<lambda>y. cmp (keyof s y) t \<ge> 0) L))"
proof -
  have "(case upper cmp s t L of [] \<Rightarrow> None | y # _ \<Rightarrow> Some y) = find (\<lambda>y. cmp (keyof s y) t \<ge> 0) L"
    unfolding upper_def find_eq_dropWhile bef_def [abs_def] by (simp add: not_le)
  then show ?thesis by (simp add: Seek_def FindGreaterOrEqual_ok [OF rep])
qed


lemma sl_rep_head_last:
  assumes "sl_rep cmp s L" "set A \<subseteq> set L" "A \<noteq> []"
  shows "last A \<noteq> head"
proof -
  have "head \<notin> set A" using assms by (auto simp: sl_rep_def)
  with last_in_set [OF assms(3)] show ?thesis by metis
qed

lemma iter_Prev_ok:
  assumes rep: "sl_rep cmp s L" and L: "L = A @ y # B"
  shows "iter_Prev cmp s (Some y) = Some (Inr (if A = [] then None else Some (last A)))"
proof -
  have "\<forall>x \<in> set A. bef cmp s (keyof s y) x" "\<not> bef cmp s (keyof s y) y"
    using rep L by (auto simp: sl_rep_def sorted_wrt_append bef_def cmp_refl)
  then have low: "lower cmp s (keyof s y) L = head # A"
    using L by (simp add: lower_def takeWhile_tail)
  have "y < length (nodes s)" using sl_rep_mem [OF rep, of y] L by simp
  moreover have "A \<noteq> [] \<Longrightarrow> last A \<noteq> head"
    using sl_rep_head_last [OF rep, of A] L by auto
  ultimately show ?thesis
    using FindLessThan_ok [OF rep, of None "keyof s y"] lower_last [OF rep, of "keyof s y"] low
    by (auto simp: iter_Prev_def key_at_ok)
qed

lemma SeekToLast_ok:
  assumes rep: "sl_rep cmp s L"
  shows "SeekToLast s = Some (Inr (if L = [] then None else Some (last L)))"
proof -
  have "L \<noteq> [] \<longrightarrow> last L \<noteq> head"
    using sl_rep_head_last [OF rep, of L] by auto
  then show ?thesis by (auto simp: SeekToLast_def FindLast_ok [OF rep])
qed

lemma find_rev_all: "\<forall>x \<in> set T. P x \<Longrightarrow> find P (rev T) = (if T = [] then None else Some (last T))"
  by (cases T rule: rev_cases) auto

lemma retreat_stop:
  assumes "\<And>x. it = Some x \<Longrightarrow> x < length (nodes s) \<and> \<not> cmp t (keyof s x) < 0"
  shows "retreat cmp s t it = Some (Inr it)"
  using assms by (subst retreat.simps) (auto simp: iter_key_def key_at_ok LessThan_def split: option.split)

lemma SeekForPrev_ok:
  assumes rep: "sl_rep cmp s L"
  shows "SeekForPrev cmp s t = Some (Inr (find (\<lambda>y. cmp (keyof s y) t \<le> 0) (rev L)))"
proof -
  let ?P = "\<lambda>y. cmp (keyof s y) t \<le> 0"
  define T U where "T = takeWhile (bef cmp s t) L" and "U = upper cmp s t L"
  have L: "L = T @ U" by (simp add: T_def U_def upper_def)
  have T: "\<forall>x \<in> set T. cmp (keyof s x) t < 0" by (auto simp: T_def bef_def dest: set_takeWhileD)
  then have T_find: "find ?P (rev T) = (if T = [] then None else Some (last T))"
    by (intro find_rev_all) auto
  have stop: "retreat cmp s t (if T = [] then None else Some (last T)) = Some (Inr (find ?P (rev T)))"
    unfolding T_find
  proof (rule retreat_stop)
    fix x assume "(if T = [] then None else Some (last T)) = Some x"
    then have x: "x \<in> set T" by (auto split: if_splits)
    then have "cmp (keyof s x) t < 0" "x \<in> set (head # L)" using T L by auto
    then show "x < length (nodes s) \<and> \<not> cmp t (keyof s x) < 0"
      using cmp_sym [of "keyof s x" t] sl_rep_mem [OF rep] by auto
  qed
  have seek: "Seek cmp s t = Some (Inr (case U of [] \<Rightarrow> None | y # _ \<Rightarrow> Some y))"
    by (simp add: Seek_def FindGreaterOrEqual_ok [OF rep] U_def)
  show ?thesis
  proof (cases U)
    case Nil
    with L show ?thesis using stop by (cases "T = []") (simp_all add: SeekForPrev_def seek Valid_def SeekToLast_ok [OF rep])
  next
    case (Cons y U')
    have y: "y < length (nodes s)" using sl_rep_mem [OF rep, of y] L Cons by simp
    have ge: "\<not> cmp (keyof s y) t < 0"
      using upper_not_bef [OF rep, of y t] Cons by (simp add: U_def bef_def)
    have U': "cmp (keyof s y) (keyof s z) < 0" if "z \<in> set U'" for z
      using rep L Cons that by (auto simp: sl_rep_def sorted_wrt_append)
    show ?thesis
    proof (cases "cmp (keyof s y) t = 0")
      case True
      then have "\<not> ?P z" if "z \<in> set U'" for z
        using U' [OF that] cmp_eq [of t "keyof s y" "keyof s z"] cmp_zero_sym [of t "keyof s y"] cmp_sym [of t "keyof s z"]
        by auto
      then have "find ?P (rev U') = None" by (intro find_none) auto
      then have "find ?P (rev L) = Some y" using L Cons True by (simp add: find_append)
      moreover have "retreat cmp s t (Some y) = Some (Inr (Some y))"
        using y True cmp_zero_sym [of t "keyof s y"] by (intro retreat_stop) auto
      ultimately show ?thesis by (simp add: SeekForPrev_def seek Cons Valid_def)
    next
      case False
      with ge have gt: "cmp (keyof s y) t > 0" "cmp t (keyof s y) < 0" using cmp_sym [of t "keyof s y"] by auto
      then have "\<not> ?P z" if "z \<in> set U" for z
        using that Cons U' cmp_trans [of t "keyof s y" "keyof s z"] cmp_sym [of t "keyof s z"]
        by auto
      then have "find ?P (rev U) = None" by (intro find_none) auto
      then have "find ?P (rev L) = find ?P (rev T)" using L by (simp add: find_append)
      moreover have "retreat cmp s t (Some y) = retreat cmp s t (if T = [] then None else Some (last T))"
        using y gt iter_Prev_ok [OF rep, of T y U'] L Cons
        by (subst retreat.simps) (simp add: iter_key_def key_at_ok LessThan_def)
      ultimately show ?thesis using stop by (simp add: SeekForPrev_def seek Cons Valid_def)
    qed
  qed
qed

lemma at_key_find:
  assumes rep: "sl_rep cmp s L" and ks: "map (keyof s) L = ks" and M: "set M \<subseteq> set L"
  shows "at_key s (find (\<lambda>y. P (keyof s y)) M) (find P (map (keyof s) M))"
  using M sl_rep_mem [OF rep] by (induction M) (auto simp: at_key_def Valid_def iter_key_def key_at_ok)

lemma seeks_ok:
  assumes "sl_ok cmp s ks"
  shows "\<exists>it. Seek cmp s t = Some (Inr it) \<and> at_key s it (find (\<lambda>j. cmp j t \<ge> 0) ks)"
    and "\<exists>it. SeekForPrev cmp s t = Some (Inr it) \<and> at_key s it (find (\<lambda>j. cmp j t \<le> 0) (rev ks))"
    and "\<exists>it. SeekToFirst s = Inr it \<and> at_key s it (find (\<lambda>_. True) ks)"
    and "\<exists>it. SeekToLast s = Some (Inr it) \<and> at_key s it (find (\<lambda>_. True) (rev ks))"
proof -
  obtain L where rep: "sl_rep cmp s L" and ks: "map (keyof s) L = ks"
    using assms by (auto simp: sl_ok_def)
  note at = at_key_find [OF rep ks]
  show "\<exists>it. Seek cmp s t = Some (Inr it) \<and> at_key s it (find (\<lambda>j. cmp j t \<ge> 0) ks)"
    using at [of L "\<lambda>j. cmp j t \<ge> 0"] ks by (simp add: seek_ok [OF rep])
  show "\<exists>it. SeekForPrev cmp s t = Some (Inr it) \<and> at_key s it (find (\<lambda>j. cmp j t \<le> 0) (rev ks))"
    using at [of "rev L" "\<lambda>j. cmp j t \<le> 0"] by (simp add: SeekForPrev_ok [OF rep] rev_map ks [symmetric])
  have "SeekToFirst s = Inr (find (\<lambda>_. True) L)"
    using next_in_sequence [OF rep, of "[]" head L] by (cases L) (simp_all add: SeekToFirst_def)
  then show "\<exists>it. SeekToFirst s = Inr it \<and> at_key s it (find (\<lambda>_. True) ks)"
    using at [of L "\<lambda>_. True"] ks by simp
  have "find (\<lambda>_. True) (rev L) = (if L = [] then None else Some (last L))"
    by (rule find_rev_all) simp
  then show "\<exists>it. SeekToLast s = Some (Inr it) \<and> at_key s it (find (\<lambda>_. True) (rev ks))"
    using at [of "rev L" "\<lambda>_. True"] by (simp add: SeekToLast_ok [OF rep] rev_map ks [symmetric])
qed

lemma seek_then_prev_next:
  assumes "sl_ok cmp s ks" and seek: "Seek cmp s t = Some (Inr it)" and valid: "Valid it"
  shows "\<exists>it'. iter_Prev cmp s it = Some (Inr it') \<and> at_key s it' (find (\<lambda>_. True) (rev (takeWhile (\<lambda>j. cmp j t < 0) ks)))"
    and "\<exists>it'. iter_Next s it = Inr it' \<and> at_key s it' (find (\<lambda>_. True) (tl (dropWhile (\<lambda>j. cmp j t < 0) ks)))"
proof -
  obtain L where rep: "sl_rep cmp s L" and ks: "map (keyof s) L = ks"
    using assms(1) by (auto simp: sl_ok_def)
  note at = at_key_find [OF rep ks, where P = "\<lambda>_. True"]
  define T U where "T = takeWhile (bef cmp s t) L" and "U = upper cmp s t L"
  have L: "L = T @ U" by (simp add: T_def U_def upper_def)
  have keys: "takeWhile (\<lambda>j. cmp j t < 0) ks = map (keyof s) T" "dropWhile (\<lambda>j. cmp j t < 0) ks = map (keyof s) U"
    by (auto simp: ks [symmetric] T_def U_def upper_def takeWhile_map dropWhile_map comp_def bef_def [abs_def])
  obtain y U' where U: "U = y # U'" and it: "it = Some y"
    using seek valid by (auto simp: Seek_def FindGreaterOrEqual_ok [OF rep] U_def Valid_def split: list.splits)
  have "iter_Prev cmp s it = Some (Inr (find (\<lambda>_. True) (rev T)))"
    using iter_Prev_ok [OF rep, of T y U'] L U it find_rev_all [of T "\<lambda>_. True"] by simp
  then show "\<exists>it'. iter_Prev cmp s it = Some (Inr it') \<and> at_key s it' (find (\<lambda>_. True) (rev (takeWhile (\<lambda>j. cmp j t < 0) ks)))"
    using at [of "rev T"] L by (simp add: keys rev_map)
  have "iter_Next s it = Inr (find (\<lambda>_. True) U')"
    using next_in_sequence [OF rep, of "head # T" y U'] L U it by (cases U') (simp_all add: iter_Next_def)
  then show "\<exists>it'. iter_Next s it = Inr it' \<and> at_key s it' (find (\<lambda>_. True) (tl (dropWhile (\<lambda>j. cmp j t < 0) ks)))"
    using at [of U'] L U by (auto simp: keys)
qed

section \<open>The estimate\<close>

lemma count_turn_ok:
  assumes rep: "sl_rep cmp s L" and x: "x \<in> set (lower cmp s k L)" and lv: "lv < ht s x"
  shows "count_turn cmp s k x lv a = Inr (case lnk s x lv of
      Some y \<Rightarrow> if bef cmp s k y then Forward y (a + 1)
                else if lv = 0 then Stop a else Down (a * word_of_nat (kBranching s))
    | None \<Rightarrow> if lv = 0 then Stop a else Down (a * word_of_nat (kBranching s)))"
proof -
  have "x < length (nodes s)" using sl_rep_mem [OF rep lower_mem [OF x]] .
  then have "(if x = head then Inr () else bind_res (key_at s x) (\<lambda>kx. check (cmp kx k < 0))) = Inr ()"
    using lower_bef [OF x] by (auto simp: key_at_ok bef_def check_def)
  then show ?thesis
    using step_facts(1) [OF rep x lv] step_facts(4) [OF rep x lv]
    by (auto simp: count_turn_def key_at_ok bef_def split: option.split)
qed

lemma EstimateCount_returns:
  assumes rep: "sl_rep cmp s L"
  shows "\<exists>n. EstimateCount cmp s k = Some (Inr n)"
proof -
  let ?I = "\<lambda>x lv (a :: u64). x \<in> set (lower cmp s k L) \<and> lv < ht s x"
  have "\<exists>n. walk (count_turn cmp s k) head (max_height s - 1) 0 = Some (Inr n) \<and> True"
  proof (rule walk_rule [where I = ?I and rank = "rank (head # L)"])
    show "?I head (max_height s - 1) 0" using head_start [OF rep] by blast
    fix x lv a
    assume I: "?I x lv a"
    then have x: "x \<in> set (lower cmp s k L)" and lv: "lv < ht s x" by auto
    show "\<exists>t. count_turn cmp s k x lv a = Inr t \<and>
       (case t of Stop r \<Rightarrow> True | Forward y a' \<Rightarrow> ?I y lv a' \<and> rank (head # L) y < rank (head # L) x
        | Down a' \<Rightarrow> 0 < lv \<and> ?I x (lv - 1) a')"
    proof (cases "lnk s x lv")
      case None
      then show ?thesis using I by (auto simp: count_turn_ok [OF rep x lv])
    next
      case (Some y)
      then show ?thesis using I step_facts(4) [OF rep x lv Some] by (auto simp: count_turn_ok [OF rep x lv])
    qed
  qed
  then show ?thesis by (simp add: EstimateCount_def)
qed

lemma EstimateCount_flat:
  assumes rep: "sl_rep cmp s L" and flat: "max_height s = 1"
  shows "EstimateCount cmp s k = Some (Inr (word_of_nat (length (takeWhile (bef cmp s k) L))))"
proof -
  let ?A = "lower cmp s k L"
  let ?I = "\<lambda>x (lv :: nat) (a :: u64). lv = 0 \<and> (\<exists>B C. ?A = B @ x # C \<and> a = word_of_nat (length B))"
  let ?Q = "\<lambda>n. n = (word_of_nat (length (takeWhile (bef cmp s k) L)) :: u64)"
  have "\<exists>n. walk (count_turn cmp s k) head (max_height s - 1) 0 = Some (Inr n) \<and> ?Q n"
  proof (rule walk_rule [where I = ?I and rank = "rank (head # L)"])
    show "?I head (max_height s - 1) 0" using flat by (simp add: lower_def) (rule exI [of _ "[]"], simp)
    fix x lv a
    assume "?I x lv a"
    then obtain B C where lv: "lv = 0" and A: "?A = B @ x # C" and a: "a = word_of_nat (length B)" by blast
    have x: "x \<in> set ?A" using A by simp
    then have ht: "0 < ht s x" using sl_rep_ht [OF rep lower_mem [OF x]] by simp
    have nxt: "lnk s x 0 = (case C @ upper cmp s k L of [] \<Rightarrow> None | y # _ \<Rightarrow> Some y)"
      using next_in_sequence [OF rep, of B x "C @ upper cmp s k L"] A lower_upper [of L cmp s k]
        step_facts(1) [OF rep x ht] by simp
    show "\<exists>t. count_turn cmp s k x lv a = Inr t \<and>
       (case t of Stop r \<Rightarrow> ?Q r | Forward y a' \<Rightarrow> ?I y lv a' \<and> rank (head # L) y < rank (head # L) x
        | Down a' \<Rightarrow> 0 < lv \<and> ?I x (lv - 1) a')"
    proof (cases C)
      case Nil
      have "length (takeWhile (bef cmp s k) L) = length B"
        using arg_cong [OF A, of length] Nil by (simp add: lower_def)
      moreover have "\<not> bef cmp s k y" if "lnk s x 0 = Some y" for y
        using that nxt Nil upper_not_bef [OF rep, of y k] by (auto split: list.splits)
      ultimately show ?thesis
        using lv a by (auto simp: count_turn_ok [OF rep x ht] split: option.split)
    next
      case (Cons y C')
      have "y \<in> set (takeWhile (bef cmp s k) L)"
        using A Cons by (cases B) (simp_all add: lower_def)
      then have "bef cmp s k y" by (blast dest: set_takeWhileD)
      moreover have "rank (head # L) y < rank (head # L) x"
        using step_facts(4) [OF rep x ht, of y] nxt Cons by simp
      ultimately show ?thesis
        using lv a nxt A Cons by (simp add: count_turn_ok [OF rep x ht]) (rule exI [of _ "B @ [x]"], simp)
    qed
  qed
  then show ?thesis by (simp add: EstimateCount_def)
qed

end

section \<open>Two comparators that agree on the keys at hand\<close>

text \<open>
  The operations compare only the argument and keys that are stored in nodes. So a comparator that is an order
  only on some keys can be exchanged for one that is an order on all of them.
\<close>

definition agree_on :: "'k set \<Rightarrow> ('k \<Rightarrow> 'k \<Rightarrow> int) \<Rightarrow> ('k \<Rightarrow> 'k \<Rightarrow> int) \<Rightarrow> bool" where
  "agree_on K cmp cmp' \<longleftrightarrow> (\<forall>a \<in> K. \<forall>b \<in> K. cmp a b = cmp' a b)"

lemma agreeD: "agree_on K cmp cmp' \<Longrightarrow> a \<in> K \<Longrightarrow> b \<in> K \<Longrightarrow> cmp a b = cmp' a b"
  by (simp add: agree_on_def)

abbreviation stored :: "'k skiplist \<Rightarrow> 'k list" where
  "stored s \<equiv> map nkey (nodes s)"

lemma key_at_stored: "key_at s x = Inr k \<Longrightarrow> k \<in> set (stored s)"
  by (auto simp: key_at_def node_at_def bind_res_Inr_iff split: if_splits)

lemma bind_key_at_cong:
  "(\<And>k. k \<in> set (stored s) \<Longrightarrow> f k = g k) \<Longrightarrow> bind_res (key_at s x) f = bind_res (key_at s x) g"
  by (cases "key_at s x") (auto dest: key_at_stored)

lemma KeyIsAfterNode_cong:
  assumes "agree_on K cmp cmp'" "set (stored s) \<subseteq> K" "k \<in> K"
  shows "KeyIsAfterNode cmp s k n = KeyIsAfterNode cmp' s k n"
proof -
  have "bind_res (key_at s x) (\<lambda>kx. Inr (cmp kx k < 0)) = bind_res (key_at s x) (\<lambda>kx. Inr (cmp' kx k < 0))" for x
    using agreeD [OF assms(1) _ assms(3)] assms(2) by (intro bind_key_at_cong) (metis subsetD)
  then show ?thesis by (simp add: KeyIsAfterNode_def cong: option.case_cong)
qed

lemma assert_sorted_cong:
  assumes "agree_on K cmp cmp'" "set (stored s) \<subseteq> K"
  shows "assert_sorted cmp s x nxt = assert_sorted cmp' s x nxt"
  unfolding assert_sorted_def
  by (cases nxt) (auto intro!: bind_key_at_cong simp del: set_map
      simp: KeyIsAfterNode_cong [OF assms] subsetD [OF assms(2)])

lemma assert_before_cong:
  assumes "agree_on K cmp cmp'" "set (stored s) \<subseteq> K" "k \<in> K"
  shows "assert_before cmp s k x = assert_before cmp' s k x"
  by (simp add: assert_before_def KeyIsAfterNode_cong [OF assms])

lemma fge_turn_cong:
  assumes "agree_on K cmp cmp'" "set (stored s) \<subseteq> K" "k \<in> K"
  shows "fge_turn cmp s k = fge_turn cmp' s k"
proof -
  have "cmp ky k = cmp' ky k" if "ky \<in> set (stored s)" for ky
    using assms that unfolding agree_on_def by blast
  then have "bind_res (key_at s y) (\<lambda>ky. Inr (cmp ky k)) = bind_res (key_at s y) (\<lambda>ky. Inr (cmp' ky k))" for y
    by (intro bind_key_at_cong) simp
  then show ?thesis
    by (simp add: fun_eq_iff fge_turn_def assert_sorted_cong [OF assms(1,2)] assert_before_cong [OF assms] cong: option.case_cong if_cong)
qed

lemma flt_turn_cong:
  assumes "agree_on K cmp cmp'" "set (stored s) \<subseteq> K" "k \<in> K"
  shows "flt_turn cmp s k = flt_turn cmp' s k"
  by (simp add: fun_eq_iff flt_turn_def assert_sorted_cong [OF assms(1,2)] assert_before_cong [OF assms]
      KeyIsAfterNode_cong [OF assms] cong: if_cong)

lemma Contains_cong:
  assumes "agree_on K cmp cmp'" "set (stored s) \<subseteq> K" "k \<in> K"
  shows "Contains cmp s k = Contains cmp' s k"
proof -
  have "bind_res (key_at s y) (\<lambda>ky. Inr (Equal cmp k ky)) = bind_res (key_at s y) (\<lambda>ky. Inr (Equal cmp' k ky))" for y
    using assms by (intro bind_key_at_cong) (auto simp: Equal_def agree_on_def)
  then show ?thesis by (simp add: Contains_def FindGreaterOrEqual_def fge_turn_cong [OF assms] cong: option.case_cong)
qed

lemma insert_at_prev_cong:
  assumes "agree_on K cmp cmp'" "set (stored s) \<subseteq> K" "k \<in> K"
  shows "insert_at_prev cmp rnd k s = insert_at_prev cmp' rnd k s"
proof -
  have "bind_res (key_at s y) (\<lambda>ky. check (\<not> Equal cmp k ky)) = bind_res (key_at s y) (\<lambda>ky. check (\<not> Equal cmp' k ky))" for y
    using assms by (intro bind_key_at_cong) (auto simp: Equal_def agree_on_def)
  then show ?thesis by (simp add: insert_at_prev_def cong: option.case_cong)
qed

lemma fast_path_cong:
  assumes "agree_on K cmp cmp'" "set (stored s) \<subseteq> K" "k \<in> K"
  shows "fast_path cmp s k = fast_path cmp' s k"
  by (simp add: fast_path_def KeyIsAfterNode_cong [OF assms] cong: if_cong)

lemma Insert_cong:
  assumes "agree_on K cmp cmp'" "set (stored s) \<subseteq> K" "k \<in> K"
  shows "Insert cmp rnd s k = Insert cmp' rnd s k"
proof -
  have "insert_at_prev cmp rnd k (s\<lparr>prev := p\<rparr>) = insert_at_prev cmp' rnd k (s\<lparr>prev := p\<rparr>)" for p
    using assms by (intro insert_at_prev_cong) simp_all
  then show ?thesis
    using fast_path_cong [OF assms] by (simp add: Insert_def FindLessThan_def flt_turn_cong [OF assms] cong: option.case_cong prod.case_cong
        split: sum.split bool.split)
qed

text \<open>An insertion stores its key and no other.\<close>

lemma SetNext_stored: "SetNext s x n v = Inr s' \<Longrightarrow> stored s' = stored s"
  by (auto simp: SetNext_def node_at_def bind_res_Inr_iff map_update split: if_splits)
    (metis list_update_id map_update length_map nth_map)

lemma link_from_stored: "link_from i height x s = Inr s' \<Longrightarrow> stored s' = stored s"
proof (induction i height x s rule: link_from.induct)
  case (1 i height x s)
  from "1.prems" show ?case
    by (subst (asm) link_from.simps) (auto simp: bind_res_Inr_iff split: if_splits dest!: "1.IH" SetNext_stored)
qed

lemma insert_at_prev_stored: "insert_at_prev cmp rnd k s = Inr s' \<Longrightarrow> stored s' = stored s @ [k]"
  by (auto simp: insert_at_prev_def NewNode_def bind_res_Inr_iff split: if_splits dest!: link_from_stored)

lemma Insert_stored: "Insert cmp rnd s k = Some (Inr s') \<Longrightarrow> stored s' = stored s @ [k]"
  by (auto simp: Insert_def bind_res_Inr_iff split: sum.splits bool.splits option.splits dest!: insert_at_prev_stored)

lemma insert_all_cong:
  assumes "agree_on K cmp cmp'" "set (stored s) \<subseteq> K" "set ks \<subseteq> K"
  shows "insert_all cmp rnd n s ks = insert_all cmp' rnd n s ks"
  using assms(2,3)
proof (induction ks arbitrary: n s)
  case (Cons k ks)
  have eq: "Insert cmp (rnd n) s k = Insert cmp' (rnd n) s k"
    using Cons.prems by (intro Insert_cong [OF assms(1)]) auto
  have "set (stored s') \<subseteq> K" if "Insert cmp' (rnd n) s k = Some (Inr s')" for s'
    using Insert_stored [OF that] Cons.prems by (auto simp del: set_map)
  then show ?case using Cons.IH Cons.prems(2) by (auto simp: eq split: option.split sum.split)
qed simp

lemma insert_all_stored: "insert_all cmp rnd n s ks = Some (Inr s') \<Longrightarrow> stored s' = stored s @ ks"
  by (induction ks arbitrary: n s) (auto split: option.splits sum.splits dest!: Insert_stored)

section \<open>Properties\<close>

lemma ins_key_insort: "sorted (map sint ks) \<Longrightarrow> ins_key int_compare k ks = insort_key sint k ks"
  by (induction ks) (auto simp: ins_key_def int_compare_less not_less)

lemma inj_sint: "inj_on (sint :: u32 \<Rightarrow> int) A"
  by (simp add: inj_on_def sint_eq_iff)

lemma insert_all_ok:
  assumes "sl_ok int_compare s js" "sorted (map sint js)" "distinct (js @ ks)"
  shows "\<exists>s'. insert_all int_compare rnd n s ks = Some (Inr s') \<and> sl_ok int_compare s' (sort_key sint (js @ ks))"
  using assms
proof (induction ks arbitrary: s js n)
  case Nil
  then show ?case by (simp add: sort_key_id_if_sorted)
next
  case (Cons k ks)
  have "\<forall>j \<in> set js. int_compare k j \<noteq> 0" using Cons.prems(3) by (auto simp: int_compare_less)
  then obtain s1 where s1: "Insert int_compare (rnd n) s k = Some (Inr s1)" "sl_ok int_compare s1 (insort_key sint k js)"
    using int_cmp.insert_ok [OF Cons.prems(1)] ins_key_insort [OF Cons.prems(2)] by metis
  have sort_eq: "sort_key sint (insort_key sint k js @ ks) = sort_key sint (js @ k # ks)"
    by (rule sort_key_inj_key_eq [OF _ inj_sint]) simp_all
  have "sorted (map sint (insort_key sint k js))" "distinct (insort_key sint k js @ ks)"
    using Cons.prems by (auto simp: sorted_insort_key distinct_insort set_insort_key)
  from Cons.IH [OF s1(2) this, of "Suc n"] show ?case
    unfolding sort_eq by (simp add: s1(1))
qed

text \<open>
  C8. Insertion refines insertion into an ascending list of keys: for any comparator that is
  an order and any random draws, a key that is not present is added at its place, no assertion
  fails, and the list is again well formed.
\<close>

theorem skip_insert_refines:
  assumes "comparator cmp" "sl_ok cmp s ks" "\<forall>j \<in> set ks. cmp k j \<noteq> 0"
  shows "\<exists>s'. Insert cmp rnd s k = Some (Inr s') \<and> sl_ok cmp s' (ins_key cmp k ks)"
  using comparator.insert_ok [OF assms] .

theorem skip_insert_refines_witness:
  "\<exists>s s'. SkipList_new 0 12 4 = Inr s \<and> Insert int_compare (\<lambda>_. 0) s 5 = Some (Inr s')
     \<and> sl_ok int_compare s' [5]"
proof -
  obtain s where s: "SkipList_new 0 12 4 = Inr s" "sl_ok int_compare s []"
    using SkipList_new_ok [of 12 4 "0" int_compare] by auto
  with skip_insert_refines [OF int_cmp.comparator_axioms s(2), of "5"]
  show ?thesis by (auto simp: ins_key_def)
qed

text \<open>
  C9. The test's client with its \<open>IntComparator\<close> on 32-bit integers: as long as no difference of two keys, the
  head's key 0 among them, leaves the type (elsewhere \<open>IntComparator\<close> is undefined or no order, see
  \<open>IntComparator_no_order\<close>), distinct keys inserted in any order, with any random heights, come out of the \<open>dump\<close> loop in
  ascending order, and \<open>Contains\<close> answers exactly for every key whose differences to them fit as well.
\<close>

theorem skip_list_sorts:
  assumes "distinct ks" "\<forall>a \<in> insert 0 (set ks). \<forall>b \<in> insert 0 (set ks). int_fits (sint a - sint b)"
  shows "\<exists>s0 s. SkipList_new 0 12 4 = Inr s0 \<and> insert_all IntComparator rnd 0 s0 ks = Some (Inr s)
    \<and> dump s = Some (Inr (sort_key sint ks))
    \<and> (\<forall>k. (\<forall>a \<in> insert 0 (set ks). int_fits (sint a - sint k) \<and> int_fits (sint k - sint a))
         \<longrightarrow> Contains IntComparator s k = Some (Inr (k \<in> set ks)))"
proof -
  obtain s0 where s0: "SkipList_new 0 12 4 = Inr s0" "sl_ok int_compare s0 []"
    using SkipList_new_ok [of 12 4 0 int_compare] by auto
  then have st0: "stored s0 = [0]" by (auto simp: SkipList_new_def Let_def check_def split: if_splits)
  obtain s where s: "insert_all int_compare rnd 0 s0 ks = Some (Inr s)" "sl_ok int_compare s (sort_key sint ks)"
    using insert_all_ok [OF s0(2), of ks rnd 0] assms(1) by auto
  have "agree_on (insert 0 (set ks)) IntComparator int_compare"
    using assms(2) by (auto simp: agree_on_def intro!: IntComparator_exact)
  then have "insert_all IntComparator rnd 0 s0 ks = insert_all int_compare rnd 0 s0 ks"
    by (rule insert_all_cong) (auto simp: st0 simp del: set_map)
  then have "insert_all IntComparator rnd 0 s0 ks = Some (Inr s)" using s(1) by simp
  moreover have "Contains IntComparator s k = Some (Inr (k \<in> set ks))"
    if "\<forall>a \<in> insert 0 (set ks). int_fits (sint a - sint k) \<and> int_fits (sint k - sint a)" for k
  proof -
    have "agree_on (insert k (insert 0 (set ks))) IntComparator int_compare"
      using assms(2) that by (auto simp: agree_on_def int_fits_def intro!: IntComparator_exact)
    moreover have "stored s = 0 # ks" using insert_all_stored [OF s(1)] st0 by simp
    ultimately have "Contains IntComparator s k = Contains int_compare s k"
      by (intro Contains_cong [of "insert k (insert 0 (set ks))"]) auto
    then show ?thesis using int_cmp.contains_ok [OF s(2), of k] by (auto simp: int_compare_less)
  qed
  ultimately show ?thesis using s0(1) int_cmp.dump_ok [OF s(2)] by blast
qed

theorem skip_list_sorts_witness:
  "distinct [9, - 2, 30 :: u32] \<and> (\<exists>s0 s. SkipList_new 0 12 4 = Inr s0
     \<and> insert_all IntComparator (\<lambda>_ _. 0) 0 s0 [9, - 2, 30] = Some (Inr s)
     \<and> dump s = Some (Inr [- 2, 9, 30]) \<and> Contains IntComparator s 9 = Some (Inr True))"
proof -
  have d: "distinct [9, - 2, 30 :: u32]"
    and fits: "\<forall>a \<in> insert 0 (set [9, - 2, 30 :: u32]). \<forall>b \<in> insert 0 (set [9, - 2, 30 :: u32]). int_fits (sint a - sint b)"
    by (simp_all add: int_fits_def)
  have "sort_key sint [9, - 2, 30 :: u32] = [- 2, 9, 30]" by simp
  moreover have "\<forall>a \<in> insert 0 (set [9, - 2, 30 :: u32]). int_fits (sint a - sint (9 :: u32)) \<and> int_fits (sint (9 :: u32) - sint a)"
    by (simp add: int_fits_def)
  ultimately show ?thesis using skip_list_sorts [OF d fits, of "\<lambda>_ _. 0"] d by fastforce
qed

text \<open>
  C10. Inserting a key that is present stops at the assertion of \<open>Insert\<close>, whether or not
  the cached predecessors are used.
\<close>

theorem skip_insert_duplicate:
  assumes "comparator cmp" "sl_ok cmp s ks" "\<exists>j \<in> set ks. cmp k j = 0"
  shows "Insert cmp rnd s k = Some (Inl AssertFail)"
  using comparator.insert_duplicate [OF assms] .

theorem skip_insert_duplicate_witness:
  "\<exists>s s'. SkipList_new 0 12 4 = Inr s \<and> Insert int_compare (\<lambda>_. 0) s 5 = Some (Inr s')
     \<and> Insert int_compare (\<lambda>_. 0) s' 5 = Some (Inl AssertFail)"
proof -
  obtain s where s: "SkipList_new 0 12 4 = Inr s" "sl_ok int_compare s []"
    using SkipList_new_ok [of 12 4 "0" int_compare] by auto
  obtain s' where s': "Insert int_compare (\<lambda>_. 0) s 5 = Some (Inr s')" "sl_ok int_compare s' [5]"
    using int_cmp.insert_ok [OF s(2), of "5"] by (auto simp: ins_key_def)
  have "Insert int_compare (\<lambda>_. 0) s' 5 = Some (Inl AssertFail)"
    by (rule skip_insert_duplicate [OF int_cmp.comparator_axioms s'(2)]) (simp add: int_compare_less)
  with s s' show ?thesis by blast
qed

text \<open>
  C11. The iterator: \<open>Seek\<close> stands on the first key not before the target and \<open>SeekForPrev\<close>
  on the last key not after it; both searches end, and past the end the iterator is invalid.
\<close>

theorem skip_iterator_seeks:
  assumes "comparator cmp" "sl_ok cmp s ks"
  shows "(\<exists>it. Seek cmp s t = Some (Inr it) \<and> at_key s it (find (\<lambda>j. cmp j t \<ge> 0) ks))
    \<and> (\<exists>it. SeekForPrev cmp s t = Some (Inr it) \<and> at_key s it (find (\<lambda>j. cmp j t \<le> 0) (rev ks)))
    \<and> (\<exists>it. SeekToFirst s = Inr it \<and> at_key s it (find (\<lambda>_. True) ks))
    \<and> (\<exists>it. SeekToLast s = Some (Inr it) \<and> at_key s it (find (\<lambda>_. True) (rev ks)))"
  using comparator.seeks_ok [OF assms] by blast

lemma two_keys:
  obtains s0 s where "SkipList_new 0 12 4 = Inr s0" "insert_all int_compare (\<lambda>_ _. 0) 0 s0 [9, 2] = Some (Inr s)"
    "sl_ok int_compare s [2, 9]"
proof -
  obtain s0 where s0: "SkipList_new 0 12 4 = Inr s0" "sl_ok int_compare s0 []"
    using SkipList_new_ok [of 12 4 0 int_compare] by auto
  then show ?thesis using that insert_all_ok [OF s0(2), of "[9, 2]" "\<lambda>_ _. 0" 0] by auto
qed

theorem skip_iterator_seeks_witness:
  "\<exists>s it it'. sl_ok int_compare s [2, 9] \<and> Seek int_compare s 5 = Some (Inr it) \<and> at_key s it (Some 9)
     \<and> SeekForPrev int_compare s 5 = Some (Inr it') \<and> at_key s it' (Some 2)"
proof -
  obtain s where s: "sl_ok int_compare s [2, 9]" using two_keys by blast
  with skip_iterator_seeks [OF int_cmp.comparator_axioms s, of 5]
  show ?thesis by (auto simp: int_compare_def)
qed

text \<open>
  From a position found by \<open>Seek\<close>, \<open>Prev\<close> moves to the last key before the target and
  \<open>Next\<close> to the key after the one found, although the nodes have no backward links.
\<close>

theorem skip_iterator_moves:
  assumes "comparator cmp" "sl_ok cmp s ks" "Seek cmp s t = Some (Inr it)" "Valid it"
  shows "(\<exists>it'. iter_Prev cmp s it = Some (Inr it')
            \<and> at_key s it' (find (\<lambda>_. True) (rev (takeWhile (\<lambda>j. cmp j t < 0) ks))))
    \<and> (\<exists>it'. iter_Next s it = Inr it' \<and> at_key s it' (find (\<lambda>_. True) (tl (dropWhile (\<lambda>j. cmp j t < 0) ks))))"
  using comparator.seek_then_prev_next [OF assms] by blast

theorem skip_iterator_moves_witness:
  "\<exists>s it it'. sl_ok int_compare s [2, 9] \<and> Seek int_compare s 9 = Some (Inr it) \<and> Valid it
     \<and> iter_Prev int_compare s it = Some (Inr it') \<and> iter_key s it' = Inr 2"
proof -
  obtain s where s: "sl_ok int_compare s [2, 9]" using two_keys by blast
  have c: "int_compare 2 9 < 0" "int_compare 9 9 = 0" by (simp_all add: int_compare_def)
  obtain it where it: "Seek int_compare s 9 = Some (Inr it)" "Valid it"
    using int_cmp.seeks_ok(1) [OF s, of 9] c by (auto simp: at_key_def)
  from skip_iterator_moves [OF int_cmp.comparator_axioms s it] c s it
  show ?thesis by (auto simp: at_key_def)
qed

text \<open>
  \<open>EstimateCount\<close> ends without a fault on every well-formed list, and while all nodes
  have height one it counts the keys before the target exactly (modulo its 64 bits).
\<close>

theorem skip_estimate_count:
  assumes "comparator cmp" "sl_ok cmp s ks"
  shows "\<exists>n. EstimateCount cmp s k = Some (Inr n)
    \<and> (max_height s = 1 \<longrightarrow> n = word_of_nat (length (takeWhile (\<lambda>j. cmp j k < 0) ks)))"
proof -
  obtain L where L: "sl_rep cmp s L" "map (keyof s) L = ks" using assms(2) by (auto simp: sl_ok_def)
  have "length (takeWhile (\<lambda>j. cmp j k < 0) ks) = length (takeWhile (bef cmp s k) L)"
    by (simp add: L(2) [symmetric] takeWhile_map comp_def bef_def [abs_def])
  then show ?thesis
    using comparator.EstimateCount_returns [OF assms(1) L(1)] comparator.EstimateCount_flat [OF assms(1) L(1)]
    by (cases "max_height s = 1") auto
qed

theorem skip_estimate_count_witness:
  "\<exists>s n. SkipList_new 0 12 4 = Inr s \<and> EstimateCount int_compare s 5 = Some (Inr n) \<and> n = 0"
proof -
  obtain s where s: "SkipList_new 0 12 4 = Inr s" "sl_ok int_compare s []"
    using SkipList_new_ok [of 12 4 "0" int_compare] by auto
  then have "max_height s = 1" by (auto simp: SkipList_new_def Let_def check_def split: if_splits)
  with s skip_estimate_count [OF int_cmp.comparator_axioms s(2), of "5"] show ?thesis by auto
qed

end
