(* ===== verification/LockedQueue.thy ===== *)
theory LockedQueue
  imports Interfaces
begin

text \<open>
  The mutex-protected queue of \<^verbatim>\<open>Queue_Design/LockedQueue.h\<close>. An operation is
  \<open>None\<close> when it would block on the mutex; taking the front of an empty deque is a fault.
  Operations that run under a lock guard are atomic; \<open>peek\<close> may return with the mutex held.
\<close>

section \<open>State and operations\<close>

record 'a locked_queue =
  lq_lock :: bool
  lq_queue :: "'a list"
  lq_canceled :: bool

definition LockedQueue_new :: "'a locked_queue" where
  "LockedQueue_new = \<lparr>lq_lock = False, lq_queue = [], lq_canceled = False\<rparr>"

definition lq_acquire :: "'a locked_queue \<Rightarrow> 'a locked_queue option" where
  "lq_acquire q = (if lq_lock q then None else Some (q\<lparr>lq_lock := True\<rparr>))"

definition lq_unlock :: "'a locked_queue \<Rightarrow> 'a locked_queue" where
  "lq_unlock q = q\<lparr>lq_lock := False\<rparr>"

text \<open>A body under \<open>std::lock_guard\<close>: the guard unlocks on every way out.\<close>

definition guarded :: "('a locked_queue \<Rightarrow> ('r \<times> 'a locked_queue) res) \<Rightarrow> 'a locked_queue
    \<Rightarrow> ('r \<times> 'a locked_queue) res option" where
  "guarded body q =
     map_option (\<lambda>q1. bind_res (body q1) (\<lambda>(r, q2). Inr (r, lq_unlock q2))) (lq_acquire q)"

definition deque_pop_front :: "'a list \<Rightarrow> 'a list res" where
  "deque_pop_front xs = (case xs of [] \<Rightarrow> Inl OutOfBounds | _ # ys \<Rightarrow> Inr ys)"

definition deque_front :: "'a list \<Rightarrow> 'a res" where
  "deque_front xs = (case xs of [] \<Rightarrow> Inl OutOfBounds | x # _ \<Rightarrow> Inr x)"

definition lq_pop_front :: "'a locked_queue \<Rightarrow> (unit \<times> 'a locked_queue) res option" where
  "lq_pop_front = guarded (\<lambda>q. bind_res (deque_pop_front (lq_queue q)) (\<lambda>xs. Inr ((), q\<lparr>lq_queue := xs\<rparr>)))"

definition lq_empty :: "'a locked_queue \<Rightarrow> (bool \<times> 'a locked_queue) res option" where
  "lq_empty = guarded (\<lambda>q. Inr (lq_queue q = [], q))"

definition lq_cancel :: "'a locked_queue \<Rightarrow> (unit \<times> 'a locked_queue) res option" where
  "lq_cancel = guarded (\<lambda>q. Inr ((), q\<lparr>lq_canceled := True\<rparr>))"

definition lq_cancelled :: "'a locked_queue \<Rightarrow> (bool \<times> 'a locked_queue) res option" where
  "lq_cancelled = guarded (\<lambda>q. Inr (lq_canceled q, q))"

definition lq_peek :: "bool \<Rightarrow> 'a locked_queue \<Rightarrow> ('a \<times> 'a locked_queue) res option" where
  "lq_peek autoUnlock q =
     map_option (\<lambda>q1. bind_res (deque_front (lq_queue q1))
       (\<lambda>x. Inr (x, if autoUnlock then lq_unlock q1 else q1))) (lq_acquire q)"

definition lq_add :: "'a \<Rightarrow> 'a locked_queue \<Rightarrow> (unit \<times> 'a locked_queue) res option" where
  "lq_add item q =
     map_option (\<lambda>q1. Inr ((), lq_unlock (q1\<lparr>lq_queue := lq_queue q1 @ [item]\<rparr>))) (lq_acquire q)"

definition lq_readd :: "'a list \<Rightarrow> 'a locked_queue \<Rightarrow> (unit \<times> 'a locked_queue) res option" where
  "lq_readd xs = guarded (\<lambda>q. Inr ((), q\<lparr>lq_queue := xs @ lq_queue q\<rparr>))"

text \<open>\<open>bool next(T& result)\<close>: \<open>None\<close> for \<open>false\<close>.\<close>

definition lq_next :: "'a locked_queue \<Rightarrow> ('a option \<times> 'a locked_queue) res option" where
  "lq_next = guarded (\<lambda>q.
     if lq_queue q = [] then Inr (None, q)
     else bind_res (deque_front (lq_queue q)) (\<lambda>x.
          bind_res (deque_pop_front (lq_queue q)) (\<lambda>xs. Inr (Some x, q\<lparr>lq_queue := xs\<rparr>))))"

text \<open>
  \<open>bool next(T& result, Checker& check)\<close>: the result is assigned before the checker is
  asked, so a refused item is visible to the caller although the call returns \<open>false\<close>.
\<close>

definition lq_next_check :: "('a \<Rightarrow> bool) \<Rightarrow> 'a locked_queue \<Rightarrow> ((bool \<times> 'a option) \<times> 'a locked_queue) res option" where
  "lq_next_check process = guarded (\<lambda>q.
     if lq_queue q = [] then Inr ((False, None), q)
     else bind_res (deque_front (lq_queue q)) (\<lambda>x.
          if \<not> process x then Inr ((False, Some x), q)
          else bind_res (deque_pop_front (lq_queue q)) (\<lambda>xs. Inr ((True, Some x), q\<lparr>lq_queue := xs\<rparr>))))"

section \<open>The queue contract\<close>

lemmas lq_defs = guarded_def lq_acquire_def lq_unlock_def deque_front_def deque_pop_front_def

lemma lq_next_eq:
  "\<not> lq_lock q \<Longrightarrow> lq_next q = Some (Inr (case lq_queue q of [] \<Rightarrow> (None, q) | x # xs \<Rightarrow> (Some x, q\<lparr>lq_queue := xs\<rparr>)))"
  by (cases q) (auto simp: lq_next_def lq_defs split: list.split)

lemma lq_add_eq: "\<not> lq_lock q \<Longrightarrow> lq_add x q = Some (Inr ((), q\<lparr>lq_queue := lq_queue q @ [x]\<rparr>))"
  by (cases q) (simp add: lq_add_def lq_defs)

text \<open>The operations as the state transformers that a client of the contract calls.\<close>

definition finished :: "('r \<times> 'q) res option \<Rightarrow> 'r \<Rightarrow> 'q \<Rightarrow> 'r \<times> 'q" where
  "finished out r q = (case out of Some (Inr p) \<Rightarrow> p | _ \<Rightarrow> (r, q))"

definition lq_enq :: "'a locked_queue \<Rightarrow> 'a \<Rightarrow> 'a locked_queue" where
  "lq_enq q x = snd (finished (lq_add x q) () q)"

definition lq_deq :: "'a locked_queue \<Rightarrow> 'a option \<times> 'a locked_queue" where
  "lq_deq q = finished (lq_next q) None q"

interpretation locked: fifo_queue "\<lambda>q. \<not> lq_lock q" lq_queue lq_enq lq_deq
proof
  fix q :: "'a locked_queue" and x r q'
  assume q: "\<not> lq_lock q"
  then show "\<not> lq_lock (lq_enq q x) \<and> lq_queue (lq_enq q x) = lq_queue q @ [x]"
    by (simp add: lq_enq_def finished_def lq_add_eq)
  assume "lq_deq q = (r, q')"
  with q show "\<not> lq_lock q' \<and> (case lq_queue q of [] \<Rightarrow> r = None \<and> lq_queue q' = [] | x # xs \<Rightarrow> r = Some x \<and> lq_queue q' = xs)"
    by (auto simp: lq_deq_def finished_def lq_next_eq split: list.splits)
qed

section \<open>Properties\<close>

text \<open>
  C12. Items added to a new queue come out of \<open>next\<close> in the order in which they were added,
  none is lost, and the queue is then empty and unlocked.
\<close>

theorem locked_queue_fifo:
  fixes xs :: "'a list"
  shows "fst (queue_drain lq_deq (length xs) (foldl lq_enq LockedQueue_new xs)) = xs
   \<and> lq_next (snd (queue_drain lq_deq (length xs) (foldl lq_enq LockedQueue_new xs)))
      = Some (Inr (None, snd (queue_drain lq_deq (length xs) (foldl lq_enq LockedQueue_new xs))))"
proof -
  have new: "\<not> lq_lock (LockedQueue_new :: 'a locked_queue)" "lq_queue LockedQueue_new = ([] :: 'a list)"
    by (simp_all add: LockedQueue_new_def)
  note all = locked.foldl_enq [OF new(1), of xs]
  with locked.drain_items [of "foldl lq_enq LockedQueue_new xs" "length xs"] new(2)
  have "\<not> lq_lock (snd (queue_drain lq_deq (length xs) (foldl lq_enq LockedQueue_new xs)))"
    "lq_queue (snd (queue_drain lq_deq (length xs) (foldl lq_enq LockedQueue_new xs))) = []"
    by simp_all
  with locked.enq_drain [OF new, of xs] show ?thesis by (simp add: lq_next_eq)
qed

lemma lq_next_check_eq:
  "\<not> lq_lock q \<Longrightarrow> lq_next_check process q = Some (Inr (case lq_queue q of [] \<Rightarrow> ((False, None), q)
     | x # ys \<Rightarrow> if process x then ((True, Some x), q\<lparr>lq_queue := ys\<rparr>) else ((False, Some x), q)))"
  by (cases q) (auto simp: lq_next_check_def lq_defs split: list.split)

lemma lq_peek_keeps_lock:
  "\<not> lq_lock q \<Longrightarrow> lq_queue q = x # ys \<Longrightarrow> lq_peek False q = Some (Inr (x, q\<lparr>lq_lock := True\<rparr>))"
  by (simp add: lq_peek_def lq_defs)

lemma lq_blocked:
  "lq_lock q \<Longrightarrow> lq_add y q = None \<and> lq_next q = None \<and> lq_empty q = None \<and> lq_cancel q = None
     \<and> lq_pop_front q = None \<and> lq_peek b q = None"
  by (simp add: lq_peek_def lq_add_def lq_next_def lq_empty_def lq_cancel_def lq_pop_front_def lq_defs)

text \<open>
  What the other operations promise on an unlocked queue: \<open>readd\<close> puts items back at the
  front in their order, the checked \<open>next\<close> removes the front item exactly when the checker
  accepts it, and \<open>peek\<close> without \<open>autoUnlock\<close> keeps the mutex, so that every further
  operation blocks until \<open>unlock\<close>; \<open>peek\<close> and \<open>pop_front\<close> fault on an empty queue.
\<close>

theorem locked_queue_ops:
  assumes "\<not> lq_lock q"
  shows "lq_readd xs q = Some (Inr ((), q\<lparr>lq_queue := xs @ lq_queue q\<rparr>))
    \<and> lq_next_check process q = Some (Inr (case lq_queue q of [] \<Rightarrow> ((False, None), q)
        | x # ys \<Rightarrow> if process x then ((True, Some x), q\<lparr>lq_queue := ys\<rparr>) else ((False, Some x), q)))
    \<and> (case lq_queue q of
         [] \<Rightarrow> lq_peek b q = Some (Inl OutOfBounds) \<and> lq_pop_front q = Some (Inl OutOfBounds)
       | x # ys \<Rightarrow> (\<exists>q'. lq_peek False q = Some (Inr (x, q')) \<and> lq_unlock q' = q
           \<and> lq_add y q' = None \<and> lq_next q' = None \<and> lq_empty q' = None \<and> lq_cancel q' = None
           \<and> lq_pop_front q' = None \<and> lq_peek b q' = None))"
proof -
  have "lq_readd xs q = Some (Inr ((), q\<lparr>lq_queue := xs @ lq_queue q\<rparr>))"
    using assms by (cases q) (simp add: lq_readd_def lq_defs)
  moreover have "lq_unlock (q\<lparr>lq_lock := True\<rparr>) = q"
    using assms by (cases q) (simp add: lq_unlock_def)
  ultimately show ?thesis
    using assms lq_blocked [of "q\<lparr>lq_lock := True\<rparr>"]
    by (auto simp: lq_next_check_eq lq_peek_keeps_lock lq_peek_def lq_pop_front_def lq_defs split: list.split)
qed

theorem locked_queue_ops_witness:
  "\<exists>q q' :: int locked_queue. lq_add 3 LockedQueue_new = Some (Inr ((), q)) \<and> \<not> lq_lock q
     \<and> lq_next_check even q = Some (Inr ((False, Some 3), q))
     \<and> lq_next_check odd q = Some (Inr ((True, Some 3), LockedQueue_new))
     \<and> lq_peek False q = Some (Inr (3, q')) \<and> lq_add 5 q' = None"
proof -
  let ?q = "LockedQueue_new\<lparr>lq_queue := [3 :: int]\<rparr>"
  have q: "lq_add 3 LockedQueue_new = Some (Inr ((), ?q))" "\<not> lq_lock ?q" "lq_queue ?q = [3]"
    "?q\<lparr>lq_queue := []\<rparr> = LockedQueue_new"
    by (simp_all add: LockedQueue_new_def lq_add_eq)
  then obtain q' where "lq_peek False ?q = Some (Inr (3, q'))" "lq_add 5 q' = None"
    using locked_queue_ops [OF q(2), of "[]" even True 5] by auto
  moreover have "lq_next_check even ?q = Some (Inr ((False, Some 3), ?q))"
    "lq_next_check odd ?q = Some (Inr ((True, Some 3), LockedQueue_new))"
    using locked_queue_ops [OF q(2), of "[]" even True 5] locked_queue_ops [OF q(2), of "[]" odd True 5] q(3,4)
    by simp_all
  ultimately show ?thesis using q by blast
qed

end
