(* ===== verification/ProducerConsumerQueue.thy ===== *)
theory ProducerConsumerQueue
  imports Interfaces "HOL-Library.Sublist"
begin

text \<open>
  The blocking queue of \<^verbatim>\<open>Queue_Design/ProducerConsumerQueue.h\<close> as a step
  relation. Every operation holds \<open>_queueLock\<close> throughout, except while a consumer waits on
  the condition variable, so one critical section is one step. A consumer inside
  \<open>WaitAndPop\<close> is either waiting, or ready: woken and about to test the loop condition
  again. Which waiter a notification wakes is chosen by the step, and waiters may wake
  spuriously.
\<close>

section \<open>State and critical sections\<close>

record 'a pcq =
  pc_queue :: "'a list"
  pc_shutdown :: bool
  pc_waiting :: "nat list"
  pc_ready :: "nat list"

definition PCQueue_new :: "'a pcq" where
  "PCQueue_new = \<lparr>pc_queue = [], pc_shutdown = False, pc_waiting = [], pc_ready = []\<rparr>"

text \<open>A waiter leaves the condition variable and will test the condition again.\<close>

definition wake :: "nat \<Rightarrow> 'a pcq \<Rightarrow> 'a pcq" where
  "wake w q = q\<lparr>pc_waiting := remove1 w (pc_waiting q), pc_ready := w # pc_ready q\<rparr>"

text \<open>\<open>notify_one\<close> wakes the waiter \<open>w\<close> that the scheduler chose, if there is one.\<close>

definition notify_one :: "nat \<Rightarrow> 'a pcq \<Rightarrow> 'a pcq" where
  "notify_one w q = (if w \<in> set (pc_waiting q) then wake w q else q)"

definition notify_all :: "'a pcq \<Rightarrow> 'a pcq" where
  "notify_all q = q\<lparr>pc_waiting := [], pc_ready := pc_waiting q @ pc_ready q\<rparr>"

definition Push :: "nat \<Rightarrow> 'a \<Rightarrow> 'a pcq \<Rightarrow> 'a pcq" where
  "Push w val q = notify_one w (q\<lparr>pc_queue := pc_queue q @ [val]\<rparr>)"

definition pc_Empty :: "'a pcq \<Rightarrow> bool" where
  "pc_Empty q \<longleftrightarrow> pc_queue q = []"

definition pc_Size :: "'a pcq \<Rightarrow> nat" where
  "pc_Size q = length (pc_queue q)"

definition Pop :: "'a pcq \<Rightarrow> 'a option \<times> 'a pcq" where
  "Pop q = (if pc_queue q = [] \<or> pc_shutdown q then (None, q)
            else (Some (hd (pc_queue q)), q\<lparr>pc_queue := tl (pc_queue q)\<rparr>))"

text \<open>
  One pass of \<open>WaitAndPop\<close> by consumer \<open>t\<close> with the lock held: it goes to sleep, or it
  returns with an item or, after a shutdown, without one.
\<close>

datatype 'a pass = Sleeps | Returns "'a option"

definition WaitAndPop_pass :: "nat \<Rightarrow> 'a pcq \<Rightarrow> 'a pass \<times> 'a pcq" where
  "WaitAndPop_pass t q =
     (if pc_queue q = [] \<and> \<not> pc_shutdown q then (Sleeps, q\<lparr>pc_waiting := t # pc_waiting q\<rparr>)
      else if pc_queue q = [] \<or> pc_shutdown q then (Returns None, q)
      else (Returns (Some (hd (pc_queue q))), q\<lparr>pc_queue := tl (pc_queue q)\<rparr>))"

text \<open>The loop of \<open>Cancel\<close> hands every queued object to \<open>DeleteQueuedObject\<close>.\<close>

fun cancel_loop :: "'a list \<Rightarrow> 'a list \<Rightarrow> 'a list" where
  "cancel_loop deleted [] = deleted"
| "cancel_loop deleted (val # rest) = cancel_loop (deleted @ [val]) rest"

definition Cancel :: "'a pcq \<Rightarrow> 'a list \<times> 'a pcq" where
  "Cancel q = (cancel_loop [] (pc_queue q), notify_all (q\<lparr>pc_queue := [], pc_shutdown := True\<rparr>))"

section \<open>Interleavings\<close>

text \<open>
  The state with three logs: what was pushed and what consumers received, in order, and what
  was deleted by \<open>Cancel\<close>.
\<close>

record 'a pc_run =
  pcq :: "'a pcq"
  pushed :: "'a list"
  popped :: "'a list"
  deleted :: "'a list"

definition pc_start :: "'a pc_run \<Rightarrow> bool" where
  "pc_start s \<longleftrightarrow> s = \<lparr>pcq = PCQueue_new, pushed = [], popped = [], deleted = []\<rparr>"

definition log_pass :: "'a pass \<Rightarrow> 'a list" where
  "log_pass r = (case r of Returns (Some x) \<Rightarrow> [x] | _ \<Rightarrow> [])"

inductive pc_step :: "'a pc_run \<Rightarrow> 'a pc_run \<Rightarrow> bool" where
  push: "pc_waiting (pcq s) = [] \<or> w \<in> set (pc_waiting (pcq s)) \<Longrightarrow>
    pc_step s (s\<lparr>pcq := Push w v (pcq s), pushed := pushed s @ [v]\<rparr>)"
| pop: "Pop (pcq s) = (r, q) \<Longrightarrow>
    pc_step s (s\<lparr>pcq := q, popped := popped s @ (case r of None \<Rightarrow> [] | Some x \<Rightarrow> [x])\<rparr>)"
| enter: "t \<notin> set (pc_waiting (pcq s)) \<union> set (pc_ready (pcq s)) \<Longrightarrow> WaitAndPop_pass t (pcq s) = (r, q) \<Longrightarrow>
    pc_step s (s\<lparr>pcq := q, popped := popped s @ log_pass r\<rparr>)"
| resume: "t \<in> set (pc_ready (pcq s)) \<Longrightarrow>
    WaitAndPop_pass t ((pcq s)\<lparr>pc_ready := remove1 t (pc_ready (pcq s))\<rparr>) = (r, q) \<Longrightarrow>
    pc_step s (s\<lparr>pcq := q, popped := popped s @ log_pass r\<rparr>)"
| spurious: "t \<in> set (pc_waiting (pcq s)) \<Longrightarrow> pc_step s (s\<lparr>pcq := wake t (pcq s)\<rparr>)"
| cancel: "Cancel (pcq s) = (ds, q) \<Longrightarrow> pc_step s (s\<lparr>pcq := q, deleted := deleted s @ ds\<rparr>)"

section \<open>Invariant\<close>

text \<open>No sleeping consumer misses an item, and items are neither lost nor reordered.\<close>

definition no_lost_wakeup :: "'a pcq \<Rightarrow> bool" where
  "no_lost_wakeup q \<longleftrightarrow>
     (pc_waiting q = [] \<or> (\<not> pc_shutdown q \<and> length (pc_queue q) \<le> length (pc_ready q)))"

definition in_order :: "'a pc_run \<Rightarrow> bool" where
  "in_order s \<longleftrightarrow>
     pushed s = popped s @ deleted s @ pc_queue (pcq s) \<and> (\<not> pc_shutdown (pcq s) \<longrightarrow> deleted s = [])"

definition pc_inv :: "'a pc_run \<Rightarrow> bool" where
  "pc_inv s \<longleftrightarrow> no_lost_wakeup (pcq s) \<and> in_order s"

lemma cancel_loop_eq: "cancel_loop ds xs = ds @ xs"
  by (induction ds xs rule: cancel_loop.induct) simp_all

lemma push_no_lost_wakeup:
  "no_lost_wakeup q \<Longrightarrow> pc_waiting q = [] \<or> w \<in> set (pc_waiting q) \<Longrightarrow> no_lost_wakeup (Push w v q)"
  by (auto simp: no_lost_wakeup_def Push_def notify_one_def wake_def)

lemma pop_no_lost_wakeup:
  "no_lost_wakeup q \<Longrightarrow> Pop q = (r, q') \<Longrightarrow> no_lost_wakeup q'"
  by (auto simp: no_lost_wakeup_def Pop_def split: if_splits)

lemma pass_no_lost_wakeup:
  assumes "pc_waiting q = [] \<or> (\<not> pc_shutdown q \<and> length (pc_queue q) \<le> Suc (length (pc_ready q)))"
    and "WaitAndPop_pass t q = (r, q')"
  shows "no_lost_wakeup q'"
  using assms by (auto simp: no_lost_wakeup_def WaitAndPop_pass_def split: if_splits)

lemma cancel_no_lost_wakeup: "Cancel q = (ds, q') \<Longrightarrow> no_lost_wakeup q'"
  by (auto simp: no_lost_wakeup_def Cancel_def notify_all_def)

lemma pass_in_order:
  assumes "in_order s" "pc_queue q0 = pc_queue (pcq s)" "pc_shutdown q0 = pc_shutdown (pcq s)"
    and "WaitAndPop_pass t q0 = (r, q)"
  shows "in_order (s\<lparr>pcq := q, popped := popped s @ log_pass r\<rparr>)"
  using assms by (auto simp: in_order_def WaitAndPop_pass_def log_pass_def split: if_splits)

lemma push_in_order: "in_order s \<Longrightarrow> in_order (s\<lparr>pcq := Push w v (pcq s), pushed := pushed s @ [v]\<rparr>)"
proof -
  assume "in_order s"
  moreover have "pc_queue (Push w v (pcq s)) = pc_queue (pcq s) @ [v]"
    "pc_shutdown (Push w v (pcq s)) = pc_shutdown (pcq s)"
    by (simp_all add: Push_def notify_one_def wake_def)
  ultimately show ?thesis
    by (simp add: in_order_def)
qed

lemma pc_step_inv: "pc_step s s' \<Longrightarrow> pc_inv s \<Longrightarrow> pc_inv s'"
proof (induction rule: pc_step.cases)
  case (push s w v)
  then show ?case by (auto simp: pc_inv_def push_no_lost_wakeup push_in_order)
next
  case (pop s r q)
  then have "in_order (s\<lparr>pcq := q, popped := popped s @ (case r of None \<Rightarrow> [] | Some x \<Rightarrow> [x])\<rparr>)"
    by (auto simp: pc_inv_def in_order_def Pop_def split: if_splits)
  with pop show ?case using pop_no_lost_wakeup by (auto simp: pc_inv_def)
next
  case (enter t s r q)
  then have "no_lost_wakeup q"
    by (intro pass_no_lost_wakeup [of "pcq s" t r]) (auto simp: pc_inv_def no_lost_wakeup_def)
  with enter pass_in_order [of s "pcq s"] show ?case by (auto simp: pc_inv_def)
next
  case (resume t s r q)
  then have "no_lost_wakeup q"
    by (intro pass_no_lost_wakeup [of "(pcq s)\<lparr>pc_ready := remove1 t (pc_ready (pcq s))\<rparr>" t r])
      (auto simp: pc_inv_def no_lost_wakeup_def length_remove1)
  with resume pass_in_order [of s "(pcq s)\<lparr>pc_ready := remove1 t (pc_ready (pcq s))\<rparr>"]
  show ?case by (auto simp: pc_inv_def)
next
  case (spurious t s)
  then show ?case by (auto simp: pc_inv_def no_lost_wakeup_def in_order_def wake_def)
next
  case (cancel s ds q)
  then have "in_order (s\<lparr>pcq := q, deleted := deleted s @ ds\<rparr>)"
    by (auto simp: pc_inv_def in_order_def Cancel_def cancel_loop_eq notify_all_def split: if_splits)
  with cancel cancel_no_lost_wakeup show ?case by (auto simp: pc_inv_def)
qed

interpretation pcq: invariant_system pc_start pc_step pc_inv
proof
  show "pc_inv s" if "pc_start s" for s
    using that by (simp add: pc_start_def pc_inv_def no_lost_wakeup_def in_order_def PCQueue_new_def)
qed (rule pc_step_inv)

section \<open>Properties\<close>

text \<open>
  C13. No lost wakeup: in every reachable state, while a consumer sleeps in \<open>WaitAndPop\<close> the
  queue is not shut down and every queued item has a woken consumer that is about to take it.
\<close>

theorem pcq_no_lost_wakeup:
  assumes "pc_start s" "pc_step\<^sup>*\<^sup>* s t" "pc_waiting (pcq t) \<noteq> []"
  shows "\<not> pc_shutdown (pcq t) \<and> length (pc_queue (pcq t)) \<le> length (pc_ready (pcq t))"
  using pcq.inv_reachable [OF assms(1,2)] assms(3) by (simp add: pc_inv_def no_lost_wakeup_def)

definition pc0 :: "int pc_run" where
  "pc0 = \<lparr>pcq = PCQueue_new, pushed = [], popped = [], deleted = []\<rparr>"

text \<open>Two consumers go to sleep and one item is pushed, which wakes the second of them.\<close>

definition pc2 :: "int pc_run" where
  "pc2 = \<lparr>pcq = \<lparr>pc_queue = [5], pc_shutdown = False, pc_waiting = [1], pc_ready = [2]\<rparr>,
          pushed = [5], popped = [], deleted = []\<rparr>"

lemma pc0_pc2: "pc_start pc0" "pc_step\<^sup>*\<^sup>* pc0 pc2"
proof -
  show "pc_start pc0" by (simp add: pc_start_def pc0_def)
  let ?a = "pc0\<lparr>pcq := \<lparr>pc_queue = [], pc_shutdown = False, pc_waiting = [1], pc_ready = []\<rparr>\<rparr>"
  let ?b = "pc0\<lparr>pcq := \<lparr>pc_queue = [], pc_shutdown = False, pc_waiting = [2, 1], pc_ready = []\<rparr>\<rparr>"
  have "pc_step pc0 ?a"
    using pc_step.enter [of 1 pc0 Sleeps "pcq ?a"]
    by (simp add: pc0_def PCQueue_new_def WaitAndPop_pass_def log_pass_def)
  moreover have "pc_step ?a ?b"
    using pc_step.enter [of 2 ?a Sleeps "pcq ?b"] by (simp add: pc0_def WaitAndPop_pass_def log_pass_def)
  moreover have "pc_step ?b pc2"
    using pc_step.push [of ?b 2 5] by (simp add: pc0_def pc2_def Push_def notify_one_def wake_def)
  ultimately show "pc_step\<^sup>*\<^sup>* pc0 pc2" by (meson rtranclp.rtrancl_refl rtranclp.rtrancl_into_rtrancl)
qed

theorem pcq_no_lost_wakeup_witness:
  "pc_start pc0 \<and> pc_step\<^sup>*\<^sup>* pc0 pc2 \<and> pc_waiting (pcq pc2) = [1] \<and> pc_queue (pcq pc2) = [5]
   \<and> length (pc_queue (pcq pc2)) \<le> length (pc_ready (pcq pc2))"
  using pcq_no_lost_wakeup [OF pc0_pc2] pc0_pc2 by (simp add: pc2_def)

text \<open>
  C14. Delivery in order: consumers receive a prefix of what was pushed, in that order. Before
  a shutdown the rest is exactly what is queued; after it the rest is what \<open>Cancel\<close> deleted
  followed by what was pushed later.
\<close>

theorem pcq_in_order:
  assumes "pc_start s" "pc_step\<^sup>*\<^sup>* s t"
  shows "prefix (popped t) (pushed t)
    \<and> pushed t = popped t @ deleted t @ pc_queue (pcq t)
    \<and> (\<not> pc_shutdown (pcq t) \<longrightarrow> deleted t = [])"
  using pcq.inv_reachable [OF assms] by (auto simp: pc_inv_def in_order_def split: if_splits)

theorem pcq_in_order_witness:
  "pc_start pc0 \<and> pc_step\<^sup>*\<^sup>* pc0 pc2 \<and> pushed pc2 = [5] \<and> pushed pc2 = popped pc2 @ deleted pc2 @ pc_queue (pcq pc2)"
  using pcq_in_order [OF pc0_pc2] pc0_pc2 by (simp add: pc2_def)

text \<open>
  After \<open>Cancel\<close> no call blocks, and an item pushed later is accepted although no operation
  will ever return or delete it except another \<open>Cancel\<close>.
\<close>

lemma cancelled_returns:
  "pc_shutdown q \<Longrightarrow> WaitAndPop_pass t q = (Returns None, q) \<and> Pop q = (None, q)
     \<and> pc_shutdown (Push w v q) \<and> pc_queue (Push w v q) = pc_queue q @ [v]"
  by (simp add: WaitAndPop_pass_def Pop_def Push_def notify_one_def wake_def)

end
