(* ===== verification/MsgQueue.thy ===== *)
theory MsgQueue
  imports Interfaces
begin

text \<open>
  The two-list message queue of \<^verbatim>\<open>Queue_Design/msgqueue.c\<close>. Messages are
  intrusive: the queue links them through a pointer cell inside each message, at the offset
  \<open>linkOff\<close>. The memory the queue touches is a map from pointer cells (the two list heads of
  the queue and the link cells of messages) to pointers. Producers work under
  \<open>put_mutex\<close> and consumers under \<open>get_mutex\<close>; the step relation interleaves their
  critical sections, and splits \<open>msgqueue_get\<close> where it takes the second mutex.
\<close>

section \<open>State and operations\<close>

datatype cell = Head1 | Head2 | Link u64

record msgqueue =
  msg_max :: u64
  msg_cnt :: u64
  linkOff :: u64
  nonblock :: bool
  cells :: "cell \<Rightarrow> u64 option"
  get_head :: cell
  put_head :: cell
  put_tail :: cell

text \<open>
  \<open>msgqueue_create\<close>: the allocation and the four initialisations may fail. When one of the
  latter does, the function undoes the others and runs off its end without a return value.
\<close>

definition msgqueue_create :: "bool \<Rightarrow> bool list \<Rightarrow> (cell \<Rightarrow> u64 option) \<Rightarrow> u64 \<Rightarrow> u64 \<Rightarrow> msgqueue option res" where
  "msgqueue_create alloc_ok init_ok mem maxLen off =
     (if \<not> alloc_ok then Inr None
      else if (\<forall>i < 4. init_ok ! i)
      then Inr (Some \<lparr>msg_max = maxLen, msg_cnt = 0, linkOff = off, nonblock = False,
             cells = mem(Head1 := None, Head2 := None),
             get_head = Head1, put_head = Head2, put_tail = Head2\<rparr>)
      else Inl MissingReturn)"

definition msgqueue_set_nonblock :: "msgqueue \<Rightarrow> msgqueue" where
  "msgqueue_set_nonblock q = q\<lparr>nonblock := True\<rparr>"

definition msgqueue_set_block :: "msgqueue \<Rightarrow> msgqueue" where
  "msgqueue_set_block q = q\<lparr>nonblock := False\<rparr>"

text \<open>
  \<open>msgqueue_put\<close> in two parts: the link of the message is cleared before the mutex is taken,
  and the message is appended once the wait loop ends; \<open>None\<close> while it waits.
\<close>

definition put_prepare :: "u64 \<Rightarrow> msgqueue \<Rightarrow> msgqueue" where
  "put_prepare msg q = q\<lparr>cells := (cells q)(Link (msg + linkOff q) := None)\<rparr>"

definition put_commit :: "u64 \<Rightarrow> msgqueue \<Rightarrow> msgqueue option" where
  "put_commit msg q =
     (let link = msg + linkOff q
      in if msg_cnt q > msg_max q - 1 \<and> \<not> nonblock q then None
         else Some (q\<lparr>cells := (cells q)(put_tail q := Some link), put_tail := Link link, msg_cnt := msg_cnt q + 1\<rparr>))"

definition msgqueue_put :: "u64 \<Rightarrow> msgqueue \<Rightarrow> msgqueue option" where
  "msgqueue_put msg q = put_commit msg (put_prepare msg q)"

text \<open>
  \<open>__msgqueue_swap\<close> in two parts: before \<open>put_mutex\<close> is taken, returning the list head it
  saved, and after its wait loop, returning the count; \<open>None\<close> while it waits.
\<close>

definition swap_begin :: "msgqueue \<Rightarrow> cell \<times> msgqueue" where
  "swap_begin q = (get_head q, q\<lparr>get_head := put_head q\<rparr>)"

definition swap_commit :: "cell \<Rightarrow> msgqueue \<Rightarrow> (u64 \<times> msgqueue) option" where
  "swap_commit saved q =
     (if msg_cnt q = 0 \<and> \<not> nonblock q then None
      else Some (msg_cnt q, q\<lparr>put_head := saved, put_tail := saved, msg_cnt := 0\<rparr>))"

text \<open>Taking the first message of the get list.\<close>

definition get_pop :: "msgqueue \<Rightarrow> (u64 \<times> msgqueue) res" where
  "get_pop q =
     (case cells q (get_head q) of
        None \<Rightarrow> Inl NullDeref
      | Some link \<Rightarrow> Inr (link - linkOff q, q\<lparr>cells := (cells q)(get_head q := cells q (Link link))\<rparr>))"

definition get_finish :: "u64 \<Rightarrow> msgqueue \<Rightarrow> (u64 option \<times> msgqueue) res" where
  "get_finish cnt q = (if cnt > 0 then bind_res (get_pop q) (\<lambda>(m, q'). Inr (Some m, q')) else Inr (None, q))"

definition msgqueue_get :: "msgqueue \<Rightarrow> (u64 option \<times> msgqueue) res option" where
  "msgqueue_get q =
     (if cells q (get_head q) \<noteq> None then Some (get_finish 1 q)
      else let (saved, q1) = swap_begin q
           in map_option (\<lambda>(cnt, q2). get_finish cnt q2) (swap_commit saved q1))"

section \<open>Interleavings\<close>

text \<open>Where the consumer that holds \<open>get_mutex\<close> stands.\<close>

datatype getter = GetIdle | GetWaiting cell | GetPopping u64

record mq_run =
  mq :: msgqueue
  getter :: getter
  prepared :: "u64 list"
  put_log :: "u64 list"
  got_log :: "u64 list"
  was_nonblock :: bool

text \<open>The links of the messages that are in the queue: reading a list from a cell.\<close>

fun chain :: "(cell \<Rightarrow> u64 option) \<Rightarrow> cell \<Rightarrow> u64 list \<Rightarrow> bool" where
  "chain cs c [] = (cs c = None)"
| "chain cs c (l # ls) = (cs c = Some l \<and> chain cs (Link l) ls)"

text \<open>
  A producer may put a message only while it owns it: the message is not in the queue and
  no other call is putting it. Its link has an address, which is not null.
\<close>

definition owned :: "u64 \<Rightarrow> mq_run \<Rightarrow> bool" where
  "owned msg s \<longleftrightarrow> msg + linkOff (mq s) \<noteq> 0 \<and> msg \<notin> set (prepared s)
     \<and> msg \<notin> set (drop (length (got_log s)) (put_log s))"

inductive mq_step :: "mq_run \<Rightarrow> mq_run \<Rightarrow> bool" where
  prepare: "owned msg s \<Longrightarrow>
    mq_step s (s\<lparr>mq := put_prepare msg (mq s), prepared := msg # prepared s\<rparr>)"
| put: "msg \<in> set (prepared s) \<Longrightarrow> put_commit msg (mq s) = Some q \<Longrightarrow>
    mq_step s (s\<lparr>mq := q, prepared := remove1 msg (prepared s), put_log := put_log s @ [msg]\<rparr>)"
| get_now: "getter s = GetIdle \<Longrightarrow> cells (mq s) (get_head (mq s)) \<noteq> None \<Longrightarrow>
    mq_step s (s\<lparr>getter := GetPopping 1\<rparr>)"
| get_swap: "getter s = GetIdle \<Longrightarrow> cells (mq s) (get_head (mq s)) = None \<Longrightarrow> swap_begin (mq s) = (saved, q) \<Longrightarrow>
    mq_step s (s\<lparr>mq := q, getter := GetWaiting saved\<rparr>)"
| swapped: "getter s = GetWaiting saved \<Longrightarrow> swap_commit saved (mq s) = Some (cnt, q) \<Longrightarrow>
    mq_step s (s\<lparr>mq := q, getter := GetPopping cnt\<rparr>)"
| got: "getter s = GetPopping cnt \<Longrightarrow> get_finish cnt (mq s) = Inr (r, q) \<Longrightarrow>
    mq_step s (s\<lparr>mq := q, getter := GetIdle, got_log := got_log s @ (case r of None \<Rightarrow> [] | Some m \<Rightarrow> [m])\<rparr>)"
| nonblock: "mq_step s (s\<lparr>mq := msgqueue_set_nonblock (mq s), was_nonblock := True\<rparr>)"
| block: "mq_step s (s\<lparr>mq := msgqueue_set_block (mq s)\<rparr>)"

definition mq_start :: "mq_run \<Rightarrow> bool" where
  "mq_start s \<longleftrightarrow> (\<exists>mem maxLen off. msgqueue_create True [True, True, True, True] mem maxLen off = Inr (Some (mq s)))
     \<and> getter s = GetIdle \<and> prepared s = [] \<and> put_log s = [] \<and> got_log s = [] \<and> \<not> was_nonblock s"

section \<open>Lists in memory\<close>

definition tail_cell :: "cell \<Rightarrow> u64 list \<Rightarrow> cell" where
  "tail_cell c ls = (if ls = [] then c else Link (last ls))"

lemma chain_other: "d \<notin> insert c (Link ` set ls) \<Longrightarrow> chain (cs(d := v)) c ls = chain cs c ls"
  by (induction ls arbitrary: c) auto

lemma tail_cell_Cons: "tail_cell c (k # ls) = tail_cell (Link k) ls"
  by (simp add: tail_cell_def)

lemma chain_append:
  "chain cs c ls \<Longrightarrow> distinct ls \<Longrightarrow> c \<notin> Link ` set ls \<Longrightarrow> l \<notin> set ls \<Longrightarrow> c \<noteq> Link l \<Longrightarrow> cs (Link l) = None \<Longrightarrow>
     chain (cs(tail_cell c ls := Some l)) c (ls @ [l])"
proof (induction ls arbitrary: c)
  case (Cons k ls)
  then have "chain (cs(tail_cell (Link k) ls := Some l)) (Link k) (ls @ [l])"
    by (intro Cons.IH) auto
  moreover have "(cs(tail_cell (Link k) ls := Some l)) c = Some k"
    using Cons.prems by (auto simp: tail_cell_def)
  ultimately show ?case by (simp add: tail_cell_Cons del: fun_upd_apply)
qed (simp add: tail_cell_def)

lemma chain_pop:
  assumes "chain cs c (l # ls)" "c \<notin> Link ` set (l # ls)" "distinct (l # ls)"
  shows "chain (cs(c := cs (Link l))) c ls"
proof (cases ls)
  case (Cons k ks)
  with assms have "chain (cs(c := cs (Link l))) (Link k) ks"
    by (subst chain_other) auto
  with assms Cons show ?thesis by simp
qed (use assms in simp)

lemma tail_cell_cases: "tail_cell c ls = c \<or> tail_cell c ls \<in> Link ` set ls"
  by (simp add: tail_cell_def)

text \<open>A list of distinct non-null addresses is shorter than the number of addresses.\<close>

lemma length_distinct_u64:
  assumes "distinct (ls :: u64 list)" "0 \<notin> set ls"
  shows "length ls < 2 ^ 64"
proof -
  have "length ls = card (set ls)" using assms(1) by (simp add: distinct_card)
  also have "\<dots> < card (UNIV :: u64 set)"
    using assms(2) by (intro psubset_card_mono) auto
  also have "\<dots> = 2 ^ 64" by (simp add: card_word)
  finally show ?thesis .
qed

section \<open>Invariant\<close>

definition phase_ok :: "getter \<Rightarrow> msgqueue \<Rightarrow> cell \<Rightarrow> cell \<Rightarrow> u64 list \<Rightarrow> bool" where
  "phase_ok g q gh ph gl \<longleftrightarrow> put_head q = ph \<and> (case g of
     GetIdle \<Rightarrow> get_head q = gh
   | GetWaiting saved \<Rightarrow> saved = gh \<and> get_head q = ph \<and> gl = []
   | GetPopping cnt \<Rightarrow> get_head q = gh \<and> (cnt > 0 \<longrightarrow> gl \<noteq> []))"

definition memory_ok :: "msgqueue \<Rightarrow> u64 list \<Rightarrow> cell \<Rightarrow> cell \<Rightarrow> u64 list \<Rightarrow> u64 list \<Rightarrow> bool" where
  "memory_ok q prep gh ph gl pl \<longleftrightarrow>
     {gh, ph} = {Head1, Head2} \<and> chain (cells q) gh gl \<and> chain (cells q) ph pl \<and> put_tail q = tail_cell ph pl
     \<and> (\<forall>l \<in> set prep. cells q (Link l) = None)
     \<and> distinct (gl @ pl @ prep) \<and> 0 \<notin> set (gl @ pl @ prep) \<and> msg_cnt q = word_of_nat (length pl)"

definition mq_rep :: "mq_run \<Rightarrow> cell \<Rightarrow> cell \<Rightarrow> u64 list \<Rightarrow> u64 list \<Rightarrow> bool" where
  "mq_rep s gh ph gl pl \<longleftrightarrow>
     phase_ok (getter s) (mq s) gh ph gl
     \<and> memory_ok (mq s) (map (\<lambda>m. m + linkOff (mq s)) (prepared s)) gh ph gl pl
     \<and> put_log s = got_log s @ map (\<lambda>l. l - linkOff (mq s)) (gl @ pl)
     \<and> (\<not> was_nonblock s \<longrightarrow> \<not> nonblock (mq s) \<and> (msg_max (mq s) \<noteq> 0 \<longrightarrow>
           length pl \<le> unat (msg_max (mq s)) \<and> length gl \<le> unat (msg_max (mq s))))"

definition mq_inv :: "mq_run \<Rightarrow> bool" where
  "mq_inv s \<longleftrightarrow> (\<exists>gh ph gl pl. mq_rep s gh ph gl pl)"

lemma heads:
  assumes "memory_ok q prep gh ph gl pl"
  shows "gh \<noteq> ph" "ph \<noteq> gh" "gh \<noteq> Link l" "ph \<noteq> Link l" "Link l \<noteq> gh" "Link l \<noteq> ph"
  using assms by (auto simp: memory_ok_def doubleton_eq_iff)

lemma memory_prepare:
  assumes mem: "memory_ok q prep gh ph gl pl" and l: "l \<noteq> 0" "l \<notin> set (gl @ pl @ prep)"
  shows "memory_ok (q\<lparr>cells := (cells q)(Link l := None)\<rparr>) (l # prep) gh ph gl pl"
proof -
  have "chain ((cells q)(Link l := None)) c ls = chain (cells q) c ls" if "Link l \<noteq> c" "l \<notin> set ls" for c ls
    using that by (intro chain_other) auto
  with mem l heads [OF mem] show ?thesis by (simp add: memory_ok_def)
qed

lemma memory_put:
  assumes mem: "memory_ok q prep gh ph gl pl" and l: "l \<in> set prep"
  shows "memory_ok (q\<lparr>cells := (cells q)(put_tail q := Some l), put_tail := Link l, msg_cnt := msg_cnt q + 1\<rparr>)
           (remove1 l prep) gh ph gl (pl @ [l])"
proof -
  note h = heads [OF mem]
  from mem have tl: "put_tail q = tail_cell ph pl"
    and d: "distinct (gl @ pl @ prep)" "0 \<notin> set (gl @ pl @ prep)"
    by (simp_all add: memory_ok_def)
  have tc: "tail_cell ph pl \<notin> insert gh (Link ` set gl)" "\<forall>k \<in> set prep. Link k \<noteq> tail_cell ph pl"
    using tail_cell_cases [of ph pl] h d by auto
  have "chain ((cells q)(put_tail q := Some l)) ph (pl @ [l])"
    unfolding tl using mem l h d by (intro chain_append) (auto simp: memory_ok_def)
  moreover have "chain ((cells q)(put_tail q := Some l)) gh gl"
    unfolding tl using mem tc by (subst chain_other) (auto simp: memory_ok_def)
  moreover have "\<forall>k \<in> set (remove1 l prep). ((cells q)(put_tail q := Some l)) (Link k) = None"
    unfolding tl using mem tc(2) set_remove1_subset [of l prep] by (auto simp: memory_ok_def)
  moreover have "distinct (gl @ (pl @ [l]) @ remove1 l prep)" "0 \<notin> set (gl @ (pl @ [l]) @ remove1 l prep)"
    using d l by auto
  ultimately show ?thesis using mem by (simp add: memory_ok_def tail_cell_def)
qed

lemma memory_swap:
  assumes "memory_ok q prep gh ph [] pl"
  shows "memory_ok (q\<lparr>put_head := gh, put_tail := gh, msg_cnt := 0\<rparr>) prep ph gh pl []"
  using assms by (auto simp: memory_ok_def tail_cell_def)

lemma memory_pop:
  assumes mem: "memory_ok q prep gh ph (l # gl) pl"
  shows "memory_ok (q\<lparr>cells := (cells q)(gh := cells q (Link l))\<rparr>) prep gh ph gl pl"
proof -
  note h = heads [OF mem]
  have "chain ((cells q)(gh := cells q (Link l))) gh gl"
    using mem h by (intro chain_pop) (auto simp: memory_ok_def)
  moreover have "chain ((cells q)(gh := cells q (Link l))) ph pl"
    using mem h by (subst chain_other) (auto simp: memory_ok_def)
  ultimately show ?thesis using mem h by (simp add: memory_ok_def)
qed

section \<open>Every step keeps the invariant\<close>

lemma mq_repI:
  assumes "mq_rep s gh ph gl pl" "linkOff (mq t) = linkOff (mq s)" "msg_max (mq t) = msg_max (mq s)"
    and "phase_ok (getter t) (mq t) gh' ph' gl'"
    and "memory_ok (mq t) (map (\<lambda>m. m + linkOff (mq s)) (prepared t)) gh' ph' gl' pl'"
    and "put_log t = got_log t @ map (\<lambda>l. l - linkOff (mq s)) (gl' @ pl')"
    and "\<not> was_nonblock t \<Longrightarrow> \<not> was_nonblock s \<and> \<not> nonblock (mq t)"
    and "\<not> was_nonblock s \<Longrightarrow> msg_max (mq s) \<noteq> 0 \<Longrightarrow>
      length pl' \<le> unat (msg_max (mq s)) \<and> length gl' \<le> unat (msg_max (mq s))"
  shows "mq_inv t"
  using assms unfolding mq_inv_def mq_rep_def by metis

lemma inv_prepare:
  assumes "owned msg s" "mq_rep s gh ph gl pl"
  shows "mq_inv (s\<lparr>mq := put_prepare msg (mq s), prepared := msg # prepared s\<rparr>)"
proof (rule mq_repI [OF assms(2), where gh' = gh and ph' = ph and gl' = gl and pl' = pl])
  let ?o = "linkOff (mq s)"
  have "msg \<notin> set (map (\<lambda>l. l - ?o) (gl @ pl))" "msg \<notin> set (prepared s)" "msg + ?o \<noteq> 0"
    using assms by (auto simp: owned_def mq_rep_def)
  then have "msg + ?o \<notin> set (gl @ pl @ map (\<lambda>m. m + ?o) (prepared s))" "msg + ?o \<noteq> 0"
    by (auto simp: image_iff)
  with assms(2) show "memory_ok (mq (s\<lparr>mq := put_prepare msg (mq s), prepared := msg # prepared s\<rparr>))
      (map (\<lambda>m. m + ?o) (prepared (s\<lparr>mq := put_prepare msg (mq s), prepared := msg # prepared s\<rparr>))) gh ph gl pl"
    using memory_prepare [of "mq s" _ gh ph gl pl "msg + ?o"] by (simp add: mq_rep_def put_prepare_def)
qed (use assms in \<open>auto simp: mq_rep_def put_prepare_def phase_ok_def split: getter.splits\<close>)

lemma put_commit_room:
  assumes "put_commit msg q = Some q'" "\<not> nonblock q" "msg_max q \<noteq> 0" "msg_cnt q = word_of_nat n" "n < 2 ^ 64"
  shows "Suc n \<le> unat (msg_max q)"
proof -
  have "msg_cnt q \<le> msg_max q - 1" using assms(1,2) by (auto simp: put_commit_def Let_def split: if_splits)
  then have "unat (msg_cnt q) \<le> unat (msg_max q) - 1"
    using assms(3) by (simp add: word_le_nat_alt unat_minus_one)
  moreover have "unat (msg_cnt q) = n" using assms(4,5) by (simp add: unat_of_nat)
  moreover have "unat (msg_max q) \<noteq> 0" using assms(3) by (simp add: unat_eq_zero)
  ultimately show ?thesis by linarith
qed

lemma remove1_links: "map (\<lambda>m. m + off) (remove1 x xs) = remove1 (x + off) (map (\<lambda>m. m + off) (xs :: u64 list))"
  by (induction xs) auto

lemma inv_put:
  assumes msg: "msg \<in> set (prepared s)" and put: "put_commit msg (mq s) = Some q" and rep: "mq_rep s gh ph gl pl"
  shows "mq_inv (s\<lparr>mq := q, prepared := remove1 msg (prepared s), put_log := put_log s @ [msg]\<rparr>)"
proof (rule mq_repI [OF rep, where gh' = gh and ph' = ph and gl' = gl and pl' = "pl @ [msg + linkOff (mq s)]"])
  let ?o = "linkOff (mq s)" let ?f = "\<lambda>m. m + linkOff (mq s)"
  have mem: "memory_ok (mq s) (map ?f (prepared s)) gh ph gl pl" using rep by (simp add: mq_rep_def)
  have q: "q = (mq s)\<lparr>cells := (cells (mq s))(put_tail (mq s) := Some (msg + ?o)), put_tail := Link (msg + ?o),
      msg_cnt := msg_cnt (mq s) + 1\<rparr>"
    using put by (simp add: put_commit_def Let_def split: if_splits)
  have rem: "map ?f (remove1 msg (prepared s)) = remove1 (msg + ?o) (map ?f (prepared s))"
    by (rule remove1_links)
  show "memory_ok (mq (s\<lparr>mq := q, prepared := remove1 msg (prepared s), put_log := put_log s @ [msg]\<rparr>))
      (map ?f (prepared (s\<lparr>mq := q, prepared := remove1 msg (prepared s), put_log := put_log s @ [msg]\<rparr>))) gh ph gl (pl @ [msg + ?o])"
    using memory_put [OF mem, of "msg + ?o"] msg by (simp add: q rem)
  show "length (pl @ [msg + ?o]) \<le> unat (msg_max (mq s)) \<and> length gl \<le> unat (msg_max (mq s))"
    if "\<not> was_nonblock s" "msg_max (mq s) \<noteq> 0"
  proof -
    have "length pl < 2 ^ 64" "msg_cnt (mq s) = word_of_nat (length pl)"
      using mem length_distinct_u64 [of pl] by (simp_all add: memory_ok_def)
    then have "Suc (length pl) \<le> unat (msg_max (mq s))"
      using put_commit_room [OF put, of "length pl"] that rep by (simp add: mq_rep_def)
    with rep that show ?thesis by (simp add: mq_rep_def)
  qed
qed (use put rep in \<open>auto simp: mq_rep_def put_commit_def phase_ok_def Let_def split: getter.splits if_splits\<close>)

lemma inv_get_begin:
  assumes rep: "mq_rep s gh ph gl pl" and idle: "getter s = GetIdle"
  shows "cells (mq s) (get_head (mq s)) \<noteq> None \<Longrightarrow> mq_inv (s\<lparr>getter := GetPopping 1\<rparr>)"
    and "cells (mq s) (get_head (mq s)) = None \<Longrightarrow> swap_begin (mq s) = (saved, q) \<Longrightarrow>
      mq_inv (s\<lparr>mq := q, getter := GetWaiting saved\<rparr>)"
proof -
  have gl: "gl = [] \<longleftrightarrow> cells (mq s) (get_head (mq s)) = None"
    using rep idle by (cases gl) (auto simp: mq_rep_def memory_ok_def phase_ok_def)
  show "mq_inv (s\<lparr>getter := GetPopping 1\<rparr>)" if "cells (mq s) (get_head (mq s)) \<noteq> None"
    using that rep idle gl by (intro mq_repI [OF rep]) (auto simp: mq_rep_def phase_ok_def)
  show "mq_inv (s\<lparr>mq := q, getter := GetWaiting saved\<rparr>)"
    if "cells (mq s) (get_head (mq s)) = None" "swap_begin (mq s) = (saved, q)"
  proof (rule mq_repI [OF rep])
    show "memory_ok (mq (s\<lparr>mq := q, getter := GetWaiting saved\<rparr>))
        (map (\<lambda>m. m + linkOff (mq s)) (prepared (s\<lparr>mq := q, getter := GetWaiting saved\<rparr>))) gh ph gl pl"
      using rep that(2) by (auto simp: mq_rep_def memory_ok_def swap_begin_def)
  qed (use that rep idle gl in \<open>auto simp: mq_rep_def phase_ok_def swap_begin_def\<close>)
qed

lemma inv_swapped:
  assumes rep: "mq_rep s gh ph gl pl" and "getter s = GetWaiting saved" "swap_commit saved (mq s) = Some (cnt, q)"
  shows "mq_inv (s\<lparr>mq := q, getter := GetPopping cnt\<rparr>)"
proof (rule mq_repI [OF rep])
  have *: "saved = gh" "gl = []" "get_head (mq s) = ph"
    using assms by (simp_all add: mq_rep_def phase_ok_def)
  have mem: "memory_ok (mq s) (map (\<lambda>m. m + linkOff (mq s)) (prepared s)) gh ph [] pl"
    using rep * by (simp add: mq_rep_def)
  have q: "q = (mq s)\<lparr>put_head := gh, put_tail := gh, msg_cnt := 0\<rparr>" "cnt = msg_cnt (mq s)"
    using assms(3) * by (auto simp: swap_commit_def split: if_splits)
  show "memory_ok (mq (s\<lparr>mq := q, getter := GetPopping cnt\<rparr>))
      (map (\<lambda>m. m + linkOff (mq s)) (prepared (s\<lparr>mq := q, getter := GetPopping cnt\<rparr>))) ph gh pl []"
    using memory_swap [OF mem] q by simp
  show "phase_ok (getter (s\<lparr>mq := q, getter := GetPopping cnt\<rparr>)) (mq (s\<lparr>mq := q, getter := GetPopping cnt\<rparr>)) ph gh pl"
    using q * mem by (auto simp: phase_ok_def memory_ok_def)
  show "linkOff (mq (s\<lparr>mq := q, getter := GetPopping cnt\<rparr>)) = linkOff (mq s)"
    "msg_max (mq (s\<lparr>mq := q, getter := GetPopping cnt\<rparr>)) = msg_max (mq s)"
    by (simp_all add: q)
qed (use assms in \<open>auto simp: mq_rep_def phase_ok_def swap_commit_def split: if_splits\<close>)

text \<open>Where the queue is about to be popped there is a message, the oldest one.\<close>

lemma get_finish_ok:
  assumes rep: "mq_rep s gh ph gl pl" and pop: "getter s = GetPopping cnt"
  shows "\<exists>q gl'. get_finish cnt (mq s) = Inr (if cnt > 0 then Some (hd gl - linkOff (mq s)) else None, q)
    \<and> gl' = (if cnt > 0 then tl gl else gl) \<and> (cnt > 0 \<longrightarrow> gl \<noteq> [])
    \<and> memory_ok q (map (\<lambda>m. m + linkOff (mq s)) (prepared s)) gh ph gl' pl
    \<and> phase_ok GetIdle q gh ph gl' \<and> linkOff q = linkOff (mq s) \<and> msg_max q = msg_max (mq s)
    \<and> nonblock q = nonblock (mq s)"
proof (cases "cnt > 0")
  case False
  with rep pop show ?thesis by (auto simp: get_finish_def mq_rep_def phase_ok_def)
next
  case True
  then obtain l ls where gl: "gl = l # ls" using rep pop by (cases gl) (auto simp: mq_rep_def phase_ok_def)
  have mem: "memory_ok (mq s) (map (\<lambda>m. m + linkOff (mq s)) (prepared s)) gh ph (l # ls) pl"
    and gh: "get_head (mq s) = gh" "put_head (mq s) = ph"
    using rep pop gl by (simp_all add: mq_rep_def phase_ok_def)
  then have "cells (mq s) gh = Some l" by (simp add: memory_ok_def)
  with memory_pop [OF mem] True gl gh show ?thesis
    by (simp add: get_finish_def get_pop_def phase_ok_def)
qed

lemma inv_got:
  assumes rep: "mq_rep s gh ph gl pl" and pop: "getter s = GetPopping cnt" "get_finish cnt (mq s) = Inr (r, q)"
  shows "mq_inv (s\<lparr>mq := q, getter := GetIdle, got_log := got_log s @ (case r of None \<Rightarrow> [] | Some m \<Rightarrow> [m])\<rparr>)"
proof -
  obtain gl' where r: "r = (if cnt > 0 then Some (hd gl - linkOff (mq s)) else None)"
    and gl': "gl' = (if cnt > 0 then tl gl else gl)" "cnt > 0 \<longrightarrow> gl \<noteq> []"
    and q: "memory_ok q (map (\<lambda>m. m + linkOff (mq s)) (prepared s)) gh ph gl' pl" "phase_ok GetIdle q gh ph gl'"
      "linkOff q = linkOff (mq s)" "msg_max q = msg_max (mq s)" "nonblock q = nonblock (mq s)"
    using get_finish_ok [OF rep pop(1)] pop(2) by auto
  have "(case r of None \<Rightarrow> [] | Some m \<Rightarrow> [m]) @ map (\<lambda>l. l - linkOff (mq s)) gl' = map (\<lambda>l. l - linkOff (mq s)) gl"
    using r gl' by (cases gl) auto
  moreover have "length gl' \<le> length gl" using gl' by simp
  ultimately show ?thesis
    using q rep by (intro mq_repI [OF rep, where gh' = gh and ph' = ph and gl' = gl' and pl' = pl]) (auto simp: mq_rep_def)
qed

lemma mq_step_inv: "mq_step s t \<Longrightarrow> mq_inv s \<Longrightarrow> mq_inv t"
proof (induction rule: mq_step.cases)
  case (nonblock s)
  then obtain gh ph gl pl where rep: "mq_rep s gh ph gl pl" by (auto simp: mq_inv_def)
  with nonblock show ?case
    by (auto simp: mq_inv_def mq_rep_def phase_ok_def memory_ok_def msgqueue_set_nonblock_def split: getter.splits)
next
  case (block s)
  then obtain gh ph gl pl where rep: "mq_rep s gh ph gl pl" by (auto simp: mq_inv_def)
  with block show ?case
    by (auto simp: mq_inv_def mq_rep_def phase_ok_def memory_ok_def msgqueue_set_block_def split: getter.splits)
qed (auto simp: mq_inv_def [of s] dest: inv_prepare inv_put inv_get_begin inv_swapped inv_got)

interpretation mq: invariant_system mq_start mq_step mq_inv
proof
  show "mq_inv s" if start: "mq_start s" for s
  proof -
    obtain mem maxLen off where "mq s = \<lparr>msg_max = maxLen, msg_cnt = 0, linkOff = off, nonblock = False,
        cells = mem(Head1 := None, Head2 := None), get_head = Head1, put_head = Head2, put_tail = Head2\<rparr>"
      using start unfolding mq_start_def msgqueue_create_def by (auto split: if_splits dest!: sym [where t = "mq s"])
    with start have "mq_rep s Head1 Head2 [] []"
      by (auto simp: mq_start_def mq_rep_def phase_ok_def memory_ok_def tail_cell_def)
    then show ?thesis unfolding mq_inv_def by blast
  qed
qed (rule mq_step_inv)

section \<open>Properties\<close>

text \<open>The messages that were put and not yet received, oldest first.\<close>

definition queued :: "mq_run \<Rightarrow> u64 list" where
  "queued s = drop (length (got_log s)) (put_log s)"

lemma mq_rep_queued: "mq_rep s gh ph gl pl \<Longrightarrow> queued s = map (\<lambda>l. l - linkOff (mq s)) (gl @ pl)"
  by (simp add: queued_def mq_rep_def)

text \<open>
  C15. Under every interleaving of producers and consumers, messages are received in the order
  in which they were put and none is lost or duplicated; a consumer that passed the wait never
  dereferences a null head; and while the queue was never set non-blocking, and its capacity is not 0 (for
  which \<open>msg_max - 1\<close> wraps around and nothing is bounded), it holds at most twice its capacity, one full list on
  each side.
\<close>

theorem msgqueue_order:
  assumes "mq_start s" "mq_step\<^sup>*\<^sup>* s t"
  shows "put_log t = got_log t @ queued t
    \<and> (\<forall>cnt. getter t = GetPopping cnt \<longrightarrow> (\<exists>r q. get_finish cnt (mq t) = Inr (r, q)))
    \<and> (\<not> was_nonblock t \<and> msg_max (mq t) \<noteq> 0 \<longrightarrow> length (queued t) \<le> 2 * unat (msg_max (mq t)))"
proof -
  obtain gh ph gl pl where rep: "mq_rep t gh ph gl pl"
    using mq.inv_reachable [OF assms] by (auto simp: mq_inv_def)
  then have "put_log t = got_log t @ queued t" by (simp add: queued_def mq_rep_def)
  moreover have "\<exists>r q. get_finish cnt (mq t) = Inr (r, q)" if "getter t = GetPopping cnt" for cnt
    using get_finish_ok [OF rep that] by auto
  ultimately show ?thesis using rep mq_rep_queued [OF rep] by (auto simp: mq_rep_def)
qed

text \<open>A run: one producer puts a message into a queue of capacity two.\<close>

definition mq0 :: mq_run where
  "mq0 = \<lparr>mq = \<lparr>msg_max = 2, msg_cnt = 0, linkOff = 8, nonblock = False, cells = (\<lambda>_. None),
              get_head = Head1, put_head = Head2, put_tail = Head2\<rparr>,
          getter = GetIdle, prepared = [], put_log = [], got_log = [], was_nonblock = False\<rparr>"

definition mq1 :: mq_run where
  "mq1 = mq0\<lparr>mq := (mq mq0)\<lparr>cells := (\<lambda>_. None)(Head2 := Some 108), put_tail := Link 108, msg_cnt := 1\<rparr>,
             put_log := [100]\<rparr>"

lemma mq0_mq1: "mq_start mq0" "mq_step\<^sup>*\<^sup>* mq0 mq1"
proof -
  have "(\<lambda>_. None)(Head1 := None, Head2 := None) = (\<lambda>_. None)" by auto
  moreover have "\<forall>i < (4 :: nat). [True, True, True, True] ! i" by (simp add: less_Suc_eq numeral_eq_Suc)
  ultimately show "mq_start mq0"
    by (auto simp: mq_start_def mq0_def msgqueue_create_def intro!: exI [of _ "\<lambda>_. None"])
  have "(\<lambda>_. None)(Link 108 := None) = (\<lambda>_. None)" by auto
  then have "mq_step mq0 (mq0\<lparr>prepared := [100]\<rparr>)"
    using mq_step.prepare [of 100 mq0] by (simp add: mq0_def owned_def put_prepare_def)
  moreover have "mq_step (mq0\<lparr>prepared := [100]\<rparr>) mq1"
    using mq_step.put [of 100 "mq0\<lparr>prepared := [100]\<rparr>" "mq mq1"] by (simp add: mq0_def mq1_def put_commit_def)
  ultimately show "mq_step\<^sup>*\<^sup>* mq0 mq1" by (meson rtranclp.rtrancl_refl rtranclp.rtrancl_into_rtrancl)
qed

theorem msgqueue_order_witness:
  "mq_start mq0 \<and> mq_step\<^sup>*\<^sup>* mq0 mq1 \<and> \<not> was_nonblock mq1 \<and> queued mq1 = [100]
   \<and> length (queued mq1) \<le> 2 * unat (msg_max (mq mq1))"
  using msgqueue_order [OF mq0_mq1] mq0_mq1 by (simp add: mq0_def mq1_def queued_def)

text \<open>
  \<open>msgqueue_get\<close> in every reachable state in which no other consumer is active: it
  returns the oldest message, swapping the lists when the get list is empty; with nothing
  queued it waits, or returns null when the queue is non-blocking.
\<close>

theorem msgqueue_get_spec:
  assumes "mq_start s" "mq_step\<^sup>*\<^sup>* s t" "getter t = GetIdle"
  shows "case queued t of
           [] \<Rightarrow> if nonblock (mq t) then \<exists>q. msgqueue_get (mq t) = Some (Inr (None, q)) else msgqueue_get (mq t) = None
         | m # _ \<Rightarrow> \<exists>q. msgqueue_get (mq t) = Some (Inr (Some m, q))"
proof -
  obtain gh ph gl pl where rep: "mq_rep t gh ph gl pl"
    using mq.inv_reachable [OF assms(1,2)] by (auto simp: mq_inv_def)
  have mem: "chain (cells (mq t)) gh gl" "chain (cells (mq t)) ph pl" "get_head (mq t) = gh" "put_head (mq t) = ph"
    "msg_cnt (mq t) = word_of_nat (length pl)" "length pl < 2 ^ 64"
    using rep assms(3) length_distinct_u64 [of pl] by (auto simp: mq_rep_def memory_ok_def phase_ok_def)
  have cnt: "msg_cnt (mq t) = 0 \<longleftrightarrow> pl = []" "msg_cnt (mq t) > 0 \<longleftrightarrow> pl \<noteq> []"
    using mem(5,6) by (auto simp: word_gt_0 simp flip: unat_eq_zero simp: unat_of_nat)
  show ?thesis
  proof (cases gl)
    case (Cons l ls)
    then show ?thesis
      using mem by (simp add: mq_rep_queued [OF rep] msgqueue_get_def get_finish_def get_pop_def)
  next
    case Nil
    then show ?thesis
      using mem(1-4) cnt
      by (cases pl) (auto simp: mq_rep_queued [OF rep] msgqueue_get_def get_finish_def get_pop_def swap_begin_def swap_commit_def)
  qed
qed

theorem msgqueue_get_spec_witness:
  "mq_start mq0 \<and> mq_step\<^sup>*\<^sup>* mq0 mq1 \<and> getter mq1 = GetIdle \<and> (\<exists>q. msgqueue_get (mq mq1) = Some (Inr (Some 100, q)))"
proof -
  have "getter mq1 = GetIdle" "queued mq1 = [100]" by (simp_all add: mq0_def mq1_def queued_def)
  with msgqueue_get_spec [OF mq0_mq1] mq0_mq1 show ?thesis by simp
qed

text \<open>A failed initialisation leaves \<open>msgqueue_create\<close> without a return value.\<close>

lemma msgqueue_create_no_return:
  "\<exists>i < 4. \<not> init_ok ! i \<Longrightarrow> msgqueue_create True init_ok mem maxLen off = Inl MissingReturn"
  by (auto simp: msgqueue_create_def)

end
