(* ===== verification/MPSCQueue.thy ===== *)
theory MPSCQueue
  imports Interfaces
begin

text \<open>
  The multi-producer single-consumer queue \<open>MPSCQueueNonIntrusive\<close> of
  \<^verbatim>\<open>Queue_Design/MPSCQueue.h\<close> under interleaving. One step is one access to shared
  memory: the exchange of \<open>_head\<close>, the store to the predecessor's \<open>Next\<close>, the loads, the
  store to \<open>_tail\<close> and the \<open>delete\<close>. The heap is a partial map; reading, writing or
  deleting a node that is not allocated is a fault, and a new node may get any free address,
  also one that was deleted before. Memory is sequentially consistent in this model; the
  acquire and release orders of the code are what a weaker machine needs to give the same
  interleavings.
\<close>

section \<open>State and operations\<close>

record 'a mnode =
  Data :: "'a option"
  NextPtr :: "nat option"

record 'a mpsc =
  mheap :: "nat \<rightharpoonup> 'a mnode"
  mhead :: nat
  mtail :: nat

text \<open>
  The constructor allocates the stub node at \<open>n\<close>; its \<open>Data\<close> is never initialised.
\<close>

definition MPSC_new :: "nat \<Rightarrow> 'a mpsc" where
  "MPSC_new n = \<lparr>mheap = [n \<mapsto> \<lparr>Data = None, NextPtr = None\<rparr>], mhead = n, mtail = n\<rparr>"

text \<open>\<open>Enqueue\<close>: allocate, exchange, link.\<close>

definition enq_alloc :: "nat \<Rightarrow> 'a \<Rightarrow> 'a mpsc \<Rightarrow> 'a mpsc" where
  "enq_alloc n input q = q\<lparr>mheap := (mheap q)(n \<mapsto> \<lparr>Data = Some input, NextPtr = None\<rparr>)\<rparr>"

definition enq_exchange :: "nat \<Rightarrow> 'a mpsc \<Rightarrow> nat \<times> 'a mpsc" where
  "enq_exchange n q = (mhead q, q\<lparr>mhead := n\<rparr>)"

definition enq_link :: "nat \<Rightarrow> nat \<Rightarrow> 'a mpsc \<Rightarrow> 'a mpsc res" where
  "enq_link n prevHead q =
     (case mheap q prevHead of
        None \<Rightarrow> Inl UseAfterFree
      | Some nd \<Rightarrow> Inr (q\<lparr>mheap := (mheap q)(prevHead \<mapsto> nd\<lparr>NextPtr := Some n\<rparr>)\<rparr>))"

definition Enqueue :: "nat \<Rightarrow> 'a \<Rightarrow> 'a mpsc \<Rightarrow> 'a mpsc res" where
  "Enqueue n input q = (case enq_exchange n (enq_alloc n input q) of (prevHead, q1) \<Rightarrow> enq_link n prevHead q1)"

text \<open>\<open>Dequeue\<close>: load the stub and its successor, take the item and move the tail, delete.\<close>

definition deq_load :: "'a mpsc \<Rightarrow> (nat \<times> nat option) res" where
  "deq_load q = (case mheap q (mtail q) of None \<Rightarrow> Inl UseAfterFree | Some nd \<Rightarrow> Inr (mtail q, NextPtr nd))"

definition deq_take :: "nat \<Rightarrow> 'a mpsc \<Rightarrow> ('a option \<times> 'a mpsc) res" where
  "deq_take next q = (case mheap q next of None \<Rightarrow> Inl UseAfterFree | Some nd \<Rightarrow> Inr (Data nd, q\<lparr>mtail := next\<rparr>))"

definition deq_delete :: "nat \<Rightarrow> 'a mpsc \<Rightarrow> 'a mpsc res" where
  "deq_delete tail q =
     (if tail \<in> dom (mheap q) then Inr (q\<lparr>mheap := (mheap q)(tail := None)\<rparr>) else Inl InvalidFree)"

definition Dequeue :: "'a mpsc \<Rightarrow> ('a option option \<times> 'a mpsc) res" where
  "Dequeue q =
     bind_res (deq_load q) (\<lambda>(tail, next).
       case next of
         None \<Rightarrow> Inr (None, q)
       | Some n \<Rightarrow> bind_res (deq_take n q) (\<lambda>(result, q1).
                  bind_res (deq_delete tail q1) (\<lambda>q2. Inr (Some result, q2))))"

text \<open>
  The destructor: every item that is left is deleted, then the last node. Here the items are
  collected in the order of their deletion.
\<close>

partial_function (option) destroy_from :: "'a mpsc \<Rightarrow> 'a option list \<Rightarrow> ('a option list \<times> 'a mpsc) res option" where
  "destroy_from q out =
     (case Dequeue q of
        Inl e \<Rightarrow> Some (Inl e)
      | Inr (r, q1) \<Rightarrow> (case r of
            None \<Rightarrow> Some (bind_res (deq_delete (mhead q1) q1) (\<lambda>q2. Inr (out, q2)))
          | Some x \<Rightarrow> destroy_from q1 (out @ [x])))"

definition MPSC_destroy :: "'a mpsc \<Rightarrow> ('a option list \<times> 'a mpsc) res option" where
  "MPSC_destroy q = destroy_from q []"

section \<open>Interleavings\<close>

text \<open>Where a producer and the consumer stand, and the logs of exchanged and received items.\<close>

datatype producer = Allocated nat | Exchanged nat nat

datatype consumer = ConsIdle | ConsLoaded nat nat | ConsDelete nat

record 'a mpsc_run =
  mpsc :: "'a mpsc"
  producers :: "nat \<rightharpoonup> producer"
  consumer :: consumer
  enq_log :: "'a list"
  deq_log :: "'a option list"

inductive mpsc_step :: "'a mpsc_run \<Rightarrow> 'a mpsc_run \<Rightarrow> bool" where
  alloc: "producers s t = None \<Longrightarrow> n \<notin> dom (mheap (mpsc s)) \<Longrightarrow>
    mpsc_step s (s\<lparr>mpsc := enq_alloc n v (mpsc s), producers := (producers s)(t \<mapsto> Allocated n)\<rparr>)"
| exchange: "producers s t = Some (Allocated n) \<Longrightarrow> enq_exchange n (mpsc s) = (p, q) \<Longrightarrow>
    mheap (mpsc s) n = Some nd \<Longrightarrow> Data nd = Some v \<Longrightarrow>
    mpsc_step s (s\<lparr>mpsc := q, producers := (producers s)(t \<mapsto> Exchanged n p), enq_log := enq_log s @ [v]\<rparr>)"
| link: "producers s t = Some (Exchanged n p) \<Longrightarrow> enq_link n p (mpsc s) = Inr q \<Longrightarrow>
    mpsc_step s (s\<lparr>mpsc := q, producers := (producers s)(t := None)\<rparr>)"
| load: "consumer s = ConsIdle \<Longrightarrow> deq_load (mpsc s) = Inr (x, Some n) \<Longrightarrow>
    mpsc_step s (s\<lparr>consumer := ConsLoaded x n\<rparr>)"
| take: "consumer s = ConsLoaded x n \<Longrightarrow> deq_take n (mpsc s) = Inr (r, q) \<Longrightarrow>
    mpsc_step s (s\<lparr>mpsc := q, consumer := ConsDelete x, deq_log := deq_log s @ [r]\<rparr>)"
| delete: "consumer s = ConsDelete x \<Longrightarrow> deq_delete x (mpsc s) = Inr q \<Longrightarrow>
    mpsc_step s (s\<lparr>mpsc := q, consumer := ConsIdle\<rparr>)"

definition mpsc_start :: "'a mpsc_run \<Rightarrow> bool" where
  "mpsc_start s \<longleftrightarrow> (\<exists>n. mpsc s = MPSC_new n) \<and> producers s = Map.empty \<and> consumer s = ConsIdle
     \<and> enq_log s = [] \<and> deq_log s = []"

section \<open>Invariant\<close>

text \<open>The links still to be stored: pairs of a node and its predecessor.\<close>

definition pending :: "(nat \<rightharpoonup> producer) \<Rightarrow> (nat \<times> nat) set" where
  "pending ps = {(n, p). Exchanged n p \<in> ran ps}"

definition private_nodes :: "(nat \<rightharpoonup> producer) \<Rightarrow> nat set" where
  "private_nodes ps = {n. Allocated n \<in> ran ps}"

text \<open>
  The nodes from the tail to the head in the order of the exchanges. A node leads to its
  successor, unless the store of that link is pending.
\<close>

definition leads :: "(nat \<times> nat) set \<Rightarrow> nat \<Rightarrow> nat \<Rightarrow> 'a mnode \<Rightarrow> bool" where
  "leads P x y nd \<longleftrightarrow> (NextPtr nd = None \<and> (\<forall>z. (z, x) \<in> P \<longleftrightarrow> z = y)) \<or> (NextPtr nd = Some y \<and> (\<forall>z. (z, x) \<notin> P))"

definition ends :: "(nat \<times> nat) set \<Rightarrow> nat \<Rightarrow> 'a mnode \<Rightarrow> bool" where
  "ends P x nd \<longleftrightarrow> NextPtr nd = None \<and> (\<forall>z. (z, x) \<notin> P)"

fun mlinks :: "(nat \<rightharpoonup> 'a mnode) \<Rightarrow> (nat \<times> nat) set \<Rightarrow> nat list \<Rightarrow> bool" where
  "mlinks h P [] = True"
| "mlinks h P [x] = (\<exists>nd. h x = Some nd \<and> ends P x nd)"
| "mlinks h P (x # y # ns) = ((\<exists>nd. h x = Some nd \<and> leads P x y nd) \<and> mlinks h P (y # ns))"

definition node_data :: "(nat \<rightharpoonup> 'a mnode) \<Rightarrow> nat \<Rightarrow> 'a option" where
  "node_data h n = Option.bind (h n) Data"

definition consumer_ok :: "consumer \<Rightarrow> (nat \<rightharpoonup> 'a mnode) \<Rightarrow> nat list \<Rightarrow> bool" where
  "consumer_ok c h ns = (case c of
     ConsIdle \<Rightarrow> True
   | ConsLoaded x y \<Rightarrow> \<exists>nd ns'. ns = x # y # ns' \<and> h x = Some nd \<and> NextPtr nd = Some y
   | ConsDelete x \<Rightarrow> x \<in> dom h \<and> x \<notin> set ns)"

definition deleting :: "consumer \<Rightarrow> nat set" where
  "deleting c = (case c of ConsDelete x \<Rightarrow> {x} | _ \<Rightarrow> {})"

definition mpsc_rep :: "'a mpsc_run \<Rightarrow> nat list \<Rightarrow> bool" where
  "mpsc_rep s ns \<longleftrightarrow>
     ns \<noteq> [] \<and> distinct ns \<and> mtail (mpsc s) = hd ns \<and> mhead (mpsc s) = last ns
     \<and> mlinks (mheap (mpsc s)) (pending (producers s)) ns
     \<and> consumer_ok (consumer s) (mheap (mpsc s)) ns
     \<and> inj_on (producers s) (dom (producers s))
     \<and> snd ` pending (producers s) \<subseteq> set ns
     \<and> private_nodes (producers s) \<inter> (set ns \<union> deleting (consumer s)) = {}
     \<and> (\<forall>n \<in> private_nodes (producers s). \<exists>v. mheap (mpsc s) n = Some \<lparr>Data = Some v, NextPtr = None\<rparr>)
     \<and> dom (mheap (mpsc s)) = set ns \<union> private_nodes (producers s) \<union> deleting (consumer s)
     \<and> map Some (enq_log s) = deq_log s @ map (node_data (mheap (mpsc s))) (tl ns)"

definition mpsc_inv :: "'a mpsc_run \<Rightarrow> bool" where
  "mpsc_inv s \<longleftrightarrow> (\<exists>ns. mpsc_rep s ns)"

lemma mlinks_cong:
  "(\<And>x. x \<in> set ns \<Longrightarrow> h x = h' x) \<Longrightarrow> (\<And>x z. x \<in> set ns \<Longrightarrow> (z, x) \<in> P \<longleftrightarrow> (z, x) \<in> P') \<Longrightarrow>
     mlinks h P ns = mlinks h' P' ns"
  by (induction h P ns rule: mlinks.induct) (auto simp: leads_def ends_def)

lemma mlinks_last: "mlinks h P ns \<Longrightarrow> ns \<noteq> [] \<Longrightarrow> \<exists>nd. h (last ns) = Some nd \<and> ends P (last ns) nd"
  by (induction h P ns rule: mlinks.induct) auto

lemma mlinks_snoc:
  assumes "mlinks h P ns" "ns \<noteq> []" "distinct (ns @ [n])" "h n = Some nd" "NextPtr nd = None" "\<forall>z. (z, n) \<notin> P"
  shows "mlinks h (insert (n, last ns) P) (ns @ [n])"
  using assms
proof (induction h P ns rule: mlinks.induct)
  case (2 h P x)
  then show ?case by (auto simp: ends_def leads_def)
next
  case (3 h P x y ns)
  have "x \<noteq> last (y # ns)" using 3(4) last_in_set [of "y # ns"] by auto
  then have "leads (insert (n, last (y # ns)) P) x y nd' = leads P x y nd'" for nd' :: "'a mnode"
    by (simp add: leads_def)
  moreover have "mlinks h (insert (n, last (y # ns)) P) ((y # ns) @ [n])" using 3 by (intro 3(1)) auto
  moreover obtain nd' where "h x = Some nd'" "leads P x y nd'" using 3(2) by auto
  ultimately show ?case by simp
qed simp

lemma mlinks_store:
  assumes "mlinks h P ns" "distinct ns" "(n, p) \<in> P" "p \<in> set ns" "h p = Some nd"
  shows "mlinks (h(p \<mapsto> nd\<lparr>NextPtr := Some n\<rparr>)) (P - {(n, p)}) ns"
  using assms
proof (induction h P ns rule: mlinks.induct)
  case (2 h P x)
  then show ?case by (auto simp: ends_def)
next
  case (3 h P x y ns)
  let ?h = "h(p \<mapsto> nd\<lparr>NextPtr := Some n\<rparr>)"
  show ?case
  proof (cases "x = p")
    case True
    with 3 have "mlinks ?h (P - {(n, p)}) (y # ns) = mlinks h P (y # ns)"
      by (intro mlinks_cong) auto
    moreover have "leads (P - {(n, p)}) x y (nd\<lparr>NextPtr := Some n\<rparr>)"
      using 3(2,4,6) True by (auto simp: leads_def)
    ultimately show ?thesis using 3(2) True by (simp add: fun_upd_same del: fun_upd_apply)
  next
    case False
    with 3 have "mlinks ?h (P - {(n, p)}) (y # ns)" by (intro 3(1)) auto
    moreover obtain nd' where "h x = Some nd'" "leads P x y nd'" using 3(2) by auto
    moreover from this False have "leads (P - {(n, p)}) x y nd'" by (simp add: leads_def)
    ultimately show ?thesis using False by (simp add: fun_upd_other del: fun_upd_apply)
  qed
qed simp

section \<open>Every step keeps the invariant\<close>

lemma ran_upd_inj:
  assumes "inj_on ps (dom ps)" "ps t = Some v"
  shows "ran (ps(t := x)) = (ran ps - {v}) \<union> set_option x"
proof (rule set_eqI)
  fix y
  have other: "ps a \<noteq> Some v" if "a \<noteq> t" for a
    using that assms by (metis domI inj_onD)
  have "y \<in> ran (ps(t := x)) \<longleftrightarrow> x = Some y \<or> (\<exists>a. a \<noteq> t \<and> ps a = Some y)"
    by (auto simp: ran_def split: if_splits)
  also have "(\<exists>a. a \<noteq> t \<and> ps a = Some y) \<longleftrightarrow> y \<in> ran ps \<and> y \<noteq> v"
    using other assms(2) by (auto simp: ran_def) (metis option.inject)
  finally show "y \<in> ran (ps(t := x)) \<longleftrightarrow> y \<in> (ran ps - {v}) \<union> set_option x" by (auto simp del: fun_upd_apply)
qed

lemma producers_alloc:
  assumes "ps t = None"
  shows "pending (ps(t \<mapsto> Allocated n)) = pending ps" "private_nodes (ps(t \<mapsto> Allocated n)) = insert n (private_nodes ps)"
  using assms by (auto simp: pending_def private_nodes_def)

lemma producers_exchange:
  assumes "ps t = Some (Allocated n)" "inj_on ps (dom ps)"
  shows "pending (ps(t \<mapsto> Exchanged n p)) = insert (n, p) (pending ps)"
    and "private_nodes (ps(t \<mapsto> Exchanged n p)) = private_nodes ps - {n}"
  unfolding pending_def private_nodes_def ran_upd_inj [OF assms(2,1)] by auto

lemma producers_link:
  assumes "ps t = Some (Exchanged n p)" "inj_on ps (dom ps)"
  shows "pending (ps(t := None)) = pending ps - {(n, p)}" "private_nodes (ps(t := None)) = private_nodes ps"
  unfolding pending_def private_nodes_def ran_upd_inj [OF assms(2,1)] by auto

lemma inj_upd: "inj_on ps (dom ps) \<Longrightarrow> (\<And>t'. t' \<noteq> t \<Longrightarrow> ps t' \<noteq> Some v) \<Longrightarrow> inj_on (ps(t \<mapsto> v)) (dom (ps(t \<mapsto> v)))"
  unfolding inj_on_def by (auto split: if_splits)

lemma inj_del: "inj_on ps (dom ps) \<Longrightarrow> inj_on (ps(t := None)) (dom (ps(t := None)))"
  unfolding inj_on_def by (auto split: if_splits)

lemma map_node_data_cong:
  "(\<And>x. x \<in> set ns \<Longrightarrow> node_data h x = node_data h' x) \<Longrightarrow> map (node_data h) (tl ns) = map (node_data h') (tl ns)"
  by (cases ns) auto

lemma consumer_ok_upd:
  "consumer_ok c h ns \<Longrightarrow> n \<notin> dom h \<Longrightarrow> consumer_ok c (h(n \<mapsto> nd)) ns"
  by (auto simp: consumer_ok_def split: consumer.splits)

lemma inv_alloc:
  assumes rep: "mpsc_rep s ns" and t: "producers s t = None" and n: "n \<notin> dom (mheap (mpsc s))"
  shows "mpsc_rep (s\<lparr>mpsc := enq_alloc n v (mpsc s), producers := (producers s)(t \<mapsto> Allocated n)\<rparr>) ns"
proof -
  let ?h = "mheap (mpsc s)" let ?h' = "?h(n \<mapsto> \<lparr>Data = Some v, NextPtr = None\<rparr>)"
  have ns: "n \<notin> set ns" "n \<notin> private_nodes (producers s)" "n \<notin> deleting (consumer s)"
    using rep n by (auto simp: mpsc_rep_def)
  have "mlinks ?h' (pending (producers s)) ns = mlinks ?h (pending (producers s)) ns"
    using ns by (intro mlinks_cong) auto
  moreover have "map (node_data ?h') (tl ns) = map (node_data ?h) (tl ns)"
    using ns by (intro map_node_data_cong) (auto simp: node_data_def)
  moreover have "inj_on ((producers s)(t \<mapsto> Allocated n)) (dom ((producers s)(t \<mapsto> Allocated n)))"
    using rep ns(2) by (intro inj_upd) (auto simp: mpsc_rep_def private_nodes_def ranI)
  moreover have "consumer_ok (consumer s) ?h' ns"
    using rep n by (intro consumer_ok_upd) (auto simp: mpsc_rep_def)
  moreover have "\<forall>m \<in> insert n (private_nodes (producers s)). \<exists>v. ?h' m = Some \<lparr>Data = Some v, NextPtr = None\<rparr>"
    using rep by (auto simp: mpsc_rep_def)
  ultimately show ?thesis
    using rep ns producers_alloc [of "producers s", OF t, of n]
    unfolding mpsc_rep_def enq_alloc_def by (auto simp del: fun_upd_apply)
qed

lemma inv_exchange:
  assumes rep: "mpsc_rep s ns" and t: "producers s t = Some (Allocated n)"
    and ex: "enq_exchange n (mpsc s) = (p, q)" and nd: "mheap (mpsc s) n = Some nd" "Data nd = Some v"
  shows "mpsc_rep (s\<lparr>mpsc := q, producers := (producers s)(t \<mapsto> Exchanged n p), enq_log := enq_log s @ [v]\<rparr>) (ns @ [n])"
proof -
  let ?P = "pending (producers s)"
  have pq: "p = last ns" "q = (mpsc s)\<lparr>mhead := n\<rparr>"
    using ex rep by (auto simp: enq_exchange_def mpsc_rep_def)
  have inj: "inj_on (producers s) (dom (producers s))" using rep by (simp add: mpsc_rep_def)
  have n: "n \<in> private_nodes (producers s)" using t by (auto simp: private_nodes_def ranI)
  then have out: "n \<notin> set ns" "n \<notin> deleting (consumer s)"
    using rep unfolding mpsc_rep_def by auto
  obtain w where "mheap (mpsc s) n = Some \<lparr>Data = Some w, NextPtr = None\<rparr>"
    using rep n unfolding mpsc_rep_def by blast
  then have null: "NextPtr nd = None" using nd by simp
  have "snd ` ?P \<subseteq> set ns" using rep by (simp add: mpsc_rep_def)
  then have "\<forall>z. (z, n) \<notin> ?P" using out(1) by force
  note fresh = out null this
  have links: "mlinks (mheap (mpsc s)) (insert (n, last ns) ?P) (ns @ [n])"
    using rep fresh nd by (intro mlinks_snoc) (auto simp: mpsc_rep_def)
  have "(z, last ns) \<notin> ?P" for z
    using mlinks_last [of "mheap (mpsc s)" ?P ns] rep by (auto simp: mpsc_rep_def ends_def)
  then have inj': "inj_on ((producers s)(t \<mapsto> Exchanged n p)) (dom ((producers s)(t \<mapsto> Exchanged n p)))"
    using inj pq by (intro inj_upd) (auto simp: pending_def dest: ranI)
  have cons: "consumer_ok (consumer s) (mheap (mpsc s)) (ns @ [n])"
    using rep fresh by (auto simp: mpsc_rep_def consumer_ok_def deleting_def split: consumer.splits)
  have log: "map Some (enq_log s @ [v]) = deq_log s @ map (node_data (mheap (mpsc s))) (tl (ns @ [n]))"
    using rep nd by (simp add: mpsc_rep_def node_data_def)
  show ?thesis
    using rep fresh links inj' cons log n producers_exchange [OF t inj, of p]
    unfolding mpsc_rep_def pq by (auto simp del: fun_upd_apply)
qed

lemma inv_link:
  assumes rep: "mpsc_rep s ns" and t: "producers s t = Some (Exchanged n p)" and q: "enq_link n p (mpsc s) = Inr q"
  shows "mpsc_rep (s\<lparr>mpsc := q, producers := (producers s)(t := None)\<rparr>) ns"
proof -
  let ?P = "pending (producers s)" let ?h = "mheap (mpsc s)"
  obtain nd where nd: "?h p = Some nd" and q': "q = (mpsc s)\<lparr>mheap := ?h(p \<mapsto> nd\<lparr>NextPtr := Some n\<rparr>)\<rparr>"
    using q by (auto simp: enq_link_def split: option.splits)
  have inj: "inj_on (producers s) (dom (producers s))" using rep by (simp add: mpsc_rep_def)
  have np: "(n, p) \<in> ?P" using t by (auto simp: pending_def ranI)
  then have p: "p \<in> set ns" using rep by (force simp: mpsc_rep_def)
  have links: "mlinks (?h(p \<mapsto> nd\<lparr>NextPtr := Some n\<rparr>)) (?P - {(n, p)}) ns"
    using rep np p nd by (intro mlinks_store) (auto simp: mpsc_rep_def)
  have data: "map (node_data (?h(p \<mapsto> nd\<lparr>NextPtr := Some n\<rparr>))) (tl ns) = map (node_data ?h) (tl ns)"
    using nd by (intro map_node_data_cong) (auto simp: node_data_def)
  have "NextPtr nd \<noteq> Some y" if "ns = p # y # ns'" for y ns'
    using rep that np nd by (auto simp: mpsc_rep_def leads_def)
  then have cons: "consumer_ok (consumer s) (?h(p \<mapsto> nd\<lparr>NextPtr := Some n\<rparr>)) ns"
    using rep nd by (auto simp: mpsc_rep_def consumer_ok_def split: consumer.splits)
  have priv: "\<forall>m \<in> private_nodes (producers s). \<exists>v. (?h(p \<mapsto> nd\<lparr>NextPtr := Some n\<rparr>)) m = Some \<lparr>Data = Some v, NextPtr = None\<rparr>"
    using rep p by (auto simp: mpsc_rep_def)
  show ?thesis
    using rep links data cons priv nd producers_link [OF t inj] inj_del [OF inj, of t]
    unfolding mpsc_rep_def q' by (auto simp del: fun_upd_apply)
qed

lemma inv_load:
  assumes rep: "mpsc_rep s ns" and "consumer s = ConsIdle" "deq_load (mpsc s) = Inr (x, Some n)"
  shows "mpsc_rep (s\<lparr>consumer := ConsLoaded x n\<rparr>) ns"
proof -
  obtain y ys where ns: "ns = y # ys" using rep by (cases ns) (auto simp: mpsc_rep_def)
  have "\<exists>nd ns'. ns = x # n # ns' \<and> mheap (mpsc s) x = Some nd \<and> NextPtr nd = Some n"
    using rep assms(3) ns
    by (cases ys) (auto simp: mpsc_rep_def deq_load_def ends_def leads_def split: option.splits)
  with rep assms(2) show ?thesis by (auto simp: mpsc_rep_def consumer_ok_def deleting_def)
qed

lemma inv_take:
  assumes rep: "mpsc_rep s ns" and c: "consumer s = ConsLoaded x n" "deq_take n (mpsc s) = Inr (r, q)"
  shows "mpsc_rep (s\<lparr>mpsc := q, consumer := ConsDelete x, deq_log := deq_log s @ [r]\<rparr>) (tl ns)"
proof -
  obtain nd ns' where ns: "ns = x # n # ns'" "mheap (mpsc s) x = Some nd" "NextPtr nd = Some n"
    using rep c(1) by (auto simp: mpsc_rep_def consumer_ok_def)
  have q: "q = (mpsc s)\<lparr>mtail := n\<rparr>" "r = node_data (mheap (mpsc s)) n"
    using c(2) by (auto simp: deq_take_def node_data_def split: option.splits)
  have "(z, x) \<notin> pending (producers s)" for z
    using rep ns by (auto simp: mpsc_rep_def leads_def)
  then have "snd ` pending (producers s) \<subseteq> set (n # ns')"
    using rep ns(1) by (force simp: mpsc_rep_def)
  with rep ns q c(1) show ?thesis
    unfolding mpsc_rep_def by (auto simp: consumer_ok_def deleting_def)
qed

lemma inv_delete:
  assumes rep: "mpsc_rep s ns" and c: "consumer s = ConsDelete x" "deq_delete x (mpsc s) = Inr q"
  shows "mpsc_rep (s\<lparr>mpsc := q, consumer := ConsIdle\<rparr>) ns"
proof -
  let ?h = "mheap (mpsc s)"
  have q: "q = (mpsc s)\<lparr>mheap := ?h(x := None)\<rparr>" using c(2) by (auto simp: deq_delete_def split: if_splits)
  have x: "x \<notin> set ns" "x \<notin> private_nodes (producers s)"
    using rep c(1) by (auto simp: mpsc_rep_def consumer_ok_def deleting_def)
  have "mlinks (?h(x := None)) (pending (producers s)) ns = mlinks ?h (pending (producers s)) ns"
    using x by (intro mlinks_cong) auto
  moreover have "map (node_data (?h(x := None))) (tl ns) = map (node_data ?h) (tl ns)"
    using x by (intro map_node_data_cong) (auto simp: node_data_def)
  moreover have "\<forall>m \<in> private_nodes (producers s). \<exists>v. (?h(x := None)) m = Some \<lparr>Data = Some v, NextPtr = None\<rparr>"
    using rep x by (auto simp: mpsc_rep_def)
  moreover have "dom (?h(x := None)) = set ns \<union> private_nodes (producers s)"
    using rep x c(1) by (auto simp: mpsc_rep_def deleting_def)
  ultimately show ?thesis
    using rep unfolding mpsc_rep_def q by (auto simp: consumer_ok_def deleting_def simp del: fun_upd_apply)
qed

lemma mpsc_step_inv: "mpsc_step s t \<Longrightarrow> mpsc_inv s \<Longrightarrow> mpsc_inv t"
  by (induction rule: mpsc_step.cases)
    (auto simp only: mpsc_inv_def intro: inv_alloc inv_exchange inv_link inv_load inv_take inv_delete)

interpretation mpsc: invariant_system mpsc_start mpsc_step mpsc_inv
proof
  show "mpsc_inv s" if start: "mpsc_start s" for s :: "'a mpsc_run"
  proof -
    obtain n where "mpsc s = MPSC_new n" using start by (auto simp: mpsc_start_def)
    with start have "mpsc_rep s [n]"
      by (simp add: mpsc_start_def MPSC_new_def mpsc_rep_def pending_def private_nodes_def ends_def consumer_ok_def deleting_def)
    then show ?thesis unfolding mpsc_inv_def by blast
  qed
qed (rule mpsc_step_inv)

section \<open>The destructor and a consumer that runs alone\<close>

text \<open>A queue no producer is working on: all links are stored and the heap holds just its nodes.\<close>

definition settled :: "'a mpsc \<Rightarrow> nat list \<Rightarrow> bool" where
  "settled q ns \<longleftrightarrow> ns \<noteq> [] \<and> distinct ns \<and> mtail q = hd ns \<and> mhead q = last ns
     \<and> mlinks (mheap q) {} ns \<and> set ns \<subseteq> dom (mheap q)"

lemma Dequeue_settled:
  assumes "settled q ns"
  shows "tl ns = [] \<Longrightarrow> Dequeue q = Inr (None, q)"
    and "ns = x # y # ys \<Longrightarrow> \<exists>q'. Dequeue q = Inr (Some (node_data (mheap q) y), q') \<and> settled q' (y # ys)
       \<and> mheap q' = (mheap q)(x := None)"
proof -
  show "Dequeue q = Inr (None, q)" if "tl ns = []"
    using assms that by (cases ns) (auto simp: settled_def Dequeue_def deq_load_def ends_def)
  assume ns: "ns = x # y # ys"
  obtain nx ny where h: "mheap q x = Some nx" "NextPtr nx = Some y" "mheap q y = Some ny"
    using assms ns by (auto simp: settled_def leads_def)
  have "mlinks ((mheap q)(x := None)) {} (y # ys) = mlinks (mheap q) {} (y # ys)"
    using assms ns by (intro mlinks_cong) (auto simp: settled_def)
  with assms ns have "settled ((q\<lparr>mtail := y\<rparr>)\<lparr>mheap := (mheap q)(x := None)\<rparr>) (y # ys)"
    by (auto simp: settled_def simp del: fun_upd_apply)
  moreover have "mtail q = x" using assms ns by (simp add: settled_def)
  ultimately show "\<exists>q'. Dequeue q = Inr (Some (node_data (mheap q) y), q') \<and> settled q' (y # ys)
       \<and> mheap q' = (mheap q)(x := None)"
    using h by (auto simp: Dequeue_def deq_load_def deq_take_def deq_delete_def node_data_def simp del: fun_upd_apply)
qed

lemma destroy_settled:
  "settled q ns \<Longrightarrow> \<exists>q'. destroy_from q out = Some (Inr (out @ map (node_data (mheap q)) (tl ns), q'))
     \<and> dom (mheap q') = dom (mheap q) - set ns"
proof (induction ns arbitrary: q out)
  case Nil
  then show ?case by (simp add: settled_def)
next
  case (Cons x ns)
  show ?case
  proof (cases ns)
    case Nil
    with Cons.prems have "mhead q = x" "x \<in> dom (mheap q)" by (auto simp: settled_def)
    with Nil Dequeue_settled(1) [OF Cons.prems] show ?thesis
      by (subst destroy_from.simps) (auto simp: deq_delete_def)
  next
    case ns: (Cons y ys)
    obtain q1 where q1: "Dequeue q = Inr (Some (node_data (mheap q) y), q1)" "settled q1 (y # ys)"
        "mheap q1 = (mheap q)(x := None)"
      using Dequeue_settled(2) [OF Cons.prems] ns by blast
    have "x \<notin> set ys" using Cons.prems ns by (simp add: settled_def)
    then have "map (node_data (mheap q1)) ys = map (node_data (mheap q)) ys"
      using q1(3) by (auto simp: node_data_def)
    moreover obtain q' where "destroy_from q1 (out @ [node_data (mheap q) y])
        = Some (Inr ((out @ [node_data (mheap q) y]) @ map (node_data (mheap q1)) ys, q'))"
        "dom (mheap q') = dom (mheap q1) - set (y # ys)"
      using Cons.IH [of q1 "out @ [node_data (mheap q) y]"] q1(2) ns by auto
    ultimately show ?thesis
      using q1(1,3) ns by (subst destroy_from.simps) auto
  qed
qed

lemma settled_run:
  assumes "mpsc_rep s ns" "pending (producers s) = {}"
  shows "settled (mpsc s) ns"
  using assms by (auto simp: mpsc_rep_def settled_def)

section \<open>Properties\<close>

text \<open>
  C18. Under every interleaving of any number of producers with the consumer, items are received
  in the order of their exchanges, none lost or duplicated, and no operation touches a node
  that is not allocated, although nodes are deleted while producers still hold predecessors
  and addresses are used again.
\<close>

theorem mpsc_safe:
  assumes "mpsc_start s" "mpsc_step\<^sup>*\<^sup>* s t"
  shows "(\<exists>rest. map Some (enq_log t) = deq_log t @ rest)
    \<and> (\<forall>i n p. producers t i = Some (Exchanged n p) \<longrightarrow> (\<exists>q. enq_link n p (mpsc t) = Inr q))
    \<and> (\<exists>r. deq_load (mpsc t) = Inr r)
    \<and> (\<forall>x n. consumer t = ConsLoaded x n \<longrightarrow> (\<exists>r. deq_take n (mpsc t) = Inr r))
    \<and> (\<forall>x. consumer t = ConsDelete x \<longrightarrow> (\<exists>q. deq_delete x (mpsc t) = Inr q))"
proof -
  obtain ns where rep: "mpsc_rep t ns" using mpsc.inv_reachable [OF assms] by (auto simp: mpsc_inv_def)
  then have dom: "set ns \<subseteq> dom (mheap (mpsc t))" by (auto simp: mpsc_rep_def)
  have "\<exists>q. enq_link n p (mpsc t) = Inr q" if "producers t i = Some (Exchanged n p)" for i n p
  proof -
    have "(n, p) \<in> pending (producers t)" using that by (auto simp: pending_def ranI)
    then have "p \<in> set ns" using rep by (force simp: mpsc_rep_def)
    then show ?thesis using dom by (auto simp: enq_link_def split: option.split)
  qed
  moreover have "mtail (mpsc t) \<in> set ns" using rep by (simp add: mpsc_rep_def)
  then have "\<exists>r. deq_load (mpsc t) = Inr r" using dom by (auto simp: deq_load_def split: option.split)
  moreover have "\<exists>r. deq_take n (mpsc t) = Inr r" if "consumer t = ConsLoaded x n" for x n
    using rep that dom by (auto simp: mpsc_rep_def consumer_ok_def deq_take_def split: option.split)
  moreover have "\<exists>q. deq_delete x (mpsc t) = Inr q" if "consumer t = ConsDelete x" for x
    using rep that by (auto simp: mpsc_rep_def consumer_ok_def deq_delete_def)
  ultimately show ?thesis using rep unfolding mpsc_rep_def by blast
qed

text \<open>A run: a producer allocates, exchanges (\<open>mp1\<close>) and stores its link (\<open>mp2\<close>).\<close>

definition mp0 :: "int mpsc_run" where
  "mp0 = \<lparr>mpsc = MPSC_new 0, producers = Map.empty, consumer = ConsIdle, enq_log = [], deq_log = []\<rparr>"

definition mp1 :: "int mpsc_run" where
  "mp1 = mp0\<lparr>mpsc := \<lparr>mheap = (mheap (MPSC_new 0))(1 \<mapsto> \<lparr>Data = Some 7, NextPtr = None\<rparr>), mhead = 1, mtail = 0\<rparr>,
             producers := [4 \<mapsto> Exchanged 1 0], enq_log := [7]\<rparr>"

definition mp2 :: "int mpsc_run" where
  "mp2 = mp0\<lparr>mpsc := \<lparr>mheap = (mheap (MPSC_new 0))(1 \<mapsto> \<lparr>Data = Some 7, NextPtr = None\<rparr>, 0 \<mapsto> \<lparr>Data = None, NextPtr = Some 1\<rparr>),
               mhead = 1, mtail = 0\<rparr>, enq_log := [7]\<rparr>"

lemma mp_run: "mpsc_start mp0" "mpsc_step\<^sup>*\<^sup>* mp0 mp1" "mpsc_step\<^sup>*\<^sup>* mp0 mp2"
proof -
  show "mpsc_start mp0" by (auto simp: mpsc_start_def mp0_def)
  let ?a = "mp0\<lparr>mpsc := enq_alloc 1 7 (mpsc mp0), producers := [4 \<mapsto> Allocated 1]\<rparr>"
  have "mpsc_step mp0 ?a"
    using mpsc_step.alloc [of mp0 4 1 7] by (simp add: mp0_def MPSC_new_def)
  moreover have "mpsc_step ?a mp1"
    using mpsc_step.exchange [of ?a 4 1 0 "mpsc mp1" "\<lparr>Data = Some 7, NextPtr = None\<rparr>" 7]
    by (simp add: mp0_def mp1_def MPSC_new_def enq_alloc_def enq_exchange_def)
  ultimately show "mpsc_step\<^sup>*\<^sup>* mp0 mp1" by (meson rtranclp.rtrancl_refl rtranclp.rtrancl_into_rtrancl)
  moreover have "mpsc_step mp1 mp2"
    using mpsc_step.link [of mp1 4 1 0 "mpsc mp2"] by (simp add: mp0_def mp1_def mp2_def MPSC_new_def enq_link_def)
  ultimately show "mpsc_step\<^sup>*\<^sup>* mp0 mp2" by (meson rtranclp.rtrancl_into_rtrancl)
qed

theorem mpsc_safe_witness:
  "mpsc_start mp0 \<and> mpsc_step\<^sup>*\<^sup>* mp0 mp1 \<and> producers mp1 4 = Some (Exchanged 1 0) \<and> (\<exists>q. enq_link 1 0 (mpsc mp1) = Inr q)"
proof -
  have "producers mp1 4 = Some (Exchanged 1 0)" by (simp add: mp1_def mp0_def)
  with mpsc_safe [OF mp_run(1,2)] mp_run show ?thesis by blast
qed

text \<open>
  Once no producer is between its exchange and its store, a \<open>Dequeue\<close> by the idle
  consumer returns the oldest item not yet received, and \<open>false\<close> only when there is none.
\<close>

theorem mpsc_dequeue_spec:
  assumes "mpsc_start s" "mpsc_step\<^sup>*\<^sup>* s t" "consumer t = ConsIdle" "pending (producers t) = {}"
  shows "case drop (length (deq_log t)) (enq_log t) of
           [] \<Rightarrow> Dequeue (mpsc t) = Inr (None, mpsc t)
         | v # _ \<Rightarrow> \<exists>q. Dequeue (mpsc t) = Inr (Some (Some v), q)"
proof -
  obtain ns where rep: "mpsc_rep t ns" using mpsc.inv_reachable [OF assms(1,2)] by (auto simp: mpsc_inv_def)
  note st = settled_run [OF rep assms(4)]
  have "map Some (enq_log t) = deq_log t @ map (node_data (mheap (mpsc t))) (tl ns)"
    using rep by (simp add: mpsc_rep_def)
  then have rest: "map Some (drop (length (deq_log t)) (enq_log t)) = map (node_data (mheap (mpsc t))) (tl ns)"
    by (metis append_eq_conv_conj drop_map)
  show ?thesis
  proof (cases "tl ns")
    case Nil
    with rest Dequeue_settled(1) [OF st] show ?thesis by simp
  next
    case (Cons y ys)
    then obtain x where ns: "ns = x # y # ys" by (cases ns) auto
    obtain v vs where "drop (length (deq_log t)) (enq_log t) = v # vs" "Some v = node_data (mheap (mpsc t)) y"
      using rest Cons by (cases "drop (length (deq_log t)) (enq_log t)") auto
    with Dequeue_settled(2) [OF st ns] show ?thesis by auto
  qed
qed

theorem mpsc_dequeue_spec_witness:
  "mpsc_start mp0 \<and> mpsc_step\<^sup>*\<^sup>* mp0 mp2 \<and> (\<exists>q. Dequeue (mpsc mp2) = Inr (Some (Some 7), q))"
proof -
  have "consumer mp2 = ConsIdle" "pending (producers mp2) = {}" "drop (length (deq_log mp2)) (enq_log mp2) = [7]"
    by (simp_all add: mp2_def mp0_def pending_def)
  with mpsc_dequeue_spec [OF mp_run(1,3)] mp_run show ?thesis by simp
qed

text \<open>
  C19. The destructor, run when no producer or consumer is active: it returns, hands every
  item that is left to \<open>delete\<close> once and in order, and frees every node of the queue.
\<close>

theorem mpsc_destroy_frees_all:
  assumes "mpsc_start s" "mpsc_step\<^sup>*\<^sup>* s t" "consumer t = ConsIdle" "producers t = Map.empty"
  shows "\<exists>out q. MPSC_destroy (mpsc t) = Some (Inr (out, q)) \<and> mheap q = Map.empty
    \<and> map Some (enq_log t) = deq_log t @ out"
proof -
  obtain ns where rep: "mpsc_rep t ns" using mpsc.inv_reachable [OF assms(1,2)] by (auto simp: mpsc_inv_def)
  have none: "pending (producers t) = {}" "private_nodes (producers t) = {}"
    using assms(4) by (simp_all add: pending_def private_nodes_def)
  obtain q where "destroy_from (mpsc t) [] = Some (Inr ([] @ map (node_data (mheap (mpsc t))) (tl ns), q))"
      "dom (mheap q) = dom (mheap (mpsc t)) - set ns"
    using destroy_settled [OF settled_run [OF rep none(1)], of "[]"] by blast
  then show ?thesis
    using rep none assms(3) by (auto simp: MPSC_destroy_def mpsc_rep_def deleting_def)
qed

theorem mpsc_destroy_frees_all_witness:
  "mpsc_start mp0 \<and> mpsc_step\<^sup>*\<^sup>* mp0 mp2 \<and> (\<exists>out q. MPSC_destroy (mpsc mp2) = Some (Inr (out, q)) \<and> mheap q = Map.empty \<and> out = [Some 7])"
proof -
  have "consumer mp2 = ConsIdle" "producers mp2 = Map.empty" "map Some (enq_log mp2) = [Some 7]" "deq_log mp2 = []"
    by (simp_all add: mp2_def mp0_def)
  with mpsc_destroy_frees_all [OF mp_run(1,3)] mp_run show ?thesis by auto
qed

end
