(* ===== verification/MPSCIntrusive.thy ===== *)
theory MPSCIntrusive
  imports MPSCQueue
begin

text \<open>
  The intrusive variant \<open>MPSCQueueIntrusive\<close> of \<^verbatim>\<open>Queue_Design/MPSCQueue.h\<close> under interleaving. The items
  are the nodes: each carries the link itself and belongs to the queue from the call of
  \<open>Enqueue\<close> until \<open>Dequeue\<close> hands it out, after which the client may delete it or enqueue it again.
  A dummy node takes the place of the last item so that it can be handed out; the
  consumer enqueues it like a producer would. As in the other variant, one step is one access to
  shared memory (\<open>_tail\<close> is the consumer's own), and memory is sequentially consistent.
\<close>

section \<open>State and operations\<close>

record 'a impsc =
  iheap :: "nat \<rightharpoonup> 'a mnode"
  idummy :: nat
  ihead :: nat
  itail :: nat

text \<open>The constructor: only the link of the dummy is initialised.\<close>

definition Intr_new :: "nat \<Rightarrow> (nat \<rightharpoonup> 'a mnode) \<Rightarrow> 'a impsc" where
  "Intr_new d h = \<lparr>iheap = h(d \<mapsto> \<lparr>Data = None, NextPtr = None\<rparr>), idummy = d, ihead = d, itail = d\<rparr>"

definition link_store :: "nat \<Rightarrow> nat option \<Rightarrow> 'a impsc \<Rightarrow> 'a impsc res" where
  "link_store n p q =
     (case iheap q n of
        None \<Rightarrow> Inl UseAfterFree
      | Some nd \<Rightarrow> Inr (q\<lparr>iheap := (iheap q)(n \<mapsto> nd\<lparr>NextPtr := p\<rparr>)\<rparr>))"

definition link_load :: "nat \<Rightarrow> 'a impsc \<Rightarrow> nat option res" where
  "link_load n q = (case iheap q n of None \<Rightarrow> Inl UseAfterFree | Some nd \<Rightarrow> Inr (NextPtr nd))"

definition head_exchange :: "nat \<Rightarrow> 'a impsc \<Rightarrow> nat \<times> 'a impsc" where
  "head_exchange n q = (ihead q, q\<lparr>ihead := n\<rparr>)"

definition IEnqueue :: "nat \<Rightarrow> 'a impsc \<Rightarrow> 'a impsc res" where
  "IEnqueue input q =
     bind_res (link_store input None q) (\<lambda>q.
     case head_exchange input q of (preHead, q) \<Rightarrow> link_store preHead (Some input) q)"

text \<open>\<open>Dequeue\<close> from the point where the oldest item \<open>tail\<close> and its link \<open>next\<close> are known.\<close>

definition ideq_rest :: "nat \<Rightarrow> nat option \<Rightarrow> 'a impsc \<Rightarrow> (nat option \<times> 'a impsc) res" where
  "ideq_rest tail next q =
     (case next of
        Some y \<Rightarrow> Inr (Some tail, q\<lparr>itail := y\<rparr>)
      | None \<Rightarrow>
          if tail \<noteq> ihead q then Inr (None, q)
          else
            bind_res (IEnqueue (idummy q) q) (\<lambda>q.
            bind_res (link_load tail q) (\<lambda>next.
            case next of
              Some y \<Rightarrow> Inr (Some tail, q\<lparr>itail := y\<rparr>)
            | None \<Rightarrow> Inr (None, q))))"

definition IDequeue :: "'a impsc \<Rightarrow> (nat option \<times> 'a impsc) res" where
  "IDequeue q =
     bind_res (link_load (itail q) q) (\<lambda>next.
     if itail q = idummy q then
       (case next of
          None \<Rightarrow> Inr (None, q)
        | Some y \<Rightarrow>
            let q = q\<lparr>itail := y\<rparr> in
            bind_res (link_load y q) (\<lambda>next. ideq_rest y next q))
     else ideq_rest (itail q) next q)"

text \<open>The destructor deletes what it dequeues.\<close>

partial_function (option) idestroy_from :: "'a impsc \<Rightarrow> nat list \<Rightarrow> (nat list \<times> 'a impsc) res option" where
  "idestroy_from q out =
     (case IDequeue q of
        Inl e \<Rightarrow> Some (Inl e)
      | Inr (r, q1) \<Rightarrow> (case r of
            None \<Rightarrow> Some (Inr (out, q1))
          | Some x \<Rightarrow>
              if iheap q1 x = None then Some (Inl InvalidFree)
              else idestroy_from (q1\<lparr>iheap := (iheap q1)(x := None)\<rparr>) (out @ [x])))"

definition Intr_destroy :: "'a impsc \<Rightarrow> (nat list \<times> 'a impsc) res option" where
  "Intr_destroy q = idestroy_from q []"

section \<open>Interleavings\<close>

text \<open>
  Where the consumer stands: behind the dummy it skipped (\<open>CSecond\<close>), before the load of \<open>_head\<close>, at the
  three accesses of \<open>Enqueue(_dummyPtr)\<close>, and before the last load. Its argument is \<open>tail\<close>.
\<close>

datatype iconsumer = CIdle | CSecond nat | CHead nat | CInit nat | CExchange nat | CLink nat nat | CReload nat

text \<open>\<open>owned\<close> are the items that belong to the queue or to a call of \<open>Enqueue\<close>.\<close>

record 'a irun =
  imp :: "'a impsc"
  iprods :: "nat \<rightharpoonup> producer"
  icons :: iconsumer
  owned :: "nat set"
  ienq_log :: "nat list"
  ideq_log :: "nat list"

definition receive :: "nat \<Rightarrow> nat \<Rightarrow> 'a irun \<Rightarrow> 'a irun" where
  "receive t y s = s\<lparr>imp := (imp s)\<lparr>itail := y\<rparr>, icons := CIdle, owned := owned s - {t}, ideq_log := ideq_log s @ [t]\<rparr>"

inductive intr_step :: "'a irun \<Rightarrow> 'a irun \<Rightarrow> bool" where
  client_new: "n \<notin> dom (iheap (imp s)) \<Longrightarrow> intr_step s (s\<lparr>imp := (imp s)\<lparr>iheap := (iheap (imp s))(n \<mapsto> nd)\<rparr>\<rparr>)"
| client_delete: "n \<notin> owned s \<Longrightarrow> n \<noteq> idummy (imp s) \<Longrightarrow>
    intr_step s (s\<lparr>imp := (imp s)\<lparr>iheap := (iheap (imp s))(n := None)\<rparr>\<rparr>)"
| enqueue: "iprods s t = None \<Longrightarrow> n \<notin> owned s \<Longrightarrow> n \<noteq> idummy (imp s) \<Longrightarrow> link_store n None (imp s) = Inr q \<Longrightarrow>
    intr_step s (s\<lparr>imp := q, iprods := (iprods s)(t \<mapsto> Allocated n), owned := insert n (owned s)\<rparr>)"
| exchange: "iprods s t = Some (Allocated n) \<Longrightarrow> head_exchange n (imp s) = (p, q) \<Longrightarrow>
    intr_step s (s\<lparr>imp := q, iprods := (iprods s)(t \<mapsto> Exchanged n p), ienq_log := ienq_log s @ [n]\<rparr>)"
| link: "iprods s t = Some (Exchanged n p) \<Longrightarrow> link_store p (Some n) (imp s) = Inr q \<Longrightarrow>
    intr_step s (s\<lparr>imp := q, iprods := (iprods s)(t := None)\<rparr>)"
| skip_dummy: "icons s = CIdle \<Longrightarrow> itail (imp s) = idummy (imp s) \<Longrightarrow> link_load (itail (imp s)) (imp s) = Inr (Some y) \<Longrightarrow>
    intr_step s (s\<lparr>imp := (imp s)\<lparr>itail := y\<rparr>, icons := CSecond y\<rparr>)"
| first_some: "icons s = CIdle \<Longrightarrow> t = itail (imp s) \<Longrightarrow> t \<noteq> idummy (imp s) \<Longrightarrow> link_load t (imp s) = Inr (Some y) \<Longrightarrow>
    intr_step s (receive t y s)"
| first_none: "icons s = CIdle \<Longrightarrow> t = itail (imp s) \<Longrightarrow> t \<noteq> idummy (imp s) \<Longrightarrow> link_load t (imp s) = Inr None \<Longrightarrow>
    intr_step s (s\<lparr>icons := CHead t\<rparr>)"
| second_some: "icons s = CSecond t \<Longrightarrow> link_load t (imp s) = Inr (Some y) \<Longrightarrow> intr_step s (receive t y s)"
| second_none: "icons s = CSecond t \<Longrightarrow> link_load t (imp s) = Inr None \<Longrightarrow> intr_step s (s\<lparr>icons := CHead t\<rparr>)"
| head_moved: "icons s = CHead t \<Longrightarrow> t \<noteq> ihead (imp s) \<Longrightarrow> intr_step s (s\<lparr>icons := CIdle\<rparr>)"
| head_same: "icons s = CHead t \<Longrightarrow> t = ihead (imp s) \<Longrightarrow> intr_step s (s\<lparr>icons := CInit t\<rparr>)"
| dummy_init: "icons s = CInit t \<Longrightarrow> link_store (idummy (imp s)) None (imp s) = Inr q \<Longrightarrow>
    intr_step s (s\<lparr>imp := q, icons := CExchange t\<rparr>)"
| dummy_exchange: "icons s = CExchange t \<Longrightarrow> head_exchange (idummy (imp s)) (imp s) = (p, q) \<Longrightarrow>
    intr_step s (s\<lparr>imp := q, icons := CLink t p\<rparr>)"
| dummy_link: "icons s = CLink t p \<Longrightarrow> link_store p (Some (idummy (imp s))) (imp s) = Inr q \<Longrightarrow>
    intr_step s (s\<lparr>imp := q, icons := CReload t\<rparr>)"
| reload_some: "icons s = CReload t \<Longrightarrow> link_load t (imp s) = Inr (Some y) \<Longrightarrow> intr_step s (receive t y s)"
| reload_none: "icons s = CReload t \<Longrightarrow> link_load t (imp s) = Inr None \<Longrightarrow> intr_step s (s\<lparr>icons := CIdle\<rparr>)"

definition intr_start :: "'a irun \<Rightarrow> bool" where
  "intr_start s \<longleftrightarrow> (\<exists>d h. imp s = Intr_new d h) \<and> iprods s = Map.empty \<and> icons s = CIdle
     \<and> owned s = {} \<and> ienq_log s = [] \<and> ideq_log s = []"

section \<open>Invariant\<close>

definition ipending :: "'a irun \<Rightarrow> (nat \<times> nat) set" where
  "ipending s = pending (iprods s) \<union> (case icons s of CLink t p \<Rightarrow> {(idummy (imp s), p)} | _ \<Rightarrow> {})"

definition icons_ok :: "'a irun \<Rightarrow> nat list \<Rightarrow> bool" where
  "icons_ok s ns = (case icons s of
     CIdle \<Rightarrow> True
   | CSecond t \<Rightarrow> hd ns = t \<and> t \<noteq> idummy (imp s)
   | CHead t \<Rightarrow> hd ns = t \<and> t \<noteq> idummy (imp s)
   | CInit t \<Rightarrow> hd ns = t \<and> t \<noteq> idummy (imp s) \<and> idummy (imp s) \<notin> set ns
   | CExchange t \<Rightarrow> hd ns = t \<and> t \<noteq> idummy (imp s) \<and> idummy (imp s) \<notin> set ns \<and>
       (\<exists>nd. iheap (imp s) (idummy (imp s)) = Some nd \<and> NextPtr nd = None)
   | CLink t p \<Rightarrow> hd ns = t \<and> t \<noteq> idummy (imp s)
   | CReload t \<Rightarrow> hd ns = t \<and> t \<noteq> idummy (imp s))"

definition intr_rep :: "'a irun \<Rightarrow> nat list \<Rightarrow> bool" where
  "intr_rep s ns \<longleftrightarrow>
     ns \<noteq> [] \<and> distinct ns \<and> itail (imp s) = hd ns \<and> ihead (imp s) = last ns
     \<and> mlinks (iheap (imp s)) (ipending s) ns \<and> icons_ok s ns
     \<and> inj_on (iprods s) (dom (iprods s)) \<and> snd ` ipending s \<subseteq> set ns
     \<and> idummy (imp s) \<notin> fst ` pending (iprods s)
     \<and> private_nodes (iprods s) \<inter> insert (idummy (imp s)) (set ns) = {}
     \<and> (\<forall>n \<in> private_nodes (iprods s). \<exists>nd. iheap (imp s) n = Some nd \<and> NextPtr nd = None)
     \<and> owned s = (set ns - {idummy (imp s)}) \<union> private_nodes (iprods s)
     \<and> idummy (imp s) \<in> dom (iheap (imp s)) \<and> set ns \<subseteq> dom (iheap (imp s))
     \<and> ienq_log s = ideq_log s @ filter (\<lambda>n. n \<noteq> idummy (imp s)) ns"

definition intr_inv :: "'a irun \<Rightarrow> bool" where
  "intr_inv s \<longleftrightarrow> (\<exists>ns. intr_rep s ns)"

section \<open>Every step keeps the invariant\<close>

text \<open>A change of the heap outside the nodes the queue knows of.\<close>

lemma rep_heap:
  assumes rep: "intr_rep s ns" and out: "n \<notin> owned s" "n \<noteq> idummy (imp s)"
  shows "intr_rep (s\<lparr>imp := (imp s)\<lparr>iheap := (iheap (imp s))(n := x)\<rparr>\<rparr>) ns"
proof -
  have n: "n \<notin> set ns" "n \<notin> private_nodes (iprods s)" using rep out by (auto simp: intr_rep_def)
  have "mlinks ((iheap (imp s))(n := x)) (ipending s) ns = mlinks (iheap (imp s)) (ipending s) ns"
    using n by (intro mlinks_cong) auto
  then show ?thesis
    using rep n out unfolding intr_rep_def
    by (auto simp: ipending_def icons_ok_def split: iconsumer.splits)
qed

lemma rep_enqueue:
  assumes rep: "intr_rep s ns" and t: "iprods s t = None" and out: "n \<notin> owned s" "n \<noteq> idummy (imp s)"
    and q: "link_store n None (imp s) = Inr q"
  shows "intr_rep (s\<lparr>imp := q, iprods := (iprods s)(t \<mapsto> Allocated n), owned := insert n (owned s)\<rparr>) ns"
proof -
  obtain nd where nd: "q = (imp s)\<lparr>iheap := (iheap (imp s))(n \<mapsto> nd\<lparr>NextPtr := None\<rparr>)\<rparr>"
    using q by (auto simp: link_store_def split: option.splits)
  let ?s = "s\<lparr>imp := q\<rparr>"
  have r: "intr_rep ?s ns" unfolding nd by (rule rep_heap [OF rep out])
  have n: "n \<notin> set ns" "n \<notin> private_nodes (iprods s)" using rep out by (auto simp: intr_rep_def)
  have "inj_on ((iprods s)(t \<mapsto> Allocated n)) (dom ((iprods s)(t \<mapsto> Allocated n)))"
    using rep n by (intro inj_upd) (auto simp: intr_rep_def private_nodes_def ranI)
  moreover have "ipending (s\<lparr>imp := q, iprods := (iprods s)(t \<mapsto> Allocated n), owned := insert n (owned s)\<rparr>) = ipending ?s"
    using producers_alloc(1) [of "iprods s", OF t] by (simp add: ipending_def split: iconsumer.splits)
  moreover have "icons_ok (s\<lparr>imp := q, iprods := (iprods s)(t \<mapsto> Allocated n), owned := insert n (owned s)\<rparr>) ns = icons_ok ?s ns"
    by (simp add: icons_ok_def split: iconsumer.splits)
  moreover have "iheap q n = Some (nd\<lparr>NextPtr := None\<rparr>)" "idummy q = idummy (imp s)" by (simp_all add: nd)
  ultimately show ?thesis
    using r n out producers_alloc [of "iprods s", OF t, of n] unfolding intr_rep_def
    by (auto simp del: fun_upd_apply)
qed

lemma pending_into: "intr_rep s ns \<Longrightarrow> (z, x) \<in> ipending s \<Longrightarrow> x \<in> set ns"
  by (force simp: intr_rep_def)

lemma last_not_pending:
  assumes "intr_rep s ns" shows "(z, last ns) \<notin> ipending s"
  using mlinks_last [of "iheap (imp s)" "ipending s" ns] assms by (auto simp: intr_rep_def ends_def)

text \<open>A new last node.\<close>

lemma links_new_last:
  assumes rep: "intr_rep s ns" and n: "n \<notin> set ns" "iheap (imp s) n = Some nd" "NextPtr nd = None"
  shows "mlinks (iheap (imp s)) (insert (n, last ns) (ipending s)) (ns @ [n])"
proof -
  have "\<forall>z. (z, n) \<notin> ipending s" using pending_into [OF rep] n(1) by blast
  then show ?thesis using rep n by (intro mlinks_snoc) (auto simp: intr_rep_def)
qed

lemma hd_snoc: "ns \<noteq> [] \<Longrightarrow> hd (ns @ xs) = hd ns"
  by (cases ns) auto

lemma rep_exchange:
  assumes rep: "intr_rep s ns" and t: "iprods s t = Some (Allocated n)" and ex: "head_exchange n (imp s) = (p, q)"
  shows "intr_rep (s\<lparr>imp := q, iprods := (iprods s)(t \<mapsto> Exchanged n p), ienq_log := ienq_log s @ [n]\<rparr>) (ns @ [n])"
proof -
  have pq: "p = last ns" "q = (imp s)\<lparr>ihead := n\<rparr>" using ex rep by (auto simp: head_exchange_def intr_rep_def)
  let ?s = "s\<lparr>imp := q, iprods := (iprods s)(t \<mapsto> Exchanged n p), ienq_log := ienq_log s @ [n]\<rparr>"
  have inj: "inj_on (iprods s) (dom (iprods s))" and ne: "ns \<noteq> []" using rep by (simp_all add: intr_rep_def)
  have n: "n \<in> private_nodes (iprods s)" using t by (auto simp: private_nodes_def ranI)
  then have out: "n \<notin> set ns" "n \<noteq> idummy (imp s)" using rep by (auto simp: intr_rep_def)
  obtain nd where nd: "iheap (imp s) n = Some nd" "NextPtr nd = None" using rep n by (auto simp: intr_rep_def)
  have pend: "ipending ?s = insert (n, last ns) (ipending s)"
    using producers_exchange(1) [OF t inj, of p] pq by (auto simp: ipending_def split: iconsumer.splits)
  have "inj_on ((iprods s)(t \<mapsto> Exchanged n p)) (dom ((iprods s)(t \<mapsto> Exchanged n p)))"
    using inj pq last_not_pending [OF rep] by (intro inj_upd) (auto simp: ipending_def pending_def dest: ranI)
  moreover have "icons_ok ?s (ns @ [n])"
    using rep out pq ne by (auto simp: intr_rep_def icons_ok_def split: iconsumer.splits)
  ultimately show ?thesis
    using rep out nd n ne links_new_last [OF rep out(1) nd] producers_exchange [OF t inj, of p]
    unfolding intr_rep_def pend using pq by (auto simp: hd_snoc simp del: fun_upd_apply)
qed

text \<open>The store of a pending link.\<close>

lemma mlinks_pending:
  "mlinks h P ns \<Longrightarrow> (n, p) \<in> P \<Longrightarrow> p \<in> set ns \<Longrightarrow> h p = Some nd \<Longrightarrow> NextPtr nd = None"
proof (induction h P ns rule: mlinks.induct)
  case (2 h P x)
  then show ?case unfolding mlinks.simps ends_def by fastforce
next
  case (3 h P x y ns)
  then show ?case
  proof (cases "p = x")
    case True
    then have "leads P p y nd" using 3(2,5) by simp
    then show ?thesis using 3(3) unfolding leads_def by blast
  next
    case False
    then show ?thesis using 3 by simp
  qed
qed simp

lemma links_stored:
  assumes rep: "intr_rep s ns" and np: "(n, p) \<in> ipending s" and q: "link_store p (Some n) (imp s) = Inr q"
  shows "mlinks (iheap q) (ipending s - {(n, p)}) ns"
    "\<exists>nd. iheap (imp s) p = Some nd \<and> NextPtr nd = None \<and> q = (imp s)\<lparr>iheap := (iheap (imp s))(p \<mapsto> nd\<lparr>NextPtr := Some n\<rparr>)\<rparr>"
proof -
  have p: "p \<in> set ns" using pending_into [OF rep np] .
  obtain nd where nd: "iheap (imp s) p = Some nd" "q = (imp s)\<lparr>iheap := (iheap (imp s))(p \<mapsto> nd\<lparr>NextPtr := Some n\<rparr>)\<rparr>"
    using q by (auto simp: link_store_def split: option.splits)
  have rep': "mlinks (iheap (imp s)) (ipending s) ns" "distinct ns" using rep by (auto simp: intr_rep_def)
  show "mlinks (iheap q) (ipending s - {(n, p)}) ns"
    using mlinks_store [OF rep' np p nd(1)] nd(2) by simp
  have "NextPtr nd = None"
    by (rule mlinks_pending [OF rep'(1) np p nd(1)])
  then show "\<exists>nd. iheap (imp s) p = Some nd \<and> NextPtr nd = None \<and>
      q = (imp s)\<lparr>iheap := (iheap (imp s))(p \<mapsto> nd\<lparr>NextPtr := Some n\<rparr>)\<rparr>" using nd by blast
qed

lemma rep_link:
  assumes rep: "intr_rep s ns" and t: "iprods s t = Some (Exchanged n p)" and q: "link_store p (Some n) (imp s) = Inr q"
  shows "intr_rep (s\<lparr>imp := q, iprods := (iprods s)(t := None)\<rparr>) ns"
proof -
  let ?s = "s\<lparr>imp := q, iprods := (iprods s)(t := None)\<rparr>"
  have inj: "inj_on (iprods s) (dom (iprods s))" using rep by (simp add: intr_rep_def)
  have np: "(n, p) \<in> pending (iprods s)" using t by (auto simp: pending_def ranI)
  then have np': "(n, p) \<in> ipending s" by (simp add: ipending_def)
  note st = links_stored [OF rep np' q]
  obtain nd where nd: "iheap (imp s) p = Some nd" "q = (imp s)\<lparr>iheap := (iheap (imp s))(p \<mapsto> nd\<lparr>NextPtr := Some n\<rparr>)\<rparr>"
    using st(2) by blast
  have p: "p \<in> set ns" using pending_into [OF rep np'] .
  have "idummy (imp s) \<notin> fst ` pending (iprods s)" using rep by (simp add: intr_rep_def)
  then have "n \<noteq> idummy (imp s)" using np by force
  then have pend: "ipending ?s = ipending s - {(n, p)}"
    using producers_link(1) [OF t inj] nd(2) by (auto simp: ipending_def split: iconsumer.splits)
  have "icons_ok ?s ns"
    using rep nd p by (auto simp: intr_rep_def icons_ok_def split: iconsumer.splits)
  moreover have "\<forall>m \<in> private_nodes (iprods s). \<exists>nd. iheap q m = Some nd \<and> NextPtr nd = None"
    using rep p nd(2) by (auto simp: intr_rep_def)
  ultimately show ?thesis
    using rep st(1) producers_link [OF t inj] inj_del [OF inj, of t] nd(2)
    unfolding intr_rep_def pend by (auto simp del: fun_upd_apply)
qed

text \<open>The consumer: what it knows when it finds a link.\<close>

lemma hd_link:
  assumes rep: "intr_rep s ns" and load: "link_load (hd ns) (imp s) = Inr (Some y)"
  shows "\<exists>ns'. ns = hd ns # y # ns' \<and> mlinks (iheap (imp s)) (ipending s) (y # ns') \<and> (\<forall>z. (z, hd ns) \<notin> ipending s)"
proof -
  obtain x xs where ns: "ns = x # xs" using rep by (cases ns) (auto simp: intr_rep_def)
  have links: "mlinks (iheap (imp s)) (ipending s) ns" using rep by (simp add: intr_rep_def)
  obtain nd where nd: "iheap (imp s) x = Some nd" "NextPtr nd = Some y"
    using load ns by (auto simp: link_load_def split: option.splits)
  show ?thesis
  proof (cases xs)
    case Nil
    then show ?thesis using links ns nd by (simp add: ends_def)
  next
    case (Cons z zs)
    then have "leads (ipending s) x z nd" "mlinks (iheap (imp s)) (ipending s) (z # zs)" using links ns nd by auto
    then show ?thesis using Cons ns nd(2) unfolding leads_def by auto
  qed
qed

lemma rep_receive:
  assumes rep: "intr_rep s ns" and t: "t = hd ns" "t \<noteq> idummy (imp s)" "link_load t (imp s) = Inr (Some y)"
    and c: "\<forall>t p. icons s \<noteq> CLink t p"
  shows "intr_rep (receive t y s) (tl ns)"
proof -
  obtain ns' where ns: "ns = t # y # ns'" "mlinks (iheap (imp s)) (ipending s) (y # ns')" "\<forall>z. (z, t) \<notin> ipending s"
    using hd_link [OF rep] t by auto
  have pend: "ipending s = pending (iprods s)" "ipending (receive t y s) = pending (iprods s)"
    using c by (auto simp: ipending_def receive_def split: iconsumer.splits)
  have "snd ` pending (iprods s) \<subseteq> set ns" using rep pend(1) by (simp add: intr_rep_def)
  then have "snd ` pending (iprods s) \<subseteq> set (y # ns')" using ns(1,3) pend(1) by force
  moreover have "icons_ok (receive t y s) (tl ns)" by (simp add: icons_ok_def receive_def)
  moreover have "owned s - {t} = (set (y # ns') - {idummy (imp s)}) \<union> private_nodes (iprods s)"
    using rep ns(1) unfolding intr_rep_def by auto
  ultimately show ?thesis
    using rep ns t(2) pend unfolding intr_rep_def by (auto simp: receive_def)
qed

lemma rep_skip:
  assumes rep: "intr_rep s ns" and c: "icons s = CIdle" and d: "itail (imp s) = idummy (imp s)"
    and load: "link_load (itail (imp s)) (imp s) = Inr (Some y)"
  shows "intr_rep (s\<lparr>imp := (imp s)\<lparr>itail := y\<rparr>, icons := CSecond y\<rparr>) (tl ns)"
proof -
  have hd: "hd ns = idummy (imp s)" using rep d by (simp add: intr_rep_def)
  then obtain ns' where ns: "ns = idummy (imp s) # y # ns'" "mlinks (iheap (imp s)) (ipending s) (y # ns')"
      "\<forall>z. (z, idummy (imp s)) \<notin> ipending s"
    using hd_link [OF rep] load d by auto
  let ?s = "s\<lparr>imp := (imp s)\<lparr>itail := y\<rparr>, icons := CSecond y\<rparr>"
  have pend: "ipending s = pending (iprods s)" "ipending ?s = pending (iprods s)" using c by (simp_all add: ipending_def)
  have "snd ` pending (iprods s) \<subseteq> set ns" using rep pend(1) by (simp add: intr_rep_def)
  then have "snd ` pending (iprods s) \<subseteq> set (y # ns')" using ns(1,3) pend(1) by force
  moreover have "icons_ok ?s (tl ns)" using rep ns(1) by (auto simp: icons_ok_def intr_rep_def)
  ultimately show ?thesis using rep ns pend unfolding intr_rep_def by auto
qed

text \<open>Steps that only move the consumer on.\<close>

lemma rep_move:
  assumes rep: "intr_rep s ns" and c: "\<forall>t p. icons s \<noteq> CLink t p" "\<forall>t p. c \<noteq> CLink t p"
    and ok: "icons_ok (s\<lparr>icons := c\<rparr>) ns"
  shows "intr_rep (s\<lparr>icons := c\<rparr>) ns"
proof -
  have "ipending (s\<lparr>icons := c\<rparr>) = ipending s" using c by (simp add: ipending_def split: iconsumer.splits)
  then show ?thesis using rep ok unfolding intr_rep_def by simp
qed

lemma rep_dummy_init:
  assumes rep: "intr_rep s ns" and c: "icons s = CInit t" and q: "link_store (idummy (imp s)) None (imp s) = Inr q"
  shows "intr_rep (s\<lparr>imp := q, icons := CExchange t\<rparr>) ns"
proof -
  let ?d = "idummy (imp s)"
  obtain nd where nd: "q = (imp s)\<lparr>iheap := (iheap (imp s))(?d \<mapsto> nd\<lparr>NextPtr := None\<rparr>)\<rparr>"
    using q by (auto simp: link_store_def split: option.splits)
  have out: "?d \<notin> set ns" "?d \<notin> private_nodes (iprods s)" using rep c by (auto simp: intr_rep_def icons_ok_def)
  have "mlinks ((iheap (imp s))(?d \<mapsto> nd\<lparr>NextPtr := None\<rparr>)) (ipending s) ns = mlinks (iheap (imp s)) (ipending s) ns"
    using out by (intro mlinks_cong) auto
  moreover have "ipending (s\<lparr>imp := q, icons := CExchange t\<rparr>) = ipending s" using c by (simp add: ipending_def)
  moreover have "icons_ok (s\<lparr>imp := q, icons := CExchange t\<rparr>) ns"
    using rep c nd by (simp add: intr_rep_def icons_ok_def)
  ultimately show ?thesis using rep out nd unfolding intr_rep_def by auto
qed

lemma rep_dummy_exchange:
  assumes rep: "intr_rep s ns" and c: "icons s = CExchange t" and ex: "head_exchange (idummy (imp s)) (imp s) = (p, q)"
  shows "intr_rep (s\<lparr>imp := q, icons := CLink t p\<rparr>) (ns @ [idummy (imp s)])"
proof -
  let ?d = "idummy (imp s)" and ?s = "s\<lparr>imp := q, icons := CLink t p\<rparr>"
  have pq: "p = last ns" "q = (imp s)\<lparr>ihead := ?d\<rparr>" using ex rep by (auto simp: head_exchange_def intr_rep_def)
  have ne: "ns \<noteq> []" using rep by (simp add: intr_rep_def)
  obtain nd where d: "?d \<notin> set ns" "iheap (imp s) ?d = Some nd" "NextPtr nd = None"
    using rep c by (auto simp: intr_rep_def icons_ok_def)
  have pend: "ipending ?s = insert (?d, last ns) (ipending s)" using c pq by (simp add: ipending_def)
  have "icons_ok ?s (ns @ [?d])" using rep c pq ne by (simp add: intr_rep_def icons_ok_def hd_snoc)
  then show ?thesis
    using rep d ne pq links_new_last [OF rep d] unfolding intr_rep_def pend by (auto simp: hd_snoc)
qed

lemma rep_dummy_link:
  assumes rep: "intr_rep s ns" and c: "icons s = CLink t p" and q: "link_store p (Some (idummy (imp s))) (imp s) = Inr q"
  shows "intr_rep (s\<lparr>imp := q, icons := CReload t\<rparr>) ns"
proof -
  let ?d = "idummy (imp s)" and ?s = "s\<lparr>imp := q, icons := CReload t\<rparr>"
  have dp: "(?d, p) \<in> ipending s" using c by (simp add: ipending_def)
  note st = links_stored [OF rep dp q]
  obtain nd where nd: "iheap (imp s) p = Some nd" "q = (imp s)\<lparr>iheap := (iheap (imp s))(p \<mapsto> nd\<lparr>NextPtr := Some ?d\<rparr>)\<rparr>"
    using st(2) by blast
  have p: "p \<in> set ns" using pending_into [OF rep dp] .
  have "?d \<notin> fst ` pending (iprods s)" using rep by (simp add: intr_rep_def)
  then have "(?d, p) \<notin> pending (iprods s)" by force
  then have pend: "ipending ?s = ipending s - {(?d, p)}" using c by (auto simp: ipending_def)
  have "icons_ok ?s ns" using rep c nd(2) by (simp add: intr_rep_def icons_ok_def)
  moreover have "\<forall>m \<in> private_nodes (iprods s). \<exists>nd. iheap q m = Some nd \<and> NextPtr nd = None"
    using rep p nd(2) by (auto simp: intr_rep_def)
  ultimately show ?thesis
    using rep st(1) nd(2) unfolding intr_rep_def pend by (auto simp del: fun_upd_apply)
qed

lemma intr_step_inv: "intr_step s t \<Longrightarrow> intr_inv s \<Longrightarrow> intr_inv t"
proof (induction rule: intr_step.cases)
  case (client_new n s nd)
  then obtain ns where rep: "intr_rep s ns" by (auto simp: intr_inv_def)
  then have "n \<notin> owned s" "n \<noteq> idummy (imp s)" using client_new by (auto simp: intr_rep_def)
  then show ?case using rep_heap [OF rep] client_new unfolding intr_inv_def by blast
next
  case (client_delete n s)
  then show ?case using rep_heap unfolding intr_inv_def by blast
next
  case (enqueue s t n q)
  then show ?case using rep_enqueue unfolding intr_inv_def by blast
next
  case (exchange s t n p q)
  then show ?case using rep_exchange unfolding intr_inv_def by blast
next
  case (link s t n p q)
  then show ?case using rep_link unfolding intr_inv_def by blast
next
  case (skip_dummy s y)
  then show ?case using rep_skip unfolding intr_inv_def by blast
next
  case (first_some s t y)
  then obtain ns where rep: "intr_rep s ns" by (auto simp: intr_inv_def)
  then have "t = hd ns" using first_some by (simp add: intr_rep_def)
  from rep_receive [OF rep this, of y] first_some show ?case by (auto simp: intr_inv_def)
next
  case (first_none s t)
  then obtain ns where rep: "intr_rep s ns" by (auto simp: intr_inv_def)
  have "icons_ok (s\<lparr>icons := CHead t\<rparr>) ns" using rep first_none by (simp add: icons_ok_def intr_rep_def)
  with rep_move [OF rep] first_none show ?case unfolding intr_inv_def by auto
next
  case (second_some s t y)
  then obtain ns where rep: "intr_rep s ns" by (auto simp: intr_inv_def)
  then have "t = hd ns" "t \<noteq> idummy (imp s)" using second_some by (auto simp: intr_rep_def icons_ok_def)
  from rep_receive [OF rep this, of y] second_some show ?case by (auto simp: intr_inv_def)
next
  case (second_none s t)
  then obtain ns where rep: "intr_rep s ns" by (auto simp: intr_inv_def)
  have "icons_ok (s\<lparr>icons := CHead t\<rparr>) ns" using rep second_none by (simp add: icons_ok_def intr_rep_def)
  with rep_move [OF rep] second_none show ?case unfolding intr_inv_def by auto
next
  case (head_moved s t)
  then obtain ns where rep: "intr_rep s ns" by (auto simp: intr_inv_def)
  with rep_move [OF rep, of CIdle] head_moved show ?case unfolding intr_inv_def by (auto simp: icons_ok_def)
next
  case (head_same s t)
  then obtain ns where rep: "intr_rep s ns" by (auto simp: intr_inv_def)
  then have t: "ns \<noteq> []" "distinct ns" "hd ns = last ns" "hd ns = t" "t \<noteq> idummy (imp s)"
    using head_same by (auto simp: intr_rep_def icons_ok_def)
  then have "ns = [t]" by (cases ns) (auto split: if_splits)
  then have "icons_ok (s\<lparr>icons := CInit t\<rparr>) ns" using t(5) by (simp add: icons_ok_def)
  with rep_move [OF rep] head_same show ?case unfolding intr_inv_def by auto
next
  case (dummy_init s t q)
  then show ?case using rep_dummy_init unfolding intr_inv_def by blast
next
  case (dummy_exchange s t p q)
  then show ?case using rep_dummy_exchange unfolding intr_inv_def by blast
next
  case (dummy_link s t p q)
  then show ?case using rep_dummy_link unfolding intr_inv_def by blast
next
  case (reload_some s t y)
  then obtain ns where rep: "intr_rep s ns" by (auto simp: intr_inv_def)
  then have "t = hd ns" "t \<noteq> idummy (imp s)" using reload_some by (auto simp: intr_rep_def icons_ok_def)
  from rep_receive [OF rep this, of y] reload_some show ?case by (auto simp: intr_inv_def)
next
  case (reload_none s t)
  then obtain ns where rep: "intr_rep s ns" by (auto simp: intr_inv_def)
  with rep_move [OF rep, of CIdle] reload_none show ?case unfolding intr_inv_def by (auto simp: icons_ok_def)
qed

interpretation intr: invariant_system intr_start intr_step intr_inv
proof
  show "intr_inv s" if start: "intr_start s" for s :: "'a irun"
  proof -
    obtain d h where "imp s = Intr_new d h" using start by (auto simp: intr_start_def)
    with start have "intr_rep s [d]"
      by (simp add: intr_start_def Intr_new_def intr_rep_def ipending_def pending_def private_nodes_def ends_def icons_ok_def)
    then show ?thesis unfolding intr_inv_def by blast
  qed
qed (rule intr_step_inv)

section \<open>The destructor and a consumer that runs alone\<close>

definition isettled :: "'a impsc \<Rightarrow> nat list \<Rightarrow> bool" where
  "isettled q ns \<longleftrightarrow> ns \<noteq> [] \<and> distinct ns \<and> itail q = hd ns \<and> ihead q = last ns \<and> mlinks (iheap q) {} ns
     \<and> set ns \<subseteq> dom (iheap q) \<and> idummy q \<in> dom (iheap q)"

abbreviation items_of :: "'a impsc \<Rightarrow> nat list \<Rightarrow> nat list" where
  "items_of q ns \<equiv> filter (\<lambda>n. n \<noteq> idummy q) ns"

lemma ideq_rest_settled:
  assumes st: "isettled q (x # zs)" and x: "x \<noteq> idummy q" and load: "link_load x q = Inr next"
  shows "\<exists>q' ns'. ideq_rest x next q = Inr (Some x, q') \<and> isettled q' ns' \<and> items_of q ns' = items_of q zs \<and>
    x \<notin> set ns' \<and> idummy q' = idummy q \<and> dom (iheap q') = dom (iheap q)"
proof (cases zs)
  case (Cons y ys)
  have "next = Some y" using st load Cons by (auto simp: isettled_def leads_def link_load_def)
  then show ?thesis using st Cons
    by (intro exI [of _ "q\<lparr>itail := y\<rparr>"] exI [of _ zs]) (auto simp: ideq_rest_def isettled_def)
next
  case Nil
  let ?d = "idummy q"
  obtain nx nd where h: "iheap q x = Some nx" "iheap q ?d = Some nd" using st by (auto simp: isettled_def)
  have alone: "next = None" "ihead q = x" using st load Nil h by (simp_all add: isettled_def ends_def link_load_def)
  let ?h = "(iheap q)(?d \<mapsto> nd\<lparr>NextPtr := None\<rparr>, x \<mapsto> nx\<lparr>NextPtr := Some ?d\<rparr>)"
  let ?q = "q\<lparr>iheap := ?h, ihead := ?d\<rparr>"
  have "IEnqueue ?d q = Inr ?q" using h x alone by (simp add: IEnqueue_def link_store_def head_exchange_def)
  then have "ideq_rest x next q = Inr (Some x, ?q\<lparr>itail := ?d\<rparr>)"
    using alone by (simp add: ideq_rest_def link_load_def)
  moreover have "isettled (?q\<lparr>itail := ?d\<rparr>) [?d]" using h x by (simp add: isettled_def ends_def)
  ultimately show ?thesis
    using Nil x h by (intro exI [of _ "?q\<lparr>itail := ?d\<rparr>"] exI [of _ "[?d]"]) auto
qed

lemma IDequeue_settled:
  assumes st: "isettled q ns"
  shows "items_of q ns = [] \<Longrightarrow> IDequeue q = Inr (None, q)"
    and "items_of q ns = x # xs \<Longrightarrow> \<exists>q' ns'. IDequeue q = Inr (Some x, q') \<and> isettled q' ns' \<and> items_of q ns' = xs \<and>
      x \<notin> set ns' \<and> idummy q' = idummy q \<and> dom (iheap q') = dom (iheap q)"
proof -
  obtain a zs where ns: "ns = a # zs" using st by (cases ns) (auto simp: isettled_def)
  show "IDequeue q = Inr (None, q)" if "items_of q ns = []"
  proof -
    have "a = idummy q" "zs = []" using that ns st by (cases zs; auto simp: isettled_def split: if_splits)+
    then show ?thesis using ns st by (auto simp: IDequeue_def isettled_def ends_def link_load_def)
  qed
  assume items: "items_of q ns = x # xs"
  show "\<exists>q' ns'. IDequeue q = Inr (Some x, q') \<and> isettled q' ns' \<and> items_of q ns' = xs \<and>
      x \<notin> set ns' \<and> idummy q' = idummy q \<and> dom (iheap q') = dom (iheap q)"
  proof (cases "a = idummy q")
    case False
    then have ax: "x = a" "xs = items_of q zs" using items ns by auto
    obtain nxt where load: "link_load a q = Inr nxt" using st ns by (auto simp: isettled_def link_load_def)
    have "IDequeue q = ideq_rest a nxt q" using False load st ns by (simp add: IDequeue_def isettled_def)
    then show ?thesis using ideq_rest_settled [of q a zs nxt] st ns False load ax by auto
  next
    case True
    then obtain b ws where zs: "zs = b # ws" using items ns by (cases zs) auto
    have b: "b \<noteq> idummy q" "x = b" "xs = items_of q ws" using st ns zs True items by (auto simp: isettled_def)
    let ?q = "q\<lparr>itail := b\<rparr>"
    have load: "link_load a q = Inr (Some b)" using st ns zs by (auto simp: isettled_def leads_def link_load_def)
    obtain nxt where load2: "link_load b ?q = Inr nxt" using st ns zs by (auto simp: isettled_def link_load_def)
    have "isettled ?q (b # ws)" using st ns zs by (auto simp: isettled_def)
    moreover have "IDequeue q = ideq_rest b nxt ?q"
      using load load2 True st ns by (simp add: IDequeue_def isettled_def Let_def)
    ultimately show ?thesis using ideq_rest_settled [of ?q b ws nxt] b load2 by auto
  qed
qed

lemma idestroy_settled:
  "isettled q ns \<Longrightarrow> \<exists>q'. idestroy_from q out = Some (Inr (out @ items_of q ns, q')) \<and>
     dom (iheap q') = dom (iheap q) - set (items_of q ns)"
proof (induction "items_of q ns" arbitrary: q ns out)
  case Nil
  then show ?case
    using IDequeue_settled(1) [OF Nil(2)] by (subst idestroy_from.simps) simp
next
  case (Cons x xs)
  obtain q1 ns1 where q1: "IDequeue q = Inr (Some x, q1)" "isettled q1 ns1" "items_of q ns1 = xs" "x \<notin> set ns1"
      "idummy q1 = idummy q" "dom (iheap q1) = dom (iheap q)"
    using IDequeue_settled(2) [OF Cons.prems Cons.hyps(2) [symmetric]] by blast
  let ?q = "q1\<lparr>iheap := (iheap q1)(x := None)\<rparr>"
  have x: "x \<in> set ns" "x \<noteq> idummy q" using arg_cong [OF Cons.hyps(2), of set] by auto
  have "mlinks ((iheap q1)(x := None)) {} ns1 = mlinks (iheap q1) {} ns1" using q1(4) by (intro mlinks_cong) auto
  then have "isettled ?q ns1" using q1 x by (auto simp: isettled_def simp del: fun_upd_apply)
  from Cons.hyps(1) [OF _ this, of "out @ [x]"] q1(3,5) obtain q' where
    q': "idestroy_from ?q (out @ [x]) = Some (Inr ((out @ [x]) @ xs, q'))" "dom (iheap q') = dom (iheap ?q) - set xs" by auto
  have "iheap q1 x \<noteq> None" using q1(6) x(1) Cons.prems by (auto simp: isettled_def)
  then have "idestroy_from q out = idestroy_from ?q (out @ [x])" using q1(1) by (subst idestroy_from.simps) auto
  then show ?case using q' q1(6) Cons.hyps(2) [symmetric] by (intro exI [of _ q']) auto
qed

lemma isettled_run:
  assumes "intr_rep s ns" "icons s = CIdle" "pending (iprods s) = {}"
  shows "isettled (imp s) ns"
  using assms by (auto simp: intr_rep_def isettled_def ipending_def)

text \<open>A pending link leads from a node to another one.\<close>

lemma mlinks_pending_distinct:
  "mlinks h P ns \<Longrightarrow> distinct ns \<Longrightarrow> (n, p) \<in> P \<Longrightarrow> p \<in> set ns \<Longrightarrow> n \<noteq> p"
proof (induction h P ns rule: mlinks.induct)
  case (2 h P x)
  then show ?case unfolding mlinks.simps ends_def by fastforce
next
  case (3 h P x y ns)
  show ?case
  proof (cases "p = x")
    case True
    obtain nd where "h x = Some nd" "leads P x y nd" using 3(2) by auto
    then have "n = y" using True 3(4) unfolding leads_def by blast
    then show ?thesis using True 3(3) by auto
  next
    case False
    then show ?thesis using 3 by simp
  qed
qed simp

lemma dummy_not_self: "intr_rep s ns \<Longrightarrow> (n, p) \<in> ipending s \<Longrightarrow> p \<noteq> n"
  using mlinks_pending_distinct [of "iheap (imp s)" "ipending s" ns n p] pending_into [of s ns n p]
  by (auto simp: intr_rep_def)

section \<open>Properties\<close>

text \<open>
  C16. The intrusive queue under every interleaving of producers, the consumer and a client that deletes or
  enqueues again what it received: items are received in the order of their exchanges, none lost or
  duplicated; every access of the code hits memory that is allocated; and a link is stored only into
  the dummy or an item the queue has not handed out yet.
\<close>

theorem intrusive_safe:
  assumes "intr_start s" "intr_step\<^sup>*\<^sup>* s t"
  shows "(\<exists>rest. ienq_log t = ideq_log t @ rest)
    \<and> (\<forall>i n p. iprods t i = Some (Exchanged n p) \<longrightarrow> p \<in> insert (idummy (imp t)) (owned t) \<and> (\<exists>q. link_store p (Some n) (imp t) = Inr q))
    \<and> (\<exists>r. link_load (itail (imp t)) (imp t) = Inr r)
    \<and> (\<forall>x. icons t \<in> {CSecond x, CReload x} \<longrightarrow> (\<exists>r. link_load x (imp t) = Inr r))
    \<and> (\<exists>q. link_store (idummy (imp t)) None (imp t) = Inr q)
    \<and> (\<forall>x p. icons t = CLink x p \<longrightarrow> p \<in> owned t \<and> (\<exists>q. link_store p (Some (idummy (imp t))) (imp t) = Inr q))"
proof -
  obtain ns where rep: "intr_rep t ns" using intr.inv_reachable [OF assms] by (auto simp: intr_inv_def)
  then have dom: "set ns \<subseteq> dom (iheap (imp t))" "idummy (imp t) \<in> dom (iheap (imp t))"
    and own: "set ns - {idummy (imp t)} \<subseteq> owned t" by (auto simp: intr_rep_def)
  have store: "\<exists>q. link_store p x (imp t) = Inr q" if "p \<in> set ns \<or> p = idummy (imp t)" for p x
    using that dom by (auto simp: link_store_def split: option.split)
  have load: "\<exists>r. link_load p (imp t) = Inr r" if "p \<in> set ns" for p
    using that dom by (auto simp: link_load_def split: option.split)
  have "p \<in> set ns" if "iprods t i = Some (Exchanged n p)" for i n p
  proof -
    have "(n, p) \<in> ipending t" using that by (auto simp: ipending_def pending_def ranI)
    then show ?thesis by (rule pending_into [OF rep])
  qed
  then have prods: "p \<in> insert (idummy (imp t)) (owned t) \<and> (\<exists>q. link_store p (Some n) (imp t) = Inr q)"
    if "iprods t i = Some (Exchanged n p)" for i n p
    using that own store by blast
  have link: "p \<in> owned t \<and> (\<exists>q. link_store p (Some (idummy (imp t))) (imp t) = Inr q)" if "icons t = CLink x p" for x p
  proof -
    have dp: "(idummy (imp t), p) \<in> ipending t" using that by (simp add: ipending_def)
    then have p: "p \<in> set ns" by (rule pending_into [OF rep])
    have "p \<noteq> idummy (imp t)" using dummy_not_self [OF rep dp] by simp
    then show ?thesis using p own store by blast
  qed
  have front: "hd ns \<in> set ns" "itail (imp t) = hd ns" using rep by (simp_all add: intr_rep_def)
  then have "itail (imp t) \<in> set ns" by simp
  moreover have "x \<in> set ns" if "icons t \<in> {CSecond x, CReload x}" for x
  proof -
    have "x = hd ns" using rep that by (auto simp: intr_rep_def icons_ok_def)
    then show ?thesis using front(1) by simp
  qed
  ultimately have loads: "\<exists>r. link_load (itail (imp t)) (imp t) = Inr r"
    "\<forall>x. icons t \<in> {CSecond x, CReload x} \<longrightarrow> (\<exists>r. link_load x (imp t) = Inr r)" using load by blast+
  moreover have "\<exists>q. link_store (idummy (imp t)) None (imp t) = Inr q" using store by blast
  moreover have "\<exists>rest. ienq_log t = ideq_log t @ rest" using rep by (auto simp: intr_rep_def)
  ultimately show ?thesis using prods link by blast
qed

text \<open>A run: the item at address 1 is enqueued (\<open>ir1\<close> after its exchange) and linked (\<open>ir2\<close>).\<close>

definition ir0 :: "int irun" where
  "ir0 = \<lparr>imp = Intr_new 0 [1 \<mapsto> \<lparr>Data = Some 7, NextPtr = None\<rparr>], iprods = Map.empty, icons = CIdle, owned = {},
     ienq_log = [], ideq_log = []\<rparr>"

definition ir1 :: "int irun" where
  "ir1 = ir0\<lparr>imp := (imp ir0)\<lparr>ihead := 1\<rparr>, iprods := [4 \<mapsto> Exchanged 1 0], owned := {1}, ienq_log := [1]\<rparr>"

definition ir2 :: "int irun" where
  "ir2 = ir1\<lparr>imp := (imp ir1)\<lparr>iheap := (iheap (imp ir1))(0 \<mapsto> \<lparr>Data = None, NextPtr = Some 1\<rparr>)\<rparr>, iprods := Map.empty\<rparr>"

lemma ir_run: "intr_start ir0" "intr_step\<^sup>*\<^sup>* ir0 ir1" "intr_step\<^sup>*\<^sup>* ir0 ir2"
proof -
  show "intr_start ir0" by (auto simp: intr_start_def ir0_def)
  let ?a = "ir0\<lparr>imp := imp ir0, iprods := [4 \<mapsto> Allocated 1], owned := {1}\<rparr>"
  have same: "(iheap (imp ir0))(1 \<mapsto> \<lparr>Data = Some 7, NextPtr = None\<rparr>) = iheap (imp ir0)"
    by (auto simp: ir0_def Intr_new_def)
  have "link_store 1 None (imp ir0) = Inr (imp ir0)"
    using same by (simp add: link_store_def) (simp add: ir0_def Intr_new_def)
  then have "intr_step ir0 ?a"
    using intr_step.enqueue [of ir0 4 1 "imp ir0"] by (simp add: ir0_def Intr_new_def)
  moreover have "intr_step ?a ir1"
    using intr_step.exchange [of ?a 4 1 0 "imp ir1"] by (simp add: ir1_def ir0_def Intr_new_def head_exchange_def)
  ultimately show "intr_step\<^sup>*\<^sup>* ir0 ir1" by (meson rtranclp.rtrancl_refl rtranclp.rtrancl_into_rtrancl)
  moreover have "intr_step ir1 ir2"
    using intr_step.link [of ir1 4 1 0 "imp ir2"] by (simp add: ir2_def ir1_def ir0_def Intr_new_def link_store_def)
  ultimately show "intr_step\<^sup>*\<^sup>* ir0 ir2" by (meson rtranclp.rtrancl_into_rtrancl)
qed

theorem intrusive_safe_witness:
  "intr_start ir0 \<and> intr_step\<^sup>*\<^sup>* ir0 ir1 \<and> iprods ir1 4 = Some (Exchanged 1 0) \<and>
   (\<exists>q. link_store 0 (Some 1) (imp ir1) = Inr q)"
proof -
  have "iprods ir1 4 = Some (Exchanged 1 0)" by (simp add: ir1_def ir0_def)
  with intrusive_safe [OF ir_run(1,2)] ir_run show ?thesis by blast
qed

text \<open>
  C17. The intrusive queue at rest: once no producer is at work and the consumer is idle, a \<open>Dequeue\<close> returns the
  oldest item not yet received and fails only when there is none; and the destructor returns, having
  deleted each item that is left exactly once and in order, and nothing else.
\<close>

theorem intrusive_drains:
  assumes "intr_start s" "intr_step\<^sup>*\<^sup>* s t" "icons t = CIdle" "iprods t = Map.empty"
  shows "(case drop (length (ideq_log t)) (ienq_log t) of
           [] \<Rightarrow> IDequeue (imp t) = Inr (None, imp t)
         | n # _ \<Rightarrow> \<exists>q. IDequeue (imp t) = Inr (Some n, q))
    \<and> (\<exists>q. Intr_destroy (imp t) = Some (Inr (drop (length (ideq_log t)) (ienq_log t), q))
         \<and> dom (iheap q) = dom (iheap (imp t)) - owned t)"
proof -
  obtain ns where rep: "intr_rep t ns" using intr.inv_reachable [OF assms(1,2)] by (auto simp: intr_inv_def)
  have none: "pending (iprods t) = {}" "private_nodes (iprods t) = {}"
    using assms(4) by (simp_all add: pending_def private_nodes_def)
  note st = isettled_run [OF rep assms(3) none(1)]
  have rest: "drop (length (ideq_log t)) (ienq_log t) = items_of (imp t) ns" using rep by (simp add: intr_rep_def)
  have own: "owned t = set (items_of (imp t) ns)" using rep none(2) by (auto simp: intr_rep_def)
  have "case items_of (imp t) ns of [] \<Rightarrow> IDequeue (imp t) = Inr (None, imp t) | n # _ \<Rightarrow> \<exists>q. IDequeue (imp t) = Inr (Some n, q)"
    using IDequeue_settled [OF st] by (auto split: list.split)
  moreover obtain q where "idestroy_from (imp t) [] = Some (Inr (items_of (imp t) ns, q))"
    "dom (iheap q) = dom (iheap (imp t)) - set (items_of (imp t) ns)"
    using idestroy_settled [OF st, of "[]"] by auto
  ultimately show ?thesis unfolding rest own Intr_destroy_def by blast
qed

theorem intrusive_drains_witness:
  "intr_start ir0 \<and> intr_step\<^sup>*\<^sup>* ir0 ir2 \<and> (\<exists>q. IDequeue (imp ir2) = Inr (Some 1, q)) \<and>
   (\<exists>q. Intr_destroy (imp ir2) = Some (Inr ([1], q)))"
proof -
  have "icons ir2 = CIdle" "iprods ir2 = Map.empty" "drop (length (ideq_log ir2)) (ienq_log ir2) = [1]"
    by (simp_all add: ir2_def ir1_def ir0_def)
  with intrusive_drains [OF ir_run(1,3)] ir_run show ?thesis by auto
qed

end
