(* ===== verification/SpinLock.thy ===== *)
theory SpinLock
  imports Interfaces
begin

text \<open>
  The spin lock of \<^verbatim>\<open>Atomic & Lock/spinlock.h\<close>, in the variant on C11 atomics (the one that is compiled unless
  \<open>__STDC_NO_ATOMICS__\<close> or \<open>USE_PTHREAD_LOCK\<close> is defined). One step is one atomic access; any number of
  threads call \<open>spinlock_lock\<close>, \<open>spinlock_trylock\<close> and \<open>spinlock_unlock\<close>. The \<open>acquire\<close> and
  \<open>release\<close> orders only matter for the data the lock protects, which is not part of this file.
\<close>

section \<open>State and operations\<close>

record spinlock =
  lock_word :: int

definition spinlock_init :: "spinlock \<Rightarrow> spinlock" where
  "spinlock_init l = l\<lparr>lock_word := 0\<rparr>"

text \<open>The atomic exchange with 1: the old value, as a truth value, and the new state.\<close>

definition atomic_test_and_set :: "spinlock \<Rightarrow> bool \<times> spinlock" where
  "atomic_test_and_set l = (lock_word l \<noteq> 0, l\<lparr>lock_word := 1\<rparr>)"

definition atomic_clear :: "spinlock \<Rightarrow> spinlock" where
  "atomic_clear l = l\<lparr>lock_word := 0\<rparr>"

definition atomic_load_relaxed :: "spinlock \<Rightarrow> bool" where
  "atomic_load_relaxed l \<longleftrightarrow> lock_word l \<noteq> 0"

definition spinlock_unlock :: "spinlock \<Rightarrow> spinlock" where
  "spinlock_unlock l = atomic_clear l"

text \<open>The calls without interruption: \<open>None\<close> is a call of \<open>spinlock_lock\<close> that spins forever.\<close>

partial_function (option) pause_loop :: "spinlock \<Rightarrow> spinlock option" where
  "pause_loop l = (if atomic_load_relaxed l then pause_loop l else Some l)"

partial_function (option) spinlock_lock :: "spinlock \<Rightarrow> spinlock option" where
  "spinlock_lock l =
     (case atomic_test_and_set l of (old, l1) \<Rightarrow>
        if \<not> old then Some l1
        else case pause_loop l1 of None \<Rightarrow> None | Some l2 \<Rightarrow> spinlock_lock l2)"

definition spinlock_trylock :: "spinlock \<Rightarrow> bool \<times> spinlock" where
  "spinlock_trylock l =
     (if atomic_load_relaxed l then (False, l)
      else case atomic_test_and_set l of (old, l1) \<Rightarrow> (\<not> old, l1))"

section \<open>Interleavings\<close>

text \<open>
  Where a thread stands: outside, before the exchange of \<open>spinlock_lock\<close>, in its waiting loop, before the
  load or the exchange of \<open>spinlock_trylock\<close>, or past a successful call, in its critical section.
\<close>

datatype lock_pc = Outside | Acquiring | Waiting | TryLoad | TryExchange | Critical

record lock_run =
  spin :: spinlock
  pc :: "nat \<Rightarrow> lock_pc"

definition goto :: "nat \<Rightarrow> lock_pc \<Rightarrow> lock_run \<Rightarrow> lock_run" where
  "goto t p s = s\<lparr>pc := (pc s)(t := p)\<rparr>"

text \<open>One access of thread \<open>t\<close>.\<close>

inductive spin_move :: "nat \<Rightarrow> lock_run \<Rightarrow> lock_run \<Rightarrow> bool" where
  call_lock: "pc s t = Outside \<Longrightarrow> spin_move t s (goto t Acquiring s)"
| call_trylock: "pc s t = Outside \<Longrightarrow> spin_move t s (goto t TryLoad s)"
| acquired: "pc s t = Acquiring \<Longrightarrow> atomic_test_and_set (spin s) = (False, l) \<Longrightarrow>
    spin_move t s (goto t Critical (s\<lparr>spin := l\<rparr>))"
| contended: "pc s t = Acquiring \<Longrightarrow> atomic_test_and_set (spin s) = (True, l) \<Longrightarrow>
    spin_move t s (goto t Waiting (s\<lparr>spin := l\<rparr>))"
| still_locked: "pc s t = Waiting \<Longrightarrow> atomic_load_relaxed (spin s) \<Longrightarrow> spin_move t s s"
| seen_free: "pc s t = Waiting \<Longrightarrow> \<not> atomic_load_relaxed (spin s) \<Longrightarrow> spin_move t s (goto t Acquiring s)"
| try_busy: "pc s t = TryLoad \<Longrightarrow> atomic_load_relaxed (spin s) \<Longrightarrow> spin_move t s (goto t Outside s)"
| try_free: "pc s t = TryLoad \<Longrightarrow> \<not> atomic_load_relaxed (spin s) \<Longrightarrow> spin_move t s (goto t TryExchange s)"
| try_won: "pc s t = TryExchange \<Longrightarrow> atomic_test_and_set (spin s) = (False, l) \<Longrightarrow>
    spin_move t s (goto t Critical (s\<lparr>spin := l\<rparr>))"
| try_lost: "pc s t = TryExchange \<Longrightarrow> atomic_test_and_set (spin s) = (True, l) \<Longrightarrow>
    spin_move t s (goto t Outside (s\<lparr>spin := l\<rparr>))"
| unlock: "pc s t = Critical \<Longrightarrow> spin_move t s (goto t Outside (s\<lparr>spin := spinlock_unlock (spin s)\<rparr>))"

inductive_cases spin_moveE: "spin_move t s u"

definition spin_step :: "lock_run \<Rightarrow> lock_run \<Rightarrow> bool" where
  "spin_step s u \<longleftrightarrow> (\<exists>t. spin_move t s u)"

definition spin_start :: "lock_run \<Rightarrow> bool" where
  "spin_start s \<longleftrightarrow> (\<exists>l. spin s = spinlock_init l) \<and> (\<forall>t. pc s t = Outside)"

text \<open>
  An infinite run: \<open>\<sigma>\<close> gives the states and \<open>\<tau>\<close> the thread that is scheduled. The scheduler is fair when every
  thread that is inside a call or holds the lock is scheduled again, so a critical section ends.
\<close>

definition spin_run :: "(nat \<Rightarrow> lock_run) \<Rightarrow> (nat \<Rightarrow> nat) \<Rightarrow> bool" where
  "spin_run \<sigma> \<tau> \<longleftrightarrow> spin_start (\<sigma> 0) \<and> (\<forall>i. spin_move (\<tau> i) (\<sigma> i) (\<sigma> (Suc i)))"

definition spin_fair :: "(nat \<Rightarrow> lock_run) \<Rightarrow> (nat \<Rightarrow> nat) \<Rightarrow> bool" where
  "spin_fair \<sigma> \<tau> \<longleftrightarrow> (\<forall>i t. pc (\<sigma> i) t \<noteq> Outside \<longrightarrow> (\<exists>j\<ge>i. \<tau> j = t))"

definition takes_lock :: "(nat \<Rightarrow> lock_run) \<Rightarrow> nat \<Rightarrow> nat \<Rightarrow> bool" where
  "takes_lock \<sigma> j h \<longleftrightarrow> pc (\<sigma> j) h \<noteq> Critical \<and> pc (\<sigma> (Suc j)) h = Critical"

section \<open>Mutual exclusion and progress\<close>

definition critical :: "lock_run \<Rightarrow> nat set" where
  "critical s = {t. pc s t = Critical}"

definition spin_inv :: "lock_run \<Rightarrow> bool" where
  "spin_inv s \<longleftrightarrow> lock_word (spin s) = 0 \<and> critical s = {} \<or> lock_word (spin s) = 1 \<and> (\<exists>t. critical s = {t})"

lemmas spin_defs = atomic_test_and_set_def atomic_clear_def atomic_load_relaxed_def spinlock_unlock_def
  spinlock_init_def

lemma critical_goto [simp]:
  "critical (goto t p s) = (if p = Critical then insert t (critical s) else critical s - {t})"
  by (auto simp: critical_def goto_def)

lemma critical_spin [simp]: "critical (s\<lparr>spin := l\<rparr>) = critical s"
  by (simp add: critical_def)

lemma goto_simps [simp]: "spin (goto t p s) = spin s" "pc (goto t p s) u = (if u = t then p else pc s u)"
  by (simp_all add: goto_def)

lemma in_critical: "t \<in> critical s \<longleftrightarrow> pc s t = Critical"
  by (simp add: critical_def)

lemma not_critical: "pc s t \<noteq> Critical \<Longrightarrow> critical s - {t} = critical s"
  by (auto simp: critical_def)

lemma spin_move_inv: "spin_move t s u \<Longrightarrow> spin_inv s \<Longrightarrow> spin_inv u"
  by (induction rule: spin_move.cases) (auto simp: spin_inv_def spin_defs not_critical simp flip: in_critical)

interpretation spin: invariant_system spin_start spin_step spin_inv
proof
  show "spin_inv s" if "spin_start s" for s
    using that by (auto simp: spin_start_def spin_inv_def spin_defs critical_def)
qed (auto simp: spin_step_def intro: spin_move_inv)

lemma spin_moveI [intro]: "spin_move t s u \<Longrightarrow> spin_step s u"
  by (auto simp: spin_step_def)

lemma run_reaches: "spin_run \<sigma> \<tau> \<Longrightarrow> spin_step\<^sup>*\<^sup>* (\<sigma> 0) (\<sigma> i)"
  by (induction i) (auto simp: spin_run_def intro: rtranclp.rtrancl_into_rtrancl)

lemma run_inv: "spin_run \<sigma> \<tau> \<Longrightarrow> spin_inv (\<sigma> i)"
  using spin.inv_reachable run_reaches by (auto simp: spin_run_def)

lemma other_move: "spin_move t s u \<Longrightarrow> h \<noteq> t \<Longrightarrow> pc u h = pc s h"
  by (erule spin_moveE) auto

text \<open>A thread stays where it is until it is scheduled again.\<close>

lemma next_move:
  assumes run: "spin_run \<sigma> \<tau>" and fair: "spin_fair \<sigma> \<tau>" and out: "pc (\<sigma> i) t \<noteq> Outside"
  obtains j where "i \<le> j" "\<tau> j = t" "pc (\<sigma> j) t = pc (\<sigma> i) t" "spin_move t (\<sigma> j) (\<sigma> (Suc j))"
proof -
  let ?P = "\<lambda>n. \<tau> (i + n) = t"
  obtain j where "i \<le> j" "\<tau> j = t" using fair out by (auto simp: spin_fair_def)
  then have "?P (j - i)" by simp
  then have least: "?P (LEAST n. ?P n)" by (rule LeastI)
  have "pc (\<sigma> (i + n)) t = pc (\<sigma> i) t" if "n \<le> (LEAST n. ?P n)" for n
    using that
  proof (induction n)
    case (Suc n)
    then have "\<tau> (i + n) \<noteq> t" using not_less_Least [of n ?P] by simp
    then show ?case using Suc other_move [of "\<tau> (i + n)" "\<sigma> (i + n)" "\<sigma> (i + Suc n)" t] run by (simp add: spin_run_def)
  qed simp
  then show ?thesis using that [of "i + (LEAST n. ?P n)"] least run by (metis le_add1 order_refl spin_run_def)
qed

lemma wanting_stays:
  assumes "spin_move h s u" "pc s t \<in> {Acquiring, Waiting}" "pc u t \<noteq> Critical"
  shows "pc u t \<in> {Acquiring, Waiting}"
  using assms by (cases "h = t") (auto elim!: spin_moveE)

text \<open>From step \<open>i\<close> on no thread takes the lock.\<close>

definition no_grant :: "(nat \<Rightarrow> lock_run) \<Rightarrow> nat \<Rightarrow> bool" where
  "no_grant \<sigma> i \<longleftrightarrow> (\<forall>j\<ge>i. \<forall>h. \<not> takes_lock \<sigma> j h)"

lemma critical_shrinks: "no_grant \<sigma> i \<Longrightarrow> i \<le> j \<Longrightarrow> critical (\<sigma> (j + n)) \<subseteq> critical (\<sigma> j)"
proof (induction n)
  case (Suc n)
  moreover have "critical (\<sigma> (Suc (j + n))) \<subseteq> critical (\<sigma> (j + n))"
    using Suc.prems trans_le_add1 [of i j n] unfolding no_grant_def takes_lock_def critical_def by blast
  ultimately show ?case by auto
qed simp

lemma still_wanting:
  assumes "spin_run \<sigma> \<tau>" "no_grant \<sigma> i" "pc (\<sigma> i) t \<in> {Acquiring, Waiting}" "i \<le> j"
  shows "pc (\<sigma> j) t \<in> {Acquiring, Waiting}"
  using assms(4)
proof (induction j rule: dec_induct)
  case (step n)
  have "pc (\<sigma> (Suc n)) t \<noteq> Critical" using assms(2) step unfolding no_grant_def takes_lock_def by (metis insertE lock_pc.distinct empty_iff)
  then show ?case using wanting_stays step assms(1) unfolding spin_run_def by blast
qed (rule assms(3))

lemma lock_gets_free:
  assumes run: "spin_run \<sigma> \<tau>" and fair: "spin_fair \<sigma> \<tau>" and none: "no_grant \<sigma> i"
  shows "\<exists>k\<ge>i. critical (\<sigma> k) = {}"
proof (cases "critical (\<sigma> i) = {}")
  case False
  then obtain h where h: "critical (\<sigma> i) = {h}" using run_inv [OF run, of i] by (auto simp: spin_inv_def)
  then have "pc (\<sigma> i) h = Critical" by (auto simp: critical_def)
  then obtain j where j: "i \<le> j" "spin_move h (\<sigma> j) (\<sigma> (Suc j))" "pc (\<sigma> j) h = Critical"
    using next_move [OF run fair, of i h] by auto
  then have "h \<notin> critical (\<sigma> (Suc j))" by (auto simp: critical_def elim!: spin_moveE)
  moreover have "critical (\<sigma> (Suc j)) \<subseteq> {h}" using critical_shrinks [OF none, of i "Suc j - i"] h j(1) by simp
  ultimately show ?thesis using j(1) by (intro exI [of _ "Suc j"]) auto
qed auto

text \<open>While the lock is free, the next access of a thread that wants it takes it or leads to the exchange.\<close>

lemma free_acquire:
  assumes "spin_move t s u" "lock_word (spin s) = 0"
  shows "pc s t = Acquiring \<Longrightarrow> pc u t = Critical" "pc s t = Waiting \<Longrightarrow> pc u t = Acquiring"
  using assms by (auto elim!: spin_moveE simp: spin_defs)

lemma some_thread_acquires:
  assumes run: "spin_run \<sigma> \<tau>" and fair: "spin_fair \<sigma> \<tau>" and want: "pc (\<sigma> i) t \<in> {Acquiring, Waiting}"
  shows "\<not> no_grant \<sigma> i"
proof
  assume none: "no_grant \<sigma> i"
  obtain k where k: "i \<le> k" "critical (\<sigma> k) = {}" using lock_gets_free [OF run fair none] by blast
  have free: "lock_word (spin (\<sigma> j)) = 0" if "k \<le> j" for j
    using critical_shrinks [OF none k(1), of "j - k"] k that run_inv [OF run, of j] by (auto simp: spin_inv_def)
  have acq: "pc (\<sigma> j) t \<noteq> Acquiring" if j: "k \<le> j" for j
  proof
    assume "pc (\<sigma> j) t = Acquiring"
    then obtain m where m: "j \<le> m" "pc (\<sigma> m) t = Acquiring" "spin_move t (\<sigma> m) (\<sigma> (Suc m))"
      using next_move [OF run fair, of j t] by auto
    then have "takes_lock \<sigma> m t" using free_acquire(1) free j by (simp add: takes_lock_def)
    then show False using none m k(1) j(1) by (simp add: no_grant_def)
  qed
  have "pc (\<sigma> k) t = Waiting" using still_wanting [OF run none want k(1)] acq [of k] by auto
  then obtain m where m: "k \<le> m" "pc (\<sigma> m) t = Waiting" "spin_move t (\<sigma> m) (\<sigma> (Suc m))"
    using next_move [OF run fair, of k t] by auto
  then show False using free_acquire(2) free acq [of "Suc m"] by simp
qed

lemma gets_lock_or_wants:
  assumes "spin_run \<sigma> \<tau>" "pc (\<sigma> i) t \<in> {Acquiring, Waiting}" "i \<le> k"
  shows "(\<exists>j\<ge>i. pc (\<sigma> j) t = Critical) \<or> pc (\<sigma> k) t \<in> {Acquiring, Waiting}"
  using assms(3)
proof (induction k rule: dec_induct)
  case (step n)
  then show ?case
    using assms(1) wanting_stays [of "\<tau> n" "\<sigma> n" "\<sigma> (Suc n)" t] unfolding spin_run_def by (meson le_SucI)
qed (use assms in simp)

lemma spinlock_lock_iff: "spinlock_lock l = (if lock_word l = 0 then Some (l\<lparr>lock_word := 1\<rparr>) else None)"
proof (cases "lock_word l = 0")
  case True
  then show ?thesis by (subst spinlock_lock.simps) (simp add: atomic_test_and_set_def)
next
  case False
  have "lock_word l1 = 0" if "pause_loop l1 = Some l2" for l1 l2
    using that by (rule pause_loop.raw_induct [where P = "\<lambda>l r. lock_word l = 0", rotated])
      (auto simp: atomic_load_relaxed_def split: if_splits)
  then have "pause_loop (l\<lparr>lock_word := 1\<rparr>) = None" by (cases "pause_loop (l\<lparr>lock_word := 1\<rparr>)") fastforce+
  then show ?thesis using False by (subst spinlock_lock.simps) (simp add: atomic_test_and_set_def)
qed

section \<open>Properties\<close>

text \<open>
  C20. Mutual exclusion: in every reachable state of any number of threads that lock, try to lock and
  unlock, at most one thread is in its critical section, and the lock word is 1 exactly when there is one and 0 otherwise.
\<close>

theorem spinlock_mutual_exclusion:
  assumes "spin_start s" "spin_step\<^sup>*\<^sup>* s u"
  shows "(pc u t = Critical \<and> pc u t' = Critical \<longrightarrow> t = t') \<and>
    lock_word (spin u) = (if \<exists>t. pc u t = Critical then 1 else 0)"
proof -
  have "lock_word (spin u) = 0 \<and> critical u = {} \<or> lock_word (spin u) = 1 \<and> (\<exists>t. critical u = {t})"
    using spin.inv_reachable [OF assms] by (simp add: spin_inv_def)
  then show ?thesis by (auto simp flip: in_critical)
qed

definition sp0 :: lock_run where
  "sp0 = \<lparr>spin = \<lparr>lock_word = 0\<rparr>, pc = (\<lambda>_. Outside)\<rparr>"

definition sp1 :: lock_run where
  "sp1 = \<lparr>spin = \<lparr>lock_word = 1\<rparr>, pc = (\<lambda>_. Outside)(1 := Critical)\<rparr>"

lemma sp_run: "spin_start sp0" "spin_step\<^sup>*\<^sup>* sp0 sp1"
proof -
  show "spin_start sp0" by (auto simp: spin_start_def sp0_def spinlock_init_def)
  have "spin_move 1 sp0 (goto 1 Acquiring sp0)" by (intro spin_move.call_lock) (simp add: sp0_def)
  moreover have "spin_move 1 (goto 1 Acquiring sp0) sp1"
    using spin_move.acquired [of "goto 1 Acquiring sp0" 1 "\<lparr>lock_word = 1\<rparr>"] by (simp add: sp0_def sp1_def spin_defs goto_def)
  ultimately show "spin_step\<^sup>*\<^sup>* sp0 sp1" by (meson spin_moveI rtranclp.rtrancl_refl rtranclp.rtrancl_into_rtrancl)
qed

theorem spinlock_mutual_exclusion_witness:
  "spin_start sp0 \<and> spin_step\<^sup>*\<^sup>* sp0 sp1 \<and> pc sp1 1 = Critical \<and> lock_word (spin sp1) = 1"
proof -
  have "pc sp1 1 = Critical" by (simp add: sp1_def)
  then show ?thesis using spinlock_mutual_exclusion [OF sp_run(1,2)] sp_run by metis
qed

text \<open>
  C21. Progress of \<open>spinlock_lock\<close>: in every infinite run under a fair scheduler, a thread that is inside
  \<open>spinlock_lock\<close>, before the exchange or in the waiting loop, takes the lock, unless the other threads take it again
  and again, forever. So a waiting thread does not miss an unlock: it spins on only while others get the lock.
\<close>

theorem spinlock_progress:
  assumes "spin_run \<sigma> \<tau>" "spin_fair \<sigma> \<tau>" "pc (\<sigma> i) t \<in> {Acquiring, Waiting}"
  shows "(\<exists>j\<ge>i. takes_lock \<sigma> j t) \<or> (\<forall>k. \<exists>j\<ge>k. \<exists>h. h \<noteq> t \<and> takes_lock \<sigma> j h)"
proof (cases "\<exists>j\<ge>i. takes_lock \<sigma> j t")
  case False
  have "pc (\<sigma> j) t \<noteq> Critical" if "i \<le> j" for j
    using that
  proof (induction j rule: dec_induct)
    case (step n)
    then show ?case using False by (auto simp: takes_lock_def)
  qed (use assms(3) in auto)
  then have "pc (\<sigma> (max i k)) t \<in> {Acquiring, Waiting}" for k
    using gets_lock_or_wants [OF assms(1,3), of "max i k"] by auto
  then have "\<exists>j\<ge>max i k. \<exists>h. takes_lock \<sigma> j h" for k
    using some_thread_acquires [OF assms(1,2)] unfolding no_grant_def by blast
  then show ?thesis using False by (metis max.bounded_iff)
qed blast

text \<open>The cycle of the witness: thread 2 meets the lock held by thread 1 and takes it after the unlock.\<close>

definition sp_state :: "int \<Rightarrow> lock_pc \<Rightarrow> lock_pc \<Rightarrow> lock_run" where
  "sp_state w p q = \<lparr>spin = \<lparr>lock_word = w\<rparr>, pc = (\<lambda>_. Outside)(1 := p, 2 := q)\<rparr>"

definition spin_cycle :: "(lock_run \<times> nat) list" where
  "spin_cycle =
     [(sp_state 0 Outside Outside, 1), (sp_state 0 Acquiring Outside, 1), (sp_state 1 Critical Outside, 2),
      (sp_state 1 Critical Acquiring, 2), (sp_state 1 Critical Waiting, 1), (sp_state 0 Outside Waiting, 2),
      (sp_state 0 Outside Acquiring, 2), (sp_state 1 Outside Critical, 2)]"

definition cycle_states :: "nat \<Rightarrow> lock_run" where
  "cycle_states n = fst (spin_cycle ! (n mod 8))"

definition cycle_threads :: "nat \<Rightarrow> nat" where
  "cycle_threads n = snd (spin_cycle ! (n mod 8))"

lemma mod_8_cases: "n mod 8 \<in> {0, 1, 2, 3, 4, 5, 6, 7 :: nat}"
  by (simp, presburger)

lemma sp_state_simps:
  "goto 1 p' (sp_state w p q) = sp_state w p' q" "goto 2 q' (sp_state w p q) = sp_state w p q'"
  "(sp_state w p q)\<lparr>spin := \<lparr>lock_word = v\<rparr>\<rparr> = sp_state v p q" "spin (sp_state w p q) = \<lparr>lock_word = w\<rparr>"
  "pc (sp_state w p q) 1 = p" "pc (sp_state w p q) 2 = q"
  by (auto simp: sp_state_def goto_def fun_eq_iff)

lemma cycle_moves:
  "spin_move 1 (sp_state 0 Outside Outside) (sp_state 0 Acquiring Outside)"
  "spin_move 1 (sp_state 0 Acquiring Outside) (sp_state 1 Critical Outside)"
  "spin_move 2 (sp_state 1 Critical Outside) (sp_state 1 Critical Acquiring)"
  "spin_move 2 (sp_state 1 Critical Acquiring) (sp_state 1 Critical Waiting)"
  "spin_move 1 (sp_state 1 Critical Waiting) (sp_state 0 Outside Waiting)"
  "spin_move 2 (sp_state 0 Outside Waiting) (sp_state 0 Outside Acquiring)"
  "spin_move 2 (sp_state 0 Outside Acquiring) (sp_state 1 Outside Critical)"
  "spin_move 2 (sp_state 1 Outside Critical) (sp_state 0 Outside Outside)"
  using spin_move.call_lock [of "sp_state 0 Outside Outside" 1]
    spin_move.acquired [of "sp_state 0 Acquiring Outside" 1 "\<lparr>lock_word = 1\<rparr>"]
    spin_move.call_lock [of "sp_state 1 Critical Outside" 2]
    spin_move.contended [of "sp_state 1 Critical Acquiring" 2 "\<lparr>lock_word = 1\<rparr>"]
    spin_move.unlock [of "sp_state 1 Critical Waiting" 1]
    spin_move.seen_free [of "sp_state 0 Outside Waiting" 2]
    spin_move.acquired [of "sp_state 0 Outside Acquiring" 2 "\<lparr>lock_word = 1\<rparr>"]
    spin_move.unlock [of "sp_state 1 Outside Critical" 2]
  by (simp_all only: sp_state_simps spin_defs simp_thms prod.inject spinlock.simps)

lemma cycle_move: "spin_move (cycle_threads n) (cycle_states n) (cycle_states (Suc n))"
  using mod_8_cases [of n] cycle_moves
  by (auto simp: cycle_states_def cycle_threads_def spin_cycle_def mod_Suc)

lemma cycle_run: "spin_run cycle_states cycle_threads"
  using cycle_move by (auto simp: spin_run_def spin_start_def cycle_states_def spin_cycle_def sp_state_def spinlock_init_def)

lemma cycle_fair: "spin_fair cycle_states cycle_threads"
  unfolding spin_fair_def
proof (intro allI impI)
  fix i t assume "pc (cycle_states i) t \<noteq> Outside"
  then have t: "t \<in> {1, 2}"
    using mod_8_cases [of i] by (auto simp: cycle_states_def spin_cycle_def sp_state_def split: if_splits)
  have "(8 * i + 2) mod 8 = 2" by presburger
  then have "cycle_threads (8 * i) = 1" "cycle_threads (8 * i + 2) = 2"
    by (simp_all add: cycle_threads_def spin_cycle_def del: add_2_eq_Suc')
  moreover have "i \<le> 8 * i" "i \<le> 8 * i + 2" by simp_all
  ultimately show "\<exists>j\<ge>i. cycle_threads j = t" using t by blast
qed

theorem spinlock_progress_witness:
  "spin_run cycle_states cycle_threads \<and> spin_fair cycle_states cycle_threads \<and> pc (cycle_states 4) 2 = Waiting \<and>
   ((\<exists>j\<ge>4. takes_lock cycle_states j 2) \<or> (\<forall>k. \<exists>j\<ge>k. \<exists>h. h \<noteq> 2 \<and> takes_lock cycle_states j h))"
proof -
  have "pc (cycle_states 4) 2 = Waiting" by (simp add: cycle_states_def spin_cycle_def sp_state_def)
  then show ?thesis using spinlock_progress [OF cycle_run cycle_fair, of 4 2] cycle_run cycle_fair by simp
qed

end
