(* ===== verification/Timers.thy ===== *)
theory Timers
  imports Interfaces "HOL-Library.Signed_Division"
begin

text \<open>
  The timer containers of \<^verbatim>\<open>Timers/timers.cc\<close> and
  \<^verbatim>\<open>Timers/timer_with_timerfd.cc\<close>. The \<open>std::set\<close> of nodes is the list of
  its elements in ascending order. The clock reading of each call is an argument. A callback
  is run through an argument of \<open>HandleTimer\<close> that may change the container, since callbacks
  add and delete timers; a callback that deletes the node that is being run leaves the loop
  with an invalid iterator.
\<close>

section \<open>Nodes and the set\<close>

record tbase =
  expire :: int
  nid :: int

record 'f tnode = tbase +
  func :: 'f

definition node_less :: "'a tbase_scheme \<Rightarrow> 'b tbase_scheme \<Rightarrow> bool" where
  "node_less lhd rhd = (if expire lhd = expire rhd then nid lhd < nid rhd else expire lhd < expire rhd)"

text \<open>The order as the other file writes it.\<close>

definition node_less_fd :: "'a tbase_scheme \<Rightarrow> 'b tbase_scheme \<Rightarrow> bool" where
  "node_less_fd lhd rhd =
     (if expire lhd < expire rhd then True else if expire lhd > expire rhd then False else nid lhd < nid rhd)"

lemma node_less_fd_eq: "node_less_fd a b = node_less a b"
  by (simp add: node_less_fd_def node_less_def)

text \<open>What the code uses of \<open>std::set\<close>: \<open>emplace\<close> keeps an element that is already there.\<close>

fun set_emplace :: "'f tnode \<Rightarrow> 'f tnode list \<Rightarrow> 'f tnode list" where
  "set_emplace n [] = [n]"
| "set_emplace n (x # xs) =
     (if node_less n x then n # x # xs else if node_less x n then x # set_emplace n xs else x # xs)"

definition set_find :: "'a tbase_scheme \<Rightarrow> 'f tnode list \<Rightarrow> 'f tnode option" where
  "set_find n xs = find (\<lambda>x. \<not> node_less n x \<and> \<not> node_less x n) xs"

definition set_erase :: "'f tnode \<Rightarrow> 'f tnode list \<Rightarrow> 'f tnode list" where
  "set_erase n xs = filter (\<lambda>x. node_less n x \<or> node_less x n) xs"

text \<open>The element after a position, for the iterator that \<open>erase\<close> returns.\<close>

definition set_after :: "'a tbase_scheme \<Rightarrow> 'f tnode list \<Rightarrow> 'f tnode option" where
  "set_after n xs = find (\<lambda>x. node_less n x) xs"

definition set_begin :: "'f tnode list \<Rightarrow> 'f tnode option" where
  "set_begin xs = (case xs of [] \<Rightarrow> None | x # _ \<Rightarrow> Some x)"

section \<open>The timer of timers.cc\<close>

record 'f timer =
  timeouts :: "'f tnode list"
  tid :: int

definition GetID :: "'f timer \<Rightarrow> (int \<times> 'f timer) res" where
  "GetID t = bind_res (add_int64 (tid t) 1) (\<lambda>i. Inr (tid t, t\<lparr>tid := i\<rparr>))"

definition base_of :: "'f tnode \<Rightarrow> tbase" where
  "base_of n = \<lparr>expire = expire n, nid = nid n\<rparr>"

text \<open>
  Both branches insert the node; the hint of the second saves the search. The result is the
  base part of the element that the container then holds for the key.
\<close>

definition emplace_node :: "int \<Rightarrow> int \<Rightarrow> 'f \<Rightarrow> 'f timer \<Rightarrow> tbase \<times> 'f timer" where
  "emplace_node i e f t =
     (let n = \<lparr>expire = e, nid = i, func = f\<rparr>; xs = set_emplace n (timeouts t)
      in (case set_find n xs of None \<Rightarrow> base_of n | Some m \<Rightarrow> base_of m, t\<lparr>timeouts := xs\<rparr>))"

definition AddTimer :: "int \<Rightarrow> int \<Rightarrow> 'f \<Rightarrow> 'f timer \<Rightarrow> (tbase \<times> 'f timer) res" where
  "AddTimer tick msec f t =
     bind_res (add_int64 tick msec) (\<lambda>e.
       if timeouts t = [] \<or> e \<le> expire (last (timeouts t))
       then bind_res (GetID t) (\<lambda>(i, t1). Inr (emplace_node i e f t1))
       else bind_res (GetID t) (\<lambda>(i, t1). Inr (emplace_node i e f t1)))"

definition DelTimer :: "tbase \<Rightarrow> 'f timer \<Rightarrow> bool \<times> 'f timer" where
  "DelTimer node t =
     (case set_find node (timeouts t) of
        None \<Rightarrow> (False, t)
      | Some m \<Rightarrow> (True, t\<lparr>timeouts := set_erase m (timeouts t)\<rparr>))"

text \<open>
  The loop of \<open>HandleTimer\<close>; \<open>run n t\<close> is the container after the callback of \<open>n\<close> ran on
  \<open>t\<close>. The nodes whose callbacks ran are collected in order.
\<close>

partial_function (option) handle_from ::
  "('f tnode \<Rightarrow> 'f timer \<Rightarrow> 'f timer) \<Rightarrow> int \<Rightarrow> 'f timer \<Rightarrow> 'f tnode option \<Rightarrow> 'f tnode list \<Rightarrow> ('f timer \<times> 'f tnode list) res option"
  where
  "handle_from run now t it ran_nodes =
     (case it of
        None \<Rightarrow> Some (Inr (t, ran_nodes))
      | Some n \<Rightarrow>
          if expire n \<le> now
          then (let t' = run n t
                in if n \<in> set (timeouts t')
                   then (let xs = set_erase n (timeouts t')
                         in handle_from run now (t'\<lparr>timeouts := xs\<rparr>) (set_after n xs) (ran_nodes @ [n]))
                   else Some (Inl UseAfterFree))
          else Some (Inr (t, ran_nodes)))"

definition HandleTimer :: "('f tnode \<Rightarrow> 'f timer \<Rightarrow> 'f timer) \<Rightarrow> int \<Rightarrow> 'f timer \<Rightarrow> ('f timer \<times> 'f tnode list) res option" where
  "HandleTimer run now t = handle_from run now t (set_begin (timeouts t)) []"

definition TimeToSleep :: "int \<Rightarrow> 'f timer \<Rightarrow> int res" where
  "TimeToSleep tick t =
     (case set_begin (timeouts t) of
        None \<Rightarrow> Inr (- 1)
      | Some n \<Rightarrow> bind_res (add_int64 (expire n) (- tick)) (\<lambda>d. Inr (if d > 0 then d else 0)))"

section \<open>What timer-with-timerfd.cc changes\<close>

text \<open>The identifiers are unsigned there and wrap; \<open>msec\<close> is an \<open>int\<close>.\<close>

definition GenID :: "'f timer \<Rightarrow> int \<times> 'f timer" where
  "GenID t = (tid t, t\<lparr>tid := (tid t + 1) mod 2 ^ 64\<rparr>)"

definition AddTimer_fd :: "int \<Rightarrow> int \<Rightarrow> 'f \<Rightarrow> 'f timer \<Rightarrow> (tbase \<times> 'f timer) res" where
  "AddTimer_fd tick msec f t =
     bind_res (add_int64 tick msec) (\<lambda>e.
       if timeouts t = [] \<or> e \<le> expire (last (timeouts t))
       then (case GenID t of (i, t1) \<Rightarrow> Inr (emplace_node i e f t1))
       else (case GenID t of (i, t1) \<Rightarrow> Inr (emplace_node i e f t1)))"

text \<open>The absolute time handed to \<open>timerfd_settime\<close>, as seconds and nanoseconds.\<close>

definition UpdateTimerfd :: "'f timer \<Rightarrow> int \<times> int" where
  "UpdateTimerfd t =
     (case set_begin (timeouts t) of
        None \<Rightarrow> (0, 0)
      | Some n \<Rightarrow> (expire n sdiv 1000, (expire n smod 1000) * 1000000))"

section \<open>The set as an ordered list\<close>

definition timer_ok :: "'f timer \<Rightarrow> bool" where
  "timer_ok t \<longleftrightarrow> sorted_wrt node_less (timeouts t) \<and> (\<forall>n \<in> set (timeouts t). nid n < tid t)"

lemma node_less_trans: "node_less a b \<Longrightarrow> node_less b c \<Longrightarrow> node_less a c"
  by (auto simp: node_less_def split: if_splits)

lemma node_less_irrefl [simp]: "\<not> node_less a a"
  by (simp add: node_less_def)

lemma node_less_total: "nid a \<noteq> nid b \<Longrightarrow> node_less a b \<or> node_less b a"
  by (auto simp: node_less_def)

lemma node_less_asym: "node_less a b \<Longrightarrow> \<not> node_less b a"
  by (auto simp: node_less_def split: if_splits)

lemma set_emplace_new:
  "\<forall>x \<in> set xs. nid x \<noteq> nid n \<Longrightarrow> set (set_emplace n xs) = insert n (set xs)"
  using node_less_total [of n] by (induction xs) (auto, fastforce)

lemma set_emplace_sorted:
  "sorted_wrt node_less xs \<Longrightarrow> \<forall>x \<in> set xs. nid x \<noteq> nid n \<Longrightarrow> sorted_wrt node_less (set_emplace n xs)"
  by (induction xs) (auto simp: set_emplace_new intro: node_less_trans)

text \<open>A set has one ascending enumeration.\<close>

lemma sorted_unique:
  assumes "sorted_wrt node_less xs" "sorted_wrt node_less ys" "set xs = set ys"
  shows "xs = ys"
  using assms
proof (induction xs arbitrary: ys)
  case (Cons x xs)
  then obtain y ys' where ys: "ys = y # ys'" by (cases ys) auto
  have "x = y"
  proof (rule ccontr)
    assume "x \<noteq> y"
    then have "x \<in> set ys'" "y \<in> set xs" using Cons.prems(3) ys by auto
    then have "node_less y x" "node_less x y" using Cons.prems(1,2) ys by auto
    then show False using node_less_asym by blast
  qed
  moreover have "x \<notin> set xs" "y \<notin> set ys'" using Cons.prems(1,2) ys by auto
  ultimately have "set xs = set ys'" using Cons.prems(3) ys by auto
  with Cons ys \<open>x = y\<close> show ?case by auto
qed simp

lemma sorted_distinct: "sorted_wrt node_less xs \<Longrightarrow> distinct xs"
  by (induction xs) auto

lemma sorted_ordered:
  "sorted_wrt node_less xs \<Longrightarrow> a \<in> set xs \<Longrightarrow> b \<in> set xs \<Longrightarrow> a \<noteq> b \<Longrightarrow> node_less a b \<or> node_less b a"
  by (induction xs) auto

lemma set_erase_eq:
  assumes "sorted_wrt node_less xs" "n \<in> set xs"
  shows "set_erase n xs = filter (\<lambda>x. x \<noteq> n) xs"
  unfolding set_erase_def using sorted_ordered [OF assms(1)] assms(2) by (intro filter_cong) auto

lemma set_find_mem:
  assumes "sorted_wrt node_less xs" "n \<in> set xs"
  shows "set_find (base_of n) xs = Some n" "set_find n xs = Some n"
proof -
  have key: "(\<not> node_less (base_of n) x \<and> \<not> node_less x (base_of n)) = (x = n)"
    "(\<not> node_less n x \<and> \<not> node_less x n) = (x = n)" if "x \<in> set xs" for x
    using sorted_ordered [OF assms that] by (cases "x = n"; auto simp: node_less_def base_of_def split: if_splits)+
  have "find (\<lambda>x. x = n) xs = Some n" using assms(2) by (induction xs) auto
  then show "set_find (base_of n) xs = Some n" "set_find n xs = Some n"
    unfolding set_find_def by (simp_all add: key cong: find_cong)
qed

section \<open>Operations on a well-formed container\<close>

lemma AddTimer_ok:
  assumes ok: "timer_ok t" and add: "AddTimer tick msec f t = Inr (b, t')"
  shows "timer_ok t'" and "b = \<lparr>expire = tick + msec, nid = tid t\<rparr>"
    and "set (timeouts t') = insert \<lparr>expire = tick + msec, nid = tid t, func = f\<rparr> (set (timeouts t))"
    and "tid t' = tid t + 1"
proof -
  let ?n = "\<lparr>expire = tick + msec, nid = tid t, func = f\<rparr>"
  have eq: "(b, t') = emplace_node (tid t) (tick + msec) f (t\<lparr>tid := tid t + 1\<rparr>)"
    using add by (auto simp: AddTimer_def GetID_def add_int64_def split: if_splits)
  have new: "\<forall>x \<in> set (timeouts t). nid x \<noteq> nid ?n" using ok by (auto simp: timer_ok_def)
  note mem = set_emplace_new [OF new]
  have sorted: "sorted_wrt node_less (set_emplace ?n (timeouts t))"
    using ok new by (intro set_emplace_sorted) (auto simp: timer_ok_def)
  have "set_find ?n (set_emplace ?n (timeouts t)) = Some ?n"
    by (rule set_find_mem(2) [OF sorted]) (simp add: mem)
  with eq have bt: "b = base_of ?n" "t' = t\<lparr>tid := tid t + 1, timeouts := set_emplace ?n (timeouts t)\<rparr>"
    by (simp_all add: emplace_node_def Let_def)
  show "b = \<lparr>expire = tick + msec, nid = tid t\<rparr>" using bt by (simp add: base_of_def)
  show "tid t' = tid t + 1" using bt by simp
  show set: "set (timeouts t') = insert ?n (set (timeouts t))" using bt mem by simp
  show "timer_ok t'" using ok sorted bt mem by (force simp: timer_ok_def)
qed

text \<open>
  What a callback may do: keep the container well formed, keep the nodes that are there and
  add only nodes that are due later than the time being handled.
\<close>

definition well_behaved :: "('f tnode \<Rightarrow> 'f timer \<Rightarrow> 'f timer) \<Rightarrow> int \<Rightarrow> bool" where
  "well_behaved run now \<longleftrightarrow> (\<forall>n t. timer_ok t \<and> n \<in> set (timeouts t) \<longrightarrow>
     timer_ok (run n t) \<and> set (timeouts t) \<subseteq> set (timeouts (run n t))
     \<and> (\<forall>x \<in> set (timeouts (run n t)) - set (timeouts t). expire x > now))"

abbreviation due :: "int \<Rightarrow> 'f tnode list \<Rightarrow> 'f tnode list" where
  "due now xs \<equiv> filter (\<lambda>n. expire n \<le> now) xs"

lemma due_unchanged:
  assumes "sorted_wrt node_less xs" "sorted_wrt node_less ys" "set xs \<subseteq> set ys" "\<forall>x \<in> set ys - set xs. expire x > now"
  shows "due now ys = due now xs"
proof (rule sorted_unique)
  show "sorted_wrt node_less (due now ys)" "sorted_wrt node_less (due now xs)"
    using assms(1,2) by (auto intro: sorted_wrt_filter)
  show "set (due now ys) = set (due now xs)" using assms(3,4) by force
qed

lemma find_first_greater:
  assumes "sorted_wrt node_less (n # xs)"
  shows "set_after n xs = set_begin xs"
  using assms by (cases xs) (auto simp: set_after_def set_begin_def)

lemma handle_from_ok:
  assumes wb: "well_behaved run now"
  shows "timer_ok t \<Longrightarrow> length (due now (timeouts t)) = k \<Longrightarrow>
    \<exists>t'. handle_from run now t (set_begin (timeouts t)) done = Some (Inr (t', done @ due now (timeouts t)))
      \<and> timer_ok t' \<and> (\<forall>n \<in> set (timeouts t'). expire n > now)
      \<and> {n \<in> set (timeouts t). expire n > now} \<subseteq> set (timeouts t')"
proof (induction k arbitrary: t "done")
  case 0
  then have none: "\<forall>n \<in> set (timeouts t). \<not> expire n \<le> now" by (simp add: filter_empty_conv)
  then have "handle_from run now t (set_begin (timeouts t)) done = Some (Inr (t, done))"
    by (subst handle_from.simps) (auto simp: set_begin_def split: list.split)
  with 0 none show ?case by (auto simp: not_le)
next
  case (Suc k)
  then obtain n xs where ts: "timeouts t = n # xs" by (cases "timeouts t") auto
  have sorted: "sorted_wrt node_less (n # xs)" using Suc.prems(1) ts by (simp add: timer_ok_def)
  have n_due: "expire n \<le> now"
  proof (rule ccontr)
    assume "\<not> expire n \<le> now"
    with sorted have "due now (n # xs) = []" by (auto simp: filter_empty_conv node_less_def split: if_splits)
    with Suc.prems(2) ts show False by simp
  qed
  define t' where "t' = run n t"
  have t': "timer_ok t'" "set (n # xs) \<subseteq> set (timeouts t')" "\<forall>x \<in> set (timeouts t') - set (n # xs). expire x > now"
    using wb Suc.prems(1) ts unfolding well_behaved_def t'_def by (metis list.set_intros(1))+
  have due_eq: "due now (timeouts t') = n # due now xs"
    using due_unchanged [of "n # xs" "timeouts t'" now] sorted t' n_due by (simp add: timer_ok_def)
  obtain ys where ys: "timeouts t' = n # ys"
  proof -
    obtain y ys where y: "timeouts t' = y # ys" using t'(2) by (cases "timeouts t'") auto
    have "y = n"
    proof (rule ccontr)
      assume "y \<noteq> n"
      then have "node_less y n" using t'(1,2) y by (auto simp: timer_ok_def)
      then have "expire y \<le> now" using n_due by (auto simp: node_less_def split: if_splits)
      with due_eq y \<open>y \<noteq> n\<close> show False by simp
    qed
    with y that show thesis by blast
  qed
  have sorted': "sorted_wrt node_less (n # ys)" using t'(1) ys by (simp add: timer_ok_def)
  then have "filter (\<lambda>x. x \<noteq> n) (n # ys) = ys" using sorted_distinct [OF sorted'] by (auto simp: filter_id_conv)
  then have erase: "set_erase n (n # ys) = ys" using set_erase_eq [OF sorted', of n] by simp
  let ?t = "t'\<lparr>timeouts := ys\<rparr>"
  have "timer_ok ?t" using t'(1) ys by (simp add: timer_ok_def)
  moreover have d: "due now ys = due now xs" using due_eq ys n_due by simp
  then have "length (due now (timeouts ?t)) = k" using Suc.prems(2) ts n_due by simp
  ultimately obtain t'' where t'': "handle_from run now ?t (set_begin ys) (done @ [n]) = Some (Inr (t'', (done @ [n]) @ due now ys))"
      "timer_ok t''" "\<forall>n \<in> set (timeouts t''). expire n > now" "{n \<in> set ys. expire n > now} \<subseteq> set (timeouts t'')"
    using Suc.IH [of ?t "done @ [n]"] by auto
  have "handle_from run now t (Some n) done = handle_from run now ?t (set_begin ys) (done @ [n])"
    using n_due ys find_first_greater [OF sorted'] erase
    by (subst handle_from.simps) (simp add: t'_def [symmetric] Let_def)
  moreover have "{m \<in> set (n # xs). expire m > now} \<subseteq> {m \<in> set ys. expire m > now}"
    using t'(2) ys n_due by auto
  then have "{m \<in> set (n # xs). expire m > now} \<subseteq> set (timeouts t'')" using t''(4) by blast
  ultimately show ?case
    using t'' ts n_due d by (intro exI [of _ t'']) (simp add: set_begin_def)
qed

lemma DelTimer_ok: "timer_ok t \<Longrightarrow> timer_ok (snd (DelTimer b t))"
  by (auto simp: DelTimer_def timer_ok_def set_erase_def intro: sorted_wrt_filter split: option.split)

section \<open>The event loop's view\<close>

text \<open>The operations of a program that uses the container.\<close>

inductive timer_step :: "'f timer \<Rightarrow> 'f timer \<Rightarrow> bool" where
  add: "AddTimer tick msec f t = Inr (b, t') \<Longrightarrow> timer_step t t'"
| del: "DelTimer b t = (r, t') \<Longrightarrow> timer_step t t'"
| handle: "well_behaved run now \<Longrightarrow> HandleTimer run now t = Some (Inr (t', ns)) \<Longrightarrow> timer_step t t'"

definition timer_start :: "'f timer \<Rightarrow> bool" where
  "timer_start t \<longleftrightarrow> t = \<lparr>timeouts = [], tid = 0\<rparr>"

lemma timer_step_ok: "timer_step t t' \<Longrightarrow> timer_ok t \<Longrightarrow> timer_ok t'"
proof (induction rule: timer_step.induct)
  case (add tick msec f t b t')
  then show ?case by (metis AddTimer_ok(1))
next
  case (del b t r t')
  then show ?case using DelTimer_ok [of t b] by simp
next
  case (handle run now t t' ns)
  then show ?case using handle_from_ok [of run now t _ "[]"] by (auto simp: HandleTimer_def)
qed

interpretation timers: invariant_system timer_start timer_step timer_ok
proof
  show "timer_ok t" if "timer_start t" for t :: "'f timer" using that by (simp add: timer_start_def timer_ok_def)
qed (rule timer_step_ok)

section \<open>Properties\<close>

text \<open>
  C22. \<open>HandleTimer\<close> on every reachable container, with callbacks that may add timers for
  later: the loop ends, it runs exactly the timers that are due, each once and in the order
  of their expiry, and afterwards none is due while every other timer is still there.
\<close>

theorem handle_timer_spec:
  assumes "timer_start s" "timer_step\<^sup>*\<^sup>* s t" "well_behaved run now"
  shows "\<exists>t'. HandleTimer run now t = Some (Inr (t', due now (timeouts t)))
    \<and> sorted_wrt node_less (due now (timeouts t)) \<and> distinct (due now (timeouts t))
    \<and> (\<forall>n \<in> set (timeouts t'). expire n > now)
    \<and> {n \<in> set (timeouts t). expire n > now} \<subseteq> set (timeouts t')"
proof -
  have ok: "timer_ok t" using timers.inv_reachable [OF assms(1,2)] .
  then have "sorted_wrt node_less (due now (timeouts t))" by (auto simp: timer_ok_def intro: sorted_wrt_filter)
  with handle_from_ok [OF assms(3) ok refl, of "[]"] sorted_distinct show ?thesis
    unfolding HandleTimer_def by auto
qed

text \<open>A periodic timer: the callback adds the node's function again, 1000 ms later.\<close>

definition periodic :: "int \<Rightarrow> 'f tnode \<Rightarrow> 'f timer \<Rightarrow> 'f timer" where
  "periodic now n t = (case AddTimer now 1000 (func n) t of Inl _ \<Rightarrow> t | Inr (_, t') \<Rightarrow> t')"

lemma periodic_well_behaved: "well_behaved (periodic now) now"
  unfolding well_behaved_def
proof (intro allI impI)
  fix n :: "'f tnode" and t :: "'f timer"
  assume "timer_ok t \<and> n \<in> set (timeouts t)"
  then show "timer_ok (periodic now n t) \<and> set (timeouts t) \<subseteq> set (timeouts (periodic now n t))
     \<and> (\<forall>x \<in> set (timeouts (periodic now n t)) - set (timeouts t). expire x > now)"
    using AddTimer_ok(1,3) [of t now 1000 "func n"]
    by (auto simp: periodic_def split: sum.split)
qed

definition tm0 :: "int timer" where
  "tm0 = \<lparr>timeouts = [], tid = 0\<rparr>"

definition tm1 :: "int timer" where
  "tm1 = \<lparr>timeouts = [\<lparr>expire = 15, nid = 0, func = 7\<rparr>], tid = 1\<rparr>"

lemma tm_run: "timer_start tm0" "timer_step\<^sup>*\<^sup>* tm0 tm1"
proof -
  show "timer_start tm0" by (simp add: timer_start_def tm0_def)
  have "AddTimer 10 5 7 tm0 = Inr (\<lparr>expire = 15, nid = 0\<rparr>, tm1)"
    by (simp add: AddTimer_def GetID_def add_int64_def int64_fits_def emplace_node_def set_find_def base_of_def tm0_def tm1_def)
  then show "timer_step\<^sup>*\<^sup>* tm0 tm1" by (intro r_into_rtranclp timer_step.add)
qed

theorem handle_timer_spec_witness:
  "timer_start tm0 \<and> timer_step\<^sup>*\<^sup>* tm0 tm1 \<and> well_behaved (periodic 20) 20
   \<and> (\<exists>t'. HandleTimer (periodic 20) 20 tm1 = Some (Inr (t', [\<lparr>expire = 15, nid = 0, func = 7\<rparr>])))"
  using handle_timer_spec [OF tm_run periodic_well_behaved [of 20]] tm_run periodic_well_behaved
  by (auto simp: tm1_def)

text \<open>
  C23. Adding and deleting are inverse: the handle that \<open>AddTimer\<close> returns names the new timer
  and no other, so \<open>DelTimer\<close> finds it and restores the container; a second deletion finds
  nothing.
\<close>

theorem add_del_timer:
  assumes "timer_ok t" "AddTimer tick msec f t = Inr (b, t')"
  shows "\<exists>t''. DelTimer b t' = (True, t'') \<and> timeouts t'' = timeouts t \<and> DelTimer b t'' = (False, t'')"
proof -
  let ?n = "\<lparr>expire = tick + msec, nid = tid t, func = f\<rparr>"
  note add = AddTimer_ok [OF assms]
  have sorted: "sorted_wrt node_less (timeouts t')" "?n \<in> set (timeouts t')"
    using add by (auto simp: timer_ok_def)
  have b: "b = base_of ?n" using add(2) by (simp add: base_of_def)
  have new: "?n \<notin> set (timeouts t)" using assms(1) by (force simp: timer_ok_def)
  have "set_erase ?n (timeouts t') = timeouts t"
  proof (rule sorted_unique)
    show "sorted_wrt node_less (set_erase ?n (timeouts t'))"
      unfolding set_erase_def using sorted(1) by (rule sorted_wrt_filter)
    show "set (set_erase ?n (timeouts t')) = set (timeouts t)"
      unfolding set_erase_eq [OF sorted] using add(3) new by auto
  qed (use assms(1) in \<open>simp add: timer_ok_def\<close>)
  then have del: "DelTimer b t' = (True, t'\<lparr>timeouts := timeouts t\<rparr>)"
    by (simp add: DelTimer_def b set_find_mem(1) [OF sorted])
  have "\<forall>x \<in> set (timeouts t). node_less b x \<or> node_less x b"
    using assms(1) add(2) by (auto simp: timer_ok_def intro!: node_less_total)
  then have "set_find b (timeouts t) = None"
    unfolding set_find_def find_None_iff by blast
  with del show ?thesis by (simp add: DelTimer_def)
qed

theorem add_del_timer_witness:
  "\<exists>b t' t''. timer_ok tm1 \<and> AddTimer 10 5 9 tm1 = Inr (b, t') \<and> DelTimer b t' = (True, t'') \<and> timeouts t'' = timeouts tm1"
proof -
  have ok: "timer_ok tm1" by (simp add: timer_ok_def tm1_def)
  moreover have "\<exists>b t'. AddTimer 10 5 9 tm1 = Inr (b, t')"
    by (simp add: AddTimer_def GetID_def add_int64_def int64_fits_def emplace_node_def tm1_def)
  ultimately show ?thesis using add_del_timer [OF ok] by blast
qed

text \<open>
  C24. The sleep time computed for the event loop is right: it is \<open>-1\<close> exactly without timers;
  otherwise, after sleeping that long the first timer is due, and no timer is due earlier.
\<close>

theorem time_to_sleep_spec:
  assumes "timer_ok t" "TimeToSleep tick t = Inr d"
  shows "if timeouts t = [] then d = - 1
         else d \<ge> 0 \<and> due (tick + d) (timeouts t) \<noteq> [] \<and> (\<forall>e. tick \<le> e \<and> e < tick + d \<longrightarrow> due e (timeouts t) = [])"
proof (cases "timeouts t")
  case Nil
  with assms(2) show ?thesis by (simp add: TimeToSleep_def set_begin_def)
next
  case (Cons n ns)
  then have d: "d = (if expire n - tick > 0 then expire n - tick else 0)"
    using assms(2) by (auto simp: TimeToSleep_def set_begin_def add_int64_def split: if_splits)
  have "\<forall>m \<in> set ns. expire n \<le> expire m"
    using assms(1) Cons by (auto simp: timer_ok_def node_less_def split: if_splits)
  then have "due e (timeouts t) = []" if "e < expire n" for e
    using that Cons by (fastforce simp: filter_empty_conv)
  with d Cons show ?thesis by auto
qed

theorem time_to_sleep_spec_witness:
  "timer_ok tm1 \<and> TimeToSleep 12 tm1 = Inr 3 \<and> due (12 + 3) (timeouts tm1) \<noteq> []"
proof -
  have "timer_ok tm1" "TimeToSleep 12 tm1 = Inr 3"
    by (simp_all add: timer_ok_def tm1_def TimeToSleep_def set_begin_def add_int64_def int64_fits_def)
  with time_to_sleep_spec [of tm1 12 3] show ?thesis by (simp add: tm1_def)
qed

text \<open>
  The time programmed into the timer descriptor is the first expiry, split into seconds and
  nanoseconds within their ranges; with no timers the descriptor is disarmed.
\<close>

theorem update_timerfd_spec:
  assumes "\<forall>n \<in> set (timeouts t). expire n \<ge> 0"
  shows "case UpdateTimerfd t of (sec, nsec) \<Rightarrow>
    0 \<le> sec \<and> 0 \<le> nsec \<and> nsec < 10 ^ 9
    \<and> (case timeouts t of [] \<Rightarrow> sec = 0 \<and> nsec = 0 | n # _ \<Rightarrow> sec * 1000 + nsec div 10 ^ 6 = expire n \<and> nsec mod 10 ^ 6 = 0)"
proof (cases "timeouts t")
  case Nil
  then show ?thesis by (simp add: UpdateTimerfd_def set_begin_def)
next
  case (Cons n ns)
  then have "0 \<le> expire n" using assms by simp
  then have "expire n sdiv 1000 = expire n div 1000" "expire n smod 1000 = expire n mod 1000"
    by (simp_all add: signed_divide_int_def signed_modulo_int_def sgn_if minus_div_mult_eq_mod mult.commute)
  moreover have "expire n mod 1000 * 1000000 < 1000000000" using pos_mod_bound [of 1000 "expire n"] by simp
  ultimately show ?thesis
    using Cons \<open>0 \<le> expire n\<close> by (simp add: UpdateTimerfd_def set_begin_def)
qed

theorem update_timerfd_spec_witness:
  "timeouts tm1 = [\<lparr>expire = 15, nid = 0, func = 7\<rparr>] \<and> snd (UpdateTimerfd tm1) mod 10 ^ 6 = 0"
proof -
  have "\<forall>n \<in> set (timeouts tm1). expire n \<ge> 0" by (simp add: tm1_def)
  with update_timerfd_spec [of tm1] show ?thesis by (simp add: tm1_def split_beta)
qed

end
