(* ===== verification/MemPool.thy ===== *)
theory MemPool
  imports Interfaces
begin

text \<open>
  The two memory pools of \<^verbatim>\<open>mempool/\<close>. The fixed-size pool threads its free list
  through the blocks of one page: a pointer into the page is an offset, and what is stored in
  the first eight bytes of a block is a map from offsets to pointers, which the owner of an
  allocated block may overwrite. The variable-size pool is a list of nodes that are filled
  from their start; a pointer is a node with an offset into it.
\<close>

section \<open>The fixed-size pool\<close>

definition MAX_PAGE_SIZE :: nat where
  "MAX_PAGE_SIZE = 4096"

record mempool =
  block_size :: nat
  free_count :: nat
  free_ptr :: "nat option"
  page :: "nat \<Rightarrow> nat option"

text \<open>A pointer stored at an offset takes eight bytes of the page.\<close>

definition store_ptr :: "nat \<Rightarrow> nat option \<Rightarrow> (nat \<Rightarrow> nat option) \<Rightarrow> (nat \<Rightarrow> nat option) res" where
  "store_ptr off v pg = (if off + 8 \<le> MAX_PAGE_SIZE then Inr (pg(off := v)) else Inl OutOfBounds)"

definition load_ptr :: "nat \<Rightarrow> (nat \<Rightarrow> nat option) \<Rightarrow> nat option res" where
  "load_ptr off pg = (if off + 8 \<le> MAX_PAGE_SIZE then Inr (pg off) else Inl OutOfBounds)"

text \<open>The loop that links the blocks: \<open>n\<close> blocks from \<open>ptr\<close> on, and the final store.\<close>

fun link_blocks :: "nat \<Rightarrow> nat \<Rightarrow> nat \<Rightarrow> (nat \<Rightarrow> nat option) \<Rightarrow> (nat \<Rightarrow> nat option) res" where
  "link_blocks 0 sz ptr pg = store_ptr ptr None pg"
| "link_blocks (Suc n) sz ptr pg =
     bind_res (store_ptr ptr (Some (ptr + sz)) pg) (link_blocks n sz (ptr + sz))"

text \<open>\<open>mp_init\<close>: the return value with the pool; \<open>pg\<close> is what \<open>malloc\<close> returned.\<close>

definition mp_init :: "bool \<Rightarrow> int \<Rightarrow> (nat \<Rightarrow> nat option) option \<Rightarrow> (int \<times> mempool option) res" where
  "mp_init m_null size0 malloced =
     (if m_null then Inr (- 1, None)
      else let sz = nat (if size0 < 16 then 16 else size0)
           in case malloced of
                None \<Rightarrow> Inr (- 1, None)
              | Some pg \<Rightarrow>
                  (let n = MAX_PAGE_SIZE div sz
                   in bind_res (link_blocks n sz 0 pg)
                        (\<lambda>pg'. Inr (0, Some \<lparr>block_size = sz, free_count = n, free_ptr = Some 0, page = pg'\<rparr>))))"

text \<open>A null pool is \<open>None\<close>.\<close>

definition mp_alloc :: "mempool option \<Rightarrow> (nat option \<times> mempool option) res" where
  "mp_alloc pool =
     (case pool of
        None \<Rightarrow> Inr (None, None)
      | Some m \<Rightarrow>
          if free_count m = 0 then Inr (None, Some m)
          else (case free_ptr m of
                  None \<Rightarrow> Inl NullDeref
                | Some ptr \<Rightarrow> bind_res (load_ptr ptr (page m)) (\<lambda>nxt.
                    Inr (Some ptr, Some (m\<lparr>free_ptr := nxt, free_count := free_count m - 1\<rparr>)))))"

definition mp_free :: "mempool \<Rightarrow> nat \<Rightarrow> mempool res" where
  "mp_free m ptr =
     bind_res (store_ptr ptr (free_ptr m) (page m))
       (\<lambda>pg. Inr (m\<lparr>page := pg, free_ptr := Some ptr, free_count := free_count m + 1\<rparr>))"

subsection \<open>Initialisation\<close>

definition block_offsets :: "nat \<Rightarrow> nat list" where
  "block_offsets sz = map (\<lambda>i. i * sz) [0 ..< MAX_PAGE_SIZE div sz]"

text \<open>
  The null pointer that ends the list is written behind the last block. When fewer than eight
  bytes are left there, as for every size that divides the page, the store leaves the page.
\<close>

lemma link_blocks_returns:
  "sz \<ge> 16 \<Longrightarrow> ptr + n * sz \<le> MAX_PAGE_SIZE \<Longrightarrow>
     link_blocks n sz ptr pg = (if ptr + n * sz + 8 \<le> MAX_PAGE_SIZE
       then Inr ((\<lambda>off. if \<exists>i < n. off = ptr + i * sz then Some (off + sz) else pg off)(ptr + n * sz := None))
       else Inl OutOfBounds)"
proof (induction n arbitrary: ptr pg)
  case 0
  then show ?case by (auto simp: store_ptr_def)
next
  case (Suc n)
  have step: "store_ptr ptr (Some (ptr + sz)) pg = Inr (pg(ptr := Some (ptr + sz)))"
    using Suc.prems by (simp add: store_ptr_def)
  have IH: "link_blocks n sz (ptr + sz) (pg(ptr := Some (ptr + sz))) = (if ptr + sz + n * sz + 8 \<le> MAX_PAGE_SIZE
       then Inr ((\<lambda>off. if \<exists>i < n. off = ptr + sz + i * sz then Some (off + sz) else (pg(ptr := Some (ptr + sz))) off)
              (ptr + sz + n * sz := None))
       else Inl OutOfBounds)"
    using Suc.prems by (intro Suc.IH) (auto simp: algebra_simps)
  have "(\<exists>i < Suc n. off = ptr + i * sz) \<longleftrightarrow> off = ptr \<or> (\<exists>i < n. off = ptr + sz + i * sz)" for off
    by (auto simp: less_Suc_eq_0_disj)
  then have "(\<lambda>off. if \<exists>i < n. off = ptr + sz + i * sz then Some (off + sz) else (pg(ptr := Some (ptr + sz))) off)
     = (\<lambda>off. if \<exists>i < Suc n. off = ptr + i * sz then Some (off + sz) else pg off)"
    by (auto simp: fun_eq_iff)
  with step IH show ?case by (simp add: add.assoc add.left_commute del: fun_upd_apply)
qed

lemma mp_init_cases:
  assumes "\<not> m_null" "sz = nat (if size0 < 16 then 16 else size0)"
  shows "mp_init m_null size0 (Some pg) =
    (if MAX_PAGE_SIZE mod sz \<ge> 8
     then Inr (0, Some \<lparr>block_size = sz, free_count = MAX_PAGE_SIZE div sz, free_ptr = Some 0,
       page = (\<lambda>off. if \<exists>i < MAX_PAGE_SIZE div sz. off = i * sz then Some (off + sz) else pg off)
                ((MAX_PAGE_SIZE div sz) * sz := None)\<rparr>)
     else Inl OutOfBounds)"
proof -
  let ?n = "MAX_PAGE_SIZE div sz"
  have sz: "sz \<ge> 16" using assms(2) by auto
  have "0 + ?n * sz \<le> MAX_PAGE_SIZE" by simp
  moreover have "?n * sz + 8 \<le> MAX_PAGE_SIZE \<longleftrightarrow> MAX_PAGE_SIZE mod sz \<ge> 8"
    using div_mult_mod_eq [of MAX_PAGE_SIZE sz] by linarith
  ultimately show ?thesis
    using link_blocks_returns [OF sz, of 0 ?n pg] assms by (simp add: mp_init_def Let_def del: fun_upd_apply)
qed

lemma mp_init_overflows:
  "n \<in> {16, 32, 64, 128, 256, 512, 1024, 2048, 4096} \<Longrightarrow> mp_init False (int n) (Some pg) = Inl OutOfBounds"
  by (subst mp_init_cases) (auto simp: MAX_PAGE_SIZE_def)

subsection \<open>Clients\<close>

text \<open>
  A client allocates, frees blocks it holds and writes anything into them. The state carries
  the offsets it holds.
\<close>

record pool_run =
  pool :: mempool
  held :: "nat set"

inductive pool_step :: "pool_run \<Rightarrow> pool_run \<Rightarrow> bool" where
  alloc: "mp_alloc (Some (pool s)) = Inr (Some ptr, Some m) \<Longrightarrow> pool_step s (s\<lparr>pool := m, held := insert ptr (held s)\<rparr>)"
| release: "ptr \<in> held s \<Longrightarrow> mp_free (pool s) ptr = Inr m \<Longrightarrow> pool_step s (s\<lparr>pool := m, held := held s - {ptr}\<rparr>)"
| use: "ptr \<in> held s \<Longrightarrow> pool_step s (s\<lparr>pool := (pool s)\<lparr>page := (page (pool s))(ptr := v)\<rparr>\<rparr>)"

definition pool_start :: "pool_run \<Rightarrow> bool" where
  "pool_start s \<longleftrightarrow> (\<exists>size0 pg. mp_init False size0 (Some pg) = Inr (0, Some (pool s))) \<and> held s = {}"

text \<open>The free list leads through the free blocks to the end of the blocks.\<close>

fun free_list :: "(nat \<Rightarrow> nat option) \<Rightarrow> nat \<Rightarrow> nat option \<Rightarrow> nat list \<Rightarrow> bool" where
  "free_list pg fin p [] = (p = Some fin)"
| "free_list pg fin p (b # bs) = (p = Some b \<and> free_list pg fin (pg b) bs)"

definition pool_rep :: "pool_run \<Rightarrow> nat list \<Rightarrow> bool" where
  "pool_rep s bs \<longleftrightarrow> 16 \<le> block_size (pool s)
     \<and> free_list (page (pool s)) ((MAX_PAGE_SIZE div block_size (pool s)) * block_size (pool s)) (free_ptr (pool s)) bs
     \<and> free_count (pool s) = length bs \<and> distinct bs \<and> set bs \<inter> held s = {}
     \<and> set bs \<union> held s = set (block_offsets (block_size (pool s)))"

definition pool_inv :: "pool_run \<Rightarrow> bool" where
  "pool_inv s \<longleftrightarrow> (\<exists>bs. pool_rep s bs)"

lemma free_list_cong: "(\<And>b. b \<in> set bs \<Longrightarrow> pg b = pg' b) \<Longrightarrow> free_list pg fin p bs = free_list pg' fin p bs"
  by (induction bs arbitrary: p) auto

lemma free_list_linked:
  "(\<And>i. k \<le> i \<Longrightarrow> i < n \<Longrightarrow> pg (i * sz) = Some (i * sz + sz)) \<Longrightarrow> k \<le> n \<Longrightarrow>
     free_list pg (n * sz) (Some (k * sz)) (map (\<lambda>i. i * sz) [k ..< n])"
proof (induction "n - k" arbitrary: k)
  case (Suc d)
  then have "free_list pg (n * sz) (Some (Suc k * sz)) (map (\<lambda>i. i * sz) [Suc k ..< n])"
    by (intro Suc.hyps(1)) auto
  moreover have "[k ..< n] = k # [Suc k ..< n]" "pg (k * sz) = Some (Suc k * sz)"
    using Suc by (auto simp: upt_conv_Cons)
  ultimately show ?case by simp
qed auto

lemma block_offset_bounds:
  assumes "b \<in> set (block_offsets sz)"
  shows "b + sz \<le> MAX_PAGE_SIZE"
proof -
  obtain i where "i \<in> set [0 ..< MAX_PAGE_SIZE div sz]" and b: "b = i * sz"
    using assms unfolding block_offsets_def set_map by blast
  then have i: "b = i * sz" "i < MAX_PAGE_SIZE div sz" by auto
  then have "Suc i * sz \<le> (MAX_PAGE_SIZE div sz) * sz" by (intro mult_le_mono1) simp
  also have "\<dots> \<le> MAX_PAGE_SIZE" by simp
  finally show ?thesis using i by simp
qed

lemma block_offsets_apart:
  assumes "b \<in> set (block_offsets sz)" "c \<in> set (block_offsets sz)" "b \<noteq> c"
  shows "b + sz \<le> c \<or> c + sz \<le> b"
proof -
  obtain i j where ij: "b = i * sz" "c = j * sz" using assms by (auto simp: block_offsets_def)
  with assms(3) consider "i < j" | "j < i" by (metis linorder_neqE_nat)
  then show ?thesis
  proof cases
    case 1
    then have "Suc i * sz \<le> j * sz" by (intro mult_le_mono1) simp
    with ij show ?thesis by simp
  next
    case 2
    then have "Suc j * sz \<le> i * sz" by (intro mult_le_mono1) simp
    with ij show ?thesis by simp
  qed
qed

lemma pool_start_inv: "pool_start s \<Longrightarrow> pool_inv s"
proof -
  assume "pool_start s"
  then obtain size0 pg where init: "mp_init False size0 (Some pg) = Inr (0, Some (pool s))" and held: "held s = {}"
    by (auto simp: pool_start_def)
  define sz where "sz = nat (if size0 < 16 then 16 else size0)"
  let ?n = "MAX_PAGE_SIZE div sz"
  have sz: "16 \<le> sz" by (auto simp: sz_def)
  have pool: "\<lparr>block_size = sz, free_count = ?n, free_ptr = Some 0,
      page = (\<lambda>off. if \<exists>i < ?n. off = i * sz then Some (off + sz) else pg off)(?n * sz := None)\<rparr> = pool s"
    using init mp_init_cases [of False sz size0 pg] by (auto simp: sz_def split: if_splits)
  let ?pg = "(\<lambda>off. if \<exists>i < ?n. off = i * sz then Some (off + sz) else pg off)(?n * sz := None)"
  have "?pg (i * sz) = Some (i * sz + sz)" if "i < ?n" for i
    using that sz by auto
  then have "free_list ?pg (?n * sz) (Some (0 * sz)) (map (\<lambda>i. i * sz) [0 ..< ?n])"
    by (intro free_list_linked) auto
  moreover have "distinct (map (\<lambda>i. i * sz) [0 ..< ?n])" using sz by (simp add: distinct_map inj_on_def)
  ultimately have "pool_rep s (block_offsets sz)"
    using held sz unfolding pool_rep_def pool [symmetric] by (simp add: block_offsets_def del: fun_upd_apply)
  then show ?thesis unfolding pool_inv_def by blast
qed

lemma pool_step_inv: "pool_step s t \<Longrightarrow> pool_inv s \<Longrightarrow> pool_inv t"
proof (induction rule: pool_step.cases)
  case (alloc s ptr m)
  then obtain bs where rep: "pool_rep s bs" by (auto simp: pool_inv_def)
  then obtain cs where bs: "bs = ptr # cs" and m: "m = (pool s)\<lparr>free_ptr := page (pool s) ptr, free_count := length cs\<rparr>"
    using alloc(3) by (cases bs) (auto simp: mp_alloc_def load_ptr_def pool_rep_def split: if_splits)
  with rep alloc(2) have "pool_rep t cs" by (auto simp: pool_rep_def)
  then show ?case unfolding pool_inv_def by blast
next
  case (release ptr s m)
  then obtain bs where rep: "pool_rep s bs" by (auto simp: pool_inv_def)
  have m: "m = (pool s)\<lparr>page := (page (pool s))(ptr := free_ptr (pool s)), free_ptr := Some ptr, free_count := free_count (pool s) + 1\<rparr>"
    using release(4) by (auto simp: mp_free_def store_ptr_def split: if_splits)
  have "ptr \<notin> set bs" using rep release(3) by (auto simp: pool_rep_def)
  then have "free_list ((page (pool s))(ptr := free_ptr (pool s))) e p bs = free_list (page (pool s)) e p bs" for e p
    by (intro free_list_cong) auto
  with rep release m \<open>ptr \<notin> set bs\<close> have "pool_rep t (ptr # bs)" by (auto simp: pool_rep_def)
  then show ?case unfolding pool_inv_def by blast
next
  case (use ptr s v)
  then obtain bs where rep: "pool_rep s bs" by (auto simp: pool_inv_def)
  then have "ptr \<notin> set bs" using use(3) by (auto simp: pool_rep_def)
  then have "free_list ((page (pool s))(ptr := v)) e p bs = free_list (page (pool s)) e p bs" for e p
    by (intro free_list_cong) auto
  with rep use(2) have "pool_rep t bs" by (auto simp: pool_rep_def)
  then show ?case unfolding pool_inv_def by blast
qed

interpretation fixed_pool: invariant_system pool_start pool_step pool_inv
  by unfold_locales (auto intro: pool_start_inv pool_step_inv)

subsection \<open>Properties\<close>

text \<open>
  C25. The fixed-size pool hands out disjoint blocks: in every state a client can reach, an
  allocation returns without a fault; the block it returns lies in the page, is not held by the
  client and overlaps no held block; and it returns null exactly when every block is held.
\<close>

theorem fixed_pool_alloc:
  assumes "pool_start s" "pool_step\<^sup>*\<^sup>* s t"
  shows "\<exists>r m. mp_alloc (Some (pool t)) = Inr (r, Some m) \<and>
    (case r of
       None \<Rightarrow> held t = set (block_offsets (block_size (pool t)))
     | Some b \<Rightarrow> b \<notin> held t \<and> b + block_size (pool t) \<le> MAX_PAGE_SIZE
         \<and> (\<forall>c \<in> held t. b + block_size (pool t) \<le> c \<or> c + block_size (pool t) \<le> b))"
proof -
  obtain bs where rep: "pool_rep t bs" using fixed_pool.inv_reachable [OF assms] by (auto simp: pool_inv_def)
  show ?thesis
  proof (cases bs)
    case Nil
    with rep show ?thesis by (simp add: mp_alloc_def pool_rep_def)
  next
    case (Cons b cs)
    let ?sz = "block_size (pool t)"
    have b: "b \<in> set (block_offsets ?sz)" "b \<notin> held t" "held t \<subseteq> set (block_offsets ?sz)" "16 \<le> ?sz"
      "free_ptr (pool t) = Some b" "free_count (pool t) > 0"
      using rep Cons by (auto simp: pool_rep_def)
    then have "b + 8 \<le> MAX_PAGE_SIZE" using block_offset_bounds [OF b(1)] by linarith
    with b(5,6) have "\<exists>m. mp_alloc (Some (pool t)) = Inr (Some b, Some m)"
      by (simp add: mp_alloc_def load_ptr_def)
    with b block_offset_bounds [OF b(1)] block_offsets_apart [OF b(1)] show ?thesis
      by fastforce
  qed
qed

definition pool24 :: pool_run where
  "pool24 = \<lparr>pool = \<lparr>block_size = 24, free_count = 170, free_ptr = Some 0,
     page = (\<lambda>off. if \<exists>i < 170. off = i * 24 then Some (off + 24) else None)(4080 := None)\<rparr>, held = {}\<rparr>"

lemma pool24_start: "pool_start pool24"
proof -
  have "mp_init False 24 (Some (\<lambda>_. None)) = Inr (0, Some (pool pool24))"
    using mp_init_cases [of False 24 24 "\<lambda>_. None"] by (simp add: MAX_PAGE_SIZE_def pool24_def)
  then show ?thesis by (auto simp: pool_start_def pool24_def)
qed

theorem fixed_pool_alloc_witness:
  "pool_start pool24 \<and> (\<exists>r m. mp_alloc (Some (pool pool24)) = Inr (r, Some m)
     \<and> (case r of None \<Rightarrow> held pool24 = set (block_offsets (block_size (pool pool24)))
        | Some b \<Rightarrow> b + block_size (pool pool24) \<le> MAX_PAGE_SIZE))"
proof -
  obtain r m where "mp_alloc (Some (pool pool24)) = Inr (r, Some m)"
      "case r of None \<Rightarrow> held pool24 = set (block_offsets (block_size (pool pool24)))
       | Some b \<Rightarrow> b \<notin> held pool24 \<and> b + block_size (pool pool24) \<le> MAX_PAGE_SIZE
           \<and> (\<forall>c \<in> held pool24. b + block_size (pool pool24) \<le> c \<or> c + block_size (pool pool24) \<le> b)"
    using fixed_pool_alloc [OF pool24_start rtranclp.rtrancl_refl] by blast
  with pool24_start show ?thesis by (auto split: option.splits)
qed

end
