(* ===== verification/MemPoolUnfixed.thy ===== *)
theory MemPoolUnfixed
  imports Interfaces
begin

text \<open>
  The pool for blocks of any size, \<^verbatim>\<open>mempool/mempool_unfixed.c\<close>. Each node is one
  allocation that starts with its header and is filled from there; a pointer is a node with
  an offset into it. A null result of \<open>malloc\<close> is dereferenced by the code.
\<close>

section \<open>State and operations\<close>

record mp_node =
  free_off :: int
  end_off :: int
  next_node :: "nat option"

record mp_pool =
  first :: "nat option"
  current :: "nat option"
  max_size :: int
  heap :: "nat \<rightharpoonup> mp_node"

text \<open>\<open>sizeof(mp_node_t)\<close>: three pointers.\<close>

definition node_header :: int where
  "node_header = 24"

text \<open>A fresh node in \<open>size\<close> bytes at the address \<open>malloc\<close> returned: the header is written.\<close>

definition new_node :: "nat option \<Rightarrow> int \<Rightarrow> nat option \<Rightarrow> (nat \<rightharpoonup> mp_node) \<Rightarrow> (nat \<times> (nat \<rightharpoonup> mp_node)) res" where
  "new_node addr sz nxt h =
     (case addr of
        None \<Rightarrow> Inl NullDeref
      | Some a \<Rightarrow> if sz < node_header then Inl OutOfBounds
                else Inr (a, h(a \<mapsto> \<lparr>free_off = node_header, end_off = sz, next_node = nxt\<rparr>)))"

definition mp_init :: "bool \<Rightarrow> int \<Rightarrow> nat option \<Rightarrow> (nat \<rightharpoonup> mp_node) \<Rightarrow> (int \<times> mp_pool option) res" where
  "mp_init m_null sz addr h =
     (if m_null \<or> sz \<le> 0 then Inr (- 1, None)
      else bind_res (new_node addr sz None h)
             (\<lambda>(a, h'). Inr (0, Some \<lparr>first = Some a, current = Some a, max_size = sz, heap = h'\<rparr>)))"

text \<open>The \<open>do ... while\<close> loop: the first node from \<open>n\<close> on with room for \<open>sz\<close> bytes.\<close>

partial_function (option) find_room :: "(nat \<rightharpoonup> mp_node) \<Rightarrow> int \<Rightarrow> nat option \<Rightarrow> nat option res option" where
  "find_room h sz n =
     (case n of
        None \<Rightarrow> Some (Inl NullDeref)
      | Some a \<Rightarrow> (case h a of
            None \<Rightarrow> Some (Inl UseAfterFree)
          | Some nd \<Rightarrow> if sz \<le> end_off nd - free_off nd then Some (Inr (Some a))
                       else (case next_node nd of None \<Rightarrow> Some (Inr None) | Some b \<Rightarrow> find_room h sz (Some b))))"

text \<open>Handing out \<open>sz\<close> bytes of a node: the pointer must stay within the node.\<close>

definition bump :: "nat \<Rightarrow> int \<Rightarrow> (nat \<rightharpoonup> mp_node) \<Rightarrow> ((nat \<times> int) \<times> (nat \<rightharpoonup> mp_node)) res" where
  "bump a sz h =
     (case h a of
        None \<Rightarrow> Inl UseAfterFree
      | Some nd \<Rightarrow>
          if 0 \<le> free_off nd + sz \<and> free_off nd + sz \<le> end_off nd
          then Inr ((a, free_off nd), h(a \<mapsto> nd\<lparr>free_off := free_off nd + sz\<rparr>))
          else Inl OutOfBounds)"

definition mp_alloc :: "mp_pool \<Rightarrow> int \<Rightarrow> nat option \<Rightarrow> ((nat \<times> int) \<times> mp_pool) res option" where
  "mp_alloc m sz addr =
     map_option (\<lambda>r. bind_res r (\<lambda>room.
       case room of
         Some a \<Rightarrow> bind_res (bump a sz (heap m)) (\<lambda>(ptr, h). Inr (ptr, m\<lparr>heap := h\<rparr>))
       | None \<Rightarrow>
           bind_res (new_node addr (max_size m) (current m) (heap m)) (\<lambda>(a, h).
           bind_res (bump a sz h) (\<lambda>(ptr, h'). Inr (ptr, m\<lparr>current := Some a, heap := h'\<rparr>)))))
     (find_room (heap m) sz (current m))"

partial_function (option) mp_dest :: "mp_pool \<Rightarrow> mp_pool res option" where
  "mp_dest m =
     (case first m of
        None \<Rightarrow> Some (Inr m)
      | Some a \<Rightarrow> (case heap m a of
            None \<Rightarrow> Some (Inl UseAfterFree)
          | Some nd \<Rightarrow> mp_dest (m\<lparr>first := next_node nd, heap := (heap m)(a := None)\<rparr>)))"

section \<open>Clients\<close>

text \<open>A client's blocks: the node, the offset and the size of each.\<close>

record pool_run =
  mpool :: mp_pool
  blocks :: "(nat \<times> int \<times> int) set"

inductive pool_step :: "pool_run \<Rightarrow> pool_run \<Rightarrow> bool" where
  alloc: "0 < sz \<Longrightarrow> sz + node_header \<le> max_size (mpool s) \<Longrightarrow> addr \<notin> dom (heap (mpool s)) \<Longrightarrow>
    mp_alloc (mpool s) sz (Some addr) = Some (Inr ((a, off), m)) \<Longrightarrow>
    pool_step s (s\<lparr>mpool := m, blocks := insert (a, off, sz) (blocks s)\<rparr>)"

definition pool_start :: "pool_run \<Rightarrow> bool" where
  "pool_start s \<longleftrightarrow> (\<exists>sz addr. mp_init False sz (Some addr) Map.empty = Inr (0, Some (mpool s))) \<and> blocks s = {}"

section \<open>Invariant\<close>

text \<open>The nodes from the current one to the first one, which is the last of the list.\<close>

fun node_list :: "(nat \<rightharpoonup> mp_node) \<Rightarrow> nat option \<Rightarrow> nat list \<Rightarrow> bool" where
  "node_list h n [] = (n = None)"
| "node_list h n (a # as) = (n = Some a \<and> (\<exists>nd. h a = Some nd \<and> node_list h (next_node nd) as))"

definition apart :: "nat \<times> int \<times> int \<Rightarrow> nat \<times> int \<times> int \<Rightarrow> bool" where
  "apart b c = (case (b, c) of ((n, off, sz), (n', off', sz')) \<Rightarrow> n \<noteq> n' \<or> off + sz \<le> off' \<or> off' + sz' \<le> off)"

definition node_ok :: "int \<Rightarrow> mp_node \<Rightarrow> bool" where
  "node_ok sz nd \<longleftrightarrow> node_header \<le> free_off nd \<and> free_off nd \<le> end_off nd \<and> end_off nd = sz"

definition pool_rep :: "pool_run \<Rightarrow> nat list \<Rightarrow> bool" where
  "pool_rep s ns \<longleftrightarrow>
     ns \<noteq> [] \<and> distinct ns \<and> node_list (heap (mpool s)) (current (mpool s)) ns \<and> first (mpool s) = Some (last ns)
     \<and> dom (heap (mpool s)) = set ns
     \<and> (\<forall>a nd. heap (mpool s) a = Some nd \<longrightarrow> node_ok (max_size (mpool s)) nd)
     \<and> (\<forall>(a, off, sz) \<in> blocks s. 0 < sz \<and> node_header \<le> off \<and>
          (\<exists>nd. heap (mpool s) a = Some nd \<and> off + sz \<le> free_off nd))
     \<and> (\<forall>b \<in> blocks s. \<forall>c \<in> blocks s. b \<noteq> c \<longrightarrow> apart b c)"

definition pool_inv :: "pool_run \<Rightarrow> bool" where
  "pool_inv s \<longleftrightarrow> (\<exists>ns. pool_rep s ns)"

lemma node_list_cong:
  "(\<And>a. a \<in> set ns \<Longrightarrow> map_option next_node (h a) = map_option next_node (h' a)) \<Longrightarrow> node_list h n ns = node_list h' n ns"
proof (induction ns arbitrary: n)
  case (Cons a ns)
  have "map_option next_node (h a) = map_option next_node (h' a)" using Cons.prems by simp
  moreover have "node_list h n' ns = node_list h' n' ns" for n' using Cons by simp
  ultimately show ?case by (cases "h a"; cases "h' a") auto
qed simp

text \<open>The search ends, and it finds a node with room or there is none.\<close>

lemma find_room_ok:
  "node_list h n ns \<Longrightarrow> ns \<noteq> [] \<Longrightarrow>
    \<exists>r. find_room h sz n = Some (Inr r) \<and>
      (case r of None \<Rightarrow> True | Some a \<Rightarrow> \<exists>nd. a \<in> set ns \<and> h a = Some nd \<and> sz \<le> end_off nd - free_off nd)"
proof (induction ns arbitrary: n)
  case (Cons a as)
  then obtain nd where nd: "n = Some a" "h a = Some nd" "node_list h (next_node nd) as" by auto
  show ?case
  proof (cases "sz \<le> end_off nd - free_off nd")
    case True
    with nd show ?thesis by (subst find_room.simps) auto
  next
    case False
    show ?thesis
    proof (cases as)
      case Nil
      with nd False show ?thesis by (subst find_room.simps) auto
    next
      case as: (Cons b bs)
      then have "next_node nd = Some b" using nd(3) by simp
      with nd False Cons.IH [OF nd(3)] as show ?thesis by (subst find_room.simps) (auto split: option.splits)
    qed
  qed
qed simp

lemma rep_bump:
  assumes rep: "pool_rep s ns" and nd: "heap (mpool s) a = Some nd" "sz \<le> end_off nd - free_off nd" "0 < sz"
  shows "bump a sz (heap (mpool s)) = Inr ((a, free_off nd), (heap (mpool s))(a \<mapsto> nd\<lparr>free_off := free_off nd + sz\<rparr>))"
    and "pool_rep (s\<lparr>mpool := (mpool s)\<lparr>heap := (heap (mpool s))(a \<mapsto> nd\<lparr>free_off := free_off nd + sz\<rparr>)\<rparr>,
           blocks := insert (a, free_off nd, sz) (blocks s)\<rparr>) ns"
proof -
  let ?h = "(heap (mpool s))(a \<mapsto> nd\<lparr>free_off := free_off nd + sz\<rparr>)"
  have "node_ok (max_size (mpool s)) nd" using rep nd(1) by (simp add: pool_rep_def)
  then have bounds: "node_header \<le> free_off nd" "free_off nd \<le> end_off nd" "end_off nd = max_size (mpool s)"
    by (simp_all add: node_ok_def)
  then show "bump a sz (heap (mpool s)) = Inr ((a, free_off nd), ?h)"
    using nd by (simp add: bump_def node_header_def)
  have "node_list ?h n ns = node_list (heap (mpool s)) n ns" for n
    using nd(1) by (intro node_list_cong) auto
  moreover have "\<forall>(b, off, sz') \<in> insert (a, free_off nd, sz) (blocks s). 0 < sz' \<and> node_header \<le> off \<and>
      (\<exists>nd'. ?h b = Some nd' \<and> off + sz' \<le> free_off nd')"
    using rep nd bounds unfolding pool_rep_def by fastforce
  moreover have "apart (a, free_off nd, sz) c \<and> apart c (a, free_off nd, sz)" if "c \<in> blocks s" for c
    using rep nd that unfolding pool_rep_def by (fastforce simp: apart_def)
  then have "\<forall>b \<in> insert (a, free_off nd, sz) (blocks s). \<forall>c \<in> insert (a, free_off nd, sz) (blocks s). b \<noteq> c \<longrightarrow> apart b c"
    using rep unfolding pool_rep_def by blast
  moreover have "\<forall>b nd'. ?h b = Some nd' \<longrightarrow> node_ok (max_size (mpool s)) nd'"
    using rep nd bounds by (auto simp: pool_rep_def node_ok_def [of _ "nd\<lparr>free_off := free_off nd + sz\<rparr>"])
  moreover have "dom ?h = set ns" using rep nd(1) by (auto simp: pool_rep_def)
  ultimately show "pool_rep (s\<lparr>mpool := (mpool s)\<lparr>heap := ?h\<rparr>, blocks := insert (a, free_off nd, sz) (blocks s)\<rparr>) ns"
    using rep unfolding pool_rep_def by (simp del: fun_upd_apply)
qed

lemma rep_new:
  assumes rep: "pool_rep s ns" and addr: "addr \<notin> dom (heap (mpool s))" and max: "node_header \<le> max_size (mpool s)"
  shows "pool_rep (s\<lparr>mpool := (mpool s)\<lparr>current := Some addr, heap := (heap (mpool s))(addr \<mapsto>
     \<lparr>free_off = node_header, end_off = max_size (mpool s), next_node = current (mpool s)\<rparr>)\<rparr>\<rparr>) (addr # ns)"
proof -
  let ?nd = "\<lparr>free_off = node_header, end_off = max_size (mpool s), next_node = current (mpool s)\<rparr>"
  let ?h = "(heap (mpool s))(addr \<mapsto> ?nd)"
  have ns: "addr \<notin> set ns" using rep addr by (auto simp: pool_rep_def)
  then have "node_list ?h n ns = node_list (heap (mpool s)) n ns" for n
    by (intro node_list_cong) auto
  then have "node_list ?h (Some addr) (addr # ns)"
    using rep by (simp add: pool_rep_def fun_upd_same del: fun_upd_apply)
  moreover have "\<forall>(b, off, sz') \<in> blocks s. 0 < sz' \<and> node_header \<le> off \<and> (\<exists>nd'. ?h b = Some nd' \<and> off + sz' \<le> free_off nd')"
    using rep addr unfolding pool_rep_def by fastforce
  moreover have "\<forall>b nd'. ?h b = Some nd' \<longrightarrow> node_ok (max_size (mpool s)) nd'"
    using rep max by (auto simp: pool_rep_def node_ok_def [of _ ?nd])
  moreover have "dom ?h = set (addr # ns)" using rep by (auto simp: pool_rep_def)
  ultimately show ?thesis
    using rep ns unfolding pool_rep_def by (simp del: fun_upd_apply node_list.simps)
qed

text \<open>An allocation that fits a node returns, in a state that is again well formed.\<close>

lemma mp_alloc_ok:
  assumes rep: "pool_rep s ns" and sz: "0 < sz" "sz + node_header \<le> max_size (mpool s)"
    and addr: "addr \<notin> dom (heap (mpool s))"
  shows "\<exists>a off m ns'. mp_alloc (mpool s) sz (Some addr) = Some (Inr ((a, off), m))
    \<and> max_size m = max_size (mpool s)
    \<and> pool_rep (s\<lparr>mpool := m, blocks := insert (a, off, sz) (blocks s)\<rparr>) ns' \<and> last ns' = last ns
    \<and> (a, off, sz) \<notin> blocks s"
proof -
  obtain r where r: "find_room (heap (mpool s)) sz (current (mpool s)) = Some (Inr r)"
      "case r of None \<Rightarrow> True | Some a \<Rightarrow> \<exists>nd. a \<in> set ns \<and> heap (mpool s) a = Some nd \<and> sz \<le> end_off nd - free_off nd"
    using find_room_ok [of "heap (mpool s)" "current (mpool s)" ns sz] rep by (auto simp: pool_rep_def)
  have fresh: "(a, free_off nd, sz) \<notin> blocks s" if "heap (mpool s) a = Some nd" for a nd
    using rep that sz(1) unfolding pool_rep_def by fastforce
  show ?thesis
  proof (cases r)
    case (Some a)
    then obtain nd where nd: "heap (mpool s) a = Some nd" "sz \<le> end_off nd - free_off nd" using r(2) by auto
    with Some r(1) rep_bump [OF rep nd sz(1)] fresh [OF nd(1)] show ?thesis
      by (auto simp: mp_alloc_def simp del: fun_upd_apply intro!: exI [of _ ns])
  next
    case None
    let ?nd = "\<lparr>free_off = node_header, end_off = max_size (mpool s), next_node = current (mpool s)\<rparr>"
    let ?s = "s\<lparr>mpool := (mpool s)\<lparr>current := Some addr, heap := (heap (mpool s))(addr \<mapsto> ?nd)\<rparr>\<rparr>"
    have max: "node_header \<le> max_size (mpool s)" using sz by simp
    note rep' = rep_new [OF rep addr max]
    have nd: "heap (mpool ?s) addr = Some ?nd" "sz \<le> end_off ?nd - free_off ?nd" using sz by simp_all
    have "(addr, node_header, sz) \<notin> blocks s" using rep addr unfolding pool_rep_def by fastforce
    moreover have "last (addr # ns) = last ns" using rep by (simp add: pool_rep_def)
    ultimately show ?thesis
      using None r(1) rep_bump [OF rep' nd sz(1)] max
      by (auto simp: mp_alloc_def new_node_def not_less simp del: fun_upd_apply last.simps intro!: exI [of _ "addr # ns"])
  qed
qed

lemma vpool_step_inv: "pool_step s t \<Longrightarrow> pool_inv s \<Longrightarrow> pool_inv t"
proof (induction rule: pool_step.cases)
  case (alloc sz s addr a off m)
  then obtain ns where rep: "pool_rep s ns" by (auto simp: pool_inv_def)
  from mp_alloc_ok [OF rep alloc(3,4,5)] alloc(2,6) show ?case by (auto simp: pool_inv_def)
qed

lemma vpool_start_inv: "pool_start s \<Longrightarrow> pool_inv s"
proof -
  assume "pool_start s"
  then obtain sz addr where init: "mp_init False sz (Some addr) Map.empty = Inr (0, Some (mpool s))" "blocks s = {}"
    by (auto simp: pool_start_def)
  then have nh: "node_header \<le> sz" and eq: "\<lparr>first = Some addr, current = Some addr, max_size = sz,
      heap = [addr \<mapsto> \<lparr>free_off = node_header, end_off = sz, next_node = None\<rparr>]\<rparr> = mpool s"
    by (auto simp: mp_init_def new_node_def split: if_splits)
  have "pool_rep s [addr]" using init(2) nh unfolding pool_rep_def eq [symmetric] by (auto simp: node_ok_def split: if_splits)
  then show ?thesis unfolding pool_inv_def by blast
qed

interpretation unfixed_pool: invariant_system pool_start pool_step pool_inv
  by unfold_locales (auto intro: vpool_start_inv vpool_step_inv)

section \<open>Properties\<close>

text \<open>When the node is full and \<open>malloc\<close> refuses, \<open>mp_alloc\<close> writes through the null pointer.\<close>

lemma mp_alloc_unchecked:
  "mp_alloc \<lparr>first = Some 0, current = Some 0, max_size = 4096,
     heap = [0 \<mapsto> \<lparr>free_off = 4096, end_off = 4096, next_node = None\<rparr>]\<rparr> 8 None = Some (Inl NullDeref)"
  by (simp add: mp_alloc_def find_room.simps new_node_def)

text \<open>
  C26. The pool for any size, as long as \<open>malloc\<close> grants a fresh block whenever a node is added (its result is
  not checked by the code, see \<open>mp_alloc_unchecked\<close>): in every reachable state a request that fits a node
  succeeds (the search for room ends), and the block lies in its node behind the header and overlaps no block
  handed out before.
\<close>

theorem unfixed_pool_alloc:
  assumes "pool_start s" "pool_step\<^sup>*\<^sup>* s t" "0 < sz" "sz + node_header \<le> max_size (mpool t)"
    "addr \<notin> dom (heap (mpool t))"
  shows "\<exists>a off m. mp_alloc (mpool t) sz (Some addr) = Some (Inr ((a, off), m))
    \<and> node_header \<le> off \<and> off + sz \<le> max_size (mpool t)
    \<and> (\<forall>b \<in> blocks t. apart (a, off, sz) b)"
proof -
  obtain ns where rep: "pool_rep t ns" using unfixed_pool.inv_reachable [OF assms(1,2)] by (auto simp: pool_inv_def)
  obtain a off m ns' where m: "mp_alloc (mpool t) sz (Some addr) = Some (Inr ((a, off), m))"
      "max_size m = max_size (mpool t)" "(a, off, sz) \<notin> blocks t"
      and rep': "pool_rep (t\<lparr>mpool := m, blocks := insert (a, off, sz) (blocks t)\<rparr>) ns'"
    using mp_alloc_ok [OF rep assms(3-5)] by blast
  from rep' obtain nd where "heap m a = Some nd" "node_header \<le> off" "off + sz \<le> free_off nd"
    unfolding pool_rep_def by auto
  moreover from this rep' m(2) have "node_ok (max_size (mpool t)) nd" by (simp add: pool_rep_def)
  then have "free_off nd \<le> max_size (mpool t)" by (simp add: node_ok_def)
  moreover have "apart (a, off, sz) b" if "b \<in> blocks t" for b
    using rep' m(3) that unfolding pool_rep_def by auto
  ultimately show ?thesis using m(1) by force
qed

definition pool_4096 :: pool_run where
  "pool_4096 = \<lparr>mpool = \<lparr>first = Some 0, current = Some 0, max_size = 4096,
     heap = [0 \<mapsto> \<lparr>free_off = 24, end_off = 4096, next_node = None\<rparr>]\<rparr>, blocks = {}\<rparr>"

lemma pool_4096_start: "pool_start pool_4096"
proof -
  have "mp_init False 4096 (Some 0) Map.empty = Inr (0, Some (mpool pool_4096))"
    by (simp add: mp_init_def new_node_def node_header_def pool_4096_def)
  then show ?thesis by (auto simp: pool_start_def pool_4096_def)
qed

theorem unfixed_pool_alloc_witness:
  "pool_start pool_4096 \<and> (\<exists>a off m. mp_alloc (mpool pool_4096) 256 (Some 7) = Some (Inr ((a, off), m))
     \<and> off + 256 \<le> max_size (mpool pool_4096))"
proof -
  have "256 + node_header \<le> max_size (mpool pool_4096)" "7 \<notin> dom (heap (mpool pool_4096))"
    by (simp_all add: pool_4096_def node_header_def)
  with unfixed_pool_alloc [OF pool_4096_start rtranclp.rtrancl_refl, of 256 7] pool_4096_start show ?thesis
    by fastforce
qed

text \<open>
  \<open>mp_dest\<close> follows the list from the first node, but new nodes are linked in front of the
  current one: it returns and frees the first node only, and every node added later leaks.
\<close>

lemma node_list_last: "node_list h n ns \<Longrightarrow> ns \<noteq> [] \<Longrightarrow> \<exists>nd. h (last ns) = Some nd \<and> next_node nd = None"
  by (induction ns arbitrary: n) (auto split: if_splits)

lemma mp_dest_leaks:
  assumes "pool_start s" "pool_step\<^sup>*\<^sup>* s t"
  shows "\<exists>a m. first (mpool t) = Some a \<and> mp_dest (mpool t) = Some (Inr m) \<and> dom (heap m) = dom (heap (mpool t)) - {a}"
proof -
  obtain ns where rep: "pool_rep t ns" using unfixed_pool.inv_reachable [OF assms] by (auto simp: pool_inv_def)
  then obtain nd where "heap (mpool t) (last ns) = Some nd" "next_node nd = None" "first (mpool t) = Some (last ns)"
    using node_list_last [of "heap (mpool t)" "current (mpool t)" ns] by (auto simp: pool_rep_def)
  moreover have "mp_dest (m\<lparr>first := None\<rparr>) = Some (Inr (m\<lparr>first := None\<rparr>))" for m
    by (subst mp_dest.simps) simp
  from this [of "(mpool t)\<lparr>heap := (heap (mpool t))(last ns := None)\<rparr>"] calculation
  have "mp_dest (mpool t) = Some (Inr ((mpool t)\<lparr>first := None, heap := (heap (mpool t))(last ns := None)\<rparr>))"
    by (subst mp_dest.simps) (simp add: mp_dest.simps)
  with calculation show ?thesis by auto
qed

end
