(* ===== verification/Deadlock.thy ===== *)
theory Deadlock
  imports Interfaces
begin

text \<open>
  The deadlock detector of \<^verbatim>\<open>Deadlock/deadlock.c\<close>: a wait-for graph with an
  adjacency list per vertex, a depth-first search for cycles over global arrays, and the
  bookkeeping that the hooked \<open>pthread_mutex_lock\<close> and \<open>pthread_mutex_unlock\<close> do. The
  arrays keep their bounds. The list of locks starts with whatever \<open>malloc\<close> left in it.
\<close>

section \<open>The graph\<close>

definition MAX_VERTEX :: nat where
  "MAX_VERTEX = 100"

datatype Type = PROCESS | RESOURCE

record source_type =
  sid :: u64
  stype :: Type
  lock_id :: u64
  degree :: int

text \<open>
  The used part of the vertex array: for each vertex its source and the list behind \<open>next\<close>.
\<close>

record task_graph =
  vertices :: "(source_type \<times> source_type list) list"
  locklist :: "source_type list"
  lock_idx :: nat

definition same_vertex :: "source_type \<Rightarrow> source_type \<Rightarrow> bool" where
  "same_vertex a b \<longleftrightarrow> stype a = stype b \<and> sid a = sid b"

fun search_from :: "nat \<Rightarrow> source_type \<Rightarrow> (source_type \<times> source_type list) list \<Rightarrow> int" where
  "search_from i t [] = - 1"
| "search_from i t ((s, adj) # vs) = (if same_vertex s t then int i else search_from (Suc i) t vs)"

definition search_vertex :: "task_graph \<Rightarrow> source_type \<Rightarrow> int" where
  "search_vertex tg t = search_from 0 t (vertices tg)"

definition add_vertex :: "source_type \<Rightarrow> task_graph \<Rightarrow> task_graph res" where
  "add_vertex t tg =
     (if search_vertex tg t = - 1
      then if length (vertices tg) < MAX_VERTEX then Inr (tg\<lparr>vertices := vertices tg @ [(t, [])]\<rparr>) else Inl OutOfBounds
      else Inr tg)"

definition add_edge :: "source_type \<Rightarrow> source_type \<Rightarrow> task_graph \<Rightarrow> task_graph res" where
  "add_edge from to tg =
     bind_res (add_vertex from tg) (\<lambda>tg1.
     bind_res (add_vertex to tg1) (\<lambda>tg2.
       let i = search_vertex tg2 from
       in if 0 \<le> i \<and> nat i < length (vertices tg2)
          then (case vertices tg2 ! nat i of (s, adj) \<Rightarrow>
                 Inr (tg2\<lparr>vertices := (vertices tg2)[nat i := (s, adj @ [to])]\<rparr>))
          else Inl OutOfBounds))"

text \<open>\<open>verify_edge\<close> starts its scan at the vertex itself, and compares identifiers only.\<close>

definition verify_edge :: "source_type \<Rightarrow> source_type \<Rightarrow> task_graph \<Rightarrow> bool" where
  "verify_edge i j tg =
     (if vertices tg = [] then False
      else let idx = search_vertex tg i
           in if idx = - 1 then False
              else case vertices tg ! nat idx of (s, adj) \<Rightarrow> list_ex (\<lambda>v. sid v = sid j) (s # adj))"

text \<open>The first list element with the identifier is unlinked and freed.\<close>

fun remove_first :: "u64 \<Rightarrow> source_type list \<Rightarrow> source_type list" where
  "remove_first i [] = []"
| "remove_first i (v # vs) = (if sid v = i then vs else v # remove_first i vs)"

definition remove_edge :: "source_type \<Rightarrow> source_type \<Rightarrow> task_graph \<Rightarrow> task_graph" where
  "remove_edge from to tg =
     (let i = search_vertex tg from; j = search_vertex tg to
      in if i \<noteq> - 1 \<and> j \<noteq> - 1
         then case vertices tg ! nat i of (s, adj) \<Rightarrow>
                tg\<lparr>vertices := (vertices tg)[nat i := (s, remove_first (sid to) adj)]\<rparr>
         else tg)"

section \<open>The search for cycles\<close>

text \<open>The globals of the search; the cycles printed are collected as lists of vertex indices.\<close>

record dfs_state =
  path :: "int list"
  visited :: "bool list"
  k :: nat
  deadlock :: bool
  printed :: "int list list"

text \<open>\<open>path[k++] = idx\<close>.\<close>

definition push_path :: "int \<Rightarrow> dfs_state \<Rightarrow> dfs_state res" where
  "push_path idx s = (if k s < length (path s) then Inr (s\<lparr>path := (path s)[k s := idx], k := k s + 1\<rparr>) else Inl OutOfBounds)"

definition print_deadlock :: "dfs_state \<Rightarrow> dfs_state" where
  "print_deadlock s = s\<lparr>printed := printed s @ [take (k s) (path s)]\<rparr>"

text \<open>
  \<open>DFS\<close> and the loop over its adjacency list are one recursion: \<open>Inl idx\<close> is the call for a
  vertex, \<open>Inr adj\<close> the rest of a list.
\<close>

partial_function (option) DFS :: "task_graph \<Rightarrow> int + source_type list \<Rightarrow> dfs_state \<Rightarrow> dfs_state res option" where
  "DFS tg what s =
     (case what of
        Inl idx \<Rightarrow>
          if \<not> (0 \<le> idx \<and> nat idx < length (vertices tg) \<and> nat idx < length (visited s)) then Some (Inl OutOfBounds)
          else if visited s ! nat idx
          then (case push_path idx s of
                  Inl e \<Rightarrow> Some (Inl e)
                | Inr s1 \<Rightarrow> Some (Inr ((print_deadlock s1)\<lparr>deadlock := True\<rparr>)))
          else (case push_path idx (s\<lparr>visited := (visited s)[nat idx := True]\<rparr>) of
                  Inl e \<Rightarrow> Some (Inl e)
                | Inr s1 \<Rightarrow> DFS tg (Inr (snd (vertices tg ! nat idx))) s1)
      | Inr adj \<Rightarrow>
          (case adj of
             [] \<Rightarrow> Some (Inr s)
           | v # vs \<Rightarrow> Option.bind (DFS tg (Inl (search_vertex tg v)) s) (\<lambda>r.
               case r of Inl e \<Rightarrow> Some (Inl e) | Inr s1 \<Rightarrow> DFS tg (Inr vs) (s1\<lparr>k := k s1 - 1\<rparr>))))"

text \<open>The loop of \<open>search_for_cycle\<close> over the list of its vertex.\<close>

definition reset_search :: "task_graph \<Rightarrow> nat \<Rightarrow> dfs_state \<Rightarrow> dfs_state" where
  "reset_search tg idx s =
     s\<lparr>visited := map (\<lambda>i. if i < length (vertices tg) \<and> i \<noteq> idx then False else visited s ! i) [0 ..< length (visited s)],
       path := map (\<lambda>i. if 1 \<le> i \<and> i \<le> MAX_VERTEX then - 1 else path s ! i) [0 ..< length (path s)],
       k := 1\<rparr>"

fun search_children :: "task_graph \<Rightarrow> nat \<Rightarrow> source_type list \<Rightarrow> dfs_state \<Rightarrow> dfs_state res option" where
  "search_children tg idx [] s = Some (Inr s)"
| "search_children tg idx (v # vs) s =
     Option.bind (DFS tg (Inl (search_vertex tg v)) (reset_search tg idx s)) (\<lambda>r.
       case r of Inl e \<Rightarrow> Some (Inl e) | Inr s1 \<Rightarrow> search_children tg idx vs s1)"

definition search_for_cycle :: "task_graph \<Rightarrow> nat \<Rightarrow> dfs_state \<Rightarrow> dfs_state res option" where
  "search_for_cycle tg idx s =
     (if idx < length (visited s)
      then case push_path (int idx) (s\<lparr>visited := (visited s)[idx := True], k := 0\<rparr>) of
             Inl e \<Rightarrow> Some (Inl e)
           | Inr s1 \<Rightarrow> search_children tg idx (snd (vertices tg ! idx)) s1
      else Some (Inl OutOfBounds))"

fun check_from :: "task_graph \<Rightarrow> nat list \<Rightarrow> dfs_state \<Rightarrow> dfs_state res option" where
  "check_from tg [] s = Some (Inr s)"
| "check_from tg (i # is) s =
     (if deadlock s then Some (Inr s)
      else Option.bind (search_for_cycle tg i s) (\<lambda>r. case r of Inl e \<Rightarrow> Some (Inl e) | Inr s1 \<Rightarrow> check_from tg is s1))"

definition check_dead_lock :: "task_graph \<Rightarrow> dfs_state \<Rightarrow> dfs_state res option" where
  "check_dead_lock tg s = check_from tg [0 ..< length (vertices tg)] (s\<lparr>deadlock := False\<rparr>)"

section \<open>The lock hooks\<close>

text \<open>The loops over the lock list run up to \<open>lock_idx\<close>, which the array does not bound.\<close>

fun search_lock_in :: "u64 \<Rightarrow> source_type list \<Rightarrow> nat list \<Rightarrow> int res" where
  "search_lock_in l ll [] = Inr (- 1)"
| "search_lock_in l ll (i # is) =
     (if i < length ll then if lock_id (ll ! i) = l then Inr (int i) else search_lock_in l ll is else Inl OutOfBounds)"

definition search_lock :: "task_graph \<Rightarrow> u64 \<Rightarrow> int res" where
  "search_lock tg l = search_lock_in l (locklist tg) [0 ..< lock_idx tg]"

definition search_empty_lock :: "task_graph \<Rightarrow> u64 \<Rightarrow> nat res" where
  "search_empty_lock tg l =
     bind_res (search_lock_in 0 (locklist tg) [0 ..< lock_idx tg]) (\<lambda>i. Inr (if i = - 1 then lock_idx tg else nat i))"

text \<open>The local \<open>source_type\<close> values; the fields that are not set are indeterminate (zero here).\<close>

definition process :: "u64 \<Rightarrow> source_type" where
  "process t = \<lparr>sid = t, stype = PROCESS, lock_id = 0, degree = 0\<rparr>"

definition add_degree :: "nat \<Rightarrow> int \<Rightarrow> task_graph \<Rightarrow> task_graph res" where
  "add_degree i d tg =
     (if i < length (locklist tg)
      then bind_res (add_int (degree (locklist tg ! i)) d)
             (\<lambda>n. Inr (tg\<lparr>locklist := (locklist tg)[i := (locklist tg ! i)\<lparr>degree := n\<rparr>]\<rparr>))
      else Inl OutOfBounds)"

text \<open>The body of the loop of \<open>lock_before\<close> at index \<open>i\<close>, and the loop.\<close>

definition lock_before_at :: "u64 \<Rightarrow> u64 \<Rightarrow> nat \<Rightarrow> task_graph \<Rightarrow> task_graph res" where
  "lock_before_at tid lock_addr i tg =
     (if \<not> i < length (locklist tg) then Inl OutOfBounds
      else if lock_id (locklist tg ! i) = lock_addr
      then let from = process tid; to = process (sid (locklist tg ! i))
           in bind_res (add_vertex from tg) (\<lambda>tg1.
              bind_res (add_vertex to tg1) (\<lambda>tg2.
              bind_res (add_degree i 1 tg2) (\<lambda>tg3.
                if \<not> verify_edge from to tg3 then add_edge from to tg3 else Inr tg3)))
      else Inr tg)"

fun lock_before_from :: "u64 \<Rightarrow> u64 \<Rightarrow> nat list \<Rightarrow> task_graph \<Rightarrow> task_graph res" where
  "lock_before_from tid lock_addr [] tg = Inr tg"
| "lock_before_from tid lock_addr (i # is) tg = bind_res (lock_before_at tid lock_addr i tg) (lock_before_from tid lock_addr is)"

definition lock_before :: "u64 \<Rightarrow> u64 \<Rightarrow> task_graph \<Rightarrow> task_graph res" where
  "lock_before tid lock_addr tg = lock_before_from tid lock_addr [0 ..< lock_idx tg] tg"

definition lock_after :: "u64 \<Rightarrow> u64 \<Rightarrow> task_graph \<Rightarrow> task_graph res" where
  "lock_after tid lock_addr tg =
     bind_res (search_lock tg lock_addr) (\<lambda>i.
         if i = - 1
         then bind_res (search_empty_lock tg lock_addr) (\<lambda>idx.
                if idx < length (locklist tg)
                then Inr (tg\<lparr>locklist := (locklist tg)[idx := (locklist tg ! idx)\<lparr>sid := tid, lock_id := lock_addr\<rparr>],
                             lock_idx := lock_idx tg + 1\<rparr>)
                else Inl OutOfBounds)
         else (let from = process tid; to = process (sid (locklist tg ! nat i))
               in bind_res (add_vertex from tg) (\<lambda>tg1.
                  bind_res (add_vertex to tg1) (\<lambda>tg2.
                  bind_res (add_degree (nat i) (- 1) tg2) (\<lambda>tg3.
                    let tg4 = if verify_edge from to tg3 then remove_edge from to tg3 else tg3
                    in Inr (tg4\<lparr>locklist := (locklist tg4)[nat i := (locklist tg4 ! nat i)\<lparr>sid := tid\<rparr>]\<rparr>))))))"

definition unlock_after :: "u64 \<Rightarrow> u64 \<Rightarrow> task_graph \<Rightarrow> task_graph res" where
  "unlock_after tid lock_addr tg =
     bind_res (search_lock tg lock_addr) (\<lambda>idx.
         if idx = - 1 then Inl OutOfBounds
         else if degree (locklist tg ! nat idx) = 0
         then Inr (tg\<lparr>locklist := (locklist tg)[nat idx := (locklist tg ! nat idx)\<lparr>sid := 0, lock_id := 0\<rparr>]\<rparr>)
         else Inr tg)"

definition start_check :: "source_type list \<Rightarrow> task_graph" where
  "start_check garbage = \<lparr>vertices = [], locklist = garbage, lock_idx = 0\<rparr>"

end
