(* ===== verification/DeadlockCorrect.thy ===== *)
theory DeadlockCorrect
  imports Deadlock
begin

text \<open>
  The search for cycles against the graph: it always returns within the bounds of its arrays,
  it flags every graph with a cycle, and on graphs in which each vertex waits for at most one
  other it flags nothing else. With more edges per vertex it reports paths that merely meet.
\<close>

section \<open>Well-formed graphs\<close>

definition wf_graph :: "task_graph \<Rightarrow> bool" where
  "wf_graph tg \<longleftrightarrow> length (vertices tg) \<le> MAX_VERTEX
     \<and> (\<forall>p \<in> set (vertices tg). \<forall>v \<in> set (snd p). search_vertex tg v \<noteq> - 1)"

definition vindex :: "task_graph \<Rightarrow> source_type \<Rightarrow> nat" where
  "vindex tg v = nat (search_vertex tg v)"

definition edges :: "task_graph \<Rightarrow> (nat \<times> nat) set" where
  "edges tg = {(i, vindex tg v) | i v. i < length (vertices tg) \<and> v \<in> set (snd (vertices tg ! i))}"

lemma search_from_range:
  "search_from i t vs = - 1 \<or> int i \<le> search_from i t vs \<and> search_from i t vs < int (i + length vs)"
  by (induction i t vs rule: search_from.induct) auto

lemma search_vertex_index:
  assumes "search_vertex tg v \<noteq> - 1"
  shows "search_vertex tg v = int (vindex tg v)" "vindex tg v < length (vertices tg)"
  using assms search_from_range [of 0 v "vertices tg"] by (auto simp: search_vertex_def vindex_def)

lemma wf_child:
  assumes "wf_graph tg" "i < length (vertices tg)" "v \<in> set (snd (vertices tg ! i))"
  shows "search_vertex tg v \<noteq> - 1" "(i, vindex tg v) \<in> edges tg"
proof -
  show "search_vertex tg v \<noteq> - 1"
    using assms nth_mem [of i "vertices tg"] unfolding wf_graph_def by blast
  show "(i, vindex tg v) \<in> edges tg" using assms by (auto simp: edges_def)
qed

section \<open>The depth-first search\<close>

definition vset :: "task_graph \<Rightarrow> dfs_state \<Rightarrow> nat set" where
  "vset tg s = {i. i < length (vertices tg) \<and> visited s ! i}"

definition st_ok :: "dfs_state \<Rightarrow> bool" where
  "st_ok s \<longleftrightarrow> length (visited s) = MAX_VERTEX \<and> length (path s) = MAX_VERTEX + 1"

definition grows :: "task_graph \<Rightarrow> dfs_state \<Rightarrow> dfs_state \<Rightarrow> bool" where
  "grows tg s s' \<longleftrightarrow> st_ok s' \<and> vset tg s \<subseteq> vset tg s' \<and> (deadlock s \<longrightarrow> deadlock s')"

text \<open>The vertices reached anew are closed under the edges: none leads to an older vertex.\<close>

definition fresh_closed :: "task_graph \<Rightarrow> dfs_state \<Rightarrow> dfs_state \<Rightarrow> bool" where
  "fresh_closed tg s s' \<longleftrightarrow>
     (\<forall>(x, y) \<in> edges tg. x \<in> vset tg s' - vset tg s \<longrightarrow> y \<in> vset tg s' - vset tg s)"

lemma vset_finite: "finite (vset tg s)" "card (vset tg s) \<le> length (vertices tg)"
proof -
  have "vset tg s \<subseteq> {..< length (vertices tg)}" by (auto simp: vset_def)
  then show "finite (vset tg s)" "card (vset tg s) \<le> length (vertices tg)"
    using card_mono [OF finite_lessThan, of "vset tg s" "length (vertices tg)"] by (simp_all add: finite_subset)
qed

lemma grows_trans: "grows tg s t \<Longrightarrow> grows tg t u \<Longrightarrow> grows tg s u"
  by (auto simp: grows_def)

lemma grows_card: "grows tg s s' \<Longrightarrow> card (vset tg s) \<le> card (vset tg s')"
  by (rule card_mono [OF vset_finite(1)]) (simp add: grows_def)

lemma fresh_closed_trans:
  assumes "grows tg s t" "grows tg t u" "fresh_closed tg s t" "fresh_closed tg t u"
  shows "fresh_closed tg s u"
  using assms unfolding fresh_closed_def grows_def by blast

lemma vset_upd [simp]:
  "vset tg (s\<lparr>path := p\<rparr>) = vset tg s" "vset tg (s\<lparr>k := n\<rparr>) = vset tg s"
  "vset tg (s\<lparr>deadlock := b\<rparr>) = vset tg s" "vset tg (s\<lparr>printed := q\<rparr>) = vset tg s"
  by (simp_all add: vset_def)

lemma vset_mark:
  "i < length (vertices tg) \<Longrightarrow> i < length (visited s) \<Longrightarrow> vset tg (s\<lparr>visited := (visited s)[i := True]\<rparr>) = insert i (vset tg s)"
  by (auto simp: vset_def nth_list_update)

text \<open>One call for a vertex, from what the loops below it do.\<close>

lemma DFS_vertex:
  assumes wf: "wf_graph tg" and s: "st_ok s" "k s \<le> card (vset tg s)" and i: "i < length (vertices tg)"
    and list: "\<And>s1. st_ok s1 \<Longrightarrow> vset tg s1 = insert i (vset tg s) \<Longrightarrow> i \<notin> vset tg s \<Longrightarrow> k s1 = k s + 1 \<Longrightarrow>
        deadlock s1 = deadlock s \<Longrightarrow>
        \<exists>s'. DFS tg (Inr (snd (vertices tg ! i))) s1 = Some (Inr s') \<and> grows tg s1 s' \<and> k s' = k s1
          \<and> (\<not> deadlock s' \<longrightarrow> (\<forall>v \<in> set (snd (vertices tg ! i)). vindex tg v \<in> vset tg s' - vset tg s1) \<and> fresh_closed tg s1 s')"
  shows "\<exists>s'. DFS tg (Inl (int i)) s = Some (Inr s') \<and> grows tg s s' \<and> k s' = k s + 1
    \<and> (\<not> deadlock s' \<longrightarrow> i \<in> vset tg s' - vset tg s \<and> fresh_closed tg s s')"
proof -
  have bounds: "i < MAX_VERTEX" "k s < MAX_VERTEX + 1"
    using wf i s vset_finite(2) [of tg s] by (auto simp: wf_graph_def)
  show ?thesis
  proof (cases "visited s ! i")
    case True
    with bounds s i show ?thesis
      by (subst DFS.simps) (auto simp: st_ok_def push_path_def print_deadlock_def grows_def)
  next
    case False
    let ?s = "s\<lparr>visited := (visited s)[i := True]\<rparr>"
    define s1 where "s1 = ?s\<lparr>path := (path ?s)[k s := int i], k := k s + 1\<rparr>"
    have push: "push_path (int i) ?s = Inr s1" using bounds s by (simp add: push_path_def st_ok_def s1_def)
    have vs: "vset tg s1 = insert i (vset tg s)"
      using vset_mark [of i tg s] bounds i s by (simp add: s1_def st_ok_def)
    have new: "i \<notin> vset tg s" using False by (simp add: vset_def)
    obtain s' where s': "DFS tg (Inr (snd (vertices tg ! i))) s1 = Some (Inr s')" "grows tg s1 s'" "k s' = k s + 1"
        and cl: "\<not> deadlock s' \<longrightarrow> (\<forall>v \<in> set (snd (vertices tg ! i)). vindex tg v \<in> vset tg s' - vset tg s1) \<and> fresh_closed tg s1 s'"
      using list [of s1] s vs new by (auto simp: st_ok_def s1_def)
    have "DFS tg (Inl (int i)) s = Some (Inr s')"
      using push False bounds s i s'(1) by (subst DFS.simps) (simp add: st_ok_def)
    moreover have "grows tg s s'" using s'(2) vs by (auto simp: grows_def s1_def)
    moreover have "i \<in> vset tg s' - vset tg s \<and> fresh_closed tg s s'" if "\<not> deadlock s'"
    proof -
      have sub: "vset tg s1 \<subseteq> vset tg s'" using s'(2) by (simp add: grows_def)
      have "y \<in> vset tg s' - vset tg s" if "(x, y) \<in> edges tg" "x \<in> vset tg s' - vset tg s" for x y
        using that cl \<open>\<not> deadlock s'\<close> vs unfolding fresh_closed_def edges_def by (cases "x = i") auto
      then show ?thesis using sub vs new unfolding fresh_closed_def by auto
    qed
    ultimately show ?thesis using s'(3) by blast
  qed
qed

text \<open>A list of neighbours, by induction on the number of vertices not yet visited.\<close>

lemma DFS_list:
  assumes wf: "wf_graph tg"
  shows "length (vertices tg) - card (vset tg s) \<le> m \<Longrightarrow> st_ok s \<Longrightarrow> k s \<le> card (vset tg s) \<Longrightarrow>
    \<forall>v \<in> set adj. search_vertex tg v \<noteq> - 1 \<Longrightarrow>
    \<exists>s'. DFS tg (Inr adj) s = Some (Inr s') \<and> grows tg s s' \<and> k s' = k s
      \<and> (\<not> deadlock s' \<longrightarrow> (\<forall>v \<in> set adj. vindex tg v \<in> vset tg s' - vset tg s) \<and> fresh_closed tg s s')"
proof (induction m arbitrary: adj s rule: less_induct)
  case (less m)
  have vertex: "\<exists>s'. DFS tg (Inl (int i)) s = Some (Inr s') \<and> grows tg s s' \<and> k s' = k s + 1
      \<and> (\<not> deadlock s' \<longrightarrow> i \<in> vset tg s' - vset tg s \<and> fresh_closed tg s s')"
    if s: "length (vertices tg) - card (vset tg s) \<le> m" "st_ok s" "k s \<le> card (vset tg s)" and i: "i < length (vertices tg)"
    for i s
  proof (rule DFS_vertex [OF wf s(2,3) i])
    fix s1
    assume s1: "st_ok s1" "vset tg s1 = insert i (vset tg s)" "i \<notin> vset tg s" "k s1 = k s + 1"
    have card: "card (vset tg s1) = Suc (card (vset tg s))" using s1(2,3) vset_finite(1) by simp
    then have "card (vset tg s) < length (vertices tg)" using vset_finite(2) [of tg s1] by simp
    then have m: "m - 1 < m" "length (vertices tg) - card (vset tg s1) \<le> m - 1" using s(1) card by linarith+
    show "\<exists>s'. DFS tg (Inr (snd (vertices tg ! i))) s1 = Some (Inr s') \<and> grows tg s1 s' \<and> k s' = k s1
        \<and> (\<not> deadlock s' \<longrightarrow> (\<forall>v \<in> set (snd (vertices tg ! i)). vindex tg v \<in> vset tg s' - vset tg s1) \<and> fresh_closed tg s1 s')"
      using less.IH [OF m(1) m(2) s1(1), of "snd (vertices tg ! i)"] s(3) s1(4) card wf_child(1) [OF wf i] by simp
  qed
  show ?case
    using less.prems
  proof (induction adj arbitrary: s)
    case Nil
    then show ?case by (subst DFS.simps) (auto simp: grows_def fresh_closed_def)
  next
    case (Cons v adj)
    have v: "search_vertex tg v = int (vindex tg v)" "vindex tg v < length (vertices tg)"
      using search_vertex_index [of tg v] Cons.prems(4) by auto
    obtain s1 where s1: "DFS tg (Inl (int (vindex tg v))) s = Some (Inr s1)" "grows tg s s1" "k s1 = k s + 1"
        "\<not> deadlock s1 \<longrightarrow> vindex tg v \<in> vset tg s1 - vset tg s \<and> fresh_closed tg s s1"
      using vertex [OF Cons.prems(1-3) v(2)] by blast
    let ?s1 = "s1\<lparr>k := k s1 - 1\<rparr>"
    have g1: "grows tg s ?s1" using s1(2) by (simp add: grows_def st_ok_def)
    have prem: "length (vertices tg) - card (vset tg ?s1) \<le> m" "st_ok ?s1" "k ?s1 \<le> card (vset tg ?s1)"
      using Cons.prems(1,3) s1(3) g1 grows_card [OF g1] by (simp_all add: grows_def)
    obtain s' where s': "DFS tg (Inr adj) ?s1 = Some (Inr s')" "grows tg ?s1 s'" "k s' = k s"
        "\<not> deadlock s' \<longrightarrow> (\<forall>v \<in> set adj. vindex tg v \<in> vset tg s' - vset tg ?s1) \<and> fresh_closed tg ?s1 s'"
      using Cons.IH [OF prem] Cons.prems(4) s1(3) by auto
    have "DFS tg (Inr (v # adj)) s = Some (Inr s')"
      using s1(1) s'(1) v(1) by (subst DFS.simps) simp
    moreover have "(\<forall>w \<in> set (v # adj). vindex tg w \<in> vset tg s' - vset tg s) \<and> fresh_closed tg s s'" if d: "\<not> deadlock s'"
    proof -
      have "\<not> deadlock s1" using d s'(2) by (auto simp: grows_def)
      then have "fresh_closed tg s ?s1" "vindex tg v \<in> vset tg s1 - vset tg s"
        using s1(4) by (simp_all add: fresh_closed_def)
      moreover have "vset tg s \<subseteq> vset tg ?s1" "vset tg ?s1 \<subseteq> vset tg s'"
        using g1 s'(2) by (simp_all add: grows_def)
      ultimately show ?thesis
        using s'(4) d fresh_closed_trans [OF g1 s'(2)] by auto
    qed
    ultimately show ?case using s'(3) grows_trans [OF g1 s'(2)] by blast
  qed
qed

section \<open>The search from one vertex\<close>

lemma reset_search_facts:
  assumes "wf_graph tg" "st_ok s" "idx \<in> vset tg s"
  shows "st_ok (reset_search tg idx s)" "vset tg (reset_search tg idx s) = {idx}"
    "k (reset_search tg idx s) = 1" "deadlock (reset_search tg idx s) = deadlock s"
  using assms by (auto simp: reset_search_def st_ok_def vset_def wf_graph_def)

text \<open>A search for a vertex that the edges cannot lead back to its start.\<close>

lemma fresh_unreachable:
  assumes "fresh_closed tg s s'" "i \<in> vset tg s' - vset tg s" "j \<in> vset tg s"
  shows "(i, j) \<notin> (edges tg)\<^sup>*"
proof
  assume "(i, j) \<in> (edges tg)\<^sup>*"
  then have "j \<in> vset tg s' - vset tg s"
    using assms(1,2) by (induction rule: rtrancl_induct) (auto simp: fresh_closed_def)
  with assms(3) show False by blast
qed

lemma DFS_call:
  assumes "wf_graph tg" "st_ok s" "k s \<le> card (vset tg s)" "search_vertex tg v \<noteq> - 1"
  shows "\<exists>s'. DFS tg (Inl (search_vertex tg v)) s = Some (Inr s') \<and> grows tg s s'
    \<and> (\<not> deadlock s' \<longrightarrow> vindex tg v \<in> vset tg s' - vset tg s \<and> fresh_closed tg s s')"
proof -
  note v = search_vertex_index [OF assms(4)]
  have "\<exists>s'. DFS tg (Inl (int (vindex tg v))) s = Some (Inr s') \<and> grows tg s s' \<and> k s' = k s + 1
      \<and> (\<not> deadlock s' \<longrightarrow> vindex tg v \<in> vset tg s' - vset tg s \<and> fresh_closed tg s s')"
  proof (rule DFS_vertex [OF assms(1-3) v(2)])
    fix s1
    assume s1: "st_ok s1" "vset tg s1 = insert (vindex tg v) (vset tg s)" "vindex tg v \<notin> vset tg s" "k s1 = k s + 1"
    have "card (vset tg s1) = Suc (card (vset tg s))" using s1(2,3) vset_finite(1) by simp
    with assms(3) s1(4) have "k s1 \<le> card (vset tg s1)" by simp
    then show "\<exists>s'. DFS tg (Inr (snd (vertices tg ! vindex tg v))) s1 = Some (Inr s') \<and> grows tg s1 s' \<and> k s' = k s1
        \<and> (\<not> deadlock s' \<longrightarrow> (\<forall>w \<in> set (snd (vertices tg ! vindex tg v)). vindex tg w \<in> vset tg s' - vset tg s1) \<and> fresh_closed tg s1 s')"
      using DFS_list [OF assms(1) order_refl s1(1)] wf_child(1) [OF assms(1) v(2)] by blast
  qed
  then show ?thesis unfolding v(1) by blast
qed

lemma search_children_ok:
  assumes wf: "wf_graph tg"
  shows "st_ok s \<Longrightarrow> idx \<in> vset tg s \<Longrightarrow> \<forall>v \<in> set adj. search_vertex tg v \<noteq> - 1 \<Longrightarrow>
    \<exists>s'. search_children tg idx adj s = Some (Inr s') \<and> st_ok s' \<and> (deadlock s \<longrightarrow> deadlock s')
      \<and> (\<not> deadlock s' \<longrightarrow> (\<forall>v \<in> set adj. (vindex tg v, idx) \<notin> (edges tg)\<^sup>*))"
proof (induction adj arbitrary: s)
  case (Cons v adj)
  let ?r = "reset_search tg idx s"
  note r = reset_search_facts [OF wf Cons.prems(1,2)]
  obtain s1 where s1: "DFS tg (Inl (search_vertex tg v)) ?r = Some (Inr s1)" "grows tg ?r s1"
      "\<not> deadlock s1 \<longrightarrow> vindex tg v \<in> vset tg s1 - vset tg ?r \<and> fresh_closed tg ?r s1"
    using DFS_call [OF wf r(1), of v] r Cons.prems(3) by auto
  have idx: "st_ok s1" "idx \<in> vset tg s1" "deadlock s \<longrightarrow> deadlock s1" using s1(2) r by (auto simp: grows_def)
  obtain s' where s': "search_children tg idx adj s1 = Some (Inr s')" "st_ok s'" "deadlock s1 \<longrightarrow> deadlock s'"
      "\<not> deadlock s' \<longrightarrow> (\<forall>v \<in> set adj. (vindex tg v, idx) \<notin> (edges tg)\<^sup>*)"
    using Cons.IH [OF idx(1,2)] Cons.prems(3) by auto
  have "(vindex tg v, idx) \<notin> (edges tg)\<^sup>*" if "\<not> deadlock s'"
    using that s1(3) s'(3) r(2) by (intro fresh_unreachable [of tg ?r s1]) auto
  with s1(1) s' idx(3) show ?case by auto
qed simp

lemma mark_start:
  assumes "wf_graph tg" "st_ok s" "idx < length (vertices tg)"
  shows "\<exists>s1. push_path (int idx) (s\<lparr>visited := (visited s)[idx := True], k := 0\<rparr>) = Inr s1 \<and> st_ok s1
    \<and> idx \<in> vset tg s1 \<and> deadlock s1 = deadlock s \<and> idx < length (visited s)"
  using assms by (auto simp: wf_graph_def st_ok_def push_path_def vset_def)

lemma search_for_cycle_ok:
  assumes wf: "wf_graph tg" and s: "st_ok s" and idx: "idx < length (vertices tg)"
  shows "\<exists>s'. search_for_cycle tg idx s = Some (Inr s') \<and> st_ok s' \<and> (deadlock s \<longrightarrow> deadlock s')
    \<and> (\<not> deadlock s' \<longrightarrow> (idx, idx) \<notin> (edges tg)\<^sup>+)"
proof -
  obtain s1 where s1: "push_path (int idx) (s\<lparr>visited := (visited s)[idx := True], k := 0\<rparr>) = Inr s1" "st_ok s1"
      "idx \<in> vset tg s1" "deadlock s1 = deadlock s" "idx < length (visited s)"
    using mark_start [OF assms] by blast
  obtain s' where s': "search_children tg idx (snd (vertices tg ! idx)) s1 = Some (Inr s')" "st_ok s'" "deadlock s1 \<longrightarrow> deadlock s'"
      "\<not> deadlock s' \<longrightarrow> (\<forall>v \<in> set (snd (vertices tg ! idx)). (vindex tg v, idx) \<notin> (edges tg)\<^sup>*)"
    using search_children_ok [OF wf s1(2,3), of "snd (vertices tg ! idx)"] wf_child(1) [OF wf idx] by blast
  have "(idx, idx) \<notin> (edges tg)\<^sup>+" if "\<not> deadlock s'"
  proof
    assume "(idx, idx) \<in> (edges tg)\<^sup>+"
    then obtain y where "(idx, y) \<in> edges tg" "(y, idx) \<in> (edges tg)\<^sup>*" by (meson tranclD)
    with s'(4) that show False by (auto simp: edges_def)
  qed
  with s1 s' show ?thesis by (simp add: search_for_cycle_def)
qed

lemma check_from_ok:
  assumes wf: "wf_graph tg"
  shows "st_ok s \<Longrightarrow> \<forall>i \<in> set is. i < length (vertices tg) \<Longrightarrow>
    \<exists>s'. check_from tg is s = Some (Inr s') \<and> st_ok s' \<and> (deadlock s \<longrightarrow> deadlock s')
      \<and> (\<not> deadlock s' \<longrightarrow> (\<forall>i \<in> set is. (i, i) \<notin> (edges tg)\<^sup>+))"
proof (induction "is" arbitrary: s)
  case (Cons i "is")
  show ?case
  proof (cases "deadlock s")
    case False
    obtain s1 where s1: "search_for_cycle tg i s = Some (Inr s1)" "st_ok s1" "\<not> deadlock s1 \<longrightarrow> (i, i) \<notin> (edges tg)\<^sup>+"
      using search_for_cycle_ok [OF wf Cons.prems(1)] Cons.prems(2) by auto
    obtain s' where "check_from tg is s1 = Some (Inr s')" "st_ok s'" "deadlock s1 \<longrightarrow> deadlock s'"
        "\<not> deadlock s' \<longrightarrow> (\<forall>i \<in> set is. (i, i) \<notin> (edges tg)\<^sup>+)"
      using Cons.IH [OF s1(2)] Cons.prems(2) by auto
    with s1 False show ?thesis by auto
  qed (use Cons.prems in simp)
qed simp

lemma edges_bounded: "wf_graph tg \<Longrightarrow> (i, j) \<in> edges tg \<Longrightarrow> i < length (vertices tg)"
  by (auto simp: edges_def)

lemma cyclic_vertex:
  assumes "wf_graph tg" "\<not> acyclic (edges tg)"
  shows "\<exists>i < length (vertices tg). (i, i) \<in> (edges tg)\<^sup>+"
  using assms edges_bounded [OF assms(1)] unfolding acyclic_def by (metis tranclD)

section \<open>Graphs in which each vertex waits for at most one other\<close>

definition single_wait :: "task_graph \<Rightarrow> bool" where
  "single_wait tg \<longleftrightarrow> (\<forall>p \<in> set (vertices tg). length (snd p) \<le> 1)"

lemma single_cases:
  assumes "single_wait tg" "i < length (vertices tg)"
  obtains "snd (vertices tg ! i) = []" | v where "snd (vertices tg ! i) = [v]"
proof -
  have "length (snd (vertices tg ! i)) \<le> 1" using assms by (simp add: single_wait_def)
  then show thesis using that by (cases "snd (vertices tg ! i)") auto
qed

text \<open>
  Every visited vertex leads to the one the search came from, so meeting a visited vertex
  closes a cycle.
\<close>

lemma DFS_nil: "DFS tg (Inr []) s = Some (Inr s)"
  by (subst DFS.simps) simp

lemma DFS_cons:
  "DFS tg (Inr (v # vs)) s = Option.bind (DFS tg (Inl (search_vertex tg v)) s) (\<lambda>r.
     case r of Inl e \<Rightarrow> Some (Inl e) | Inr s1 \<Rightarrow> DFS tg (Inr vs) (s1\<lparr>k := k s1 - 1\<rparr>))"
  by (subst DFS.simps) simp

lemma DFS_sound:
  assumes wf: "wf_graph tg" and single: "single_wait tg"
  shows "length (vertices tg) - card (vset tg s) \<le> m \<Longrightarrow> st_ok s \<Longrightarrow> k s \<le> card (vset tg s) \<Longrightarrow> \<not> deadlock s \<Longrightarrow>
    (u, i) \<in> edges tg \<Longrightarrow> \<forall>x \<in> vset tg s. (x, u) \<in> (edges tg)\<^sup>* \<Longrightarrow> i < length (vertices tg) \<Longrightarrow>
    DFS tg (Inl (int i)) s = Some (Inr s') \<Longrightarrow> deadlock s' \<Longrightarrow> \<exists>x. (x, x) \<in> (edges tg)\<^sup>+"
proof (induction m arbitrary: s i u s' rule: less_induct)
  case (less m)
  have bounds: "i < MAX_VERTEX" "k s < MAX_VERTEX + 1"
    using wf less.prems(3,7) vset_finite(2) [of tg s] by (auto simp: wf_graph_def)
  show ?case
  proof (cases "visited s ! i")
    case True
    then have "(i, u) \<in> (edges tg)\<^sup>*" using less.prems(6,7) by (auto simp: vset_def)
    with less.prems(5) have "(i, i) \<in> (edges tg)\<^sup>+" by (blast intro: rtrancl_into_trancl1)
    then show ?thesis by blast
  next
    case False
    define s1 where "s1 = s\<lparr>visited := (visited s)[i := True], path := (path s)[k s := int i], k := k s + 1\<rparr>"
    have run: "DFS tg (Inr (snd (vertices tg ! i))) s1 = Some (Inr s')"
      using less.prems(2,7,8) bounds False by (subst (asm) DFS.simps) (simp add: st_ok_def push_path_def s1_def)
    have vs: "vset tg s1 = insert i (vset tg s)" "i \<notin> vset tg s"
      using vset_mark [of i tg s] bounds less.prems(2,7) False by (auto simp: s1_def st_ok_def vset_def)
    have s1: "st_ok s1" "\<not> deadlock s1" "k s1 = k s + 1" using less.prems(2,4) by (simp_all add: s1_def st_ok_def)
    show ?thesis
      using single less.prems(7)
    proof (cases rule: single_cases)
      case 1
      then have "s' = s1" using run by (subst (asm) DFS.simps) simp
      with s1 less.prems(9) show ?thesis by simp
    next
      case (2 v)
      then have v: "search_vertex tg v = int (vindex tg v)" "vindex tg v < length (vertices tg)" "(i, vindex tg v) \<in> edges tg"
        using search_vertex_index wf_child [OF wf less.prems(7), of v] by auto
      obtain s2 where s2: "DFS tg (Inl (int (vindex tg v))) s1 = Some (Inr s2)" "deadlock s2"
        using run 2 v(1) less.prems(9)
        by (auto simp: DFS_cons bind_opt_Inr_iff DFS_nil)
      have card: "card (vset tg s1) = Suc (card (vset tg s))" using vs vset_finite(1) by simp
      then have "m - 1 < m" "length (vertices tg) - card (vset tg s1) \<le> m - 1"
        using vset_finite(2) [of tg s1] less.prems(1) by linarith+
      moreover have "\<forall>x \<in> vset tg s1. (x, i) \<in> (edges tg)\<^sup>*"
        using vs(1) less.prems(5,6) by (auto intro: rtrancl_into_rtrancl)
      ultimately show ?thesis
        using less.IH [of "m - 1" s1 i "vindex tg v" s2] s1 s2 v card less.prems(3) by simp
    qed
  qed
qed

lemma search_for_cycle_sound:
  assumes wf: "wf_graph tg" and single: "single_wait tg" and s: "st_ok s" "\<not> deadlock s" and idx: "idx < length (vertices tg)"
    and run: "search_for_cycle tg idx s = Some (Inr s')" "deadlock s'"
  shows "\<exists>x. (x, x) \<in> (edges tg)\<^sup>+"
proof -
  obtain s1 where s1: "push_path (int idx) (s\<lparr>visited := (visited s)[idx := True], k := 0\<rparr>) = Inr s1" "st_ok s1"
      "idx \<in> vset tg s1" "deadlock s1 = deadlock s" "idx < length (visited s)"
    using mark_start [OF wf s(1) idx] by blast
  have children: "search_children tg idx (snd (vertices tg ! idx)) s1 = Some (Inr s')"
    using run(1) s1 by (simp add: search_for_cycle_def)
  show ?thesis
    using single idx
  proof (cases rule: single_cases)
    case 1
    with children s1(4) s(2) run(2) show ?thesis by simp
  next
    case (2 v)
    note r = reset_search_facts [OF wf s1(2,3)]
    have v: "search_vertex tg v = int (vindex tg v)" "vindex tg v < length (vertices tg)" "(idx, vindex tg v) \<in> edges tg"
      using search_vertex_index wf_child [OF wf idx, of v] 2 by auto
    have "DFS tg (Inl (int (vindex tg v))) (reset_search tg idx s1) = Some (Inr s')"
      using children 2 v(1) by (auto simp: bind_opt_Inr_iff)
    then show ?thesis
      using DFS_sound [OF wf single order_refl r(1), of idx "vindex tg v" s'] r s1(4) s(2) v run(2) by simp
  qed
qed

lemma check_from_sound:
  assumes wf: "wf_graph tg" and single: "single_wait tg"
  shows "st_ok s \<Longrightarrow> \<not> deadlock s \<Longrightarrow> \<forall>i \<in> set is. i < length (vertices tg) \<Longrightarrow>
    check_from tg is s = Some (Inr s') \<Longrightarrow> deadlock s' \<Longrightarrow> \<exists>x. (x, x) \<in> (edges tg)\<^sup>+"
proof (induction "is" arbitrary: s)
  case (Cons i "is")
  obtain s1 where s1: "search_for_cycle tg i s = Some (Inr s1)" "st_ok s1"
    using search_for_cycle_ok [OF wf Cons.prems(1)] Cons.prems(3) by auto
  then have rest: "check_from tg is s1 = Some (Inr s')" using Cons.prems(2,4) by simp
  show ?case
  proof (cases "deadlock s1")
    case True
    then show ?thesis using search_for_cycle_sound [OF wf single Cons.prems(1,2) _ s1(1)] Cons.prems(3) by simp
  next
    case False
    then show ?thesis using Cons.IH [OF s1(2) False _ rest Cons.prems(5)] Cons.prems(3) by simp
  qed
qed simp

section \<open>Building the graph\<close>

text \<open>The list operations keep the graph well formed and add or remove the edge they name.\<close>

lemma search_from_append:
  "search_from i t (vs @ ws) = (if search_from i t vs = - 1 then search_from (i + length vs) t ws else search_from i t vs)"
  by (induction i t vs rule: search_from.induct) auto

lemma search_from_sources:
  "map fst vs = map fst ws \<Longrightarrow> search_from i t vs = search_from i t ws"
proof (induction i t vs arbitrary: ws rule: search_from.induct)
  case (2 i t s adj vs)
  then show ?case by (cases ws) auto
qed simp

lemma search_vertex_adj:
  "i < length (vertices tg) \<Longrightarrow> fst (vertices tg ! i) = x \<Longrightarrow>
     search_vertex (tg\<lparr>vertices := (vertices tg)[i := (x, adj)]\<rparr>) t = search_vertex tg t"
  unfolding search_vertex_def by (intro search_from_sources) (auto simp: map_update list_update_same_conv)

lemma search_vertex_mono:
  "search_vertex tg t \<noteq> - 1 \<Longrightarrow> search_vertex (tg\<lparr>vertices := vertices tg @ ws\<rparr>) t = search_vertex tg t"
  by (simp add: search_vertex_def search_from_append)

lemma search_vertex_locks [simp]: "search_vertex (tg\<lparr>locklist := l\<rparr>) t = search_vertex tg t"
  "search_vertex (tg\<lparr>lock_idx := n\<rparr>) t = search_vertex tg t"
  by (simp_all add: search_vertex_def)

lemma add_vertex_ok:
  assumes wf: "wf_graph tg" and add: "add_vertex t tg = Inr tg'"
  shows "wf_graph tg'" "search_vertex tg' t \<noteq> - 1" "edges tg' = edges tg"
    "\<And>v. search_vertex tg v \<noteq> - 1 \<Longrightarrow> search_vertex tg' v = search_vertex tg v"
    "locklist tg' = locklist tg" "lock_idx tg' = lock_idx tg"
proof -
  consider "tg' = tg" "search_vertex tg t \<noteq> - 1"
    | "search_vertex tg t = - 1" "length (vertices tg) < MAX_VERTEX" "tg' = tg\<lparr>vertices := vertices tg @ [(t, [])]\<rparr>"
    using add by (auto simp: add_vertex_def split: if_splits)
  then have "wf_graph tg' \<and> search_vertex tg' t \<noteq> - 1 \<and> edges tg' = edges tg
    \<and> (\<forall>v. search_vertex tg v \<noteq> - 1 \<longrightarrow> search_vertex tg' v = search_vertex tg v)
    \<and> locklist tg' = locklist tg \<and> lock_idx tg' = lock_idx tg"
  proof cases
    case 1
    with wf show ?thesis by simp
  next
    case 2
    have mono: "search_vertex tg v \<noteq> - 1 \<Longrightarrow> search_vertex tg' v = search_vertex tg v" for v
      using search_vertex_mono 2(3) by simp
    have child: "search_vertex tg v \<noteq> - 1" if "i < length (vertices tg)" "v \<in> set (snd (vertices tg ! i))" for i v
      using wf_child(1) [OF wf that] .
    have wf': "wf_graph tg'"
      using wf 2 mono unfolding wf_graph_def by auto
    have "edges tg' = edges tg"
      unfolding edges_def vindex_def using 2(3) child mono
      by (auto simp: nth_append less_Suc_eq) (metis less_SucI nth_append)
    moreover have "search_vertex tg' t \<noteq> - 1"
      using 2 by (simp add: search_vertex_def search_from_append same_vertex_def)
    ultimately show ?thesis using wf' mono 2(3) by simp
  qed
  then show "wf_graph tg'" "search_vertex tg' t \<noteq> - 1" "edges tg' = edges tg"
    "\<And>v. search_vertex tg v \<noteq> - 1 \<Longrightarrow> search_vertex tg' v = search_vertex tg v"
    "locklist tg' = locklist tg" "lock_idx tg' = lock_idx tg" by blast+
qed

text \<open>Replacing the list of one vertex.\<close>

lemma set_adj_ok:
  assumes wf: "wf_graph tg" and i: "i < length (vertices tg)" and adj: "\<forall>v \<in> set adj. search_vertex tg v \<noteq> - 1"
    and tg': "tg' = tg\<lparr>vertices := (vertices tg)[i := (fst (vertices tg ! i), adj)]\<rparr>"
  shows "wf_graph tg'" "\<And>v. search_vertex tg' v = search_vertex tg v"
    "edges tg' = {(x, y) \<in> edges tg. x \<noteq> i} \<union> {(i, vindex tg v) | v. v \<in> set adj}"
proof -
  show same: "search_vertex tg' v = search_vertex tg v" for v
    unfolding tg' using i by (intro search_vertex_adj) simp_all
  show "wf_graph tg'"
    unfolding wf_graph_def
  proof (intro conjI ballI)
    show "length (vertices tg') \<le> MAX_VERTEX" using wf tg' by (simp add: wf_graph_def)
    fix p v assume "p \<in> set (vertices tg')" "v \<in> set (snd p)"
    then have "v \<in> set adj \<or> (\<exists>q \<in> set (vertices tg). v \<in> set (snd q))"
      using set_update_subset_insert [of "vertices tg" i] tg' by fastforce
    then show "search_vertex tg' v \<noteq> - 1" using wf adj same by (auto simp: wf_graph_def)
  qed
  show "edges tg' = {(x, y) \<in> edges tg. x \<noteq> i} \<union> {(i, vindex tg v) | v. v \<in> set adj}"
    unfolding edges_def vindex_def same using i by (auto simp: tg' nth_list_update)
qed

lemma add_edge_ok:
  assumes wf: "wf_graph tg" and add: "add_edge from to tg = Inr tg'"
  shows "wf_graph tg'" "edges tg' = insert (vindex tg' from, vindex tg' to) (edges tg)"
    "search_vertex tg' from \<noteq> - 1" "search_vertex tg' to \<noteq> - 1"
proof -
  obtain tg1 where tg1: "add_vertex from tg = Inr tg1" using add by (auto simp: add_edge_def bind_res_Inr_iff)
  obtain tg2 where tg2: "add_vertex to tg1 = Inr tg2" using add tg1 by (auto simp: add_edge_def bind_res_Inr_iff)
  note a1 = add_vertex_ok [OF wf tg1] and a2 = add_vertex_ok [OF add_vertex_ok(1) [OF wf tg1] tg2]
  have from2: "search_vertex tg2 from \<noteq> - 1" using a1(2) a2(4) by simp
  let ?i = "vindex tg2 from"
  have i: "search_vertex tg2 from = int ?i" "?i < length (vertices tg2)" using search_vertex_index [OF from2] .
  have eq: "tg' = tg2\<lparr>vertices := (vertices tg2)[?i := (fst (vertices tg2 ! ?i), snd (vertices tg2 ! ?i) @ [to])]\<rparr>"
    using add tg1 tg2 i by (auto simp: add_edge_def Let_def split_beta)
  have adj: "\<forall>v \<in> set (snd (vertices tg2 ! ?i) @ [to]). search_vertex tg2 v \<noteq> - 1"
    using wf_child(1) [OF a2(1) i(2)] a2(2) by auto
  note upd = set_adj_ok [OF a2(1) i(2) adj eq]
  show "wf_graph tg'" "search_vertex tg' from \<noteq> - 1" "search_vertex tg' to \<noteq> - 1"
    using upd from2 a2(2) by simp_all
  have "{(?i, vindex tg2 v) | v. v \<in> set (snd (vertices tg2 ! ?i) @ [to])}
      = insert (?i, vindex tg2 to) {(x, y) \<in> edges tg2. x = ?i}"
    using i(2) by (auto simp: edges_def)
  then show "edges tg' = insert (vindex tg' from, vindex tg' to) (edges tg)"
    using upd(2,3) a1(3) a2(3) by (auto simp: vindex_def)
qed

lemma remove_edge_ok:
  assumes wf: "wf_graph tg"
  shows "wf_graph (remove_edge from to tg)" "edges (remove_edge from to tg) \<subseteq> edges tg"
proof -
  let ?tg = "remove_edge from to tg" let ?i = "vindex tg from"
  have "wf_graph ?tg \<and> edges ?tg \<subseteq> edges tg"
  proof (cases "search_vertex tg from \<noteq> - 1 \<and> search_vertex tg to \<noteq> - 1")
    case False
    with wf show ?thesis by (auto simp: remove_edge_def Let_def)
  next
    case True
    note i = search_vertex_index [of tg "from"]
    have sub: "set (remove_first x vs) \<subseteq> set vs" for x vs by (induction x vs rule: remove_first.induct) auto
    have eq: "?tg = tg\<lparr>vertices := (vertices tg)[?i := (fst (vertices tg ! ?i), remove_first (sid to) (snd (vertices tg ! ?i)))]\<rparr>"
      using True by (simp add: remove_edge_def Let_def split_beta vindex_def)
    have i': "?i < length (vertices tg)" using i(2) True by simp
    have adj: "\<forall>v \<in> set (remove_first (sid to) (snd (vertices tg ! ?i))). search_vertex tg v \<noteq> - 1"
      using wf_child(1) [OF wf i'] sub by blast
    note upd = set_adj_ok [OF wf i' adj eq]
    have "{(?i, vindex tg v) | v. v \<in> set (remove_first (sid to) (snd (vertices tg ! ?i)))} \<subseteq> edges tg"
      using i' sub by (fastforce simp: edges_def)
    then show ?thesis using upd(1) unfolding upd(3) by blast
  qed
  then show "wf_graph ?tg" "edges ?tg \<subseteq> edges tg" by blast+
qed

end
