(* ===== verification/DeadlockProps.thy ===== *)
theory DeadlockProps
  imports DeadlockCorrect
begin

text \<open>
  The detector as a whole: the states the lock hooks can build, and what a check of such a
  state reports.
\<close>

section \<open>The hooks keep the graph well formed\<close>

lemma wf_graph_locks [simp]: "wf_graph (tg\<lparr>locklist := l\<rparr>) = wf_graph tg" "wf_graph (tg\<lparr>lock_idx := n\<rparr>) = wf_graph tg"
  by (simp_all add: wf_graph_def)

lemma add_degree_wf: "add_degree i d tg = Inr tg' \<Longrightarrow> wf_graph tg \<Longrightarrow> wf_graph tg'"
  by (auto simp: add_degree_def bind_res_Inr_iff split: if_splits)

lemma lock_before_at_wf:
  assumes "wf_graph tg" "lock_before_at tid l i tg = Inr tg'"
  shows "wf_graph tg'"
proof (cases "i < length (locklist tg) \<and> lock_id (locklist tg ! i) = l")
  case True
  let ?f = "process tid" and ?t = "process (sid (locklist tg ! i))"
  obtain tg1 tg2 tg3 where "add_vertex ?f tg = Inr tg1" "add_vertex ?t tg1 = Inr tg2" "add_degree i 1 tg2 = Inr tg3"
      "(if \<not> verify_edge ?f ?t tg3 then add_edge ?f ?t tg3 else Inr tg3) = Inr tg'"
    using assms(2) True by (simp add: lock_before_at_def Let_def bind_res_Inr_iff) blast
  moreover from this have "wf_graph tg3" using assms(1) add_vertex_ok(1) add_degree_wf by metis
  ultimately show ?thesis using add_edge_ok(1) [of tg3] by (simp split: if_splits)
next
  case False
  with assms show ?thesis by (auto simp: lock_before_at_def split: if_splits)
qed

lemma lock_before_from_wf: "wf_graph tg \<Longrightarrow> lock_before_from tid l is tg = Inr tg' \<Longrightarrow> wf_graph tg'"
  by (induction "is" arbitrary: tg) (auto simp: bind_res_Inr_iff dest: lock_before_at_wf)

lemma lock_after_wf:
  assumes "wf_graph tg" "lock_after tid l tg = Inr tg'"
  shows "wf_graph tg'"
proof -
  obtain i where i: "search_lock tg l = Inr i" using assms(2) by (auto simp: lock_after_def bind_res_Inr_iff)
  show ?thesis
  proof (cases "i = - 1")
    case True
    with assms i show ?thesis by (auto simp: lock_after_def bind_res_Inr_iff split: if_splits)
  next
    case False
    let ?f = "process tid" and ?t = "process (sid (locklist tg ! nat i))"
    obtain tg1 tg2 tg3 where tg: "add_vertex ?f tg = Inr tg1" "add_vertex ?t tg1 = Inr tg2" "add_degree (nat i) (- 1) tg2 = Inr tg3"
        "(let tg4 = if verify_edge ?f ?t tg3 then remove_edge ?f ?t tg3 else tg3
          in tg4\<lparr>locklist := (locklist tg4)[nat i := (locklist tg4 ! nat i)\<lparr>sid := tid\<rparr>]\<rparr>) = tg'"
      using assms(2) i False by (simp add: lock_after_def Let_def bind_res_Inr_iff) blast
    then have "wf_graph tg3" using assms(1) add_vertex_ok(1) add_degree_wf by metis
    then have "wf_graph (if verify_edge ?f ?t tg3 then remove_edge ?f ?t tg3 else tg3)"
      using remove_edge_ok(1) by simp
    then show ?thesis unfolding tg(4) [symmetric] Let_def by simp
  qed
qed

lemma unlock_after_wf: "wf_graph tg \<Longrightarrow> unlock_after tid l tg = Inr tg' \<Longrightarrow> wf_graph tg'"
  by (auto simp: unlock_after_def bind_res_Inr_iff split: if_splits)

text \<open>
  \<open>pthread_mutex_lock\<close> is \<open>lock_before\<close>, the real lock, which may wait, and \<open>lock_after\<close>;
  \<open>pthread_mutex_unlock\<close> ends with \<open>unlock_after\<close>. The hooks of different threads
  interleave.
\<close>

inductive hook_step :: "task_graph \<Rightarrow> task_graph \<Rightarrow> bool" where
  before: "lock_before tid l tg = Inr tg' \<Longrightarrow> hook_step tg tg'"
| after: "lock_after tid l tg = Inr tg' \<Longrightarrow> hook_step tg tg'"
| unlock: "unlock_after tid l tg = Inr tg' \<Longrightarrow> hook_step tg tg'"

definition hook_start :: "task_graph \<Rightarrow> bool" where
  "hook_start tg \<longleftrightarrow> (\<exists>garbage. tg = start_check garbage)"

lemma hook_step_wf: "hook_step tg tg' \<Longrightarrow> wf_graph tg \<Longrightarrow> wf_graph tg'"
  by (induction rule: hook_step.induct)
    (auto simp: lock_before_def intro: lock_before_from_wf lock_after_wf unlock_after_wf)

interpretation hooks: invariant_system hook_start hook_step wf_graph
proof
  show "wf_graph tg" if "hook_start tg" for tg
    using that by (auto simp: hook_start_def start_check_def wf_graph_def)
qed (rule hook_step_wf)

section \<open>Properties\<close>

text \<open>
  C27. On every graph the lock hooks build, the check returns, stays within its arrays of
  100 marks and 101 path entries, and reports a deadlock whenever the graph has a cycle.
\<close>

theorem deadlock_check_complete:
  assumes "hook_start tg0" "hook_step\<^sup>*\<^sup>* tg0 tg" "st_ok s"
  shows "\<exists>s'. check_dead_lock tg s = Some (Inr s') \<and> st_ok s' \<and> (\<not> acyclic (edges tg) \<longrightarrow> deadlock s')"
proof -
  have wf: "wf_graph tg" using hooks.inv_reachable [OF assms(1,2)] .
  have "st_ok (s\<lparr>deadlock := False\<rparr>)" using assms(3) by (simp add: st_ok_def)
  then obtain s' where "check_dead_lock tg s = Some (Inr s')" "st_ok s'"
      "\<not> deadlock s' \<longrightarrow> (\<forall>i < length (vertices tg). (i, i) \<notin> (edges tg)\<^sup>+)"
    using check_from_ok [OF wf, of "s\<lparr>deadlock := False\<rparr>" "[0 ..< length (vertices tg)]"]
    by (auto simp: check_dead_lock_def)
  with cyclic_vertex [OF wf] show ?thesis by blast
qed

declare DFS.simps [code]

text \<open>A state of the search, and two threads that each hold a lock the other waits for.\<close>

definition dfs0 :: dfs_state where
  "dfs0 = \<lparr>path = replicate 101 0, visited = replicate 100 False, k = 0, deadlock = False, printed = []\<rparr>"

definition abba :: "task_graph res" where
  "abba = bind_res (lock_after 1 10 (start_check (replicate 100 (process 0)))) (\<lambda>tg1.
          bind_res (lock_after 2 20 tg1) (\<lambda>tg2. bind_res (lock_before 1 20 tg2) (lock_before 2 10)))"

definition abba_graph :: task_graph where
  "abba_graph = (case abba of Inl _ \<Rightarrow> start_check [] | Inr tg \<Rightarrow> tg)"

lemma abba_returns: "abba = Inr abba_graph"
proof -
  have "returns abba" by code_simp
  then obtain tg where tg: "abba = Inr tg" by (auto simp: returns_iff)
  show ?thesis unfolding abba_graph_def tg by simp
qed

lemma abba_reached: "\<exists>tg0. hook_start tg0 \<and> hook_step\<^sup>*\<^sup>* tg0 abba_graph"
proof -
  let ?tg0 = "start_check (replicate 100 (process 0))"
  obtain tg1 tg2 tg3 where "lock_after 1 10 ?tg0 = Inr tg1" "lock_after 2 20 tg1 = Inr tg2"
      "lock_before 1 20 tg2 = Inr tg3" "lock_before 2 10 tg3 = Inr abba_graph"
    using abba_returns unfolding abba_def by (auto simp: bind_res_Inr_iff)
  then have "hook_step ?tg0 tg1" "hook_step tg1 tg2" "hook_step tg2 tg3" "hook_step tg3 abba_graph"
    by (auto intro: hook_step.intros)
  then have "hook_step\<^sup>*\<^sup>* ?tg0 abba_graph" by (meson rtranclp.rtrancl_refl rtranclp.rtrancl_into_rtrancl)
  moreover have "hook_start ?tg0" by (auto simp: hook_start_def)
  ultimately show ?thesis by blast
qed

lemma abba_cycle: "wf_graph abba_graph" "single_wait abba_graph" "\<not> acyclic (edges abba_graph)"
proof -
  show wf: "wf_graph abba_graph" using abba_reached hooks.inv_reachable by blast
  have v: "vertices abba_graph = [(process 1, [process 2]), (process 2, [process 1])]" by code_simp
  then show "single_wait abba_graph" by (simp add: single_wait_def)
  have "vindex abba_graph (process 2) = 1" "vindex abba_graph (process 1) = 0"
    by (simp_all add: vindex_def search_vertex_def v process_def same_vertex_def)
  then have "(0, 1) \<in> edges abba_graph" "(1, 0) \<in> edges abba_graph"
    using wf_child(2) [OF wf, of 0 "process 2"] wf_child(2) [OF wf, of 1 "process 1"] v by simp_all
  then have "(0, 0) \<in> (edges abba_graph)\<^sup>+" by (meson r_into_trancl trancl_trans)
  then show "\<not> acyclic (edges abba_graph)" by (auto simp: acyclic_def)
qed

lemma dfs0_ok: "st_ok dfs0"
  by (simp add: st_ok_def dfs0_def MAX_VERTEX_def)

theorem deadlock_check_complete_witness:
  "\<exists>tg0 s'. hook_start tg0 \<and> hook_step\<^sup>*\<^sup>* tg0 abba_graph \<and> st_ok dfs0 \<and> \<not> acyclic (edges abba_graph)
     \<and> check_dead_lock abba_graph dfs0 = Some (Inr s') \<and> deadlock s'"
proof -
  obtain tg0 where tg0: "hook_start tg0" "hook_step\<^sup>*\<^sup>* tg0 abba_graph" using abba_reached by blast
  with deadlock_check_complete [OF tg0 dfs0_ok] abba_cycle(3) dfs0_ok show ?thesis by blast
qed

text \<open>
  C28. Where every vertex waits for at most one other, the check is exact: it reports a
  deadlock if and only if the graph has a cycle.
\<close>

theorem deadlock_check_exact:
  assumes "hook_start tg0" "hook_step\<^sup>*\<^sup>* tg0 tg" "single_wait tg" "st_ok s"
  shows "\<exists>s'. check_dead_lock tg s = Some (Inr s') \<and> (deadlock s' \<longleftrightarrow> \<not> acyclic (edges tg))"
proof -
  have wf: "wf_graph tg" using hooks.inv_reachable [OF assms(1,2)] .
  let ?s = "s\<lparr>deadlock := False\<rparr>"
  have s: "st_ok ?s" "\<not> deadlock ?s" using assms(4) by (simp_all add: st_ok_def)
  obtain s' where s': "check_dead_lock tg s = Some (Inr s')"
      "\<not> deadlock s' \<longrightarrow> (\<forall>i < length (vertices tg). (i, i) \<notin> (edges tg)\<^sup>+)"
    using check_from_ok [OF wf s(1), of "[0 ..< length (vertices tg)]"] by (auto simp: check_dead_lock_def)
  have "\<not> acyclic (edges tg)" if "deadlock s'"
    using check_from_sound [OF wf assms(3) s, of "[0 ..< length (vertices tg)]" s'] s'(1) that
    by (auto simp: check_dead_lock_def acyclic_def)
  with s' cyclic_vertex [OF wf] show ?thesis by blast
qed

theorem deadlock_check_exact_witness:
  "\<exists>tg0 s'. hook_start tg0 \<and> hook_step\<^sup>*\<^sup>* tg0 abba_graph \<and> single_wait abba_graph
     \<and> check_dead_lock abba_graph dfs0 = Some (Inr s') \<and> deadlock s'"
proof -
  obtain tg0 where tg0: "hook_start tg0" "hook_step\<^sup>*\<^sup>* tg0 abba_graph" using abba_reached by blast
  with deadlock_check_exact [OF tg0 abba_cycle(2) dfs0_ok] abba_cycle(2,3) show ?thesis by blast
qed

text \<open>
  The graph operations: \<open>add_edge\<close> adds exactly the edge between the two vertices,
  which \<open>verify_edge\<close> then finds, and \<open>remove_edge\<close> adds none and keeps the graph well formed.
\<close>

theorem graph_edge_operations:
  assumes "wf_graph tg" "add_edge x y tg = Inr tg'"
  shows "wf_graph tg' \<and> edges tg' = insert (vindex tg' x, vindex tg' y) (edges tg) \<and> verify_edge x y tg'
    \<and> wf_graph (remove_edge x y tg') \<and> edges (remove_edge x y tg') \<subseteq> edges tg'"
proof -
  note add = add_edge_ok [OF assms]
  have i: "vindex tg' x < length (vertices tg')" "search_vertex tg' x = int (vindex tg' x)"
    using search_vertex_index [OF add(3)] by blast+
  obtain tg1 tg2 where tg12: "add_vertex x tg = Inr tg1" "add_vertex y tg1 = Inr tg2"
    using assms(2) by (auto simp: add_edge_def bind_res_Inr_iff)
  have "y \<in> set (snd (vertices tg' ! vindex tg' x))"
  proof -
    note a1 = add_vertex_ok [OF assms(1) tg12(1)] and a2 = add_vertex_ok [OF add_vertex_ok(1) [OF assms(1) tg12(1)] tg12(2)]
    have "search_vertex tg2 x \<noteq> - 1" using a1(2) a2(4) by simp
    note j = search_vertex_index [OF this]
    have eq: "tg' = tg2\<lparr>vertices := (vertices tg2)[vindex tg2 x := (fst (vertices tg2 ! vindex tg2 x), snd (vertices tg2 ! vindex tg2 x) @ [y])]\<rparr>"
      using assms(2) tg12 j by (auto simp: add_edge_def Let_def split_beta)
    moreover have "vindex tg' x = vindex tg2 x"
      unfolding vindex_def eq using j by (subst search_vertex_adj) simp_all
    ultimately show ?thesis using j by simp
  qed
  then have "verify_edge x y tg'"
    using i by (auto simp: verify_edge_def Let_def split_beta list_ex_iff)
  with add remove_edge_ok [OF add(1), of x y] show ?thesis by blast
qed

theorem graph_edge_operations_witness:
  "wf_graph abba_graph \<and> (\<exists>tg'. add_edge (process 3) (process 1) abba_graph = Inr tg' \<and> verify_edge (process 3) (process 1) tg')"
proof -
  have "returns (add_edge (process 3) (process 1) abba_graph)" by code_simp
  then obtain tg' where tg': "add_edge (process 3) (process 1) abba_graph = Inr tg'" by (auto simp: returns_iff)
  with graph_edge_operations [OF abba_cycle(1) tg'] abba_cycle(1) show ?thesis by blast
qed

section \<open>What the detector gets wrong\<close>

text \<open>Two waits that meet at one thread are reported although nothing is cyclic.\<close>

definition diamond :: task_graph where
  "diamond = \<lparr>vertices = [(process 1, [process 2]), (process 2, [process 3, process 4]), (process 3, [process 5]),
     (process 4, [process 5]), (process 5, [])], locklist = [], lock_idx = 0\<rparr>"

definition flagged :: "dfs_state res option \<Rightarrow> bool" where
  "flagged r = (case r of Some (Inr s) \<Rightarrow> deadlock s | _ \<Rightarrow> False)"

lemma diamond_false_alarm: "acyclic (edges diamond)" "flagged (check_dead_lock diamond dfs0)"
proof -
  show "acyclic (edges diamond)"
  proof (rule acyclicI_order [where f = "\<lambda>i. 5 - i"])
    fix i j assume "(i, j) \<in> edges diamond"
    then show "5 - j < 5 - i"
      by (auto simp: edges_def vindex_def search_vertex_def diamond_def process_def same_vertex_def less_Suc_eq nth_Cons')
  qed
  show "flagged (check_dead_lock diamond dfs0)" by code_simp
qed

text \<open>
  A thread that waits for a lock it holds itself gets no edge: \<open>verify_edge\<close> compares the
  vertex with itself first, so this deadlock is never seen.
\<close>

lemma self_wait_unseen:
  assumes "search_vertex tg (process t) \<noteq> - 1"
  shows "verify_edge (process t) (process t) tg"
proof -
  note i = search_vertex_index [OF assms]
  have "sid (fst (vertices tg ! vindex tg (process t))) = t"
  proof -
    have "search_from n x vs \<noteq> - 1 \<Longrightarrow> sid (fst (vs ! nat (search_from n x vs - int n))) = sid x" for n x vs
    proof (induction n x vs rule: search_from.induct)
      case (2 n x s adj vs)
      show ?case
      proof (cases "same_vertex s x")
        case False
        then have "search_from (Suc n) x vs \<noteq> - 1" using 2(2) by simp
        then have "nat (search_from (Suc n) x vs - int n) = Suc (nat (search_from (Suc n) x vs - int (Suc n)))"
          using search_from_range [of "Suc n" x vs] by auto
        with 2 False show ?thesis by simp
      qed (simp add: same_vertex_def)
    qed simp
    from this [of 0 "process t" "vertices tg"] assms show ?thesis
      by (simp add: search_vertex_def vindex_def process_def)
  qed
  then have "sid (fst (vertices tg ! vindex tg (process t))) = sid (process t)" by (simp add: process_def)
  with i show ?thesis by (auto simp: verify_edge_def Let_def split_beta)
qed

text \<open>
  \<open>lock_after\<close> counts \<open>lock_idx\<close> up even when it uses a free slot again, so the scans run past
  the lock list in the end.
\<close>

lemma search_lock_past_end:
  assumes "lock_idx tg > length (locklist tg)" "\<forall>s \<in> set (locklist tg). lock_id s \<noteq> l"
  shows "search_lock tg l = Inl OutOfBounds"
proof -
  have "search_lock_in l (locklist tg) [i ..< lock_idx tg] = Inl OutOfBounds" if "i \<le> length (locklist tg)" for i
    using that
  proof (induction "length (locklist tg) - i" arbitrary: i)
    case 0
    then show ?case using assms(1) by (simp add: upt_conv_Cons)
  next
    case (Suc d)
    then have "search_lock_in l (locklist tg) [Suc i ..< lock_idx tg] = Inl OutOfBounds" by simp
    with Suc assms show ?case by (simp add: upt_conv_Cons)
  qed
  from this [of 0] show ?thesis by (simp add: search_lock_def)
qed

lemma lock_idx_grows:
  assumes "lock_after t l tg = Inr tg'" "search_lock tg l = Inr (- 1)"
  shows "lock_idx tg' = lock_idx tg + 1"
  using assms by (auto simp: lock_after_def bind_res_Inr_iff split: if_splits)

end
