(* ===== verification/CJsonDouble.thy ===== *)
theory CJsonDouble
  imports Prelude
begin

text \<open>
  What cJSON uses of the C library's floating-point support, for IEEE 754 binary64 and the
  "C" locale: the values of type \<open>double\<close>, the comparisons and the conversion to
  \<open>int\<close>, \<open>strtod\<close> (decimal, rounding to nearest, ties to even) and the conversions
  \<open>%1.15g\<close> and \<open>%1.17g\<close> of \<open>sprintf\<close>. Everything is computed exactly on integers.
\<close>

section \<open>Bytes of character literals\<close>

definition byte :: "char \<Rightarrow> u8" where
  "byte c = of_char c"

definition bytes :: "string \<Rightarrow> u8 list" where
  "bytes s = map byte s"

lemma byte_Char [simp]:
  "byte (Char b0 b1 b2 b3 b4 b5 b6 b7) =
     word_of_nat (horner_sum of_bool 2 [b0, b1, b2, b3, b4, b5, b6, b7])"
  by (simp add: byte_def of_char_def)

lemma bytes_simps [simp]: "bytes [] = []" "bytes (c # s) = byte c # bytes s"
  by (simp_all add: bytes_def)

section \<open>Values\<close>

text \<open>
  \<open>Finite s m e\<close> is \<open>m * 2 ^ e\<close>, negative when \<open>s\<close>; the significand and the exponent of a
  \<open>double\<close> are the ones \<open>double_ok\<close> allows, so that every value but zero has one form.
\<close>

datatype double = Finite bool nat int | Infinite bool | NotANumber

definition double_ok :: "double \<Rightarrow> bool" where
  "double_ok d = (case d of
     Finite s m e \<Rightarrow> m < 2 ^ 53 \<and> -1074 \<le> e \<and> e \<le> 971 \<and> (2 ^ 52 \<le> m \<or> e = -1074)
   | _ \<Rightarrow> True)"

definition double_zero :: double where
  "double_zero = Finite False 0 (-1074)"

text \<open>The value of a finite number as a fraction.\<close>

definition numer :: "nat \<Rightarrow> int \<Rightarrow> nat" where
  "numer m e = (if 0 \<le> e then m * 2 ^ nat e else m)"

definition denom :: "int \<Rightarrow> nat" where
  "denom e = (if 0 \<le> e then 1 else 2 ^ nat (- e))"

text \<open>\<open>a == b\<close>: a NaN differs from everything, the two zeros are equal.\<close>

fun double_eq :: "double \<Rightarrow> double \<Rightarrow> bool" where
  "double_eq (Finite s m e) (Finite t n f) =
     (if m = 0 \<or> n = 0 then m = n else s = t \<and> m = n \<and> e = f)"
| "double_eq (Infinite s) (Infinite t) = (s = t)"
| "double_eq _ _ = False"

text \<open>\<open>d >= k\<close> and \<open>d <= k\<close> for an integer \<open>k\<close>.\<close>

definition signed :: "bool \<Rightarrow> nat \<Rightarrow> int" where
  "signed s n = (if s then - int n else int n)"

fun double_ge_int :: "double \<Rightarrow> int \<Rightarrow> bool" where
  "double_ge_int (Finite s m e) k = (k * int (denom e) \<le> signed s (numer m e))"
| "double_ge_int (Infinite s) k = (\<not> s)"
| "double_ge_int NotANumber k = False"

fun double_le_int :: "double \<Rightarrow> int \<Rightarrow> bool" where
  "double_le_int (Finite s m e) k = (signed s (numer m e) \<le> k * int (denom e))"
| "double_le_int (Infinite s) k = s"
| "double_le_int NotANumber k = False"

text \<open>\<open>(int)d\<close>: truncation; a value whose integral part is no \<open>int\<close> is undefined behaviour.\<close>

fun double_to_int :: "double \<Rightarrow> int res" where
  "double_to_int (Finite s m e) =
     (let k = signed s (numer m e div denom e) in
      if int_fits k then Inr k else Inl SignedOverflow)"
| "double_to_int _ = Inl SignedOverflow"

text \<open>\<open>d * 0 != 0\<close>: a finite number times zero is a zero, an infinity or a NaN gives a NaN.\<close>

fun times_zero_differs :: "double \<Rightarrow> bool" where
  "times_zero_differs (Finite s m e) = False"
| "times_zero_differs _ = True"

section \<open>Rounding\<close>

definition div_half_even :: "nat \<Rightarrow> nat \<Rightarrow> nat" where
  "div_half_even p q =
     (let d = p div q; r = p mod q in
      if 2 * r < q \<or> 2 * r = q \<and> even d then d else d + 1)"

text \<open>The integral part of a logarithm, of a number and of a fraction.\<close>

fun log_nat :: "nat \<Rightarrow> nat \<Rightarrow> nat" where
  "log_nat b n = (if b < 2 \<or> n < b then 0 else Suc (log_nat b (n div b)))"

declare log_nat.simps [simp del]

definition scale_up :: "nat \<Rightarrow> int \<Rightarrow> nat" where
  "scale_up b e = (if 0 \<le> e then b ^ nat e else 1)"

definition log_ratio :: "nat \<Rightarrow> nat \<Rightarrow> nat \<Rightarrow> int" where
  "log_ratio b p q =
     (let l = int (log_nat b p) - int (log_nat b q) in
      if q * scale_up b l \<le> p * scale_up b (- l) then l else l - 1)"

text \<open>The nearest \<open>double\<close> to \<open>p / q\<close>; \<open>HUGE_VAL\<close> when it is out of range.\<close>

definition double_of_ratio :: "bool \<Rightarrow> nat \<Rightarrow> nat \<Rightarrow> double" where
  "double_of_ratio s p q =
     (if p = 0 then Finite s 0 (-1074)
      else let e = max (-1074) (log_ratio 2 p q - 52);
               m = div_half_even (p * scale_up 2 (- e)) (q * scale_up 2 e);
               (m, e) = (if m = 2 ^ 53 then (2 ^ 52, e + 1) else (m, e))
           in if 971 < e then Infinite s else Finite s m e)"

definition double_of_int :: "int \<Rightarrow> double" where
  "double_of_int k = double_of_ratio (k < 0) (nat \<bar>k\<bar>) 1"

section \<open>\<open>strtod\<close>\<close>

definition is_digit :: "u8 \<Rightarrow> bool" where
  "is_digit c = (byte (CHR ''0'') \<le> c \<and> c \<le> byte (CHR ''9''))"

definition digit_value :: "u8 \<Rightarrow> nat" where
  "digit_value c = unat c - 48"

definition decimal_value :: "u8 list \<Rightarrow> nat" where
  "decimal_value ds = foldl (\<lambda>n c. 10 * n + digit_value c) 0 ds"

definition take_sign :: "u8 list \<Rightarrow> bool \<times> u8 list" where
  "take_sign s = (case s of
     c # t \<Rightarrow> if c = byte (CHR ''-'') then (True, t)
              else if c = byte (CHR ''+'') then (False, t) else (False, s)
   | [] \<Rightarrow> (False, []))"

text \<open>
  The exponent part, when the text at hand begins with a complete one:
  its value and what follows it.
\<close>

definition take_exponent :: "u8 list \<Rightarrow> int \<times> u8 list" where
  "take_exponent s = (case s of
     c # t \<Rightarrow>
       if c = byte (CHR ''e'') \<or> c = byte (CHR ''E'') then
         let (neg, u) = take_sign t; ds = takeWhile is_digit u in
         if ds = [] then (0, s)
         else (signed neg (decimal_value ds), dropWhile is_digit u)
       else (0, s)
   | [] \<Rightarrow> (0, []))"

text \<open>
  \<open>strtod s\<close> for a text of digits, signs, points and exponent letters: the value
  and the number of bytes consumed, no byte when the text does not begin with a number.
\<close>

definition strtod :: "u8 list \<Rightarrow> double \<times> nat" where
  "strtod s =
     (let (neg, t) = take_sign s;
          ip = takeWhile is_digit t; u = dropWhile is_digit t;
          (fp, v) = (case u of
                       c # w \<Rightarrow> if c = byte (CHR ''.'') \<and> (ip \<noteq> [] \<or> takeWhile is_digit w \<noteq> [])
                                then (takeWhile is_digit w, dropWhile is_digit w) else ([], u)
                     | [] \<Rightarrow> ([], []))
      in if ip = [] \<and> fp = [] then (double_zero, 0)
         else let (x, w) = take_exponent v;
                  k = x - int (length fp)
              in (double_of_ratio neg (decimal_value (ip @ fp) * scale_up 10 k) (scale_up 10 (- k)),
                  length s - length w))"

section \<open>\<open>%.<P>g\<close>\<close>

fun decimal_digits :: "nat \<Rightarrow> u8 list" where
  "decimal_digits n =
     (if n < 10 then [word_of_nat (48 + n)]
      else decimal_digits (n div 10) @ [word_of_nat (48 + n mod 10)])"

declare decimal_digits.simps [simp del]

definition strip_zeros :: "u8 list \<Rightarrow> u8 list" where
  "strip_zeros ds = rev (dropWhile (\<lambda>c. c = byte (CHR ''0'')) (rev ds))"

definition with_fraction :: "u8 list \<Rightarrow> u8 list \<Rightarrow> u8 list" where
  "with_fraction ip fp =
     ip @ (if strip_zeros fp = [] then [] else byte (CHR ''.'') # strip_zeros fp)"

definition exponent_text :: "int \<Rightarrow> u8 list" where
  "exponent_text x =
     byte (CHR ''e'') # byte (if x < 0 then CHR ''-'' else CHR ''+'') #
     (if \<bar>x\<bar> < 10 then [byte (CHR ''0'')] else []) @ decimal_digits (nat \<bar>x\<bar>)"

text \<open>The \<open>P\<close> significant decimal digits of \<open>p / q\<close>, as a number, and the decimal exponent.\<close>

definition significant :: "nat \<Rightarrow> nat \<Rightarrow> nat \<Rightarrow> nat \<times> int" where
  "significant P p q =
     (let x = log_ratio 10 p q;
          k = int P - 1 - x;
          d = div_half_even (p * scale_up 10 k) (q * scale_up 10 (- k))
      in if d = 10 ^ P then (10 ^ (P - 1), x + 1) else (d, x))"

definition format_g :: "nat \<Rightarrow> double \<Rightarrow> u8 list" where
  "format_g P d = (case d of
     Finite s m e \<Rightarrow>
       (if s then [byte (CHR ''-'')] else []) @
       (if m = 0 then [byte (CHR ''0'')]
        else let (n, x) = significant P (numer m e) (denom e);
                 ds = decimal_digits n
             in if -4 \<le> x \<and> x < int P then
                  (if 0 \<le> x then with_fraction (take (nat x + 1) ds) (drop (nat x + 1) ds)
                   else with_fraction [byte (CHR ''0'')]
                          (replicate (nat (- x) - 1) (byte (CHR ''0'')) @ ds))
                else with_fraction (take 1 ds) (drop 1 ds) @ exponent_text x)
   | Infinite s \<Rightarrow> (if s then [byte (CHR ''-'')] else []) @ bytes ''inf''
   | NotANumber \<Rightarrow> bytes ''nan'')"

end
