(* ===== verification/CJsonBase.thy ===== *)
theory CJsonBase
  imports CJsonDouble
begin

text \<open>
  The data model of cJSON (\<open>cJSON.h\<close>, \<open>cJSON.c\<close>): items, the allocator behind the hooks, the
  buffers the parser reads and the printer writes, and the C-string helpers.

  The parser and the printer work on items that form a tree: the field \<open>child\<close> is the list of
  the items chained by \<open>next\<close> and \<open>prev\<close> from the first child on. (The operations that
  rewire the chain are modelled on a heap of linked items in another theory.) A C string is
  the list of its bytes without the terminating zero; an absent one is \<open>None\<close>.
\<close>

section \<open>Item types\<close>

abbreviation (input) "cJSON_Invalid \<equiv> 0 :: int"
abbreviation (input) "cJSON_False \<equiv> 1 :: int"
abbreviation (input) "cJSON_True \<equiv> 2 :: int"
abbreviation (input) "cJSON_NULL \<equiv> 4 :: int"
abbreviation (input) "cJSON_Number \<equiv> 8 :: int"
abbreviation (input) "cJSON_String \<equiv> 16 :: int"
abbreviation (input) "cJSON_Array \<equiv> 32 :: int"
abbreviation (input) "cJSON_Object \<equiv> 64 :: int"
abbreviation (input) "cJSON_Raw \<equiv> 128 :: int"
abbreviation (input) "cJSON_IsReference \<equiv> 256 :: int"
abbreviation (input) "cJSON_StringIsConst \<equiv> 512 :: int"

abbreviation (input) "INT_MAX \<equiv> 2147483647 :: int"
abbreviation (input) "INT_MIN \<equiv> - 2147483648 :: int"
abbreviation (input) "CJSON_NESTING_LIMIT \<equiv> 1000 :: nat"

type_synonym cstr = "u8 list"

section \<open>Items\<close>

datatype cJSON = CJSON (ctype: int) (valuestring: "cstr option") (valueint: int)
  (valuedouble: double) (cstring: "cstr option") (child: "cJSON list")

primrec set_ctype :: "int \<Rightarrow> cJSON \<Rightarrow> cJSON" where
  "set_ctype t (CJSON t' v i d s c) = CJSON t v i d s c"
primrec set_valuestring :: "cstr option \<Rightarrow> cJSON \<Rightarrow> cJSON" where
  "set_valuestring v (CJSON t v' i d s c) = CJSON t v i d s c"
primrec set_valueint :: "int \<Rightarrow> cJSON \<Rightarrow> cJSON" where
  "set_valueint i (CJSON t v i' d s c) = CJSON t v i d s c"
primrec set_valuedouble :: "double \<Rightarrow> cJSON \<Rightarrow> cJSON" where
  "set_valuedouble d (CJSON t v i d' s c) = CJSON t v i d s c"
primrec set_cstring :: "cstr option \<Rightarrow> cJSON \<Rightarrow> cJSON" where
  "set_cstring s (CJSON t v i d s' c) = CJSON t v i d s c"
primrec set_child :: "cJSON list \<Rightarrow> cJSON \<Rightarrow> cJSON" where
  "set_child c (CJSON t v i d s c') = CJSON t v i d s c"

text \<open>What \<open>memset(node, 0, sizeof(cJSON))\<close> leaves.\<close>

definition null_item :: cJSON where
  "null_item = CJSON cJSON_Invalid None 0 double_zero None []"

section \<open>The allocator\<close>

text \<open>
  The functions behind the hooks: whether the \<open>n\<close>-th request, of a given size, is granted;
  whether \<open>reallocate\<close> is set; what a fresh block holds; how many requests there were; and
  how many more blocks were handed out than given back.
\<close>

record internal_hooks =
  grants :: "nat \<Rightarrow> nat \<Rightarrow> bool"
  has_reallocate :: bool
  fill :: u8
  requests :: nat
  live :: int

definition allocate :: "internal_hooks \<Rightarrow> nat \<Rightarrow> internal_hooks \<times> u8 list option" where
  "allocate h n =
     (if grants h (requests h) n
      then (h\<lparr>requests := Suc (requests h), live := live h + 1\<rparr>, Some (replicate n (fill h)))
      else (h\<lparr>requests := Suc (requests h)\<rparr>, None))"

definition deallocate :: "internal_hooks \<Rightarrow> internal_hooks" where
  "deallocate h = h\<lparr>live := live h - 1\<rparr>"

text \<open>\<open>realloc\<close> of a block to a size: its contents are kept as far as they fit.\<close>

definition reallocate :: "internal_hooks \<Rightarrow> u8 list \<Rightarrow> nat \<Rightarrow> internal_hooks \<times> u8 list option" where
  "reallocate h blk n =
     (if grants h (requests h) n
      then (h\<lparr>requests := Suc (requests h)\<rparr>,
            Some (take n blk @ replicate (n - length blk) (fill h)))
      else (h\<lparr>requests := Suc (requests h)\<rparr>, None))"

definition always_grants :: "internal_hooks \<Rightarrow> bool" where
  "always_grants h \<longleftrightarrow> grants h = (\<lambda>_ _. True)"

text \<open>On the platforms of interest a \<open>cJSON\<close> takes 64 bytes.\<close>

definition cJSON_New_Item :: "internal_hooks \<Rightarrow> internal_hooks \<times> cJSON option" where
  "cJSON_New_Item h =
     (case allocate h 64 of
        (h', None) \<Rightarrow> (h', None)
      | (h', Some node) \<Rightarrow> (h', Some null_item))"

definition cJSON_strdup :: "internal_hooks \<Rightarrow> cstr option \<Rightarrow> internal_hooks \<times> cstr option" where
  "cJSON_strdup h s =
     (case s of
        None \<Rightarrow> (h, None)
      | Some str \<Rightarrow>
          (case allocate h (length str + 1) of
             (h', None) \<Rightarrow> (h', None)
           | (h', Some copy) \<Rightarrow> (h', Some str)))"

text \<open>\<open>cJSON_Delete\<close> on a chain of items: every item gives back what it owns, then itself.\<close>

fun cJSON_Delete :: "cJSON list \<Rightarrow> internal_hooks \<Rightarrow> internal_hooks" where
  "cJSON_Delete [] h = h"
| "cJSON_Delete (CJSON t v i d s c # next_items) h =
     (let h = (if t AND cJSON_IsReference = 0 \<and> c \<noteq> [] then cJSON_Delete c h else h);
          h = (if t AND cJSON_IsReference = 0 \<and> v \<noteq> None then deallocate h else h);
          h = (if t AND cJSON_StringIsConst = 0 \<and> s \<noteq> None then deallocate h else h);
          h = deallocate h
      in cJSON_Delete next_items h)"

section \<open>C strings\<close>

definition tolower :: "u8 \<Rightarrow> u8" where
  "tolower c = (if 65 \<le> c \<and> c \<le> 90 then c + 32 else c)"

text \<open>The byte of a C string at an index, the terminating zero included.\<close>

definition cstr_at :: "cstr \<Rightarrow> nat \<Rightarrow> u8" where
  "cstr_at s i = (if i < length s then s ! i else 0)"

text \<open>The strings are the remaining bytes at the two pointers.\<close>

fun strcasecmp_loop :: "cstr \<Rightarrow> cstr \<Rightarrow> int" where
  "strcasecmp_loop (a # s) (b # t) =
     (if tolower a = tolower b then strcasecmp_loop s t
      else int (unat (tolower a)) - int (unat (tolower b)))"
| "strcasecmp_loop [] [] = 0"
| "strcasecmp_loop [] (b # t) = 0 - int (unat (tolower b))"
| "strcasecmp_loop (a # s) [] = int (unat (tolower a)) - 0"

definition case_insensitive_strcmp :: "cstr option \<Rightarrow> cstr option \<Rightarrow> int" where
  "case_insensitive_strcmp string1 string2 =
     (case (string1, string2) of
        (Some s, Some t) \<Rightarrow> strcasecmp_loop s t
      | _ \<Rightarrow> 1)"

section \<open>The parse buffer\<close>

record parse_buffer =
  pb_content :: "u8 list"
  pb_length :: nat
  pb_offset :: nat
  pb_depth :: nat
  pb_hooks :: internal_hooks

definition rd :: "u8 list \<Rightarrow> nat \<Rightarrow> u8 res" where
  "rd c i = (if i < length c then Inr (c ! i) else Inl OutOfBounds)"

definition wr :: "u8 list \<Rightarrow> nat \<Rightarrow> u8 \<Rightarrow> u8 list res" where
  "wr c i v = (if i < length c then Inr (c[i := v]) else Inl OutOfBounds)"

definition can_read :: "parse_buffer \<Rightarrow> nat \<Rightarrow> bool" where
  "can_read b n = (pb_offset b + n \<le> pb_length b)"

definition can_access_at_index :: "parse_buffer \<Rightarrow> nat \<Rightarrow> bool" where
  "can_access_at_index b i = (pb_offset b + i < pb_length b)"

definition at_offset :: "parse_buffer \<Rightarrow> nat \<Rightarrow> u8 res" where
  "at_offset b i = rd (pb_content b) (pb_offset b + i)"

abbreviation set_offset :: "nat \<Rightarrow> parse_buffer \<Rightarrow> parse_buffer" where
  "set_offset n b \<equiv> b\<lparr>pb_offset := n\<rparr>"

text \<open>A \<open>size_t\<close> that is decremented wraps below zero.\<close>

definition size_dec :: "nat \<Rightarrow> nat" where
  "size_dec n = (if n = 0 then 2 ^ 64 - 1 else n - 1)"

end
