(* ===== verification/CJsonString.thy ===== *)
theory CJsonString
  imports CJsonBase
begin

text \<open>
  String literals of cJSON: \<open>parse_hex4\<close>, \<open>utf16_literal_to_utf8\<close> and \<open>parse_string\<close>
  (\<open>cJSON.c\<close>), with every read of the input and every write of the output checked against
  the block it goes to. Pointers into the input are indices into its contents.
\<close>

section \<open>Escaped characters\<close>

function parse_hex4_loop :: "u8 list \<Rightarrow> nat \<Rightarrow> nat \<Rightarrow> u32 \<Rightarrow> u32 res" where
  "parse_hex4_loop inp p i h =
     (if i < 4 then
        bind_res (rd inp (p + i)) (\<lambda>c.
          let digit =
            (if byte (CHR ''0'') \<le> c \<and> c \<le> byte (CHR ''9'') then Some (ucast c - 48)
             else if byte (CHR ''A'') \<le> c \<and> c \<le> byte (CHR ''F'') then Some (10 + ucast c - 65)
             else if byte (CHR ''a'') \<le> c \<and> c \<le> byte (CHR ''f'') then Some (10 + ucast c - 97)
             else None)
          in case digit of
               None \<Rightarrow> Inr 0
             | Some v \<Rightarrow>
                 (let h = h + v;
                      h = (if i < 3 then push_bit 4 h else h)
                  in parse_hex4_loop inp p (i + 1) h))
      else Inr h)"
  by pat_completeness auto
termination by (relation "measure (\<lambda>(inp, p, i, h). 4 - i)") auto

declare parse_hex4_loop.simps [simp del]

definition parse_hex4 :: "u8 list \<Rightarrow> nat \<Rightarrow> u32 res" where
  "parse_hex4 inp p = parse_hex4_loop inp p 0 0"

text \<open>
  The loop that writes the continuation bytes, from the last one down; it returns what is
  left of the code point.
\<close>

primrec utf8_continuation :: "nat \<Rightarrow> u64 \<Rightarrow> u8 list \<Rightarrow> nat \<Rightarrow> (u64 \<times> u8 list) res" where
  "utf8_continuation 0 codepoint out op = Inr (codepoint, out)"
| "utf8_continuation (Suc n) codepoint out op =
     bind_res (wr out (op + Suc n) (ucast ((codepoint OR 0x80) AND 0xBF))) (\<lambda>out.
     utf8_continuation n (drop_bit 6 codepoint) out op)"

text \<open>
  The first half of \<open>utf16_literal_to_utf8\<close>: the length of the literal and its code point,
  \<open>None\<close> where the code goes to \<open>fail\<close>.
\<close>

definition utf16_codepoint :: "u8 list \<Rightarrow> nat \<Rightarrow> nat \<Rightarrow> (nat \<times> u64) option res" where
  "utf16_codepoint inp input_pointer input_end =
     (let first_sequence = input_pointer in
      if int input_end - int first_sequence < 6 then Inr None
      else
        bind_res (parse_hex4 inp (first_sequence + 2)) (\<lambda>first_code.
        if 0xDC00 \<le> first_code \<and> first_code \<le> 0xDFFF then Inr None
        else if 0xD800 \<le> first_code \<and> first_code \<le> 0xDBFF then
          let second_sequence = first_sequence + 6 in
          if int input_end - int second_sequence < 6 then Inr None
          else
            bind_res (rd inp second_sequence) (\<lambda>c0.
            bind_res (rd inp (second_sequence + 1)) (\<lambda>c1.
            if c0 \<noteq> byte (CHR 0x5C) \<or> c1 \<noteq> byte (CHR ''u'') then Inr None
            else
              bind_res (parse_hex4 inp (second_sequence + 2)) (\<lambda>second_code.
              if second_code < 0xDC00 \<or> 0xDFFF < second_code then Inr None
              else Inr (Some (12, ucast (0x10000 + (push_bit 10 (first_code AND 0x3FF)
                                                    OR (second_code AND 0x3FF))))))))
        else Inr (Some (6, ucast first_code))))"

text \<open>
  The second half: the number of input bytes used, zero when the literal is not valid,
  with the output block and the output pointer.
\<close>

definition utf16_literal_to_utf8 ::
  "u8 list \<Rightarrow> nat \<Rightarrow> nat \<Rightarrow> u8 list \<Rightarrow> nat \<Rightarrow> (nat \<times> u8 list \<times> nat) res" where
  "utf16_literal_to_utf8 inp input_pointer input_end out op =
     bind_res (utf16_codepoint inp input_pointer input_end) (\<lambda>decoded.
     case decoded of
       None \<Rightarrow> Inr (0, out, op)
     | Some (sequence_length, codepoint) \<Rightarrow>
         let encoding =
           (if codepoint < 0x80 then Some (1, 0)
            else if codepoint < 0x800 then Some (2, 0xC0)
            else if codepoint < 0x10000 then Some (3, 0xE0)
            else if codepoint \<le> 0x10FFFF then Some (4, 0xF0)
            else None)
         in case encoding of
              None \<Rightarrow> Inr (0, out, op)
            | Some (utf8_length, first_byte_mark) \<Rightarrow>
                bind_res (utf8_continuation (utf8_length - 1) (codepoint :: u64) out op)
                  (\<lambda>(codepoint, out).
                bind_res
                  (wr out op (if 1 < utf8_length
                              then ucast ((codepoint OR first_byte_mark) AND 0xFF)
                              else ucast (codepoint AND 0x7F))) (\<lambda>out.
                Inr (sequence_length, out, op + utf8_length))))"

section \<open>\<open>parse_string\<close>\<close>

text \<open>
  The search for the closing quote: the end and the number of skipped bytes, or \<open>None\<close> when
  the input ends within the literal.
\<close>

function string_end :: "u8 list \<Rightarrow> nat \<Rightarrow> nat \<Rightarrow> nat \<Rightarrow> (nat \<times> nat) option res" where
  "string_end content len input_end skipped_bytes =
     (if input_end < len then
        bind_res (rd content input_end) (\<lambda>c.
        if c = byte (CHR 0x22) then Inr (Some (input_end, skipped_bytes))
        else if c = byte (CHR 0x5C) then
          (if len \<le> input_end + 1 then Inr None
           else string_end content len (input_end + 2) (skipped_bytes + 1))
        else string_end content len (input_end + 1) skipped_bytes)
      else Inr None)"
  by pat_completeness auto
termination by (relation "measure (\<lambda>(content, len, e, s). len - e)") auto

declare string_end.simps [simp del]

text \<open>
  The loop through the literal: \<open>Inl\<close> the input pointer at which it failed, or \<open>Inr\<close> the
  final output pointer; with the output block.
\<close>

definition escape_byte :: "u8 \<Rightarrow> u8 option" where
  "escape_byte c =
     (if c = byte (CHR ''b'') then Some 8
      else if c = byte (CHR ''f'') then Some 12
      else if c = byte (CHR ''n'') then Some 10
      else if c = byte (CHR ''r'') then Some 13
      else if c = byte (CHR ''t'') then Some 9
      else if c = byte (CHR 0x22) \<or> c = byte (CHR 0x5C) \<or> c = byte (CHR ''/'') then Some c
      else None)"

function unescape :: "u8 list \<Rightarrow> nat \<Rightarrow> nat \<Rightarrow> u8 list \<Rightarrow> nat \<Rightarrow> ((nat + nat) \<times> u8 list) res" where
  "unescape content input_pointer input_end out op =
     (if input_pointer < input_end then
        bind_res (rd content input_pointer) (\<lambda>c.
        if c \<noteq> byte (CHR 0x5C) then
          bind_res (wr out op c) (\<lambda>out.
          unescape content (input_pointer + 1) input_end out (op + 1))
        else if int input_end - int input_pointer < 1 then Inr (Inl input_pointer, out)
        else
          bind_res (rd content (input_pointer + 1)) (\<lambda>e.
          case escape_byte e of
            Some v \<Rightarrow>
              bind_res (wr out op v) (\<lambda>out.
              unescape content (input_pointer + 2) input_end out (op + 1))
          | None \<Rightarrow>
              if e = byte (CHR ''u'') then
                bind_res (utf16_literal_to_utf8 content input_pointer input_end out op)
                  (\<lambda>(sequence_length, out, op).
                if sequence_length = 0 then Inr (Inl input_pointer, out)
                else unescape content (input_pointer + sequence_length) input_end out op)
              else Inr (Inl input_pointer, out)))
      else Inr (Inr op, out))"
  by pat_completeness auto
termination by (relation "measure (\<lambda>(content, p, e, out, op). e - p)") auto

declare unescape.simps [simp del]

text \<open>A block as the C string it holds.\<close>

definition cstr_of :: "u8 list \<Rightarrow> cstr" where
  "cstr_of blk = takeWhile (\<lambda>c. c \<noteq> 0) blk"

definition parse_string :: "cJSON \<Rightarrow> parse_buffer \<Rightarrow> (bool \<times> cJSON \<times> parse_buffer) res" where
  "parse_string item b =
     (let input_pointer = pb_offset b + 1; input_end = pb_offset b + 1 in
      bind_res (at_offset b 0) (\<lambda>c.
      if c \<noteq> byte (CHR 0x22) then Inr (False, item, set_offset input_pointer b)
      else
        bind_res (string_end (pb_content b) (pb_length b) input_end 0) (\<lambda>r.
        case r of
          None \<Rightarrow> Inr (False, item, set_offset input_pointer b)
        | Some (input_end, skipped_bytes) \<Rightarrow>
            let allocation_length = input_end - pb_offset b - skipped_bytes in
            (case allocate (pb_hooks b) (allocation_length + 1) of
               (h, None) \<Rightarrow> Inr (False, item, set_offset input_pointer (b\<lparr>pb_hooks := h\<rparr>))
             | (h, Some output) \<Rightarrow>
                 bind_res (unescape (pb_content b) input_pointer input_end output 0)
                   (\<lambda>(result, output).
                 case result of
                   Inl failed_at \<Rightarrow>
                     Inr (False, item, set_offset failed_at (b\<lparr>pb_hooks := deallocate h\<rparr>))
                 | Inr op \<Rightarrow>
                     bind_res (wr output op 0) (\<lambda>output.
                     Inr (True,
                          set_valuestring (Some (cstr_of output)) (set_ctype cJSON_String item),
                          set_offset (input_end + 1) (b\<lparr>pb_hooks := h\<rparr>))))))))"

end
