(* ===== verification/CJsonParse.thy ===== *)
theory CJsonParse
  imports CJsonString
begin

text \<open>
  The parser of cJSON (\<open>cJSON.c\<close>): numbers, values, arrays, objects and the entry points.
  An operation takes the item it fills in and the buffer, and returns whether it succeeded,
  the item and the buffer. The recursive ones take fuel, since an array element is parsed
  from the buffer its predecessor left behind; running out of it is \<open>None\<close>, which
  \<open>cJSON_ParseWithOpts\<close> never does.
\<close>

section \<open>Numbers\<close>

text \<open>\<open>ENABLE_LOCALES\<close> is not defined.\<close>

definition get_decimal_point :: u8 where
  "get_decimal_point = byte (CHR ''.'')"

text \<open>The conversion to \<open>valueint\<close>, saturated at both ends.\<close>

definition saturated_int :: "double \<Rightarrow> int res" where
  "saturated_int number =
     (if double_ge_int number INT_MAX then Inr INT_MAX
      else if double_le_int number INT_MIN then Inr INT_MIN
      else double_to_int number)"

text \<open>The loop that copies the number to a block of 64 bytes.\<close>

definition number_char :: "u8 \<Rightarrow> u8 option" where
  "number_char c =
     (if byte (CHR ''0'') \<le> c \<and> c \<le> byte (CHR ''9'') \<or> c = byte (CHR ''+'') \<or> c = byte (CHR ''-'') \<or>
         c = byte (CHR ''e'') \<or> c = byte (CHR ''E'') then Some c
      else if c = byte (CHR ''.'') then Some get_decimal_point
      else None)"

function copy_number :: "parse_buffer \<Rightarrow> nat \<Rightarrow> u8 list \<Rightarrow> (nat \<times> u8 list) res" where
  "copy_number b i number_c_string =
     (if i < 63 \<and> can_access_at_index b i then
        bind_res (at_offset b i) (\<lambda>c.
        case number_char c of
          Some d \<Rightarrow>
            bind_res (wr number_c_string i d) (\<lambda>number_c_string.
            copy_number b (i + 1) number_c_string)
        | None \<Rightarrow> Inr (i, number_c_string))
      else Inr (i, number_c_string))"
  by pat_completeness auto
termination by (relation "measure (\<lambda>(b, i, s). 63 - i)") auto

declare copy_number.simps [simp del]

definition parse_number :: "cJSON \<Rightarrow> parse_buffer \<Rightarrow> (bool \<times> cJSON \<times> parse_buffer) res" where
  "parse_number item b =
     bind_res (copy_number b 0 (replicate 64 (fill (pb_hooks b)))) (\<lambda>(i, number_c_string).
     bind_res (wr number_c_string i 0) (\<lambda>number_c_string.
     let (number, after_end) = strtod (cstr_of number_c_string) in
     if after_end = 0 then Inr (False, item, b)
     else
       bind_res (saturated_int number) (\<lambda>k.
       Inr (True,
            set_ctype cJSON_Number (set_valueint k (set_valuedouble number item)),
            set_offset (pb_offset b + after_end) b))))"

definition cJSON_SetNumberHelper :: "cJSON \<Rightarrow> double \<Rightarrow> (double \<times> cJSON) res" where
  "cJSON_SetNumberHelper object number =
     bind_res (saturated_int number) (\<lambda>k.
     Inr (number, set_valuedouble number (set_valueint k object)))"

section \<open>White space and the byte order mark\<close>

function skip_loop :: "parse_buffer \<Rightarrow> parse_buffer res" where
  "skip_loop b =
     (if can_access_at_index b 0 then
        bind_res (at_offset b 0) (\<lambda>c.
        if c \<le> 32 then skip_loop (set_offset (pb_offset b + 1) b) else Inr b)
      else Inr b)"
  by pat_completeness auto
termination
  by (relation "measure (\<lambda>b. pb_length b - pb_offset b)") (auto simp: can_access_at_index_def)

declare skip_loop.simps [simp del]

definition buffer_skip_whitespace :: "parse_buffer \<Rightarrow> parse_buffer res" where
  "buffer_skip_whitespace b =
     bind_res (skip_loop b) (\<lambda>b.
     if pb_offset b = pb_length b then Inr (set_offset (size_dec (pb_offset b)) b)
     else Inr b)"

text \<open>\<open>strncmp(buffer_at_offset(b), s, strlen(s)) == 0\<close>.\<close>

definition text_at :: "parse_buffer \<Rightarrow> u8 list \<Rightarrow> bool res" where
  "text_at b s = memcmp_eq (pb_content b) (pb_offset b) s 0 (length s)"

text \<open>\<open>None\<close> is the null pointer returned when the buffer is not at its beginning.\<close>

definition skip_utf8_bom :: "parse_buffer \<Rightarrow> parse_buffer option res" where
  "skip_utf8_bom b =
     (if pb_offset b \<noteq> 0 then Inr None
      else if can_access_at_index b 4 then
        bind_res (text_at b [0xEF, 0xBB, 0xBF]) (\<lambda>bom.
        Inr (Some (if bom then set_offset (pb_offset b + 3) b else b)))
      else Inr (Some b))"

section \<open>Values\<close>

text \<open>The guard \<open>can_access_at_index(b, 0) && buffer_at_offset(b)[0] == c\<close>.\<close>

definition at_byte :: "parse_buffer \<Rightarrow> char \<Rightarrow> bool res" where
  "at_byte b c =
     (if can_access_at_index b 0
      then bind_res (at_offset b 0) (\<lambda>d. Inr (d = byte c)) else Inr False)"

definition at_number :: "parse_buffer \<Rightarrow> bool res" where
  "at_number b =
     (if can_access_at_index b 0
      then bind_res (at_offset b 0) (\<lambda>d.
        Inr (d = byte (CHR ''-'') \<or> byte (CHR ''0'') \<le> d \<and> d \<le> byte (CHR ''9'')))
      else Inr False)"

text \<open>The guard \<open>can_read(b, n) && strncmp(..., s, n) == 0\<close>.\<close>

definition reads_text :: "parse_buffer \<Rightarrow> u8 list \<Rightarrow> bool res" where
  "reads_text b s = (if can_read b (length s) then text_at b s else Inr False)"

abbreviation inc_offset :: "nat \<Rightarrow> parse_buffer \<Rightarrow> parse_buffer" where
  "inc_offset n b \<equiv> set_offset (pb_offset b + n) b"

fun parse_value :: "nat \<Rightarrow> cJSON \<Rightarrow> parse_buffer \<Rightarrow> (bool \<times> cJSON \<times> parse_buffer) res option"
and parse_array :: "nat \<Rightarrow> cJSON \<Rightarrow> parse_buffer \<Rightarrow> (bool \<times> cJSON \<times> parse_buffer) res option"
and array_elements :: "nat \<Rightarrow> cJSON list \<Rightarrow> parse_buffer \<Rightarrow>
      (bool \<times> cJSON list \<times> parse_buffer) res option"
and parse_object :: "nat \<Rightarrow> cJSON \<Rightarrow> parse_buffer \<Rightarrow> (bool \<times> cJSON \<times> parse_buffer) res option"
and object_members :: "nat \<Rightarrow> cJSON list \<Rightarrow> parse_buffer \<Rightarrow>
      (bool \<times> cJSON list \<times> parse_buffer) res option" where
  "parse_value 0 item b = None"
| "parse_value (Suc n) item b =
     bind_run (Some (reads_text b (bytes ''null''))) (\<lambda>g.
     if g then ret (True, set_ctype cJSON_NULL item, inc_offset 4 b)
     else
     bind_run (Some (reads_text b (bytes ''false''))) (\<lambda>g.
     if g then ret (True, set_ctype cJSON_False item, inc_offset 5 b)
     else
     bind_run (Some (reads_text b (bytes ''true''))) (\<lambda>g.
     if g then ret (True, set_valueint 1 (set_ctype cJSON_True item), inc_offset 4 b)
     else
     bind_run (Some (at_byte b (CHR 0x22))) (\<lambda>g.
     if g then Some (parse_string item b)
     else
     bind_run (Some (at_number b)) (\<lambda>g.
     if g then Some (parse_number item b)
     else
     bind_run (Some (at_byte b (CHR ''[''))) (\<lambda>g.
     if g then parse_array n item b
     else
     bind_run (Some (at_byte b (CHR ''{''))) (\<lambda>g.
     if g then parse_object n item b
     else ret (False, item, b))))))))"
| "parse_array 0 item b = None"
| "parse_array (Suc n) item b =
     (if CJSON_NESTING_LIMIT \<le> pb_depth b then ret (False, item, b)
      else let b = b\<lparr>pb_depth := pb_depth b + 1\<rparr> in
      bind_run (Some (at_offset b 0)) (\<lambda>c.
      if c \<noteq> byte (CHR ''['') then ret (False, item, b)
      else
      bind_run (Some (buffer_skip_whitespace (inc_offset 1 b))) (\<lambda>b.
      bind_run (Some (at_byte b (CHR '']''))) (\<lambda>g.
      if g then
        ret (True, set_child [] (set_ctype cJSON_Array item),
             inc_offset 1 (b\<lparr>pb_depth := size_dec (pb_depth b)\<rparr>))
      else if \<not> can_access_at_index b 0 then
        ret (False, item, set_offset (size_dec (pb_offset b)) b)
      else
      bind_run (array_elements n [] (set_offset (size_dec (pb_offset b)) b)) (\<lambda>(ok, head, b).
      if \<not> ok then ret (False, item, b\<lparr>pb_hooks := cJSON_Delete head (pb_hooks b)\<rparr>)
      else
      bind_run (Some (at_byte b (CHR '']''))) (\<lambda>g.
      if \<not> g then ret (False, item, b\<lparr>pb_hooks := cJSON_Delete head (pb_hooks b)\<rparr>)
      else
        ret (True, set_child head (set_ctype cJSON_Array item),
             inc_offset 1 (b\<lparr>pb_depth := size_dec (pb_depth b)\<rparr>))))))))"
| "array_elements 0 head b = None"
| "array_elements (Suc n) head b =
     (case cJSON_New_Item (pb_hooks b) of
        (h, None) \<Rightarrow> ret (False, head, b\<lparr>pb_hooks := h\<rparr>)
      | (h, Some new_item) \<Rightarrow>
          bind_run (Some (buffer_skip_whitespace (inc_offset 1 (b\<lparr>pb_hooks := h\<rparr>)))) (\<lambda>b.
          bind_run (parse_value n new_item b) (\<lambda>(ok, current_item, b).
          if \<not> ok then ret (False, head @ [current_item], b)
          else
          bind_run (Some (buffer_skip_whitespace b)) (\<lambda>b.
          bind_run (Some (at_byte b (CHR '',''))) (\<lambda>g.
          if g then array_elements n (head @ [current_item]) b
          else ret (True, head @ [current_item], b))))))"
| "parse_object 0 item b = None"
| "parse_object (Suc n) item b =
     (if CJSON_NESTING_LIMIT \<le> pb_depth b then ret (False, item, b)
      else let b = b\<lparr>pb_depth := pb_depth b + 1\<rparr> in
      bind_run (Some (at_byte b (CHR ''{''))) (\<lambda>g.
      if \<not> g then ret (False, item, b)
      else
      bind_run (Some (buffer_skip_whitespace (inc_offset 1 b))) (\<lambda>b.
      bind_run (Some (at_byte b (CHR ''}''))) (\<lambda>g.
      if g then
        ret (True, set_child [] (set_ctype cJSON_Object item),
             inc_offset 1 (b\<lparr>pb_depth := size_dec (pb_depth b)\<rparr>))
      else if \<not> can_access_at_index b 0 then
        ret (False, item, set_offset (size_dec (pb_offset b)) b)
      else
      bind_run (object_members n [] (set_offset (size_dec (pb_offset b)) b)) (\<lambda>(ok, head, b).
      if \<not> ok then ret (False, item, b\<lparr>pb_hooks := cJSON_Delete head (pb_hooks b)\<rparr>)
      else
      bind_run (Some (at_byte b (CHR ''}''))) (\<lambda>g.
      if \<not> g then ret (False, item, b\<lparr>pb_hooks := cJSON_Delete head (pb_hooks b)\<rparr>)
      else
        ret (True, set_child head (set_ctype cJSON_Object item),
             inc_offset 1 (b\<lparr>pb_depth := size_dec (pb_depth b)\<rparr>))))))))"
| "object_members 0 head b = None"
| "object_members (Suc n) head b =
     (case cJSON_New_Item (pb_hooks b) of
        (h, None) \<Rightarrow> ret (False, head, b\<lparr>pb_hooks := h\<rparr>)
      | (h, Some new_item) \<Rightarrow>
          bind_run (Some (buffer_skip_whitespace (inc_offset 1 (b\<lparr>pb_hooks := h\<rparr>)))) (\<lambda>b.
          bind_run (Some (parse_string new_item b)) (\<lambda>(ok, current_item, b).
          if \<not> ok then ret (False, head @ [current_item], b)
          else
          bind_run (Some (buffer_skip_whitespace b)) (\<lambda>b.
          let current_item = set_valuestring None
                (set_cstring (valuestring current_item) current_item) in
          bind_run (Some (at_byte b (CHR '':''))) (\<lambda>g.
          if \<not> g then ret (False, head @ [current_item], b)
          else
          bind_run (Some (buffer_skip_whitespace (inc_offset 1 b))) (\<lambda>b.
          bind_run (parse_value n current_item b) (\<lambda>(ok, current_item, b).
          if \<not> ok then ret (False, head @ [current_item], b)
          else
          bind_run (Some (buffer_skip_whitespace b)) (\<lambda>b.
          bind_run (Some (at_byte b (CHR '',''))) (\<lambda>g.
          if g then object_members n (head @ [current_item]) b
          else ret (True, head @ [current_item], b))))))))))"

section \<open>Entry points\<close>

text \<open>
  \<open>global_error\<close>: the text and the position within it. What a call returns: the item, the
  position \<open>return_parse_end\<close> would receive, the new error and the hooks.
\<close>

record parse_error =
  error_json :: "cstr option"
  error_position :: nat

definition parse_fuel :: "nat \<Rightarrow> nat" where
  "parse_fuel n = 3 * n + 6"

definition parse_failure ::
  "cstr \<Rightarrow> parse_buffer \<Rightarrow> cJSON option \<times> nat option \<times> parse_error \<times> internal_hooks" where
  "parse_failure value b =
     (let position = (if pb_offset b < pb_length b then pb_offset b
                      else if 0 < pb_length b then pb_length b - 1 else 0)
      in (None, Some position, \<lparr>error_json = Some value, error_position = position\<rparr>, pb_hooks b))"

definition cJSON_ParseWithOpts ::
  "internal_hooks \<Rightarrow> cstr option \<Rightarrow> bool \<Rightarrow>
     (cJSON option \<times> nat option \<times> parse_error \<times> internal_hooks) res option" where
  "cJSON_ParseWithOpts global_hooks value require_null_terminated =
     (case value of
        None \<Rightarrow> ret (None, None, \<lparr>error_json = None, error_position = 0\<rparr>, global_hooks)
      | Some v \<Rightarrow>
          let b = \<lparr>pb_content = v @ [0], pb_length = length v + 1, pb_offset = 0, pb_depth = 0,
                   pb_hooks = global_hooks\<rparr> in
          (case cJSON_New_Item global_hooks of
             (h, None) \<Rightarrow> ret (parse_failure v (b\<lparr>pb_hooks := h\<rparr>))
           | (h, Some item) \<Rightarrow>
               let failed = (\<lambda>item b.
                 ret (parse_failure v (b\<lparr>pb_hooks := cJSON_Delete [item] (pb_hooks b)\<rparr>))) in
               bind_run (Some (skip_utf8_bom (b\<lparr>pb_hooks := h\<rparr>))) (\<lambda>r.
               case r of
                 None \<Rightarrow> failed item (b\<lparr>pb_hooks := h\<rparr>)
               | Some b \<Rightarrow>
                   bind_run (Some (buffer_skip_whitespace b)) (\<lambda>b.
                   bind_run (parse_value (parse_fuel (length v)) item b) (\<lambda>(ok, item, b).
                   if \<not> ok then failed item b
                   else if require_null_terminated then
                     bind_run (Some (buffer_skip_whitespace b)) (\<lambda>b.
                     if pb_length b \<le> pb_offset b then failed item b
                     else
                     bind_run (Some (at_offset b 0)) (\<lambda>c.
                     if c \<noteq> 0 then failed item b
                     else ret (Some item, Some (pb_offset b),
                               \<lparr>error_json = None, error_position = 0\<rparr>, pb_hooks b)))
                   else ret (Some item, Some (pb_offset b),
                             \<lparr>error_json = None, error_position = 0\<rparr>, pb_hooks b))))))"

definition cJSON_Parse ::
  "internal_hooks \<Rightarrow> cstr option \<Rightarrow>
     (cJSON option \<times> nat option \<times> parse_error \<times> internal_hooks) res option" where
  "cJSON_Parse global_hooks value = cJSON_ParseWithOpts global_hooks value False"

definition cJSON_GetErrorPtr :: "parse_error \<Rightarrow> (cstr option \<times> nat)" where
  "cJSON_GetErrorPtr global_error = (error_json global_error, error_position global_error)"

end
