(* ===== verification/CJsonPrint.thy ===== *)
theory CJsonPrint
  imports CJsonParse
begin

text \<open>
  The printer of cJSON (\<open>cJSON.c\<close>). The print buffer is a block of bytes that \<open>ensure\<close> grows;
  an output pointer is an index into it, and every write is checked against the block.
  Operations return whether they succeeded and the buffer.
\<close>

section \<open>The print buffer\<close>

record printbuffer =
  out_buffer :: "u8 list option"
  out_length :: nat
  out_offset :: nat
  out_depth :: nat
  out_noalloc :: bool
  out_format :: bool
  out_hooks :: internal_hooks

abbreviation (input) "SIZE_INT_MAX \<equiv> 2147483647 :: nat"

text \<open>The part of \<open>ensure\<close> that grows the block, to \<open>newsize\<close> bytes.\<close>

definition grow :: "printbuffer \<Rightarrow> u8 list \<Rightarrow> nat \<Rightarrow> (nat option \<times> printbuffer) res" where
  "grow p buf newsize =
     (let failed = (\<lambda>h. p\<lparr>out_hooks := deallocate h, out_length := 0, out_buffer := None\<rparr>) in
      if has_reallocate (out_hooks p) then
        (case reallocate (out_hooks p) buf newsize of
           (h, None) \<Rightarrow> Inr (None, failed h)
         | (h, Some newbuffer) \<Rightarrow>
             Inr (Some (out_offset p),
                  p\<lparr>out_hooks := h, out_length := newsize, out_buffer := Some newbuffer\<rparr>))
      else
        (case allocate (out_hooks p) newsize of
           (h, None) \<Rightarrow> Inr (None, failed h)
         | (h, Some newbuffer) \<Rightarrow>
             bind_res (memcpy newbuffer 0 buf 0 (out_offset p + 1)) (\<lambda>newbuffer.
             Inr (Some (out_offset p),
                  p\<lparr>out_hooks := deallocate h, out_length := newsize,
                    out_buffer := Some newbuffer\<rparr>))))"

definition ensure :: "printbuffer \<Rightarrow> nat \<Rightarrow> (nat option \<times> printbuffer) res" where
  "ensure p needed =
     (case out_buffer p of
        None \<Rightarrow> Inr (None, p)
      | Some buf \<Rightarrow>
          if 0 < out_length p \<and> out_length p \<le> out_offset p then Inr (None, p)
          else if SIZE_INT_MAX < needed then Inr (None, p)
          else
            let needed = needed + out_offset p + 1 in
            if needed \<le> out_length p then Inr (Some (out_offset p), p)
            else if out_noalloc p then Inr (None, p)
            else if SIZE_INT_MAX div 2 < needed then
              (if needed \<le> SIZE_INT_MAX then grow p buf SIZE_INT_MAX else Inr (None, p))
            else grow p buf (needed * 2))"

text \<open>Writing consecutive bytes from an output pointer on.\<close>

definition write_at :: "printbuffer \<Rightarrow> nat \<Rightarrow> u8 list \<Rightarrow> printbuffer res" where
  "write_at p i bs =
     (case out_buffer p of
        None \<Rightarrow> Inl NullDeref
      | Some buf \<Rightarrow>
          bind_res (memcpy buf i bs 0 (length bs)) (\<lambda>buf. Inr (p\<lparr>out_buffer := Some buf\<rparr>)))"

text \<open>\<open>strlen\<close> from an index on: the block has to hold a zero there.\<close>

definition strlen_from :: "u8 list \<Rightarrow> nat \<Rightarrow> nat res" where
  "strlen_from buf i =
     (if 0 \<in> set (drop i buf) then Inr (length (takeWhile (\<lambda>c. c \<noteq> 0) (drop i buf)))
      else Inl OutOfBounds)"

definition update_offset :: "printbuffer \<Rightarrow> printbuffer res" where
  "update_offset p =
     (case out_buffer p of
        None \<Rightarrow> Inr p
      | Some buf \<Rightarrow>
          bind_res (strlen_from buf (out_offset p)) (\<lambda>n.
          Inr (p\<lparr>out_offset := out_offset p + n\<rparr>)))"

text \<open>
  The pattern shared by all printing code: \<open>ensure\<close> room for \<open>needed\<close> bytes, give up when there is
  none, otherwise write \<open>bs\<close> and advance the offset by \<open>adv\<close>.
\<close>

definition emit :: "printbuffer \<Rightarrow> nat \<Rightarrow> u8 list \<Rightarrow> nat \<Rightarrow> (bool \<times> printbuffer) res" where
  "emit p needed bs adv =
     bind_res (ensure p needed) (\<lambda>(output_pointer, p).
     case output_pointer of
       None \<Rightarrow> Inr (False, p)
     | Some i \<Rightarrow>
         bind_res (write_at p i bs) (\<lambda>p.
         Inr (True, p\<lparr>out_offset := out_offset p + adv\<rparr>)))"

section \<open>Numbers\<close>

text \<open>\<open>sprintf\<close> into a block of \<open>n\<close> bytes.\<close>

definition sprintf_to :: "nat \<Rightarrow> u8 list \<Rightarrow> u8 list res" where
  "sprintf_to n s = (if length s < n then Inr s else Inl OutOfBounds)"

definition number_text :: "double \<Rightarrow> u8 list res" where
  "number_text d =
     (if times_zero_differs d then sprintf_to 26 (bytes ''null'')
      else
        bind_res (sprintf_to 26 (format_g 15 d)) (\<lambda>number_buffer.
        let (test, n) = strtod number_buffer in
        if n = 0 \<or> \<not> double_eq test d then sprintf_to 26 (format_g 17 d)
        else Inr number_buffer))"

definition print_number :: "cJSON \<Rightarrow> printbuffer \<Rightarrow> (bool \<times> printbuffer) res" where
  "print_number item p =
     bind_res (number_text (valuedouble item)) (\<lambda>number_buffer.
     let len = length number_buffer;
         decimal_point = get_decimal_point in
     if 25 < len then Inr (False, p)
     else
       emit p (len + 1)
         (map (\<lambda>c. if c = decimal_point then byte (CHR ''.'') else c) number_buffer @ [0]) len)"

section \<open>Strings\<close>

definition escape_cost :: "u8 \<Rightarrow> nat" where
  "escape_cost c =
     (if c = byte (CHR 0x22) \<or> c = byte (CHR 0x5C) \<or> c = 8 \<or> c = 12 \<or> c = 10 \<or> c = 13 \<or> c = 9 then 1
      else if c < 32 then 5 else 0)"

definition hex_char :: "nat \<Rightarrow> u8" where
  "hex_char n = (if n < 10 then word_of_nat (48 + n) else word_of_nat (87 + n))"

text \<open>
  The bytes a character is printed as, and whether they are followed by the zero
  that \<open>sprintf\<close> writes.
\<close>

definition escaped :: "u8 \<Rightarrow> u8 list \<times> bool" where
  "escaped c =
     (if 31 < c \<and> c \<noteq> byte (CHR 0x22) \<and> c \<noteq> byte (CHR 0x5C) then ([c], False)
      else if c = byte (CHR 0x5C) then ([byte (CHR 0x5C), byte (CHR 0x5C)], False)
      else if c = byte (CHR 0x22) then ([byte (CHR 0x5C), byte (CHR 0x22)], False)
      else if c = 8 then ([byte (CHR 0x5C), byte (CHR ''b'')], False)
      else if c = 12 then ([byte (CHR 0x5C), byte (CHR ''f'')], False)
      else if c = 10 then ([byte (CHR 0x5C), byte (CHR ''n'')], False)
      else if c = 13 then ([byte (CHR 0x5C), byte (CHR ''r'')], False)
      else if c = 9 then ([byte (CHR 0x5C), byte (CHR ''t'')], False)
      else ([byte (CHR 0x5C), byte (CHR ''u''), byte (CHR ''0''), byte (CHR ''0''),
             hex_char (unat c div 16), hex_char (unat c mod 16)], True))"

fun write_escaped :: "printbuffer \<Rightarrow> nat \<Rightarrow> cstr \<Rightarrow> printbuffer res" where
  "write_escaped p i [] = Inr p"
| "write_escaped p i (c # s) =
     (case escaped c of
        (bs, zero) \<Rightarrow>
          bind_res (write_at p i (bs @ (if zero then [0] else []))) (\<lambda>p.
          write_escaped p (i + length bs) s))"

definition print_string_ptr :: "cstr option \<Rightarrow> printbuffer \<Rightarrow> (bool \<times> printbuffer) res" where
  "print_string_ptr inp p =
     (case inp of
        None \<Rightarrow> emit p 3 [byte (CHR 0x22), byte (CHR 0x22), 0] 0
      | Some s \<Rightarrow>
          let escape_characters = sum_list (map escape_cost s);
              output_length = length s + escape_characters in
          bind_res (ensure p (output_length + 3)) (\<lambda>(output, p).
          case output of
            None \<Rightarrow> Inr (False, p)
          | Some i \<Rightarrow>
              if escape_characters = 0 then
                bind_res (write_at p i (byte (CHR 0x22) # s @ [byte (CHR 0x22), 0])) (\<lambda>p.
                Inr (True, p))
              else
                bind_res (write_at p i [byte (CHR 0x22)]) (\<lambda>p.
                bind_res (write_escaped p (i + 1) s) (\<lambda>p.
                bind_res (write_at p (i + output_length + 1) [byte (CHR 0x22), 0]) (\<lambda>p.
                Inr (True, p))))))"

definition print_string :: "cJSON \<Rightarrow> printbuffer \<Rightarrow> (bool \<times> printbuffer) res" where
  "print_string item p = print_string_ptr (valuestring item) p"

section \<open>Values\<close>

text \<open>Going on only when the previous step succeeded.\<close>

definition on_success :: "(bool \<times> printbuffer) res \<Rightarrow> (printbuffer \<Rightarrow> (bool \<times> printbuffer) res) \<Rightarrow>
  (bool \<times> printbuffer) res" where
  "on_success r f = bind_res r (\<lambda>(ok, p). if ok then f p else Inr (False, p))"

fun print_value :: "cJSON \<Rightarrow> printbuffer \<Rightarrow> (bool \<times> printbuffer) res"
and print_array :: "cJSON list \<Rightarrow> printbuffer \<Rightarrow> (bool \<times> printbuffer) res"
and print_elements :: "cJSON list \<Rightarrow> printbuffer \<Rightarrow> (bool \<times> printbuffer) res"
and print_object :: "cJSON list \<Rightarrow> printbuffer \<Rightarrow> (bool \<times> printbuffer) res"
and print_members :: "cJSON list \<Rightarrow> printbuffer \<Rightarrow> (bool \<times> printbuffer) res" where
  "print_value (CJSON t v i d s c) p =
     (let ty = t AND 0xFF; item = CJSON t v i d s c in
      if ty = cJSON_NULL then emit p 5 (bytes ''null'' @ [0]) 0
      else if ty = cJSON_False then emit p 6 (bytes ''false'' @ [0]) 0
      else if ty = cJSON_True then emit p 5 (bytes ''true'' @ [0]) 0
      else if ty = cJSON_Number then print_number item p
      else if ty = cJSON_Raw then
        (case v of
           None \<Rightarrow> Inr (False, p)
         | Some raw \<Rightarrow> emit p (length raw + 1) (raw @ [0]) 0)
      else if ty = cJSON_String then print_string item p
      else if ty = cJSON_Array then print_array c p
      else if ty = cJSON_Object then print_object c p
      else Inr (False, p))"
| "print_array c p =
     on_success (emit p 1 [byte (CHR ''['')] 1) (\<lambda>p.
     on_success (print_elements c (p\<lparr>out_depth := out_depth p + 1\<rparr>)) (\<lambda>p.
     on_success (emit p 2 [byte (CHR '']''), 0] 0) (\<lambda>p.
     Inr (True, p\<lparr>out_depth := size_dec (out_depth p)\<rparr>))))"
| "print_elements [] p = Inr (True, p)"
| "print_elements (current_element # nexts) p =
     on_success (print_value current_element p) (\<lambda>p.
     bind_res (update_offset p) (\<lambda>p.
     if nexts \<noteq> [] then
       let len = (if out_format p then 2 else 1) in
       on_success
         (emit p (len + 1)
            (byte (CHR '','') # (if out_format p then [byte (CHR '' '')] else []) @ [0]) len)
         (\<lambda>p. print_elements nexts p)
     else print_elements nexts p))"
| "print_object c p =
     (let len = (if out_format p then 2 else 1) in
      on_success
        (emit p (len + 1) (byte (CHR ''{'') # (if out_format p then [10] else [])) len) (\<lambda>p.
      on_success (print_members c (p\<lparr>out_depth := out_depth p + 1\<rparr>)) (\<lambda>p.
      on_success
        (emit p (if out_format p then out_depth p + 1 else 2)
           ((if out_format p then replicate (out_depth p - 1) 9 else []) @ [byte (CHR ''}''), 0]) 0) (\<lambda>p.
      Inr (True, p\<lparr>out_depth := size_dec (out_depth p)\<rparr>)))))"
| "print_members [] p = Inr (True, p)"
| "print_members (current_item # nexts) p =
     on_success
       (if out_format p then emit p (out_depth p) (replicate (out_depth p) 9) (out_depth p)
        else Inr (True, p)) (\<lambda>p.
     on_success (print_string_ptr (cstring current_item) p) (\<lambda>p.
     bind_res (update_offset p) (\<lambda>p.
     let len = (if out_format p then 2 else 1) in
     on_success (emit p len (byte (CHR '':'') # (if out_format p then [9] else [])) len) (\<lambda>p.
     on_success (print_value current_item p) (\<lambda>p.
     bind_res (update_offset p) (\<lambda>p.
     let len = (if out_format p then 1 else 0) + (if nexts \<noteq> [] then 1 else 0) in
     on_success
       (emit p (len + 1)
          ((if nexts \<noteq> [] then [byte (CHR '','')] else []) @ (if out_format p then [10] else []) @ [0])
          len) (\<lambda>p.
     print_members nexts p)))))))"

section \<open>Entry points\<close>

text \<open>\<open>deallocate\<close> of the pointer, if it is not null.\<close>

definition release :: "u8 list option \<Rightarrow> internal_hooks \<Rightarrow> internal_hooks" where
  "release blk h = (case blk of None \<Rightarrow> h | Some _ \<Rightarrow> deallocate h)"

text \<open>The last part of \<open>print\<close>: the text is cut to size, or copied to a block of its size.\<close>

definition copy_out :: "printbuffer \<Rightarrow> (u8 list option \<times> internal_hooks) res" where
  "copy_out p =
     (case out_buffer p of
        None \<Rightarrow> Inl NullDeref
      | Some buf \<Rightarrow>
          if has_reallocate (out_hooks p) then
            (case reallocate (out_hooks p) buf (out_offset p + 1) of
               (h, None) \<Rightarrow> Inr (None, deallocate h)
             | (h, Some text) \<Rightarrow> Inr (Some text, h))
          else
            (case allocate (out_hooks p) (out_offset p + 1) of
               (h, None) \<Rightarrow> Inr (None, deallocate h)
             | (h, Some text) \<Rightarrow>
                 bind_res (memcpy text 0 buf 0 (min (out_length p) (out_offset p + 1))) (\<lambda>text.
                 bind_res (wr text (out_offset p) 0) (\<lambda>text.
                 Inr (Some text, deallocate h)))))"

definition print_item :: "cJSON option \<Rightarrow> bool \<Rightarrow> internal_hooks \<Rightarrow>
  (u8 list option \<times> internal_hooks) res" where
  "print_item item format hooks =
     (case allocate hooks 256 of
        (h, None) \<Rightarrow> Inr (None, h)
      | (h, Some blk) \<Rightarrow>
          let p = \<lparr>out_buffer = Some blk, out_length = 256, out_offset = 0, out_depth = 0,
                   out_noalloc = False, out_format = format, out_hooks = h\<rparr> in
          (case item of
             None \<Rightarrow> Inr (None, release (out_buffer p) (out_hooks p))
           | Some x \<Rightarrow>
               bind_res (print_value x p) (\<lambda>(ok, p).
               if \<not> ok then Inr (None, release (out_buffer p) (out_hooks p))
               else bind_res (update_offset p) copy_out)))"

definition cJSON_Print :: "cJSON option \<Rightarrow> internal_hooks \<Rightarrow> (u8 list option \<times> internal_hooks) res" where
  "cJSON_Print item global_hooks = print_item item True global_hooks"

definition cJSON_PrintUnformatted ::
  "cJSON option \<Rightarrow> internal_hooks \<Rightarrow> (u8 list option \<times> internal_hooks) res" where
  "cJSON_PrintUnformatted item global_hooks = print_item item False global_hooks"

definition cJSON_PrintBuffered :: "cJSON option \<Rightarrow> int \<Rightarrow> bool \<Rightarrow> internal_hooks \<Rightarrow>
  (u8 list option \<times> internal_hooks) res" where
  "cJSON_PrintBuffered item prebuffer fmt global_hooks =
     (if prebuffer < 0 then Inr (None, global_hooks)
      else
        case allocate global_hooks (nat prebuffer) of
          (h, None) \<Rightarrow> Inr (None, h)
        | (h, Some blk) \<Rightarrow>
            let p = \<lparr>out_buffer = Some blk, out_length = nat prebuffer, out_offset = 0, out_depth = 0,
                     out_noalloc = False, out_format = fmt, out_hooks = h\<rparr> in
            (case item of
               None \<Rightarrow> Inr (None, release (out_buffer p) (out_hooks p))
             | Some x \<Rightarrow>
                 bind_res (print_value x p) (\<lambda>(ok, p).
                 if ok then Inr (out_buffer p, out_hooks p)
                 else Inr (None, release (out_buffer p) (out_hooks p)))))"

text \<open>The block of the caller comes back with what was written into it.\<close>

definition cJSON_PrintPreallocated :: "cJSON option \<Rightarrow> u8 list option \<Rightarrow> int \<Rightarrow> bool \<Rightarrow> internal_hooks \<Rightarrow>
  (bool \<times> u8 list option) res" where
  "cJSON_PrintPreallocated item buf len fmt global_hooks =
     (if len < 0 \<or> buf = None then Inr (False, buf)
      else
        let p = \<lparr>out_buffer = buf, out_length = nat len, out_offset = 0, out_depth = 0,
                 out_noalloc = True, out_format = fmt, out_hooks = global_hooks\<rparr> in
        case item of
          None \<Rightarrow> Inr (False, buf)
        | Some x \<Rightarrow> bind_res (print_value x p) (\<lambda>(ok, p). Inr (ok, out_buffer p)))"

end
