(* ===== verification/CJsonStringCorrect.thy ===== *)
theory CJsonStringCorrect
  imports CJsonString
begin

text \<open>
  What the string parser computes: the value of four hexadecimal digits, the code point of a
  \<open>u\<close> literal and its UTF-8 encoding, and that neither the input nor the output block of
  \<open>parse_string\<close> is ever accessed out of bounds.
\<close>

section \<open>Checked accesses\<close>

lemma rd_ok [fault_free]: "i < length c \<Longrightarrow> rd c i = Inr (c ! i)"
  by (simp add: rd_def)

lemma wr_ok [fault_free]: "i < length c \<Longrightarrow> wr c i v = Inr (c[i := v])"
  by (simp add: wr_def)

definition hex_digit :: "u8 \<Rightarrow> nat option" where
  "hex_digit c =
     (if 48 \<le> c \<and> c \<le> 57 then Some (unat c - 48)
      else if 65 \<le> c \<and> c \<le> 70 then Some (unat c - 55)
      else if 97 \<le> c \<and> c \<le> 102 then Some (unat c - 87) else None)"

lemma hex_digit_less: "hex_digit c = Some d \<Longrightarrow> d < 16"
  by (auto simp: hex_digit_def word_le_nat_alt split: if_splits)

lemma parse_hex4_step:
  assumes "i < 4" "p + i < length inp"
  shows "parse_hex4_loop inp p i h =
    (case hex_digit (inp ! (p + i)) of None \<Rightarrow> Inr 0
     | Some d \<Rightarrow> parse_hex4_loop inp p (i + 1)
         (if i < 3 then (h + word_of_nat d) * 16 else h + word_of_nat d))"
proof -
  let ?c = "inp ! (p + i)"
  have s: "48 \<le> ?c \<Longrightarrow> (ucast ?c :: u32) - 48 = word_of_nat (unat ?c - 48)"
     "65 \<le> ?c \<Longrightarrow> 10 + (ucast ?c :: u32) - 65 = word_of_nat (unat ?c - 55)"
     "97 \<le> ?c \<Longrightarrow> 10 + (ucast ?c :: u32) - 97 = word_of_nat (unat ?c - 87)"
    by (simp_all add: word_le_nat_alt of_nat_diff)
  show ?thesis
    using assms by (subst parse_hex4_loop.simps)
      (auto simp: rd_ok hex_digit_def s push_bit_eq_mult Let_def)
qed

lemma parse_hex4_eq:
  assumes "p + 4 \<le> length inp"
  shows "parse_hex4 inp p =
    (case (hex_digit (inp ! p), hex_digit (inp ! (p + 1)), hex_digit (inp ! (p + 2)),
           hex_digit (inp ! (p + 3))) of
       (Some a, Some b, Some c, Some d) \<Rightarrow>
         Inr (word_of_nat (a * 4096 + b * 256 + c * 16 + d))
     | _ \<Rightarrow> Inr 0)"
  using assms
  by (simp add: parse_hex4_def parse_hex4_step numeral_2_eq_2 numeral_3_eq_3 split: option.split)
     (simp add: parse_hex4_loop.simps [of _ _ "Suc (Suc (Suc (Suc 0)))"] algebra_simps)


definition hex4_value :: "u8 list \<Rightarrow> nat \<Rightarrow> nat" where
  "hex4_value inp p =
     (case (hex_digit (inp ! p), hex_digit (inp ! (p + 1)), hex_digit (inp ! (p + 2)),
            hex_digit (inp ! (p + 3))) of
        (Some a, Some b, Some c, Some d) \<Rightarrow> a * 4096 + b * 256 + c * 16 + d
      | _ \<Rightarrow> 0)"

lemma hex4_value_less: "hex4_value inp p < 65536"
proof -
  have "a * 4096 + b * 256 + c * 16 + d < 65536"
    if "hex_digit w = Some a" "hex_digit x = Some b" "hex_digit y = Some c" "hex_digit z = Some d"
    for w x y z a b c d
    using that [THEN hex_digit_less] by simp
  then show ?thesis
    by (auto simp: hex4_value_def split: option.split)
qed

lemma parse_hex4_value:
  "p + 4 \<le> length inp \<Longrightarrow> parse_hex4 inp p = Inr (word_of_nat (hex4_value inp p))"
  by (simp add: parse_hex4_eq hex4_value_def split: option.split)

lemma unat_hex4: "unat (word_of_nat (hex4_value inp p) :: u32) = hex4_value inp p"
  using hex4_value_less [of inp p] by (simp add: unat_of_nat)

lemma less_8_cases: "n < (8::nat) \<Longrightarrow> n = 0 \<or> n = 1 \<or> n = 2 \<or> n = 3 \<or> n = 4 \<or> n = 5 \<or> n = 6 \<or> n = 7"
  by arith

lemma word_of_nat_mod_64:
  "(word_of_nat (unat (c::u64) mod 64) :: u8) = take_bit 6 (ucast c)"
proof -
  have "unat c mod 64 = take_bit 6 (unat c)"
    by (simp add: take_bit_eq_mod)
  then show ?thesis
    by (simp only:) (rule bit_word_eqI, auto simp: bit_simps)
qed

lemma cont_byte:
  fixes c :: u64
  shows "ucast ((c OR 0x80) AND 0xBF) = (word_of_nat (128 + unat c mod 64) :: u8)"
proof -
  have "ucast ((c OR 0x80) AND 0xBF) = (0x80 OR take_bit 6 (ucast c) :: u8)"
    by (rule bit_word_eqI) (auto simp: bit_simps dest!: less_8_cases)
  also have "\<dots> = 0x80 + take_bit 6 (ucast c)"
    by (rule disjunctive_add_eq_or [symmetric], rule bit_word_eqI) (auto simp: bit_simps dest!: less_8_cases)
  finally show ?thesis by (simp add: word_of_nat_mod_64)
qed

lemma ucast_word_of_nat: "(ucast (word_of_nat k :: u64) :: u8) = word_of_nat k"
  by (rule bit_word_eqI) (simp add: bit_simps)

lemma lead_byte:
  fixes c m :: u64
  assumes "take_bit k c = c" and "take_bit k m = 0" "m = word_of_nat n"
  shows "ucast ((c OR m) AND 0xFF) = (word_of_nat (n + unat c) :: u8)"
proof -
  have dis: "c AND m = 0"
  proof (rule bit_word_eqI)
    fix n
    have "bit c n = bit (take_bit k c) n" "bit (take_bit k m) n = bit (0::u64) n"
      using assms(1,2) by simp_all
    then show "bit (c AND m) n = bit 0 n"
      by (auto simp: bit_simps)
  qed
  have "ucast ((c OR m) AND 0xFF) = (ucast (c OR m) :: u8)"
    by (rule bit_word_eqI) (auto simp: bit_simps dest!: less_8_cases)
  moreover have "c OR m = word_of_nat (n + unat c)"
    using disjunctive_add_eq_or [OF dis] assms(3) by (simp add: add.commute)
  ultimately show ?thesis
    by (simp only: ucast_word_of_nat)
qed

lemma ascii_byte: "(ucast ((c::u64) AND 0x7F) :: u8) = word_of_nat (unat c mod 128)"
proof -
  have "unat c mod 128 = take_bit 7 (unat c)"
    by (simp add: take_bit_eq_mod)
  then show ?thesis
    by (simp only:) (rule bit_word_eqI, auto simp: bit_simps dest!: less_8_cases)
qed

text \<open>The UTF-8 encoding of a code point, by arithmetic.\<close>

definition utf8_encode :: "nat \<Rightarrow> u8 list" where
  "utf8_encode n =
     map word_of_nat
      (if n < 0x80 then [n]
       else if n < 0x800 then [0xC0 + n div 64, 0x80 + n mod 64]
       else if n < 0x10000 then [0xE0 + n div 4096, 0x80 + n div 64 mod 64, 0x80 + n mod 64]
       else [0xF0 + n div 262144, 0x80 + n div 4096 mod 64, 0x80 + n div 64 mod 64,
             0x80 + n mod 64])"

lemma unat_drop_bit: "unat (drop_bit k (c::u64)) = unat c div 2 ^ k"
proof -
  have "unat (drop_bit k c) = drop_bit k (unat c)"
    by (rule bit_eqI) (auto simp: bit_simps dest: bit_imp_le_length)
  then show ?thesis by (simp add: drop_bit_eq_div)
qed

lemma take_bit_small: "unat (c::u64) < 2 ^ k \<Longrightarrow> take_bit k c = c"
  by (metis take_bit_nat_eq_self_iff unsigned_take_bit_eq word_eq_iff_unsigned)


definition put :: "'a list \<Rightarrow> nat \<Rightarrow> 'a list \<Rightarrow> 'a list" where
  "put xs i ys = take i xs @ ys @ drop (i + length ys) xs"

lemma put_Nil [simp]: "put xs i [] = xs"
  by (simp add: put_def)

lemma put_Cons:
  "i + length ys < length xs \<Longrightarrow> put xs i (y # ys) = (put xs (i + 1) ys)[i := y]"
  by (simp add: put_def list_update_append take_Suc_conv_app_nth)

lemma length_put [simp]: "i + length ys \<le> length xs \<Longrightarrow> length (put xs i ys) = length xs"
  by (simp add: put_def)

lemma lead_byte_shifted:
  assumes "unat c div 2 ^ n < 2 ^ k" and "take_bit k (word_of_nat m :: u64) = 0"
  shows "ucast ((drop_bit n (c::u64) OR word_of_nat m) AND 0xFF) =
    (word_of_nat (m + unat c div 2 ^ n) :: u8)"
  using lead_byte [of k "drop_bit n c" "word_of_nat m" m] assms
  by (simp add: take_bit_small unat_drop_bit del: of_nat_add)

lemma utf8_write:
  assumes cp: "unat codepoint \<le> 0x10FFFF" and cap: "op + length (utf8_encode (unat codepoint)) \<le> length out"
    and enc: "(utf8_length, first_byte_mark) =
      (if codepoint < 0x80 then (1, 0) else if codepoint < 0x800 then (2, 0xC0)
       else if codepoint < 0x10000 then (3, 0xE0) else (4, 0xF0))"
  shows "bind_res (utf8_continuation (utf8_length - 1) (codepoint :: u64) out op)
      (\<lambda>(codepoint, out). bind_res
         (wr out op (if 1 < utf8_length then ucast ((codepoint OR first_byte_mark) AND 0xFF)
                     else ucast (codepoint AND 0x7F))) (\<lambda>out.
       Inr (sl, out, op + utf8_length))) =
    Inr (sl, put out op (utf8_encode (unat codepoint)), op + length (utf8_encode (unat codepoint)))"
proof -
  note lt = word_less_nat_alt
  consider "unat codepoint < 0x80" | "0x80 \<le> unat codepoint" "unat codepoint < 0x800"
    | "0x800 \<le> unat codepoint" "unat codepoint < 0x10000" | "0x10000 \<le> unat codepoint"
    by linarith
  then show ?thesis
  proof cases
    case 1
    with enc have "utf8_length = 1" by (simp add: lt)
    with 1 cap show ?thesis
      by (simp add: utf8_encode_def wr_def put_Cons ascii_byte)
  next
    case 2
    with enc have l: "utf8_length = 2" "first_byte_mark = 0xC0" by (simp_all add: lt)
    have "ucast ((drop_bit 6 codepoint OR 0xC0) AND 0xFF) =
        (word_of_nat (0xC0 + unat codepoint div 64) :: u8)"
      using lead_byte_shifted [of codepoint 6 5 "0xC0"] 2 by (simp add: take_bit_eq_mod)
    with 2 cap l show ?thesis
      by (simp add: utf8_encode_def wr_def put_Cons cont_byte numeral_2_eq_2)
  next
    case 3
    with enc have l: "utf8_length = 3" "first_byte_mark = 0xE0" by (simp_all add: lt)
    have "ucast ((drop_bit 12 codepoint OR 0xE0) AND 0xFF) =
        (word_of_nat (0xE0 + unat codepoint div 4096) :: u8)"
      using lead_byte_shifted [of codepoint 12 4 "0xE0"] 3 by (simp add: take_bit_eq_mod)
    with 3 cap l show ?thesis
      by (simp add: utf8_encode_def wr_def put_Cons cont_byte unat_drop_bit [of 6, simplified]
            numeral_2_eq_2 numeral_3_eq_3)
  next
    case 4
    with enc have l: "utf8_length = 4" "first_byte_mark = 0xF0" by (simp_all add: lt)
    have "ucast ((drop_bit 18 codepoint OR 0xF0) AND 0xFF) =
        (word_of_nat (0xF0 + unat codepoint div 262144) :: u8)"
      using lead_byte_shifted [of codepoint 18 3 "0xF0"] 4 cp by (simp add: take_bit_eq_mod)
    with 4 cap l show ?thesis
      by (simp add: utf8_encode_def wr_def put_Cons cont_byte unat_drop_bit [of 6, simplified]
            unat_drop_bit [of 12, simplified] numeral_2_eq_2 numeral_3_eq_3 eval_nat_numeral(2) [of num.One])
  qed
qed

lemma utf8_tail:
  assumes "unat (codepoint :: u64) \<le> 0x10FFFF"
    and "op + length (utf8_encode (unat codepoint)) \<le> length out"
  shows "(let encoding =
      (if codepoint < 0x80 then Some (1, 0)
       else if codepoint < 0x800 then Some (2, 0xC0)
       else if codepoint < 0x10000 then Some (3, 0xE0)
       else if codepoint \<le> 0x10FFFF then Some (4, 0xF0)
       else None)
    in case encoding of
         None \<Rightarrow> failed
       | Some (utf8_length, first_byte_mark) \<Rightarrow>
           bind_res (utf8_continuation (utf8_length - 1) codepoint out op)
             (\<lambda>(codepoint, out).
           bind_res
             (wr out op (if 1 < utf8_length
                         then ucast ((codepoint OR first_byte_mark) AND 0xFF)
                         else ucast (codepoint AND 0x7F))) (\<lambda>out.
           Inr (sl, out, op + utf8_length)))) =
    Inr (sl, put out op (utf8_encode (unat codepoint)),
         op + length (utf8_encode (unat codepoint)))"
proof -
  obtain l mk where enc: "(l, mk) = (if codepoint < 0x80 then (1, 0)
      else if codepoint < 0x800 then (2, 0xC0)
      else if codepoint < 0x10000 then (3, 0xE0) else (4 :: nat, 0xF0 :: u64))"
    by (metis surj_pair)
  have "(if codepoint < 0x80 then Some (1, 0) else if codepoint < 0x800 then Some (2, 0xC0)
      else if codepoint < 0x10000 then Some (3, 0xE0)
      else if codepoint \<le> 0x10FFFF then Some (4, 0xF0) else None) = Some (l, mk)"
    using enc assms(1) by (auto simp: word_le_nat_alt split: if_splits)
  then show ?thesis
    by (simp only: Let_def option.case prod.case) (rule utf8_write [OF assms enc])
qed

text \<open>
  The length and the code point of the literal at \<open>p\<close>, or \<open>None\<close> when it is cut off or
  an unpaired surrogate.
\<close>

definition utf16_decode :: "u8 list \<Rightarrow> nat \<Rightarrow> nat \<Rightarrow> (nat \<times> nat) option" where
  "utf16_decode inp p e =
     (let first = hex4_value inp (p + 2); second = hex4_value inp (p + 8) in
      if e < p + 6 \<or> 0xDC00 \<le> first \<and> first \<le> 0xDFFF then None
      else if 0xD800 \<le> first \<and> first \<le> 0xDBFF then
        (if p + 12 \<le> e \<and> inp ! (p + 6) = byte (CHR 0x5C) \<and> inp ! (p + 7) = byte (CHR ''u'') \<and>
            0xDC00 \<le> second \<and> second \<le> 0xDFFF
         then Some (12, 0x10000 + (first - 0xD800) * 1024 + (second - 0xDC00)) else None)
      else Some (6, first))"

lemma surrogate_pair:
  assumes "0xD800 \<le> a" "a \<le> 0xDBFF" "0xDC00 \<le> b" "b \<le> 0xDFFF"
  shows "unat (ucast (0x10000 + (push_bit 10 ((word_of_nat a :: u32) AND 0x3FF)
           OR ((word_of_nat b :: u32) AND 0x3FF))) :: u64) =
         0x10000 + (a - 0xD800) * 1024 + (b - 0xDC00)"
proof -
  have m: "(word_of_nat k :: u32) AND 0x3FF = word_of_nat (k mod 1024)" for k
  proof -
    have "(word_of_nat k :: u32) AND 0x3FF = take_bit 10 (word_of_nat k)"
      by (simp add: take_bit_eq_mask mask_eq_exp_minus_1)
    also have "\<dots> = word_of_nat (take_bit 10 k)"
      by (rule bit_word_eqI) (auto simp: bit_simps)
    finally show ?thesis by (simp add: take_bit_eq_mod)
  qed
  have mods: "a mod 1024 = a - 0xD800" "b mod 1024 = b - 0xDC00"
    using assms mod_mult_self1 [of "a - 0xD800" 54 1024] mod_mult_self1 [of "b - 0xDC00" 55 1024]
    by simp_all
  have "push_bit 10 (word_of_nat (a - 0xD800) :: u32) AND word_of_nat (b - 0xDC00) = 0"
  proof (rule bit_word_eqI)
    fix n
    have "\<not> bit (b - 0xDC00) n" if "10 \<le> n"
    proof -
      have "b - 0xDC00 < 2 ^ 10" using assms by simp
      also have "\<dots> \<le> (2::nat) ^ n" using that by (rule power_increasing) simp
      finally show ?thesis by (simp add: bit_iff_odd)
    qed
    then show "bit (push_bit 10 (word_of_nat (a - 0xD800) :: u32) AND word_of_nat (b - 0xDC00)) n = bit 0 n"
      by (auto simp: bit_simps)
  qed
  then have o: "(push_bit 10 (word_of_nat (a - 0xD800) :: u32) OR word_of_nat (b - 0xDC00)) =
      word_of_nat ((a - 0xD800) * 1024 + (b - 0xDC00))"
    by (simp add: push_bit_eq_mult flip: disjunctive_add_eq_or)
  have gen: "unat (ucast (0x10000 + word_of_nat x :: u32) :: u64) = 0x10000 + x" if "x < 2 ^ 20" for x
  proof -
    have "unat (word_of_nat (0x10000 + x) :: u32) = 0x10000 + x"
      using that by (simp add: unat_of_nat del: of_nat_add)
    moreover have "(0x10000 + word_of_nat x :: u32) = word_of_nat (0x10000 + x)"
      by simp
    ultimately show ?thesis
      using that by (simp add: unsigned_ucast_eq take_bit_nat_eq_self del: of_nat_add)
  qed
  show ?thesis
    unfolding m mods o by (subst gen) (use assms in simp_all)
qed

lemma utf16_decode_le:
  "utf16_decode inp p e = Some (n, cp) \<Longrightarrow>
     p + n \<le> e \<and> (n = 6 \<and> cp < 0x10000 \<or> n = 12 \<and> 0x10000 \<le> cp \<and> cp \<le> 0x10FFFF)"
  using hex4_value_less [of inp "p + 2"]
  by (auto simp: utf16_decode_def Let_def split: if_splits)


lemma utf16_codepoint_eq:
  assumes inp: "e \<le> length inp"
  shows "\<exists>r. utf16_codepoint inp p e = Inr r \<and>
    map_option (map_prod id unat) r = utf16_decode inp p e"
proof (cases "e < p + 6")
  case True
  then show ?thesis by (simp add: utf16_codepoint_def utf16_decode_def)
next
  case False
  let ?a = "hex4_value inp (p + 2)" and ?b = "hex4_value inp (p + 8)"
  have ha: "parse_hex4 inp (p + 2) = Inr (word_of_nat ?a)"
    using False inp by (simp add: parse_hex4_value)
  have le: "(x \<le> word_of_nat (hex4_value inp k)) = (unat x \<le> hex4_value inp k)"
    "(word_of_nat (hex4_value inp k) \<le> x) = (hex4_value inp k \<le> unat x)"
    "(word_of_nat (hex4_value inp k) < x) = (hex4_value inp k < unat x)"
    "(x < word_of_nat (hex4_value inp k)) = (unat x < hex4_value inp k)" for x :: u32 and k
    by (simp_all add: word_le_nat_alt word_less_nat_alt unat_hex4)
  have up: "unat (ucast (word_of_nat ?a :: u32) :: u64) = ?a"
    using hex4_value_less [of inp "p + 2"]
    by (simp add: unsigned_ucast_eq unat_hex4 take_bit_nat_eq_self)
  show ?thesis
  proof (cases "0xD800 \<le> ?a \<and> ?a \<le> 0xDBFF \<and> p + 12 \<le> e")
    case True
    then have hb: "parse_hex4 inp (p + 8) = Inr (word_of_nat ?b)"
      "parse_hex4 inp (8 + p) = Inr (word_of_nat ?b)"
      "rd inp (p + 6) = Inr (inp ! (p + 6))" "rd inp (7 + p) = Inr (inp ! (p + 7))"
      using inp by (simp_all add: parse_hex4_value rd_ok add.commute)
    have eq: "utf16_codepoint inp p e =
        Inr (if inp ! (p + 6) \<noteq> byte (CHR 0x5C) \<or> inp ! (p + 7) \<noteq> byte (CHR ''u'') \<or>
             ?b < 0xDC00 \<or> 0xDFFF < ?b then None
         else Some (12, ucast (0x10000 + (push_bit 10 (word_of_nat ?a AND 0x3FF)
                                          OR (word_of_nat ?b AND 0x3FF :: u32)))))"
      using True False by (simp add: utf16_codepoint_def Let_def ha hb le del: add_2_eq_Suc')
    show ?thesis
      unfolding eq using True surrogate_pair [of ?a ?b]
      by (auto simp: utf16_decode_def Let_def simp del: add_2_eq_Suc')
  next
    case f: False
    then have eq: "utf16_codepoint inp p e =
        Inr (if 0xD800 \<le> ?a \<and> ?a \<le> 0xDFFF then None else Some (6, ucast (word_of_nat ?a :: u32)))"
      using False by (auto simp: utf16_codepoint_def ha le simp del: add_2_eq_Suc')
    show ?thesis
      unfolding eq using f False up by (auto simp: utf16_decode_def Let_def simp del: add_2_eq_Suc')
  qed
qed

text \<open>
  The conversion writes the UTF-8 encoding of the code point, and reports the length of
  the literal, as long as the output block has room for the encoding.
\<close>

lemma utf16_literal_to_utf8_eq:
  assumes inp: "e \<le> length inp"
    and room: "\<And>n cp. utf16_decode inp p e = Some (n, cp) \<Longrightarrow>
      op + length (utf8_encode cp) \<le> length out"
  shows "utf16_literal_to_utf8 inp p e out op =
    Inr (case utf16_decode inp p e of
           None \<Rightarrow> (0, out, op)
         | Some (n, cp) \<Rightarrow> (n, put out op (utf8_encode cp), op + length (utf8_encode cp)))"
proof -
  obtain r where r: "utf16_codepoint inp p e = Inr r"
    "map_option (map_prod id unat) r = utf16_decode inp p e"
    using utf16_codepoint_eq [OF inp] by blast
  show ?thesis
  proof (cases r)
    case None
    with r show ?thesis by (auto simp: utf16_literal_to_utf8_def)
  next
    case (Some nc)
    then obtain n cp where dec: "r = Some (n, cp)" "utf16_decode inp p e = Some (n, unat cp)"
      using r(2) by (cases nc) auto
    have "unat cp \<le> 0x10FFFF" using utf16_decode_le [OF dec(2)] by auto
    from utf8_tail [OF this room [OF dec(2)]] show ?thesis
      unfolding utf16_literal_to_utf8_def r(1) dec by (simp only: bind_res_simps option.case prod.case)
  qed
qed


section \<open>The search for the closing quote\<close>

text \<open>\<open>esc_scan c e p k\<close>: the search from \<open>p\<close> reaches \<open>e\<close> after \<open>k\<close> backslash pairs.\<close>

inductive esc_scan :: "u8 list \<Rightarrow> nat \<Rightarrow> nat \<Rightarrow> nat \<Rightarrow> bool" for c e where
  scan_end: "esc_scan c e e 0"
| scan_plain: "p < e \<Longrightarrow> c ! p \<noteq> 92 \<Longrightarrow> c ! p \<noteq> 34 \<Longrightarrow> esc_scan c e (p + 1) k \<Longrightarrow> esc_scan c e p k"
| scan_pair: "p < e \<Longrightarrow> c ! p = 92 \<Longrightarrow> esc_scan c e (p + 2) k \<Longrightarrow> esc_scan c e p (Suc k)"

lemma esc_scan_bound: "esc_scan c e p k \<Longrightarrow> p + 2 * k \<le> e"
  by (induction rule: esc_scan.induct) auto

inductive_cases esc_scanE: "esc_scan c e p k"

lemma string_end_scan:
  assumes "len = length c"
  shows "\<exists>r. string_end c len p s = Inr r \<and>
    (case r of None \<Rightarrow> True
     | Some (e, n) \<Rightarrow> p \<le> e \<and> e < len \<and> c ! e = 34 \<and> s \<le> n \<and> esc_scan c e p (n - s))"
  using assms
proof (induction c len p s rule: string_end.induct)
  case (1 c len p s)
  show ?case
  proof (cases "p < len")
    case True
    consider "c ! p = 34" | "c ! p = 92" "len \<le> p + 1" | "c ! p = 92" "p + 1 < len"
      | "c ! p \<noteq> 34" "c ! p \<noteq> 92" by linarith
    then show ?thesis
    proof cases
      case 1
      then show ?thesis
        using True \<open>len = length c\<close>
        by (subst string_end.simps) (simp add: rd_ok scan_end)
    next
      case 2
      then show ?thesis
        using True \<open>len = length c\<close> by (subst string_end.simps) (simp add: rd_ok)
    next
      case 3
      from 1(1) [of "c ! p"] True 3 \<open>len = length c\<close>
      obtain r where r: "string_end c len (p + 2) (s + 1) = Inr r"
        "case r of None \<Rightarrow> True | Some (e, n) \<Rightarrow> p + 2 \<le> e \<and> e < len \<and> c ! e = 34 \<and> s + 1 \<le> n \<and>
           esc_scan c e (p + 2) (n - (s + 1))"
        by auto
      have "string_end c len p s = Inr r"
        using True 3 r(1) \<open>len = length c\<close> by (subst string_end.simps) (simp add: rd_ok)
      moreover have "esc_scan c e p (n - s)"
        if "esc_scan c e (p + 2) (n - (s + 1))" "p + 2 \<le> e" "s + 1 \<le> n" for e n
        using scan_pair [of p e c "n - (s + 1)"] that 3 Suc_diff_Suc [of s n] by simp
      ultimately show ?thesis using r(2) by (auto split: option.splits)
    next
      case 4
      from 1(2) [of "c ! p"] True 4 \<open>len = length c\<close>
      obtain r where r: "string_end c len (p + 1) s = Inr r"
        "case r of None \<Rightarrow> True | Some (e, n) \<Rightarrow> p + 1 \<le> e \<and> e < len \<and> c ! e = 34 \<and> s \<le> n \<and>
           esc_scan c e (p + 1) (n - s)"
        by auto
      have "string_end c len p s = Inr r"
        using True 4 r(1) \<open>len = length c\<close> by (subst string_end.simps) (simp add: rd_ok)
      moreover have "esc_scan c e p (n - s)"
        if "esc_scan c e (p + 1) (n - s)" "p + 1 \<le> e" for e n
        using scan_plain [of p e c "n - s"] that 4 by simp
      ultimately show ?thesis using r(2) by (auto split: option.splits)
    qed
  next
    case False
    then show ?thesis by (subst string_end.simps) simp
  qed
qed

section \<open>The room left in the output block\<close>

text \<open>
  The decoder may step into the middle of a pair that the search skipped (the four
  digits of a \<open>u\<close> literal are not checked to be free of backslashes), so it is at the
  beginning of a unit of the search or one byte behind it.
\<close>

definition in_step :: "u8 list \<Rightarrow> nat \<Rightarrow> nat \<Rightarrow> nat \<Rightarrow> bool" where
  "in_step c e p k \<longleftrightarrow> esc_scan c e p k \<or> p < e \<and> esc_scan c e (p + 1) k \<or> p = e + 1 \<and> k = 0"

lemma in_step_le: "in_step c e p k \<Longrightarrow> p < e \<Longrightarrow> p + 2 * k \<le> e"
  by (auto simp: in_step_def dest: esc_scan_bound)

lemma in_step_plain: "in_step c e p k \<Longrightarrow> p < e \<Longrightarrow> c ! p \<noteq> 92 \<Longrightarrow> in_step c e (p + 1) k"
  by (auto simp: in_step_def elim: esc_scanE)

lemma in_step_behind:
  assumes "esc_scan c e (p + 1) k" "p + 2 \<le> e"
  shows "\<exists>k'. in_step c e (p + 2) k' \<and> k \<le> k' + 1"
  using assms(1)
proof (cases rule: esc_scan.cases)
  case scan_end with assms show ?thesis by simp
next
  case scan_plain then show ?thesis by (auto simp: in_step_def)
next
  case (scan_pair k')
  then show ?thesis
    using esc_scan_bound [of c e "p + 1 + 2" k'] by (intro exI [of _ k']) (auto simp: in_step_def)
qed

lemma in_step_two:
  assumes "in_step c e p k" "p + 2 \<le> e"
  shows "\<exists>k'. in_step c e (p + 2) k' \<and> k \<le> k' + 1"
proof -
  have aligned: "?thesis" if "esc_scan c e p k"
    using that
  proof (cases rule: esc_scan.cases)
    case scan_end with assms show ?thesis by simp
  next
    case scan_plain with assms show ?thesis by (intro in_step_behind)
  next
    case (scan_pair k') then show ?thesis by (auto simp: in_step_def)
  qed
  from assms have "esc_scan c e p k \<or> esc_scan c e (p + 1) k"
    by (auto simp: in_step_def)
  with aligned in_step_behind [of c e p k] assms(2) show ?thesis
    by blast
qed

lemma in_step_pair:
  assumes "in_step c e p k" "p < e" "c ! p = 92"
  shows "\<exists>k'. in_step c e (p + 2) k' \<and> k + (e - (p + 2)) + 1 \<le> k' + (e - p)"
proof (cases "p + 2 \<le> e")
  case True
  with in_step_two [OF assms(1)] obtain k' where "in_step c e (p + 2) k'" "k \<le> k' + 1" by blast
  with True show ?thesis by (intro exI [of _ k']) auto
next
  case False
  with assms(2) have e: "e = p + 1" by simp
  from assms consider "esc_scan c e p k" | "esc_scan c e (p + 1) k"
    by (auto simp: in_step_def)
  then have "k = 0"
    using esc_scan_bound [of c e] e by cases (force, force)
  then show ?thesis
    using e by (auto simp: in_step_def)
qed

lemma in_step_six:
  assumes "in_step c e p k" "p + 6 \<le> e"
  shows "\<exists>k'. in_step c e (p + 6) k' \<and> k \<le> k' + 3"
proof -
  from in_step_two [OF assms(1)] assms(2) obtain k1 where k1: "in_step c e (p + 2) k1" "k \<le> k1 + 1"
    by auto
  from in_step_two [OF this(1)] assms(2) obtain k2 where k2: "in_step c e (p + 2 + 2) k2" "k1 \<le> k2 + 1"
    by auto
  from in_step_two [OF this(1)] assms(2) obtain k3
    where "in_step c e (p + 2 + 2 + 2) k3" "k2 \<le> k3 + 1"
    by auto
  with k1 k2 show ?thesis
    by (intro exI [of _ k3]) (simp add: eval_nat_numeral)
qed


lemma in_step_jump:
  assumes "in_step c e p k" "p + n \<le> e" "n = 6 \<or> n = 12"
  shows "\<exists>k'. in_step c e (p + n) k' \<and> k \<le> k' + n div 2"
proof -
  obtain k1 where k1: "in_step c e (p + 6) k1" "k \<le> k1 + 3"
    using in_step_six [of c e p k] assms by auto
  show ?thesis
  proof (cases "n = 6")
    case True with k1 show ?thesis by auto
  next
    case False
    with assms have "n = 12" by simp
    with in_step_six [OF k1(1)] assms(2) obtain k2 where "in_step c e (p + 6 + 6) k2" "k1 \<le> k2 + 3"
      by auto
    with k1(2) \<open>n = 12\<close> show ?thesis
      by (intro exI [of _ k2]) (simp add: add.assoc)
  qed
qed

section \<open>What the decoder computes\<close>

text \<open>
  The reference: the bytes a literal stands for, or \<open>Inl\<close> the position of the first
  escape sequence that is not valid.
\<close>

definition prepend :: "u8 list \<Rightarrow> nat + u8 list \<Rightarrow> nat + u8 list" where
  "prepend bs r = (case r of Inl q \<Rightarrow> Inl q | Inr cs \<Rightarrow> Inr (bs @ cs))"

function literal_bytes :: "u8 list \<Rightarrow> nat \<Rightarrow> nat \<Rightarrow> nat + u8 list" where
  "literal_bytes c p e =
     (if e \<le> p then Inr []
      else if c ! p \<noteq> 92 then prepend [c ! p] (literal_bytes c (p + 1) e)
      else case escape_byte (c ! (p + 1)) of
             Some v \<Rightarrow> prepend [v] (literal_bytes c (p + 2) e)
           | None \<Rightarrow>
               (case (if c ! (p + 1) = 117 then utf16_decode c p e else None) of
                  None \<Rightarrow> Inl p
                | Some (n, cp) \<Rightarrow>
                    if n = 0 then Inl p
                    else prepend (utf8_encode cp) (literal_bytes c (p + n) e)))"
  by pat_completeness auto
termination by (relation "measure (\<lambda>(c, p, e). e - p)") auto

declare literal_bytes.simps [simp del]

lemma put_put:
  "i + length bs + length cs \<le> length out \<Longrightarrow>
     put (put out i bs) (i + length bs) cs = put out i (bs @ cs)"
  by (simp add: put_def add_ac)

lemma length_utf8_encode:
  "length (utf8_encode n) = (if n < 0x80 then 1 else if n < 0x800 then 2 else if n < 0x10000 then 3 else 4)"
  by (simp add: utf8_encode_def)

definition decoded :: "nat + u8 list \<Rightarrow> u8 list \<Rightarrow> nat \<Rightarrow> (nat + nat) \<times> u8 list \<Rightarrow> bool" where
  "decoded spec out op res \<longleftrightarrow> length (snd res) = length out \<and>
     (case spec of Inl q \<Rightarrow> fst res = Inl q
      | Inr bs \<Rightarrow> fst res = Inr (op + length bs) \<and> op + length bs + 2 \<le> length out \<and>
          snd res = put out op bs)"

lemma decoded_prepend:
  assumes "decoded spec (put out op bs) (op + length bs) res" "op + length bs \<le> length out"
  shows "decoded (prepend bs spec) out op res"
  using assms by (cases spec) (auto simp: decoded_def prepend_def put_put add.assoc)

lemma unescape_decodes:
  assumes "e < length c" "in_step c e p k" "op + (e - p) + 2 \<le> length out + k"
  shows "\<exists>res. unescape c p e out op = Inr res \<and> decoded (literal_bytes c p e) out op res"
  using assms
proof (induction "e - p" arbitrary: p k op out rule: less_induct)
  case less
  note prems = less.prems
  show ?case
  proof (cases "p < e")
    case False
    with prems show ?thesis
      by (subst unescape.simps, subst literal_bytes.simps)
        (auto simp: decoded_def in_step_def dest: esc_scan_bound)
  next
    case p: True
    with prems have room: "op + 2 \<le> length out" "rd c p = Inr (c ! p)"
      using in_step_le [OF prems(2) p] by (simp_all add: rd_ok)
    have step: "\<exists>res. unescape c (p + n) e (put out op bs) (op + length bs) = Inr res \<and>
        decoded (prepend bs (literal_bytes c (p + n) e)) out op res"
      if "in_step c e (p + n) k'" "k + length bs + (e - (p + n)) \<le> k' + (e - p)" "0 < n"
        "op + length bs \<le> length out" for n k' bs
    proof -
      have "op + length bs + (e - (p + n)) + 2 \<le> length (put out op bs) + k'"
        using prems(3) that by simp
      moreover have "e - (p + n) < e - p" using that(3) p by simp
      ultimately have "\<exists>res. unescape c (p + n) e (put out op bs) (op + length bs) = Inr res \<and>
          decoded (literal_bytes c (p + n) e) (put out op bs) (op + length bs) res"
        using less.hyps [OF _ prems(1) that(1)] by blast
      then show ?thesis using that(4) by (blast intro: decoded_prepend)
    qed
    consider "c ! p \<noteq> 92" | v where "c ! p = 92" "escape_byte (c ! (p + 1)) = Some v"
      | "c ! p = 92" "escape_byte (c ! (p + 1)) = None" by fastforce
    then show ?thesis
    proof cases
      case 1
      from step [OF in_step_plain [OF prems(2) p 1], of "[c ! p]"] p room
      show ?thesis
        using p 1 room by (subst unescape.simps, subst literal_bytes.simps) (simp add: wr_ok put_Cons)
    next
      case 2
      obtain k' where k': "in_step c e (p + 2) k'" "k + (e - (p + 2)) + 1 \<le> k' + (e - p)"
        using in_step_pair [OF prems(2) p 2(1)] by blast
      from step [OF k'(1), of "[v]"] k'(2) room
      show ?thesis
        using p 2 room prems(1)
        by (subst unescape.simps, subst literal_bytes.simps) (simp add: wr_ok put_Cons rd_ok)
    next
      case 3
      show ?thesis
      proof (cases "if c ! (p + 1) = 117 then utf16_decode c p e else None")
        case None
        then have "c ! (p + 1) = 117 \<Longrightarrow> utf16_literal_to_utf8 c p e out op = Inr (0, out, op)"
          using prems(1) by (subst utf16_literal_to_utf8_eq) auto
        then show ?thesis
          using p 3 room prems(1) None
          by (subst unescape.simps, subst literal_bytes.simps) (auto simp: rd_ok decoded_def)
      next
        case (Some ncp)
        then obtain n cp where u: "c ! (p + 1) = 117" and dec: "utf16_decode c p e = Some (n, cp)"
          by (cases ncp) (auto split: if_splits)
        note n = utf16_decode_le [OF dec]
        obtain k' where k': "in_step c e (p + n) k'" "k \<le> k' + n div 2"
          using in_step_jump [OF prems(2)] n by blast
        have len: "op + length (utf8_encode cp) \<le> length out"
          using in_step_le [OF prems(2) p] prems(3) n by (auto simp: length_utf8_encode)
        have "\<exists>res. unescape c (p + n) e (put out op (utf8_encode cp)) (op + length (utf8_encode cp)) = Inr res \<and>
            decoded (prepend (utf8_encode cp) (literal_bytes c (p + n) e)) out op res"
          using k' n len by (intro step [of n k']) (auto simp: length_utf8_encode)
        moreover have "utf16_literal_to_utf8 c p e out op =
            Inr (n, put out op (utf8_encode cp), op + length (utf8_encode cp))"
          using utf16_literal_to_utf8_eq [of e c p op out] prems(1) dec len by simp
        moreover have "0 < n" using n by auto
        ultimately show ?thesis
          using p 3 room prems(1) u dec
          by (subst unescape.simps, subst literal_bytes.simps) (simp add: rd_ok)
      qed
    qed
  qed
qed


lemma string_end_of_scan:
  "esc_scan c e p k \<Longrightarrow> e < len \<Longrightarrow> len = length c \<Longrightarrow> c ! e = 34 \<Longrightarrow>
     string_end c len p s = Inr (Some (e, s + k))"
proof (induction arbitrary: s rule: esc_scan.induct)
  case scan_end
  then show ?case by (subst string_end.simps) (simp add: rd_ok)
next
  case (scan_plain p k)
  then show ?case by (subst string_end.simps) (simp add: rd_ok)
next
  case (scan_pair p k)
  then show ?case
    using esc_scan_bound [OF scan_pair.hyps(3)] by (subst string_end.simps) (simp add: rd_ok)
qed

lemma literal_bytes_Inl: "literal_bytes c p e = Inl q \<Longrightarrow> p \<le> q \<and> q < e"
proof (induction c p e rule: literal_bytes.induct)
  case (1 c p e)
  from 1(4) show ?case
    using 1(1-3)
    by (subst (asm) literal_bytes.simps)
      (fastforce simp: prepend_def split: if_splits option.splits sum.splits prod.splits)
qed

section \<open>\<open>parse_string\<close>\<close>

definition pb_ok :: "parse_buffer \<Rightarrow> bool" where
  "pb_ok b \<longleftrightarrow> pb_length b = length (pb_content b) \<and> pb_content b \<noteq> [] \<and> last (pb_content b) = 0"

text \<open>The string literal that begins at \<open>p\<close>: the position of its closing quote, its bytes.\<close>

definition literal_at :: "u8 list \<Rightarrow> nat \<Rightarrow> nat \<Rightarrow> u8 list \<Rightarrow> bool" where
  "literal_at c p e bs \<longleftrightarrow> c ! p = 34 \<and> e < length c \<and> c ! e = 34 \<and> (\<exists>k. esc_scan c e (p + 1) k) \<and>
     literal_bytes c (p + 1) e = Inr bs"

text \<open>The hooks of a buffer are used, not replaced.\<close>

definition same_hooks :: "internal_hooks \<Rightarrow> internal_hooks \<Rightarrow> bool" where
  "same_hooks h h' \<longleftrightarrow> grants h' = grants h \<and> has_reallocate h' = has_reallocate h \<and> fill h' = fill h"

definition same_text :: "parse_buffer \<Rightarrow> parse_buffer \<Rightarrow> bool" where
  "same_text b b' \<longleftrightarrow> pb_content b' = pb_content b \<and> pb_length b' = pb_length b \<and>
     same_hooks (pb_hooks b) (pb_hooks b')"

lemma allocate_cases:
  assumes "allocate h n = (h', r)"
  shows "same_hooks h h' \<and> live h' = live h + (if r = None then 0 else 1) \<and>
    (\<forall>blk. r = Some blk \<longrightarrow> length blk = n) \<and> (always_grants h \<longrightarrow> r \<noteq> None)"
  using assms by (auto simp: allocate_def same_hooks_def always_grants_def split: if_splits)

lemma deallocate_simps [simp]:
  "live (deallocate h) = live h - 1" "same_hooks h (deallocate h') = same_hooks h h'"
  by (simp_all add: deallocate_def same_hooks_def)

lemma takeWhile_put_0:
  assumes "op = length bs" "op < length out"
  shows "cstr_of ((put out 0 bs)[op := 0]) = cstr_of bs"
proof -
  have "(put out 0 bs)[op := 0] = bs @ 0 # drop (Suc op) out"
    using assms by (simp add: put_def list_update_append Cons_nth_drop_Suc [symmetric])
  then show ?thesis
    by (auto simp: cstr_of_def takeWhile_append takeWhile_eq_all_conv [THEN iffD2])
qed

lemma parse_string_result:
  assumes ok: "pb_ok b" "pb_offset b < pb_length b"
  obtains (failed) off h where
      "parse_string item b = Inr (False, item, b\<lparr>pb_hooks := h, pb_offset := off\<rparr>)"
      "pb_offset b < off" "off \<le> pb_length b" "same_hooks (pb_hooks b) h" "live h = live (pb_hooks b)"
      "\<And>e bs. always_grants (pb_hooks b) \<Longrightarrow> \<not> literal_at (pb_content b) (pb_offset b) e bs"
    | (parsed) e bs h where
      "parse_string item b =
         Inr (True, set_valuestring (Some (cstr_of bs)) (set_ctype cJSON_String item),
              b\<lparr>pb_hooks := h, pb_offset := e + 1\<rparr>)"
      "literal_at (pb_content b) (pb_offset b) e bs" "pb_offset b < e"
      "same_hooks (pb_hooks b) h" "live h = live (pb_hooks b) + 1"
proof -
  let ?c = "pb_content b" and ?p = "pb_offset b"
  have len: "pb_length b = length ?c" using ok by (simp add: pb_ok_def)
  have at0: "at_offset b 0 = Inr (?c ! ?p)"
    using ok len by (simp add: at_offset_def rd_ok)
  obtain r where r: "string_end ?c (pb_length b) (?p + 1) 0 = Inr r"
    "case r of None \<Rightarrow> True | Some (e, n) \<Rightarrow> ?p + 1 \<le> e \<and> e < pb_length b \<and> ?c ! e = 34 \<and>
       esc_scan ?c e (?p + 1) n"
    using string_end_scan [OF len, of "?p + 1" 0] by (auto split: option.splits)
  consider "?c ! ?p \<noteq> 34" | "?c ! ?p = 34" "r = None"
    | e n where "?c ! ?p = 34" "r = Some (e, n)" by (cases r) auto
  then show thesis
  proof cases
    case 1
    show thesis
    proof (rule failed)
      show "parse_string item b = Inr (False, item, b\<lparr>pb_hooks := pb_hooks b, pb_offset := ?p + 1\<rparr>)"
        using 1 by (simp add: parse_string_def at0)
    qed (use ok 1 in \<open>auto simp: same_hooks_def literal_at_def\<close>)
  next
    case 2
    show thesis
    proof (rule failed)
      show "parse_string item b = Inr (False, item, b\<lparr>pb_hooks := pb_hooks b, pb_offset := ?p + 1\<rparr>)"
        using 2 r(1) by (simp add: parse_string_def at0)
      show "\<not> literal_at ?c ?p e bs" for e bs
        using string_end_of_scan [OF _ _ len, of e "?p + 1" _ 0] r(1) 2(2) len
        by (auto simp: literal_at_def)
    qed (use ok in \<open>auto simp: same_hooks_def\<close>)
  next
    case (3 e n)
    note scan = r(2) [unfolded 3(2), simplified]
    define al where "al = e - ?p - n + 1"
    obtain h blk where al: "allocate (pb_hooks b) al = (h, blk)" by fastforce
    note alc = allocate_cases [OF al]
    show thesis
    proof (cases blk)
      case None
      show thesis
      proof (rule failed)
        show "parse_string item b = Inr (False, item, b\<lparr>pb_hooks := h, pb_offset := ?p + 1\<rparr>)"
          using 3 r(1) al None by (simp add: parse_string_def at0 al_def)
      qed (use ok None alc in \<open>auto\<close>)
    next
      case (Some out)
      have "n \<le> e - ?p" using scan esc_scan_bound [of ?c e "?p + 1" n] by auto
      then have "in_step ?c e (?p + 1) n" "0 + (e - (?p + 1)) + 2 \<le> length out + n"
        using scan alc Some by (auto simp: in_step_def al_def)
      from unescape_decodes [OF _ this] scan len obtain res where res:
        "unescape ?c (?p + 1) e out 0 = Inr res" "decoded (literal_bytes ?c (?p + 1) e) out 0 res"
        by auto
      show thesis
      proof (cases "literal_bytes ?c (?p + 1) e")
        case (Inl q)
        note q = literal_bytes_Inl [OF Inl]
        show thesis
        proof (rule failed)
          show "parse_string item b = Inr (False, item, b\<lparr>pb_hooks := deallocate h, pb_offset := q\<rparr>)"
            using 3 r(1) al Some res Inl
            by (cases res) (simp add: parse_string_def at0 al_def decoded_def)
          show "\<not> literal_at ?c ?p e' bs" for e' bs
            using string_end_of_scan [OF _ _ len, of e' "?p + 1" _ 0] r(1) 3(2) len Inl
            by (auto simp: literal_at_def)
        qed (use ok alc Some q scan in auto)
      next
        case (Inr bs)
        have "parse_string item b =
            Inr (True, set_valuestring (Some (cstr_of bs)) (set_ctype cJSON_String item),
                 b\<lparr>pb_hooks := h, pb_offset := e + 1\<rparr>)"
          using 3 r(1) al Some res Inr
          by (cases res) (simp add: parse_string_def at0 al_def decoded_def wr_ok takeWhile_put_0)
        then show thesis
          using scan alc Some Inr 3(1) len by (intro parsed) (auto simp: literal_at_def)
      qed
    qed
  qed
qed

end
