(* ===== verification/CJsonParseCorrect.thy ===== *)
theory CJsonParseCorrect
  imports CJsonParse CJsonStringCorrect
begin

text \<open>
  The grammar the parser accepts, as an inductive relation between a position of the text
  and the item read there, and the proofs that the parser stays in bounds, returns, gives
  back what it allocated when it fails, and accepts exactly this grammar.
\<close>

section \<open>White space\<close>

definition skip_ws :: "u8 list \<Rightarrow> nat \<Rightarrow> nat" where
  "skip_ws c p =
     (let q = p + length (takeWhile (\<lambda>d. d \<le> 32) (drop p c)) in if q = length c then q - 1 else q)"

lemma skip_loop_eq:
  "pb_length b = length (pb_content b) \<Longrightarrow> pb_offset b \<le> pb_length b \<Longrightarrow>
   skip_loop b = Inr (set_offset (pb_offset b +
     length (takeWhile (\<lambda>d. d \<le> 32) (drop (pb_offset b) (pb_content b)))) b)"
proof (induction b rule: skip_loop.induct)
  case (1 b)
  show ?case
  proof (cases "pb_offset b < pb_length b")
    case True
    with 1 have at: "at_offset b 0 = Inr (pb_content b ! pb_offset b)"
      by (simp add: at_offset_def rd_ok)
    have drop: "drop (pb_offset b) (pb_content b) =
        pb_content b ! pb_offset b # drop (Suc (pb_offset b)) (pb_content b)"
      using True 1 by (simp add: Cons_nth_drop_Suc)
    show ?thesis
      using 1 True at drop by (subst skip_loop.simps) (simp add: can_access_at_index_def)
  next
    case False
    with 1 show ?thesis by (subst skip_loop.simps) (simp add: can_access_at_index_def)
  qed
qed

lemma buffer_skip_whitespace_eq:
  assumes "pb_ok b" "pb_offset b < pb_length b"
  shows "buffer_skip_whitespace b = Inr (set_offset (skip_ws (pb_content b) (pb_offset b)) b)"
proof -
  have "skip_loop b = Inr (set_offset (pb_offset b +
     length (takeWhile (\<lambda>d. d \<le> 32) (drop (pb_offset b) (pb_content b)))) b)"
    using assms by (intro skip_loop_eq) (auto simp: pb_ok_def)
  with assms show ?thesis
    by (auto simp: buffer_skip_whitespace_def skip_ws_def Let_def pb_ok_def size_dec_def)
qed

lemma skip_ws_bounds: "p < length c \<Longrightarrow> p \<le> skip_ws c p \<and> skip_ws c p < length c"
  using length_takeWhile_le [of "\<lambda>d. d \<le> 32" "drop p c"]
  by (auto simp: skip_ws_def Let_def)

lemma skip_ws_here: "p < length c \<Longrightarrow> \<not> c ! p \<le> 32 \<Longrightarrow> skip_ws c p = p"
  by (simp add: skip_ws_def Cons_nth_drop_Suc [symmetric])

section \<open>Numbers\<close>

definition num_text :: "u8 list \<Rightarrow> nat \<Rightarrow> u8 list" where
  "num_text c p = takeWhile (\<lambda>d. number_char d \<noteq> None) (take 63 (drop p c))"

lemma number_char_Some: "number_char c = Some d \<Longrightarrow> d = c \<and> c \<noteq> 0"
  by (auto simp: number_char_def get_decimal_point_def word_le_nat_alt split: if_splits)

lemma copy_number_eq:
  assumes "pb_ok b" "i \<le> 63" "length s = 64"
  shows "copy_number b i s =
    (let t = takeWhile (\<lambda>d. number_char d \<noteq> None) (take (63 - i) (drop (pb_offset b + i) (pb_content b)))
     in Inr (i + length t, put s i t))"
  using assms(2,3)
proof (induction "63 - i" arbitrary: i s)
  case 0
  then show ?case by (subst copy_number.simps) simp
next
  case (Suc m)
  let ?c = "pb_content b" and ?p = "pb_offset b + i"
  show ?case
  proof (cases "?p < length ?c")
    case True
    have at: "at_offset b i = Inr (?c ! ?p)"
      using True by (simp add: at_offset_def rd_ok)
    have drop: "take (63 - i) (drop ?p ?c) = ?c ! ?p # take (63 - (i + 1)) (drop (pb_offset b + (i + 1)) ?c)"
    proof -
      have "63 - i = Suc (63 - (i + 1))" using Suc.hyps(2) by simp
      then show ?thesis
        using True by (simp only: take_Suc_Cons Cons_nth_drop_Suc [symmetric] add_Suc_right add.assoc) simp
    qed
    show ?thesis
    proof (cases "number_char (?c ! ?p)")
      case None
      then show ?thesis
        using Suc.prems Suc.hyps(2) True at drop assms(1)
        by (subst copy_number.simps) (simp add: can_access_at_index_def pb_ok_def)
    next
      case (Some d)
      then have d: "d = ?c ! ?p" by (simp add: number_char_Some)
      have i: "i < 63" using Suc.hyps(2) by simp
      let ?t = "takeWhile (\<lambda>d. number_char d \<noteq> None) (take (63 - (i + 1)) (drop (pb_offset b + (i + 1)) ?c))"
      have len: "length ?t \<le> 63 - (i + 1)"
        using length_takeWhile_le [of "\<lambda>d. number_char d \<noteq> None"
          "take (63 - (i + 1)) (drop (pb_offset b + (i + 1)) ?c)"] by simp
      have "copy_number b i s = copy_number b (i + 1) (s[i := d])"
        using i Suc.prems True at Some assms(1)
        by (subst copy_number.simps) (simp add: can_access_at_index_def pb_ok_def wr_ok)
      also have "\<dots> = Inr (i + 1 + length ?t, put (s[i := d]) (i + 1) ?t)"
        using Suc.hyps(1) [of "i + 1" "s[i := d]"] Suc.hyps(2) Suc.prems by (simp add: Let_def)
      also have "put (s[i := d]) (i + 1) ?t = put s i (d # ?t)"
        using i Suc.prems len put_put [of i "[d]" ?t s] by (simp add: put_Cons)
      finally show ?thesis
        using Some d drop by simp
    qed
  next
    case False
    then show ?thesis
      using assms(1) Suc.prems
      by (subst copy_number.simps) (simp add: can_access_at_index_def pb_ok_def)
  qed
qed

lemma num_text_length: "length (num_text c p) \<le> 63 \<and> length (num_text c p) \<le> length c - p"
  using length_takeWhile_le [of "\<lambda>d. number_char d \<noteq> None" "take 63 (drop p c)"]
  by (auto simp: num_text_def)

lemma num_text_nonzero: "d \<in> set (num_text c p) \<Longrightarrow> d \<noteq> 0"
  by (auto simp: num_text_def dest!: set_takeWhileD number_char_Some)

lemma cstr_of_nonzero: "0 \<notin> set s \<Longrightarrow> cstr_of s = s"
  by (auto simp: cstr_of_def takeWhile_eq_all_conv)

text \<open>\<open>strtod\<close> consumes no more than there is, and never gives a NaN.\<close>

lemma take_sign_length: "take_sign s = (g, t) \<Longrightarrow> length t \<le> length s"
  by (auto simp: take_sign_def split: list.splits if_splits)

lemma strtod_bounds: "strtod s = (d, n) \<Longrightarrow> n \<le> length s \<and> d \<noteq> NotANumber"
  by (auto simp: strtod_def Let_def double_of_ratio_def double_zero_def
      split: prod.splits if_splits list.splits)

lemma saturated_int_ok:
  assumes "d \<noteq> NotANumber"
  shows "\<exists>k. saturated_int d = Inr k \<and> int_fits k"
proof (cases d)
  case (Finite s m e)
  let ?k = "signed s (numer m e div denom e)"
  show ?thesis
  proof (cases "double_ge_int d INT_MAX \<or> double_le_int d INT_MIN")
    case True
    then show ?thesis by (auto simp: saturated_int_def int_fits_def)
  next
    case False
    have pos: "0 < denom e" by (simp add: denom_def)
    have "int_fits ?k"
    proof (cases s)
      case True
      then have "numer m e < 2147483648 * denom e"
        using False Finite by (auto simp: signed_def)
      then have "numer m e div denom e < 2147483648" using pos by (simp add: less_mult_imp_div_less)
      with True show ?thesis by (simp add: signed_def int_fits_def flip: of_nat_div)
    next
      case s: False
      then have "int (numer m e) < 2147483647 * int (denom e)"
        using False Finite by (auto simp: signed_def)
      then have "numer m e < 2147483647 * denom e" by linarith
      then have "numer m e div denom e < 2147483647" using pos by (simp add: less_mult_imp_div_less)
      with s show ?thesis by (simp add: signed_def int_fits_def flip: of_nat_div)
    qed
    with False Finite show ?thesis by (simp add: saturated_int_def Let_def)
  qed
qed (use assms in \<open>auto simp: saturated_int_def int_fits_def\<close>)

lemma parse_number_eq:
  assumes "pb_ok b"
  shows "parse_number item b =
    (let (d, n) = strtod (num_text (pb_content b) (pb_offset b)) in
     if n = 0 then Inr (False, item, b)
     else bind_res (saturated_int d) (\<lambda>k.
       Inr (True, set_ctype cJSON_Number (set_valueint k (set_valuedouble d item)),
            set_offset (pb_offset b + n) b)))"
proof -
  let ?t = "num_text (pb_content b) (pb_offset b)" and ?s = "replicate 64 (fill (pb_hooks b))"
  have "copy_number b 0 ?s = Inr (length ?t, put ?s 0 ?t)"
    using copy_number_eq [OF assms, of 0 ?s] by (simp add: num_text_def Let_def)
  moreover have "length ?t < 64"
    using num_text_length [of "pb_content b" "pb_offset b"] by simp
  moreover have "cstr_of ((put ?s 0 ?t)[length ?t := 0]) = ?t"
    using takeWhile_put_0 [of "length ?t" ?t ?s] \<open>length ?t < 64\<close>
      cstr_of_nonzero [of ?t] num_text_nonzero by auto
  ultimately show ?thesis
    by (simp add: parse_number_def wr_ok)
qed


section \<open>The grammar\<close>

definition word_at :: "u8 list \<Rightarrow> nat \<Rightarrow> u8 list \<Rightarrow> bool" where
  "word_at c p s \<longleftrightarrow> p + length s \<le> length c \<and> take (length s) (drop p c) = s"

text \<open>
  \<open>value_at c d p x x' q\<close>: at position \<open>p\<close> and nesting depth \<open>d\<close> the text \<open>c\<close> holds a value
  that ends before \<open>q\<close>; filled into \<open>x\<close> it gives \<open>x'\<close>. \<open>elements_at c d p xs q\<close>: from the byte
  after \<open>p\<close> on there are comma-separated values, and \<open>q\<close> is the byte after them and the
  white space. \<open>members_at\<close> is the same with names.
\<close>

inductive value_at :: "u8 list \<Rightarrow> nat \<Rightarrow> nat \<Rightarrow> cJSON \<Rightarrow> cJSON \<Rightarrow> nat \<Rightarrow> bool"
  and elements_at :: "u8 list \<Rightarrow> nat \<Rightarrow> nat \<Rightarrow> cJSON list \<Rightarrow> nat \<Rightarrow> bool"
  and members_at :: "u8 list \<Rightarrow> nat \<Rightarrow> nat \<Rightarrow> cJSON list \<Rightarrow> nat \<Rightarrow> bool"
  for c where
  v_null: "word_at c p (bytes ''null'') \<Longrightarrow> value_at c d p x (set_ctype cJSON_NULL x) (p + 4)"
| v_false: "word_at c p (bytes ''false'') \<Longrightarrow> value_at c d p x (set_ctype cJSON_False x) (p + 5)"
| v_true: "word_at c p (bytes ''true'') \<Longrightarrow>
    value_at c d p x (set_valueint 1 (set_ctype cJSON_True x)) (p + 4)"
| v_string: "literal_at c p e bs \<Longrightarrow>
    value_at c d p x (set_valuestring (Some (cstr_of bs)) (set_ctype cJSON_String x)) (e + 1)"
| v_number: "c ! p = byte (CHR ''-'') \<or> is_digit (c ! p) \<Longrightarrow>
    strtod (num_text c p) = (num, n) \<Longrightarrow> n \<noteq> 0 \<Longrightarrow> saturated_int num = Inr k \<Longrightarrow>
    value_at c d p x (set_ctype cJSON_Number (set_valueint k (set_valuedouble num x))) (p + n)"
| v_empty_array: "d < CJSON_NESTING_LIMIT \<Longrightarrow> c ! p = byte (CHR ''['') \<Longrightarrow>
    q = skip_ws c (p + 1) \<Longrightarrow> c ! q = byte (CHR '']'') \<Longrightarrow>
    value_at c d p x (set_child [] (set_ctype cJSON_Array x)) (q + 1)"
| v_array: "d < CJSON_NESTING_LIMIT \<Longrightarrow> c ! p = byte (CHR ''['') \<Longrightarrow>
    q = skip_ws c (p + 1) \<Longrightarrow> c ! q \<noteq> byte (CHR '']'') \<Longrightarrow> elements_at c (d + 1) (q - 1) xs r \<Longrightarrow>
    c ! r = byte (CHR '']'') \<Longrightarrow> value_at c d p x (set_child xs (set_ctype cJSON_Array x)) (r + 1)"
| v_empty_object: "d < CJSON_NESTING_LIMIT \<Longrightarrow> c ! p = byte (CHR ''{'') \<Longrightarrow>
    q = skip_ws c (p + 1) \<Longrightarrow> c ! q = byte (CHR ''}'') \<Longrightarrow>
    value_at c d p x (set_child [] (set_ctype cJSON_Object x)) (q + 1)"
| v_object: "d < CJSON_NESTING_LIMIT \<Longrightarrow> c ! p = byte (CHR ''{'') \<Longrightarrow>
    q = skip_ws c (p + 1) \<Longrightarrow> c ! q \<noteq> byte (CHR ''}'') \<Longrightarrow> members_at c (d + 1) (q - 1) xs r \<Longrightarrow>
    c ! r = byte (CHR ''}'') \<Longrightarrow> value_at c d p x (set_child xs (set_ctype cJSON_Object x)) (r + 1)"
| e_last: "value_at c d (skip_ws c (p + 1)) null_item y q \<Longrightarrow> r = skip_ws c q \<Longrightarrow>
    c ! r \<noteq> byte (CHR '','') \<Longrightarrow> elements_at c d p [y] r"
| e_more: "value_at c d (skip_ws c (p + 1)) null_item y q \<Longrightarrow> r = skip_ws c q \<Longrightarrow>
    c ! r = byte (CHR '','') \<Longrightarrow> elements_at c d r ys t \<Longrightarrow> elements_at c d p (y # ys) t"
| m_last: "literal_at c (skip_ws c (p + 1)) e bs \<Longrightarrow> q = skip_ws c (e + 1) \<Longrightarrow>
    c ! q = byte (CHR '':'') \<Longrightarrow>
    value_at c d (skip_ws c (q + 1))
      (set_cstring (Some (cstr_of bs)) (set_ctype cJSON_String null_item)) y r \<Longrightarrow>
    t = skip_ws c r \<Longrightarrow> c ! t \<noteq> byte (CHR '','') \<Longrightarrow> members_at c d p [y] t"
| m_more: "literal_at c (skip_ws c (p + 1)) e bs \<Longrightarrow> q = skip_ws c (e + 1) \<Longrightarrow>
    c ! q = byte (CHR '':'') \<Longrightarrow>
    value_at c d (skip_ws c (q + 1))
      (set_cstring (Some (cstr_of bs)) (set_ctype cJSON_String null_item)) y r \<Longrightarrow>
    t = skip_ws c r \<Longrightarrow> c ! t = byte (CHR '','') \<Longrightarrow> members_at c d t ys u \<Longrightarrow>
    members_at c d p (y # ys) u"

section \<open>Blocks owned by an item\<close>

fun blocks :: "cJSON \<Rightarrow> int" where
  "blocks (CJSON t v i d s c) =
     1 + of_bool (v \<noteq> None) + of_bool (s \<noteq> None) + sum_list (map blocks c)"

text \<open>Items without the flags for references and constant names, and without subitems.\<close>

fun plain :: "cJSON \<Rightarrow> bool" where
  "plain (CJSON t v i d s c) \<longleftrightarrow>
     t AND cJSON_IsReference = 0 \<and> t AND cJSON_StringIsConst = 0 \<and> (\<forall>x \<in> set c. plain x)"

definition blank :: "cJSON \<Rightarrow> bool" where
  "blank x \<longleftrightarrow> plain x \<and> valuestring x = None \<and> child x = []"

fun nesting :: "cJSON \<Rightarrow> nat" where
  "nesting (CJSON t v i d s c) =
     (if t = cJSON_Array \<or> t = cJSON_Object then Suc (foldr max (map nesting c) 0) else 0)"

lemma nesting_children:
  "foldr max (map nesting xs) 0 \<le> n \<longleftrightarrow> (\<forall>x \<in> set xs. nesting x \<le> n)"
  by (induction xs) auto

lemma cJSON_Delete_plain:
  "\<forall>x \<in> set xs. plain x \<Longrightarrow>
     cJSON_Delete xs h = h\<lparr>live := live h - sum_list (map blocks xs)\<rparr>"
  by (induction xs h rule: cJSON_Delete.induct)
    (auto simp: deallocate_def Let_def)

section \<open>Pre- and postconditions\<close>

definition ready :: "parse_buffer \<Rightarrow> bool" where
  "ready b \<longleftrightarrow> pb_ok b \<and> pb_offset b < pb_length b \<and> pb_depth b \<le> CJSON_NESTING_LIMIT"

definition left :: "parse_buffer \<Rightarrow> nat" where
  "left b = pb_length b - pb_offset b"

definition went :: "parse_buffer \<Rightarrow> bool \<Rightarrow> parse_buffer \<Rightarrow> bool" where
  "went b ok b' \<longleftrightarrow> same_text b b' \<and> pb_offset b' \<le> pb_length b \<and>
     pb_depth b' \<le> CJSON_NESTING_LIMIT \<and>
     (ok \<longrightarrow> pb_offset b < pb_offset b' \<and> pb_offset b' < pb_length b \<and> pb_depth b' = pb_depth b)"

definition value_post :: "cJSON \<Rightarrow> parse_buffer \<Rightarrow> (bool \<times> cJSON \<times> parse_buffer) res option \<Rightarrow> bool" where
  "value_post x b r \<longleftrightarrow> (\<exists>ok x' b'. r = ret (ok, x', b') \<and> went b ok b' \<and> plain x' \<and>
     live (pb_hooks b') - blocks x' = live (pb_hooks b) - blocks x \<and>
     (ok \<longrightarrow> value_at (pb_content b) (pb_depth b) (pb_offset b) x x' (pb_offset b')))"

definition chain_post ::
  "(u8 list \<Rightarrow> nat \<Rightarrow> nat \<Rightarrow> cJSON list \<Rightarrow> nat \<Rightarrow> bool) \<Rightarrow> cJSON list \<Rightarrow> parse_buffer \<Rightarrow>
     (bool \<times> cJSON list \<times> parse_buffer) res option \<Rightarrow> bool" where
  "chain_post rel xs b r \<longleftrightarrow> (\<exists>ok xs' b'. r = ret (ok, xs', b') \<and> went b ok b' \<and>
     (\<forall>x \<in> set xs'. plain x) \<and>
     live (pb_hooks b') - sum_list (map blocks xs') = live (pb_hooks b) - sum_list (map blocks xs) \<and>
     (ok \<longrightarrow> (\<exists>ys. xs' = xs @ ys \<and>
        rel (pb_content b) (pb_depth b) (pb_offset b) ys (pb_offset b'))))"

lemma same_hooks_trans: "same_hooks a b \<Longrightarrow> same_hooks b c \<Longrightarrow> same_hooks a c"
  by (simp add: same_hooks_def)

lemma same_text_trans: "same_text a b \<Longrightarrow> same_text b c \<Longrightarrow> same_text a c"
  by (auto simp: same_text_def intro: same_hooks_trans)

lemma same_hooks_refl [simp]: "same_hooks h h"
  by (simp add: same_hooks_def)

lemma same_text_upd [simp]:
  "same_text b (b'\<lparr>pb_offset := n\<rparr>) = same_text b b'"
  "same_text b (b'\<lparr>pb_depth := n\<rparr>) = same_text b b'"
  "same_text (b\<lparr>pb_offset := n\<rparr>) b' = same_text b b'"
  "same_text (b\<lparr>pb_depth := n\<rparr>) b' = same_text b b'"
  "same_text b b"
  by (simp_all add: same_text_def)

lemma byte_before_last:
  assumes "i < length c" "c ! i \<noteq> 0" "c \<noteq> []" "last c = 0"
  shows "i + 1 < length c"
  using assms by (metis Suc_eq_plus1 Suc_lessI diff_Suc_1 last_conv_nth)

lemma num_text_end:
  assumes "p < length c" "last c = 0"
  shows "p + length (num_text c p) < length c"
proof (rule ccontr)
  assume "\<not> ?thesis"
  with num_text_length [of c p] assms have l: "length (num_text c p) = length c - p" by auto
  have "num_text c p = take (length (num_text c p)) (take 63 (drop p c))"
    unfolding num_text_def by (rule takeWhile_eq_take)
  also have "\<dots> = drop p c"
    using num_text_length [of c p] l by simp
  finally have eq: "num_text c p = drop p c" .
  have "last (drop p c) \<in> set (drop p c)" using assms by (intro last_in_set) simp
  then have "last c \<in> set (num_text c p)" using assms eq by (simp add: last_drop)
  with num_text_nonzero assms show False by blast
qed

lemma at_byte_eq: "ready b \<Longrightarrow> at_byte b ch = Inr (pb_content b ! pb_offset b = byte ch)"
  by (simp add: at_byte_def at_offset_def rd_ok can_access_at_index_def ready_def pb_ok_def)

lemma at_offset_eq: "ready b \<Longrightarrow> at_offset b 0 = Inr (pb_content b ! pb_offset b)"
  by (simp add: at_offset_def rd_ok ready_def pb_ok_def)

lemma at_number_eq:
  "ready b \<Longrightarrow> at_number b =
     Inr (pb_content b ! pb_offset b = byte (CHR ''-'') \<or> is_digit (pb_content b ! pb_offset b))"
  by (simp add: at_number_def at_offset_def rd_ok can_access_at_index_def ready_def pb_ok_def
      is_digit_def)

lemma reads_text_eq: "ready b \<Longrightarrow> reads_text b s = Inr (word_at (pb_content b) (pb_offset b) s)"
  by (auto simp: reads_text_def can_read_def text_at_def memcmp_eq_def word_at_def ready_def pb_ok_def)

lemma word_at_end:
  assumes "word_at c p s" "s \<noteq> []" "last s \<noteq> 0" "c \<noteq> []" "last c = 0"
  shows "p + length s < length c"
proof -
  have "s ! (length s - 1) = c ! (p + (length s - 1))"
    using assms(1,2) nth_take [of "length s - 1" "length s" "drop p c"] by (simp add: word_at_def)
  then have "c ! (p + length s - 1) = last s"
    using assms(2) by (cases s) (auto simp: last_conv_nth)
  with byte_before_last [of "p + length s - 1" c] assms show ?thesis
    by (cases s) (auto simp: word_at_def)
qed

lemma set_fields_plain [simp]:
  "plain (set_valueint i x) = plain x" "plain (set_valuedouble d x) = plain x"
  "plain (set_valuestring v x) = plain x" "plain (set_cstring s x) = plain x"
  "t AND 256 = 0 \<Longrightarrow> t AND 512 = 0 \<Longrightarrow> plain x \<Longrightarrow> plain (set_ctype t x)"
  "plain x \<Longrightarrow> \<forall>y \<in> set c. plain y \<Longrightarrow> plain (set_child c x)"
  by (cases x; simp)+

lemma set_fields_blocks [simp]:
  "blocks (set_valueint i x) = blocks x" "blocks (set_valuedouble d x) = blocks x"
  "blocks (set_ctype t x) = blocks x"
  "valuestring x = None \<Longrightarrow> blocks (set_valuestring (Some v) x) = blocks x + 1"
  "child x = [] \<Longrightarrow> blocks (set_child c x) = blocks x + sum_list (map blocks c)"
  by (cases x; simp)+

lemma set_fields_sel [simp]:
  "valuestring (set_ctype t x) = valuestring x" "child (set_ctype t x) = child x"
  "valuestring (set_valuestring v x) = v" "valuestring (set_cstring v x) = valuestring x"
  "child (set_cstring v x) = child x" "child (set_valuestring v x) = child x"
  by (cases x; simp)+

lemma ready_before_last:
  "ready b \<Longrightarrow> pb_content b ! pb_offset b \<noteq> 0 \<Longrightarrow> pb_offset b + 1 < pb_length b"
  using byte_before_last [of "pb_offset b" "pb_content b"] by (auto simp: ready_def pb_ok_def)

lemma value_post_ret [simp]:
  "value_post x b (ret (ok, x', b')) \<longleftrightarrow> went b ok b' \<and> plain x' \<and>
     live (pb_hooks b') - blocks x' = live (pb_hooks b) - blocks x \<and>
     (ok \<longrightarrow> value_at (pb_content b) (pb_depth b) (pb_offset b) x x' (pb_offset b'))"
  by (simp add: value_post_def)

lemma word_value_post:
  assumes "ready b" "word_at (pb_content b) (pb_offset b) s" "s \<noteq> []" "last s \<noteq> 0" "n = length s"
    and "plain x'" "blocks x' = blocks x"
    and "value_at (pb_content b) (pb_depth b) (pb_offset b) x x' (pb_offset b + n)"
  shows "value_post x b (ret (True, x', inc_offset n b))"
  using assms word_at_end [OF assms(2-4)]
  by (auto simp: went_def ready_def pb_ok_def)

lemma parse_string_post:
  assumes "ready b" "blank x"
  shows "value_post x b (Some (parse_string x b))"
proof -
  have ok: "pb_ok b" "pb_offset b < pb_length b" "pb_depth b \<le> CJSON_NESTING_LIMIT"
    and x: "plain x" "valuestring x = None"
    using assms by (auto simp: ready_def blank_def)
  from ok(1,2) show ?thesis
  proof (cases rule: parse_string_result [of b x])
    case (failed off h)
    then show ?thesis
      using ok x by (auto simp: went_def same_text_def)
  next
    case (parsed e bs h)
    from parsed(2) have "e + 1 < length (pb_content b)"
      using ok(1) byte_before_last [of e "pb_content b"] by (auto simp: literal_at_def pb_ok_def)
    with parsed v_string [OF parsed(2), of "pb_depth b" x] show ?thesis
      using ok x
      by (auto simp: went_def same_text_def pb_ok_def)
  qed
qed

lemma parse_number_post:
  assumes "ready b" "blank x"
    and first: "pb_content b ! pb_offset b = byte (CHR ''-'') \<or> is_digit (pb_content b ! pb_offset b)"
  shows "value_post x b (Some (parse_number x b))"
proof -
  let ?c = "pb_content b" and ?p = "pb_offset b"
  have ok: "pb_ok b" "?p < pb_length b" "pb_depth b \<le> CJSON_NESTING_LIMIT"
    and x: "plain x" using assms by (auto simp: ready_def blank_def)
  obtain d n where st: "strtod (num_text ?c ?p) = (d, n)" by fastforce
  from strtod_bounds [OF st] obtain k where k: "saturated_int d = Inr k" "n \<le> length (num_text ?c ?p)"
    using saturated_int_ok by blast
  have end': "?p + length (num_text ?c ?p) < length ?c"
    using ok by (intro num_text_end) (auto simp: pb_ok_def)
  show ?thesis
  proof (cases "n = 0")
    case True
    then show ?thesis
      using ok x by (auto simp: parse_number_eq st went_def)
  next
    case False
    have "value_at ?c (pb_depth b) ?p x (set_ctype cJSON_Number (set_valueint k (set_valuedouble d x))) (?p + n)"
      using first st False k(1) by (rule v_number)
    then show ?thesis
      using ok x k end' False
      by (auto simp: parse_number_eq st went_def pb_ok_def)
  qed
qed

lemma parse_value_step:
  assumes b: "ready b" and x: "blank x"
    and arr: "pb_content b ! pb_offset b = byte (CHR ''['') \<Longrightarrow> value_post x b (parse_array n x b)"
    and obj: "pb_content b ! pb_offset b = byte (CHR ''{'') \<Longrightarrow> value_post x b (parse_object n x b)"
  shows "value_post x b (parse_value (Suc n) x b)"
proof -
  let ?c = "pb_content b" and ?p = "pb_offset b"
  note eqs = reads_text_eq [OF b] at_byte_eq [OF b] at_number_eq [OF b]
  have px: "plain x" using x by (simp add: blank_def)
  consider "word_at ?c ?p (bytes ''null'')"
    | "\<not> word_at ?c ?p (bytes ''null'')" "word_at ?c ?p (bytes ''false'')"
    | "\<not> word_at ?c ?p (bytes ''null'')" "\<not> word_at ?c ?p (bytes ''false'')" "word_at ?c ?p (bytes ''true'')"
    | "\<not> word_at ?c ?p (bytes ''null'')" "\<not> word_at ?c ?p (bytes ''false'')" "\<not> word_at ?c ?p (bytes ''true'')"
    by blast
  then show ?thesis
  proof cases
    case 1
    have "value_post x b (ret (True, set_ctype cJSON_NULL x, inc_offset 4 b))"
      using 1 px b v_null [OF 1] by (intro word_value_post [OF b 1]) simp_all
    with 1 show ?thesis by (simp add: eqs del: bytes_simps)
  next
    case 2
    have "value_post x b (ret (True, set_ctype cJSON_False x, inc_offset 5 b))"
      using 2 px b v_false [OF 2(2)] by (intro word_value_post [OF b 2(2)]) simp_all
    with 2 show ?thesis by (simp add: eqs del: bytes_simps)
  next
    case 3
    have "value_post x b (ret (True, set_valueint 1 (set_ctype cJSON_True x), inc_offset 4 b))"
      using 3 px b v_true [OF 3(3)] by (intro word_value_post [OF b 3(3)]) simp_all
    with 3 show ?thesis by (simp add: eqs del: bytes_simps)
  next
    case 4
    have fail: "value_post x b (ret (False, x, b))"
      using px b by (auto simp: went_def ready_def)
    show ?thesis
      using 4 parse_string_post [OF b x] parse_number_post [OF b x] arr obj fail
      by (simp add: eqs del: bytes_simps byte_Char)
  qed
qed


lemma chain_post_ret [simp]:
  "chain_post rel xs b (ret (ok, xs', b')) \<longleftrightarrow> went b ok b' \<and> (\<forall>x \<in> set xs'. plain x) \<and>
     live (pb_hooks b') - sum_list (map blocks xs') = live (pb_hooks b) - sum_list (map blocks xs) \<and>
     (ok \<longrightarrow> (\<exists>ys. xs' = xs @ ys \<and>
        rel (pb_content b) (pb_depth b) (pb_offset b) ys (pb_offset b')))"
  by (simp add: chain_post_def)

text \<open>What remains of \<open>parse_array\<close> and \<open>parse_object\<close> after the loop.\<close>

definition close_chain ::
  "cJSON \<Rightarrow> char \<Rightarrow> int \<Rightarrow> bool \<times> cJSON list \<times> parse_buffer \<Rightarrow>
     (bool \<times> cJSON \<times> parse_buffer) res option" where
  "close_chain x ch t = (\<lambda>(ok, head, b).
      if \<not> ok then ret (False, x, b\<lparr>pb_hooks := cJSON_Delete head (pb_hooks b)\<rparr>)
      else
      bind_run (Some (at_byte b ch)) (\<lambda>g.
      if \<not> g then ret (False, x, b\<lparr>pb_hooks := cJSON_Delete head (pb_hooks b)\<rparr>)
      else
        ret (True, set_child head (set_ctype t x),
             inc_offset 1 (b\<lparr>pb_depth := size_dec (pb_depth b)\<rparr>))))"

lemma same_hooks_live [simp]: "same_hooks h (h'\<lparr>live := k\<rparr>) = same_hooks h h'"
  by (simp add: same_hooks_def)

lemma close_chain_post:
  assumes b: "ready b" and x: "blank x" and t: "t AND 256 = 0" "t AND 512 = 0" and ch: "byte ch \<noteq> 0"
    and b0: "same_text b b0" "pb_depth b0 = pb_depth b + 1" "pb_offset b \<le> pb_offset b0"
      "live (pb_hooks b0) = live (pb_hooks b)" "pb_depth b < CJSON_NESTING_LIMIT"
    and post: "chain_post rel [] b0 r"
    and rel: "\<And>xs q. rel (pb_content b) (pb_depth b + 1) (pb_offset b0) xs q \<Longrightarrow>
      pb_content b ! q = byte ch \<Longrightarrow>
      value_at (pb_content b) (pb_depth b) (pb_offset b) x (set_child xs (set_ctype t x)) (q + 1)"
  shows "value_post x b (bind_run r (close_chain x ch t))"
proof -
  have px: "plain x" "child x = []" using x by (auto simp: blank_def)
  from post obtain ok xs b1 where r: "r = ret (ok, xs, b1)" "went b0 ok b1" "\<forall>x \<in> set xs. plain x"
    "live (pb_hooks b1) - sum_list (map blocks xs) = live (pb_hooks b0)"
    "ok \<longrightarrow> rel (pb_content b0) (pb_depth b0) (pb_offset b0) xs (pb_offset b1)"
    by (auto simp: chain_post_def)
  have st: "same_text b b1" using b0(1) r(2) by (auto simp: went_def intro: same_text_trans)
  have same: "pb_content b1 = pb_content b" "pb_length b1 = pb_length b" "pb_content b0 = pb_content b"
    "pb_length b0 = pb_length b"
    using st b0(1) by (auto simp: same_text_def)
  have fail: "value_post x b (ret (False, x, b1\<lparr>pb_hooks := cJSON_Delete xs (pb_hooks b1)\<rparr>))"
    using st r b0 px by (auto simp: cJSON_Delete_plain went_def same_text_def)
  show ?thesis
  proof (cases ok)
    case False
    with fail show ?thesis by (simp add: r(1) close_chain_def)
  next
    case True
    with r(2) b0 b same have b1: "ready b1" "pb_depth b1 = pb_depth b0" "pb_offset b0 < pb_offset b1"
      by (auto simp: ready_def pb_ok_def went_def)
    show ?thesis
    proof (cases "pb_content b ! pb_offset b1 = byte ch")
      case False
      with fail True show ?thesis
        by (simp add: r(1) close_chain_def at_byte_eq [OF b1(1)] same)
    next
      case c: True
      have v: "value_at (pb_content b) (pb_depth b) (pb_offset b) x (set_child xs (set_ctype t x)) (pb_offset b1 + 1)"
        using True r(5) b0(2) same c by (intro rel) simp_all
      have "pb_offset b1 + 1 < pb_length b1"
        using ready_before_last [OF b1(1)] c ch same by simp
      with v st r b0 px b1 t same c True show ?thesis
        by (simp add: close_chain_def at_byte_eq [OF b1(1)] went_def size_dec_def)
    qed
  qed
qed

lemma skip_ready:
  assumes "ready b" "pb_offset b + 1 < pb_length b"
  defines "b' \<equiv> set_offset (skip_ws (pb_content b) (pb_offset b + 1)) b"
  shows "buffer_skip_whitespace (inc_offset 1 b) = Inr b'" "ready b'" "pb_offset b < pb_offset b'"
    "same_text b b'" "left b' < left b"
proof -
  have "ready (inc_offset 1 b)" using assms by (simp add: ready_def pb_ok_def)
  then have ok: "pb_ok (inc_offset 1 b)" "pb_offset (inc_offset 1 b) < pb_length (inc_offset 1 b)"
    by (auto simp: ready_def)
  show "buffer_skip_whitespace (inc_offset 1 b) = Inr b'"
    using buffer_skip_whitespace_eq [OF ok] by (simp add: b'_def)
  have s: "pb_offset b + 1 \<le> skip_ws (pb_content b) (pb_offset b + 1)"
    "skip_ws (pb_content b) (pb_offset b + 1) < pb_length b"
    using skip_ws_bounds [of "pb_offset b + 1" "pb_content b"] assms by (auto simp: ready_def pb_ok_def)
  then show "ready b'" "pb_offset b < pb_offset b'" "same_text b b'" "left b' < left b"
    using assms by (auto simp: b'_def ready_def pb_ok_def left_def)
qed

lemma open_bracket:
  assumes b: "ready b" and c: "pb_content b ! pb_offset b \<noteq> 0" and d: "pb_depth b < CJSON_NESTING_LIMIT"
  defines "b1 \<equiv> set_offset (skip_ws (pb_content b) (pb_offset b + 1)) (b\<lparr>pb_depth := pb_depth b + 1\<rparr>)"
  defines "b0 \<equiv> set_offset (size_dec (pb_offset b1)) b1"
  shows "buffer_skip_whitespace (inc_offset 1 (b\<lparr>pb_depth := pb_depth b + 1\<rparr>)) = Inr b1"
    "ready b1" "pb_offset b < pb_offset b1" "can_access_at_index b1 0"
    "ready b0" "pb_offset b0 + 1 < pb_length b0" "pb_offset b \<le> pb_offset b0" "left b0 \<le> left b"
    "pb_offset b0 = skip_ws (pb_content b) (pb_offset b + 1) - 1"
proof -
  let ?b = "b\<lparr>pb_depth := pb_depth b + 1\<rparr>"
  have r: "ready ?b" "pb_offset ?b + 1 < pb_length ?b"
    using b d ready_before_last [OF b c] by (auto simp: ready_def pb_ok_def)
  note sk = skip_ready [OF r]
  show "buffer_skip_whitespace (inc_offset 1 ?b) = Inr b1" "ready b1" "pb_offset b < pb_offset b1"
    using sk by (simp_all add: b1_def)
  then show "can_access_at_index b1 0" "ready b0" "pb_offset b0 + 1 < pb_length b0"
    "pb_offset b \<le> pb_offset b0" "left b0 \<le> left b"
    "pb_offset b0 = skip_ws (pb_content b) (pb_offset b + 1) - 1"
    by (auto simp: b0_def b1_def ready_def pb_ok_def can_access_at_index_def size_dec_def left_def)
qed

lemma parse_array_step:
  assumes b: "ready b" and x: "blank x" and c: "pb_content b ! pb_offset b = byte (CHR ''['')"
    and IH: "\<And>b0. ready b0 \<Longrightarrow> pb_offset b0 + 1 < pb_length b0 \<Longrightarrow> left b0 \<le> left b \<Longrightarrow>
      chain_post elements_at [] b0 (array_elements n [] b0)"
  shows "value_post x b (parse_array (Suc n) x b)"
proof (cases "pb_depth b < CJSON_NESTING_LIMIT")
  case False
  with b x show ?thesis by (auto simp: went_def ready_def blank_def)
next
  case d: True
  have c0: "pb_content b ! pb_offset b \<noteq> 0" using c by simp
  let ?b = "b\<lparr>pb_depth := pb_depth b + 1\<rparr>"
  let ?q = "skip_ws (pb_content b) (pb_offset b + 1)"
  define b1 where "b1 = set_offset ?q ?b"
  define b0 where "b0 = set_offset (size_dec (pb_offset b1)) b1"
  note ob = open_bracket [OF b c0 d, folded b1_def, folded b0_def]
  have at: "at_offset ?b 0 = Inr (byte (CHR ''[''))"
    using at_offset_eq [OF b] c by (simp add: at_offset_def)
  have run: "parse_array (Suc n) x b =
      (if pb_content b ! ?q = byte (CHR '']'') then
        ret (True, set_child [] (set_ctype cJSON_Array x),
             inc_offset 1 (b1\<lparr>pb_depth := size_dec (pb_depth b1)\<rparr>))
       else bind_run (array_elements n [] b0) (close_chain x (CHR '']'') cJSON_Array))"
    using d at ob at_byte_eq [OF ob(2), of "CHR '']''"]
    by (simp add: close_chain_def b0_def del: byte_Char) (simp add: b1_def)
  show ?thesis
  proof (cases "pb_content b ! ?q = byte (CHR '']'')")
    case True
    have "pb_offset b1 + 1 < pb_length b1"
      using ready_before_last [OF ob(2)] True by (simp add: b1_def)
    with True b x d ob v_empty_array [OF d c refl True] show ?thesis
      unfolding run by (auto simp: went_def b1_def size_dec_def blank_def simp del: byte_Char)
  next
    case False
    have "value_post x b (bind_run (array_elements n [] b0) (close_chain x (CHR '']'') cJSON_Array))"
    proof (rule close_chain_post [OF b x])
      show "chain_post elements_at [] b0 (array_elements n [] b0)"
        using ob by (intro IH)
      show "value_at (pb_content b) (pb_depth b) (pb_offset b) x (set_child xs (set_ctype cJSON_Array x)) (q + 1)"
        if "elements_at (pb_content b) (pb_depth b + 1) (pb_offset b0) xs q"
          "pb_content b ! q = byte (CHR '']'')" for xs q
        using that unfolding ob(9) by (intro v_array [OF d c refl False])
    qed (use ob d in \<open>auto simp: b0_def b1_def\<close>)
    with False show ?thesis unfolding run by simp
  qed
qed

lemma parse_object_step:
  assumes b: "ready b" and x: "blank x" and c: "pb_content b ! pb_offset b = byte (CHR ''{'')"
    and IH: "\<And>b0. ready b0 \<Longrightarrow> pb_offset b0 + 1 < pb_length b0 \<Longrightarrow> left b0 \<le> left b \<Longrightarrow>
      chain_post members_at [] b0 (object_members n [] b0)"
  shows "value_post x b (parse_object (Suc n) x b)"
proof (cases "pb_depth b < CJSON_NESTING_LIMIT")
  case False
  with b x show ?thesis by (auto simp: went_def ready_def blank_def)
next
  case d: True
  have c0: "pb_content b ! pb_offset b \<noteq> 0" using c by simp
  let ?b = "b\<lparr>pb_depth := pb_depth b + 1\<rparr>"
  let ?q = "skip_ws (pb_content b) (pb_offset b + 1)"
  define b1 where "b1 = set_offset ?q ?b"
  define b0 where "b0 = set_offset (size_dec (pb_offset b1)) b1"
  note ob = open_bracket [OF b c0 d, folded b1_def, folded b0_def]
  have at: "at_byte ?b (CHR ''{'') = Inr True"
    using at_byte_eq [of ?b] b d c by (simp add: ready_def pb_ok_def)
  have run: "parse_object (Suc n) x b =
      (if pb_content b ! ?q = byte (CHR ''}'') then
        ret (True, set_child [] (set_ctype cJSON_Object x),
             inc_offset 1 (b1\<lparr>pb_depth := size_dec (pb_depth b1)\<rparr>))
       else bind_run (object_members n [] b0) (close_chain x (CHR ''}'') cJSON_Object))"
    using d at ob at_byte_eq [OF ob(2), of "CHR ''}''"]
    by (simp add: close_chain_def b0_def del: byte_Char) (simp add: b1_def)
  show ?thesis
  proof (cases "pb_content b ! ?q = byte (CHR ''}'')")
    case True
    have "pb_offset b1 + 1 < pb_length b1"
      using ready_before_last [OF ob(2)] True by (simp add: b1_def)
    with True b x d ob v_empty_object [OF d c refl True] show ?thesis
      unfolding run by (auto simp: went_def b1_def size_dec_def blank_def simp del: byte_Char)
  next
    case False
    have "value_post x b (bind_run (object_members n [] b0) (close_chain x (CHR ''}'') cJSON_Object))"
    proof (rule close_chain_post [OF b x])
      show "chain_post members_at [] b0 (object_members n [] b0)"
        using ob by (intro IH)
      show "value_at (pb_content b) (pb_depth b) (pb_offset b) x (set_child xs (set_ctype cJSON_Object x)) (q + 1)"
        if "members_at (pb_content b) (pb_depth b + 1) (pb_offset b0) xs q"
          "pb_content b ! q = byte (CHR ''}'')" for xs q
        using that unfolding ob(9) by (intro v_object [OF d c refl False])
    qed (use ob d in \<open>auto simp: b0_def b1_def\<close>)
    with False show ?thesis unfolding run by simp
  qed
qed

text \<open>The end of the body of both loops: the white space and the test for a comma.\<close>

definition chain_next ::
  "(cJSON list \<Rightarrow> parse_buffer \<Rightarrow> (bool \<times> cJSON list \<times> parse_buffer) res option) \<Rightarrow>
     cJSON list \<Rightarrow> parse_buffer \<Rightarrow> (bool \<times> cJSON list \<times> parse_buffer) res option" where
  "chain_next f xs b =
     bind_run (Some (buffer_skip_whitespace b)) (\<lambda>b.
     bind_run (Some (at_byte b (CHR '',''))) (\<lambda>g.
     if g then f xs b else ret (True, xs, b)))"

lemma chain_next_post:
  assumes b: "ready b" and b2: "same_text b b2" "ready b2" "pb_offset b < pb_offset b2" "pb_depth b2 = pb_depth b"
    and lv: "live (pb_hooks b2) - blocks y = live (pb_hooks b)"
    and pl: "\<forall>x \<in> set xs. plain x" "plain y"
    and IH: "\<And>xs b'. ready b' \<Longrightarrow> pb_offset b' + 1 < pb_length b' \<Longrightarrow> left b' < left b \<Longrightarrow>
      \<forall>x \<in> set xs. plain x \<Longrightarrow> chain_post rel xs b' (f xs b')"
    and stop: "\<And>r. r = skip_ws (pb_content b) (pb_offset b2) \<Longrightarrow> pb_content b ! r \<noteq> byte (CHR '','') \<Longrightarrow>
      rel (pb_content b) (pb_depth b) (pb_offset b) [y] r"
    and more: "\<And>r ys t. r = skip_ws (pb_content b) (pb_offset b2) \<Longrightarrow> pb_content b ! r = byte (CHR '','') \<Longrightarrow>
      rel (pb_content b) (pb_depth b) r ys t \<Longrightarrow> rel (pb_content b) (pb_depth b) (pb_offset b) (y # ys) t"
  shows "chain_post rel xs b (chain_next f (xs @ [y]) b2)"
proof -
  define r where "r = skip_ws (pb_content b) (pb_offset b2)"
  define b3 where "b3 = set_offset r b2"
  have same: "pb_content b2 = pb_content b" "pb_length b2 = pb_length b" "pb_ok b2" "pb_offset b2 < pb_length b2"
    using b2 by (auto simp: same_text_def ready_def)
  have sk: "buffer_skip_whitespace b2 = Inr b3"
    using buffer_skip_whitespace_eq [OF same(3,4)] same by (simp add: b3_def r_def)
  have r: "pb_offset b2 \<le> r" "r < pb_length b2"
    using skip_ws_bounds [of "pb_offset b2" "pb_content b2"] same by (auto simp: r_def pb_ok_def)
  have b3: "ready b3" using b2 r by (auto simp: b3_def ready_def pb_ok_def)
  have run: "chain_next f (xs @ [y]) b2 =
      (if pb_content b ! r = byte (CHR '','') then f (xs @ [y]) b3 else ret (True, xs @ [y], b3))"
    using at_byte_eq [OF b3] same by (simp add: chain_next_def sk b3_def del: byte_Char)
  show ?thesis
  proof (cases "pb_content b ! r = byte (CHR '','')")
    case False
    with stop [OF r_def False] b2 lv pl r same show ?thesis
      unfolding run by (auto simp: went_def ready_def b3_def)
  next
    case True
    have "chain_post rel (xs @ [y]) b3 (f (xs @ [y]) b3)"
      using b3 ready_before_last [OF b3] True r b2(3) same pl
      by (intro IH) (auto simp: b3_def left_def)
    then obtain ok xs' b' where p: "f (xs @ [y]) b3 = ret (ok, xs', b')" "went b3 ok b'"
      "\<forall>x \<in> set xs'. plain x"
      "live (pb_hooks b') - sum_list (map blocks xs') =
         live (pb_hooks b3) - sum_list (map blocks (xs @ [y]))"
      "ok \<longrightarrow> (\<exists>ys. xs' = (xs @ [y]) @ ys \<and>
         rel (pb_content b3) (pb_depth b3) (pb_offset b3) ys (pb_offset b'))"
      unfolding chain_post_def by blast
    have "went b ok b'"
      using p(2) b2 r same by (auto simp: went_def b3_def intro: same_text_trans)
    moreover have "\<exists>ys. xs' = xs @ ys \<and> rel (pb_content b) (pb_depth b) (pb_offset b) ys (pb_offset b')" if "ok"
    proof -
      from p(5) that obtain ys where "xs' = (xs @ [y]) @ ys"
        "rel (pb_content b) (pb_depth b) r ys (pb_offset b')"
        using b2 same by (auto simp: b3_def)
      with more [OF r_def True] show ?thesis by (intro exI [of _ "y # ys"]) simp
    qed
    ultimately show ?thesis
      using p lv True unfolding run by (simp add: b3_def)
  qed
qed

lemma null_item_blank [simp]: "blank null_item" "blocks null_item = 1" "cstring null_item = None"
  by (simp_all add: blank_def null_item_def)

lemma new_item_cases:
  assumes "cJSON_New_Item h = (h', r)"
  shows "same_hooks h h' \<and> (r = None \<and> live h' = live h \<or> r = Some null_item \<and> live h' = live h + 1)"
  using assms allocate_cases [of h 64]
  by (auto simp: cJSON_New_Item_def split: prod.splits option.splits)

lemma array_elements_step:
  assumes b: "ready b" "pb_offset b + 1 < pb_length b" and xs: "\<forall>x \<in> set xs. plain x"
    and IHv: "\<And>b'. ready b' \<Longrightarrow> left b' < left b \<Longrightarrow>
      value_post null_item b' (parse_value n null_item b')"
    and IHe: "\<And>xs b'. ready b' \<Longrightarrow> pb_offset b' + 1 < pb_length b' \<Longrightarrow> left b' < left b \<Longrightarrow>
      \<forall>x \<in> set xs. plain x \<Longrightarrow> chain_post elements_at xs b' (array_elements n xs b')"
  shows "chain_post elements_at xs b (array_elements (Suc n) xs b)"
proof -
  obtain h r where new: "cJSON_New_Item (pb_hooks b) = (h, r)" by fastforce
  note nc = new_item_cases [OF new]
  let ?b = "b\<lparr>pb_hooks := h\<rparr>"
  have rb: "ready ?b" "pb_offset ?b + 1 < pb_length ?b" "same_text b ?b"
    using b nc by (auto simp: ready_def pb_ok_def same_text_def)
  show ?thesis
  proof (cases r)
    case None
    then show ?thesis using new nc b xs by (auto simp: went_def same_text_def ready_def)
  next
    case (Some y)
    then have y: "y = null_item" "live h = live (pb_hooks b) + 1" using nc by auto
    define b1 where "b1 = set_offset (skip_ws (pb_content ?b) (pb_offset ?b + 1)) ?b"
    note sk = skip_ready [OF rb(1,2), folded b1_def]
    have "left b1 < left b" using sk(5) by (simp add: left_def)
    with IHv [OF sk(2)] obtain ok x' b2 where v: "parse_value n null_item b1 = ret (ok, x', b2)"
      "went b1 ok b2" "plain x'" "live (pb_hooks b2) - blocks x' = live (pb_hooks b1) - 1"
      "ok \<longrightarrow> value_at (pb_content b1) (pb_depth b1) (pb_offset b1) null_item x' (pb_offset b2)"
      by (auto simp: value_post_def)
    have st: "same_text b b2"
      using v(2) sk(4) rb(3) by (auto simp: went_def intro: same_text_trans)
    have same: "pb_content b2 = pb_content b" "pb_length b2 = pb_length b" "pb_depth b1 = pb_depth b"
      "pb_content b1 = pb_content b" "pb_length b1 = pb_length b"
      "pb_offset b1 = skip_ws (pb_content b) (pb_offset b + 1)" "pb_hooks b1 = h"
      using st by (auto simp: same_text_def b1_def)
    have run: "array_elements (Suc n) xs b =
        (if ok then chain_next (array_elements n) (xs @ [x']) b2 else ret (False, xs @ [x'], b2))"
      using new Some y sk(1) v(1) by (simp add: chain_next_def)
    show ?thesis
    proof (cases ok)
      case False
      with v st same y xs show ?thesis unfolding run by (auto simp: went_def)
    next
      case True
      have va: "value_at (pb_content b) (pb_depth b) (skip_ws (pb_content b) (pb_offset b + 1)) null_item x' (pb_offset b2)"
        using v(5) True same by simp
      have "chain_post elements_at xs b (chain_next (array_elements n) (xs @ [x']) b2)"
      proof (rule chain_next_post [OF b(1) st])
        show "ready b2" "pb_offset b < pb_offset b2" "pb_depth b2 = pb_depth b"
          using v(2) True same b sk(3) by (auto simp: went_def ready_def pb_ok_def)
        show "live (pb_hooks b2) - blocks x' = live (pb_hooks b)" using v(4) same y by simp
      qed (use va v(3) xs IHe in \<open>auto intro: e_last e_more simp del: byte_Char\<close>)
      with True show ?thesis unfolding run by simp
    qed
  qed
qed

lemma skip_ready_here:
  assumes "ready b"
  defines "b' \<equiv> set_offset (skip_ws (pb_content b) (pb_offset b)) b"
  shows "buffer_skip_whitespace b = Inr b'" "ready b'" "pb_offset b \<le> pb_offset b'" "left b' \<le> left b"
  using assms buffer_skip_whitespace_eq [of b] skip_ws_bounds [of "pb_offset b" "pb_content b"]
  by (auto simp: ready_def pb_ok_def left_def)

text \<open>An item that has been given its name and waits for its value.\<close>

definition named_item :: "cstr \<Rightarrow> cJSON" where
  "named_item s = set_cstring (Some s) (set_ctype cJSON_String null_item)"

lemma named_item_blank [simp]: "blank (named_item s)" "blocks (named_item s) = 2"
  by (simp_all add: named_item_def blank_def null_item_def)

lemma named_item_parsed:
  "set_valuestring None (set_cstring (Some s)
     (set_valuestring (Some s) (set_ctype cJSON_String null_item))) = named_item s"
  by (simp add: named_item_def null_item_def)

lemma object_members_step:
  assumes b: "ready b" "pb_offset b + 1 < pb_length b" and xs: "\<forall>x \<in> set xs. plain x"
    and IHv: "\<And>s b'. ready b' \<Longrightarrow> left b' < left b \<Longrightarrow>
      value_post (named_item s) b' (parse_value n (named_item s) b')"
    and IHe: "\<And>xs b'. ready b' \<Longrightarrow> pb_offset b' + 1 < pb_length b' \<Longrightarrow> left b' < left b \<Longrightarrow>
      \<forall>x \<in> set xs. plain x \<Longrightarrow> chain_post members_at xs b' (object_members n xs b')"
  shows "chain_post members_at xs b (object_members (Suc n) xs b)"
proof -
  obtain h r where new: "cJSON_New_Item (pb_hooks b) = (h, r)" by fastforce
  note nc = new_item_cases [OF new]
  let ?b = "b\<lparr>pb_hooks := h\<rparr>" and ?c = "pb_content b"
  have rb: "ready ?b" "pb_offset ?b + 1 < pb_length ?b" "same_text b ?b"
    using b nc by (auto simp: ready_def pb_ok_def same_text_def)
  show ?thesis
  proof (cases r)
    case None
    then show ?thesis using new nc b xs by (auto simp: went_def same_text_def ready_def)
  next
    case (Some y)
    then have y: "y = null_item" "live h = live (pb_hooks b) + 1" using nc by auto
    define b1 where "b1 = set_offset (skip_ws (pb_content ?b) (pb_offset ?b + 1)) ?b"
    note sk = skip_ready [OF rb(1,2), folded b1_def]
    have same1: "pb_content b1 = ?c" "pb_length b1 = pb_length b" "pb_depth b1 = pb_depth b"
      "pb_offset b1 = skip_ws ?c (pb_offset b + 1)" "pb_hooks b1 = h" by (simp_all add: b1_def)
    have ok1: "pb_ok b1" "pb_offset b1 < pb_length b1" using sk(2) by (auto simp: ready_def)
    note start = new Some y sk(1)
    from ok1 show ?thesis
    proof (cases rule: parse_string_result [of b1 null_item])
      case (failed off h2)
      have "object_members (Suc n) xs b = ret (False, xs @ [null_item], b1\<lparr>pb_hooks := h2, pb_offset := off\<rparr>)"
        using start failed(1) by simp
      with failed xs y same1 sk(4) rb(3) b show ?thesis
        by (auto simp: went_def same_text_def ready_def null_item_def intro: same_hooks_trans)
    next
      case (parsed e bs h2)
      define b2 where "b2 = b1\<lparr>pb_hooks := h2, pb_offset := e + 1\<rparr>"
      define s where "s = cstr_of bs"
      have lit: "literal_at ?c (skip_ws ?c (pb_offset b + 1)) e bs" using parsed(2) same1 by simp
      have "e + 1 < length ?c"
        using lit ok1 byte_before_last [of e ?c] same1 by (auto simp: literal_at_def pb_ok_def)
      then have b2: "ready b2" "pb_offset b < pb_offset b2" "same_text b b2"
        using parsed sk(2,3,4) rb(3) same1
        by (auto simp: b2_def ready_def pb_ok_def same_text_def intro: same_hooks_trans)
      define b3 where "b3 = set_offset (skip_ws (pb_content b2) (pb_offset b2)) b2"
      note sk3 = skip_ready_here [OF b2(1), folded b3_def]
      have same3: "pb_content b3 = ?c" "pb_length b3 = pb_length b" "pb_depth b3 = pb_depth b"
        "pb_offset b3 = skip_ws ?c (e + 1)" "live (pb_hooks b3) = live (pb_hooks b) + 2" "same_text b b3"
        using b2(3) parsed(5) y same1 by (auto simp: b3_def b2_def)
      have p2: "parse_string null_item b1 =
          Inr (True, set_valuestring (Some s) (set_ctype cJSON_String null_item), b2)"
        using parsed(1) by (simp add: b2_def s_def)
      have run1: "object_members (Suc n) xs b =
          (if ?c ! pb_offset b3 \<noteq> byte (CHR '':'') then ret (False, xs @ [named_item s], b3)
           else
             bind_run (Some (buffer_skip_whitespace (inc_offset 1 b3))) (\<lambda>b.
             bind_run (parse_value n (named_item s) b) (\<lambda>(ok, current_item, b).
             if \<not> ok then ret (False, xs @ [current_item], b)
             else chain_next (object_members n) (xs @ [current_item]) b)))"
        unfolding chain_next_def
        using start p2 sk3(1) at_byte_eq [OF sk3(2), of "CHR '':''"] same3
        by (simp add: named_item_parsed del: byte_Char)
      show ?thesis
      proof (cases "?c ! pb_offset b3 = byte (CHR '':'')")
        case False
        with same3 xs sk3 b show ?thesis
          unfolding run1 using named_item_blank [of s] by (auto simp: went_def ready_def blank_def)
      next
        case colon: True
        have "pb_offset b3 + 1 < pb_length b3"
          using ready_before_last [OF sk3(2)] colon same3 by simp
        define b4 where "b4 = set_offset (skip_ws (pb_content b3) (pb_offset b3 + 1)) b3"
        note sk4 = skip_ready [OF sk3(2) \<open>pb_offset b3 + 1 < pb_length b3\<close>, folded b4_def]
        have same4: "pb_content b4 = ?c" "pb_length b4 = pb_length b" "pb_depth b4 = pb_depth b"
          "pb_offset b4 = skip_ws ?c (pb_offset b3 + 1)" "live (pb_hooks b4) = live (pb_hooks b) + 2"
          "same_text b b4" using same3 by (auto simp: b4_def)
        have far: "pb_offset b < pb_offset b4" using b2(2) sk3(3) sk4(3) by simp
        then have "left b4 < left b" using same4 sk4(2) b by (auto simp: left_def ready_def)
        with IHv [OF sk4(2), of s] obtain ok x' b5 where v: "parse_value n (named_item s) b4 = ret (ok, x', b5)"
          "went b4 ok b5" "plain x'" "live (pb_hooks b5) - blocks x' = live (pb_hooks b4) - 2"
          "ok \<longrightarrow> value_at (pb_content b4) (pb_depth b4) (pb_offset b4) (named_item s) x' (pb_offset b5)"
          by (auto simp: value_post_def)
        have st: "same_text b b5" using v(2) same4(6) by (auto simp: went_def intro: same_text_trans)
        have same5: "pb_content b5 = ?c" "pb_length b5 = pb_length b"
          using st by (auto simp: same_text_def)
        have run: "object_members (Suc n) xs b =
            (if ok then chain_next (object_members n) (xs @ [x']) b5 else ret (False, xs @ [x'], b5))"
          using run1 colon sk4(1) v(1) by simp
        show ?thesis
        proof (cases ok)
          case False
          with v st same4 xs show ?thesis unfolding run by (auto simp: went_def)
        next
          case True
          have va: "value_at ?c (pb_depth b) (skip_ws ?c (skip_ws ?c (e + 1) + 1))
              (set_cstring (Some (cstr_of bs)) (set_ctype cJSON_String null_item)) x' (pb_offset b5)"
            using v(5) True same4 same3 by (simp add: named_item_def s_def)
          have colon': "?c ! skip_ws ?c (e + 1) = byte (CHR '':'')" using colon same3 by simp
          have "chain_post members_at xs b (chain_next (object_members n) (xs @ [x']) b5)"
          proof (rule chain_next_post [OF b(1) st])
            show "ready b5" "pb_offset b < pb_offset b5" "pb_depth b5 = pb_depth b"
              using v(2) True same4 same5 b far by (auto simp: went_def ready_def pb_ok_def)
            show "live (pb_hooks b5) - blocks x' = live (pb_hooks b)" using v(4) same4 by simp
            show "members_at ?c (pb_depth b) (pb_offset b) [x'] r"
              if "r = skip_ws ?c (pb_offset b5)" "?c ! r \<noteq> byte (CHR '','')" for r
              using m_last [OF lit refl colon' va that] .
            show "members_at ?c (pb_depth b) (pb_offset b) (x' # ys) t"
              if "r = skip_ws ?c (pb_offset b5)" "?c ! r = byte (CHR '','')"
                "members_at ?c (pb_depth b) r ys t" for r ys t
              using m_more [OF lit refl colon' va that] .
          qed (use v(3) xs IHe in auto)
          with True show ?thesis unfolding run by simp
        qed
      qed
    qed
  qed
qed

lemma parser_post:
  "(\<forall>x b. ready b \<longrightarrow> blank x \<longrightarrow> 3 * left b + 2 \<le> n \<longrightarrow> value_post x b (parse_value n x b)) \<and>
   (\<forall>x b. ready b \<longrightarrow> blank x \<longrightarrow> pb_content b ! pb_offset b = byte (CHR ''['') \<longrightarrow>
      3 * left b + 1 \<le> n \<longrightarrow> value_post x b (parse_array n x b)) \<and>
   (\<forall>x b. ready b \<longrightarrow> blank x \<longrightarrow> pb_content b ! pb_offset b = byte (CHR ''{'') \<longrightarrow>
      3 * left b + 1 \<le> n \<longrightarrow> value_post x b (parse_object n x b)) \<and>
   (\<forall>xs b. ready b \<longrightarrow> pb_offset b + 1 < pb_length b \<longrightarrow> (\<forall>x \<in> set xs. plain x) \<longrightarrow>
      3 * left b \<le> n \<longrightarrow> chain_post elements_at xs b (array_elements n xs b)) \<and>
   (\<forall>xs b. ready b \<longrightarrow> pb_offset b + 1 < pb_length b \<longrightarrow> (\<forall>x \<in> set xs. plain x) \<longrightarrow>
      3 * left b \<le> n \<longrightarrow> chain_post members_at xs b (object_members n xs b))"
proof (induction n)
  case 0
  have "ready b \<Longrightarrow> 0 < left b" for b by (simp add: ready_def left_def)
  then show ?case by fastforce
next
  case (Suc n)
  note IH = Suc.IH [THEN conjunct1, rule_format] Suc.IH [THEN conjunct2, THEN conjunct1, rule_format]
    Suc.IH [THEN conjunct2, THEN conjunct2, THEN conjunct1, rule_format]
    Suc.IH [THEN conjunct2, THEN conjunct2, THEN conjunct2, THEN conjunct1, rule_format]
    Suc.IH [THEN conjunct2, THEN conjunct2, THEN conjunct2, THEN conjunct2, rule_format]
  show ?case
  proof (intro conjI allI impI)
    fix x b assume "ready b" "blank x" "3 * left b + 2 \<le> Suc n"
    then show "value_post x b (parse_value (Suc n) x b)"
      by (intro parse_value_step IH(2,3)) auto
  next
    fix x b assume "ready b" "blank x" "pb_content b ! pb_offset b = byte (CHR ''['')" "3 * left b + 1 \<le> Suc n"
    then show "value_post x b (parse_array (Suc n) x b)"
      by (intro parse_array_step IH(4)) auto
  next
    fix x b assume "ready b" "blank x" "pb_content b ! pb_offset b = byte (CHR ''{'')" "3 * left b + 1 \<le> Suc n"
    then show "value_post x b (parse_object (Suc n) x b)"
      by (intro parse_object_step IH(5)) auto
  next
    fix xs b assume "ready b" "pb_offset b + 1 < pb_length b" "\<forall>x \<in> set xs. plain x" "3 * left b \<le> Suc n"
    then show "chain_post elements_at xs b (array_elements (Suc n) xs b)"
      by (intro array_elements_step IH(1,4)) auto
  next
    fix xs b assume "ready b" "pb_offset b + 1 < pb_length b" "\<forall>x \<in> set xs. plain x" "3 * left b \<le> Suc n"
    then show "chain_post members_at xs b (object_members (Suc n) xs b)"
      by (intro object_members_step IH(1,5)) auto
  qed
qed

end
