(* ===== verification/CJsonParseComplete.thy ===== *)
theory CJsonParseComplete
  imports CJsonParseCorrect
begin

text \<open>
  The parser accepts every text of the grammar: by rule induction on the grammar, when the
  allocator grants every request, each operation succeeds with the item the grammar gives.
\<close>

section \<open>The parser accepts the grammar\<close>

lemma word_at_first: "word_at c p s \<Longrightarrow> s \<noteq> [] \<Longrightarrow> c ! p = hd s"
  by (cases s) (auto simp: word_at_def drop_Suc take_Suc Cons_nth_drop_Suc [symmetric]
      dest: arg_cong [of _ _ hd])

lemma parse_value_run:
  assumes "ready b"
  shows "parse_value (Suc n) x b =
    (let c = pb_content b; p = pb_offset b in
     if word_at c p (bytes ''null'') then ret (True, set_ctype cJSON_NULL x, inc_offset 4 b)
     else if word_at c p (bytes ''false'') then ret (True, set_ctype cJSON_False x, inc_offset 5 b)
     else if word_at c p (bytes ''true'')
     then ret (True, set_valueint 1 (set_ctype cJSON_True x), inc_offset 4 b)
     else if c ! p = byte (CHR 0x22) then Some (parse_string x b)
     else if c ! p = byte (CHR ''-'') \<or> is_digit (c ! p) then Some (parse_number x b)
     else if c ! p = byte (CHR ''['') then parse_array n x b
     else if c ! p = byte (CHR ''{'') then parse_object n x b
     else ret (False, x, b))"
  by (simp add: Let_def reads_text_eq [OF assms] at_byte_eq [OF assms] at_number_eq [OF assms]
      del: bytes_simps byte_Char)

lemma parse_array_run:
  assumes b: "ready b" and c: "pb_content b ! pb_offset b = byte (CHR ''['')"
    and d: "pb_depth b < CJSON_NESTING_LIMIT"
  defines "b1 \<equiv> set_offset (skip_ws (pb_content b) (pb_offset b + 1)) (b\<lparr>pb_depth := pb_depth b + 1\<rparr>)"
  shows "parse_array (Suc n) x b =
    (if pb_content b ! pb_offset b1 = byte (CHR '']'') then
       ret (True, set_child [] (set_ctype cJSON_Array x), inc_offset 1 (b1\<lparr>pb_depth := pb_depth b\<rparr>))
     else bind_run (array_elements n [] (set_offset (pb_offset b1 - 1) b1))
            (close_chain x (CHR '']'') cJSON_Array))"
proof -
  let ?b = "b\<lparr>pb_depth := pb_depth b + 1\<rparr>"
  have c0: "pb_content b ! pb_offset b \<noteq> 0" using c by simp
  note ob = open_bracket [OF b c0 d, folded b1_def]
  have at: "at_offset ?b 0 = Inr (byte (CHR ''[''))"
    using at_offset_eq [OF b] c by (simp add: at_offset_def)
  have dec: "size_dec (pb_offset b1) = pb_offset b1 - 1" "size_dec (pb_depth b1) = pb_depth b"
    using ob(3) by (auto simp: size_dec_def b1_def)
  show ?thesis
    using d at ob(1,4) at_byte_eq [OF ob(2), of "CHR '']''"]
    by (simp add: close_chain_def dec del: byte_Char) (simp add: b1_def)
qed

lemma parse_object_run:
  assumes b: "ready b" and c: "pb_content b ! pb_offset b = byte (CHR ''{'')"
    and d: "pb_depth b < CJSON_NESTING_LIMIT"
  defines "b1 \<equiv> set_offset (skip_ws (pb_content b) (pb_offset b + 1)) (b\<lparr>pb_depth := pb_depth b + 1\<rparr>)"
  shows "parse_object (Suc n) x b =
    (if pb_content b ! pb_offset b1 = byte (CHR ''}'') then
       ret (True, set_child [] (set_ctype cJSON_Object x), inc_offset 1 (b1\<lparr>pb_depth := pb_depth b\<rparr>))
     else bind_run (object_members n [] (set_offset (pb_offset b1 - 1) b1))
            (close_chain x (CHR ''}'') cJSON_Object))"
proof -
  let ?b = "b\<lparr>pb_depth := pb_depth b + 1\<rparr>"
  have c0: "pb_content b ! pb_offset b \<noteq> 0" using c by simp
  note ob = open_bracket [OF b c0 d, folded b1_def]
  have at: "at_byte ?b (CHR ''{'') = Inr True"
    using at_byte_eq [of ?b] b d c by (simp add: ready_def pb_ok_def)
  have dec: "size_dec (pb_offset b1) = pb_offset b1 - 1" "size_dec (pb_depth b1) = pb_depth b"
    using ob(3) by (auto simp: size_dec_def b1_def)
  show ?thesis
    using d at ob(1,4) at_byte_eq [OF ob(2), of "CHR ''}''"]
    by (simp add: close_chain_def dec del: byte_Char) (simp add: b1_def)
qed

lemma chain_next_run:
  assumes "ready b"
  defines "r \<equiv> skip_ws (pb_content b) (pb_offset b)"
  shows "chain_next f xs b =
    (if pb_content b ! r = byte (CHR '','') then f xs (set_offset r b) else ret (True, xs, set_offset r b))"
  using skip_ready_here [OF assms(1)] at_byte_eq [of "set_offset r b"]
  by (simp add: chain_next_def r_def del: byte_Char)

lemma new_item_granted:
  "always_grants h \<Longrightarrow> \<exists>h'. cJSON_New_Item h = (h', Some null_item) \<and> same_hooks h h'"
  by (auto simp: cJSON_New_Item_def allocate_def always_grants_def same_hooks_def)

lemma array_elements_run:
  assumes b: "ready b" "pb_offset b + 1 < pb_length b" and g: "always_grants (pb_hooks b)"
  shows "\<exists>h. same_hooks (pb_hooks b) h \<and>
    array_elements (Suc n) xs b =
      bind_run (parse_value n null_item
          (b\<lparr>pb_hooks := h, pb_offset := skip_ws (pb_content b) (pb_offset b + 1)\<rparr>))
        (\<lambda>(ok, x', b). if \<not> ok then ret (False, xs @ [x'], b)
                       else chain_next (array_elements n) (xs @ [x']) b)"
proof -
  obtain h where new: "cJSON_New_Item (pb_hooks b) = (h, Some null_item)" "same_hooks (pb_hooks b) h"
    using new_item_granted [OF g] by blast
  have rb: "ready (b\<lparr>pb_hooks := h\<rparr>)" "pb_offset (b\<lparr>pb_hooks := h\<rparr>) + 1 < pb_length (b\<lparr>pb_hooks := h\<rparr>)"
    using b by (auto simp: ready_def pb_ok_def)
  have "array_elements (Suc n) xs b =
      bind_run (parse_value n null_item
          (b\<lparr>pb_hooks := h, pb_offset := skip_ws (pb_content b) (pb_offset b + 1)\<rparr>))
        (\<lambda>(ok, x', b). if \<not> ok then ret (False, xs @ [x'], b)
                       else chain_next (array_elements n) (xs @ [x']) b)"
    unfolding chain_next_def using new skip_ready(1) [OF rb]
    by simp
  with new show ?thesis by blast
qed


lemma object_members_run:
  assumes b: "ready b" "pb_offset b + 1 < pb_length b" and g: "always_grants (pb_hooks b)"
    and lit: "literal_at (pb_content b) (skip_ws (pb_content b) (pb_offset b + 1)) e bs"
    and q: "q = skip_ws (pb_content b) (e + 1)" "pb_content b ! q = byte (CHR '':'')"
  shows "\<exists>h. same_hooks (pb_hooks b) h \<and> e + 1 < pb_length b \<and> skip_ws (pb_content b) (pb_offset b + 1) < e \<and>
    object_members (Suc n) xs b =
      bind_run (parse_value n (named_item (cstr_of bs))
          (b\<lparr>pb_hooks := h, pb_offset := skip_ws (pb_content b) (q + 1)\<rparr>))
        (\<lambda>(ok, x', b). if \<not> ok then ret (False, xs @ [x'], b)
                       else chain_next (object_members n) (xs @ [x']) b)"
proof -
  let ?c = "pb_content b"
  obtain h where new: "cJSON_New_Item (pb_hooks b) = (h, Some null_item)" "same_hooks (pb_hooks b) h"
    using new_item_granted [OF g] by blast
  let ?b = "b\<lparr>pb_hooks := h\<rparr>"
  have rb: "ready ?b" "pb_offset ?b + 1 < pb_length ?b"
    using b by (auto simp: ready_def pb_ok_def)
  define b1 where "b1 = set_offset (skip_ws (pb_content ?b) (pb_offset ?b + 1)) ?b"
  note sk = skip_ready [OF rb, folded b1_def]
  have g1: "always_grants (pb_hooks b1)"
    using g new(2) by (simp add: always_grants_def same_hooks_def b1_def)
  have lit1: "literal_at (pb_content b1) (pb_offset b1) e bs" using lit by (simp add: b1_def)
  have ok1: "pb_ok b1" "pb_offset b1 < pb_length b1" using sk(2) by (auto simp: ready_def)
  from ok1 obtain h2 where ps: "parse_string null_item b1 =
      Inr (True, set_valuestring (Some (cstr_of bs)) (set_ctype cJSON_String null_item),
           b1\<lparr>pb_hooks := h2, pb_offset := e + 1\<rparr>)" and h2: "same_hooks (pb_hooks b1) h2" "pb_offset b1 < e"
  proof (cases rule: parse_string_result [of b1 null_item])
    case (failed off h)
    with g1 lit1 show ?thesis by blast
  next
    case (parsed e' bs' h)
    have "e' = e \<and> bs' = bs"
      using lit1 parsed(2) ok1
        string_end_of_scan [of ?c e "pb_offset b1 + 1" _ "pb_length b1" 0]
        string_end_of_scan [of ?c e' "pb_offset b1 + 1" _ "pb_length b1" 0]
      by (fastforce simp: literal_at_def pb_ok_def b1_def)
    with parsed that show ?thesis by blast
  qed
  define b2 where "b2 = b1\<lparr>pb_hooks := h2, pb_offset := e + 1\<rparr>"
  have e: "e + 1 < length ?c"
    using lit b byte_before_last [of e ?c] by (auto simp: literal_at_def pb_ok_def ready_def)
  have b2: "ready b2" using e sk(2) by (auto simp: b2_def b1_def ready_def pb_ok_def)
  define b3 where "b3 = set_offset (skip_ws (pb_content b2) (pb_offset b2)) b2"
  note sk3 = skip_ready_here [OF b2, folded b3_def]
  have b3: "pb_content b3 = ?c" "pb_offset b3 = q" "pb_length b3 = pb_length b" "pb_depth b3 = pb_depth b"
    by (simp_all add: b3_def b2_def b1_def q)
  have "pb_offset b3 + 1 < pb_length b3"
    using ready_before_last [OF sk3(2)] q b3 by simp
  note sk4 = skip_ready [OF sk3(2) this]
  have run: "object_members (Suc n) xs b =
      bind_run (parse_value n (named_item (cstr_of bs)) (set_offset (skip_ws ?c (q + 1)) b3))
        (\<lambda>(ok, x', b). if \<not> ok then ret (False, xs @ [x'], b)
                       else chain_next (object_members n) (xs @ [x']) b)"
    unfolding chain_next_def
    using new sk(1) ps sk3(1) sk4(1) at_byte_eq [OF sk3(2), of "CHR '':''"] b3 q(2)
    by (simp add: named_item_parsed b2_def del: byte_Char)
  moreover have "set_offset (skip_ws ?c (q + 1)) b3 = b\<lparr>pb_hooks := h2, pb_offset := skip_ws ?c (q + 1)\<rparr>"
    by (simp add: b3_def b2_def b1_def)
  moreover have "same_hooks (pb_hooks b) h2"
    using new(2) h2 by (auto simp: b1_def intro: same_hooks_trans)
  ultimately show ?thesis using e h2(2) b by (auto simp: b1_def ready_def pb_ok_def)
qed

definition starts :: "parse_buffer \<Rightarrow> u8 list \<Rightarrow> nat \<Rightarrow> nat \<Rightarrow> bool" where
  "starts b c d p \<longleftrightarrow> ready b \<and> pb_content b = c \<and> pb_depth b = d \<and> pb_offset b = p \<and>
     always_grants (pb_hooks b)"

definition ends :: "parse_buffer \<Rightarrow> nat \<Rightarrow> parse_buffer \<Rightarrow> bool" where
  "ends b q b' \<longleftrightarrow> pb_offset b < q \<and> q < pb_length b \<and>
     (\<exists>h. same_hooks (pb_hooks b) h \<and> b' = b\<lparr>pb_hooks := h, pb_offset := q\<rparr>)"

definition parses_value :: "u8 list \<Rightarrow> nat \<Rightarrow> nat \<Rightarrow> cJSON \<Rightarrow> cJSON \<Rightarrow> nat \<Rightarrow> bool" where
  "parses_value c d p x x' q \<longleftrightarrow> (\<forall>n b. starts b c d p \<longrightarrow> blank x \<longrightarrow> 3 * left b + 2 \<le> n \<longrightarrow>
     (\<exists>b'. parse_value n x b = ret (True, x', b') \<and> ends b q b'))"

definition parses_chain ::
  "(nat \<Rightarrow> cJSON list \<Rightarrow> parse_buffer \<Rightarrow> (bool \<times> cJSON list \<times> parse_buffer) res option) \<Rightarrow>
     u8 list \<Rightarrow> nat \<Rightarrow> nat \<Rightarrow> cJSON list \<Rightarrow> nat \<Rightarrow> bool" where
  "parses_chain f c d p ys q \<longleftrightarrow> (\<forall>n b xs. starts b c d p \<longrightarrow> p + 1 < length c \<longrightarrow> 3 * left b \<le> n \<longrightarrow>
     (\<exists>b'. f n xs b = ret (True, xs @ ys, b') \<and> ends b q b'))"

lemma startsD:
  "starts b c d p \<Longrightarrow> ready b \<and> pb_ok b \<and> p < length c \<and> pb_length b = length c \<and> c \<noteq> [] \<and> last c = 0"
  by (auto simp: starts_def ready_def pb_ok_def)

lemma starts_moved:
  "starts b c d p \<Longrightarrow> same_hooks (pb_hooks b) h \<Longrightarrow> q < length c \<Longrightarrow>
     starts (b\<lparr>pb_hooks := h, pb_offset := q\<rparr>) c d q"
  by (auto simp: starts_def ready_def pb_ok_def always_grants_def same_hooks_def)

lemma ends_starts: "starts b c d p \<Longrightarrow> ends b q b' \<Longrightarrow> starts b' c d q"
  by (auto simp: ends_def dest: startsD intro!: starts_moved)

lemma ends_trans: "ends b q b' \<Longrightarrow> ends b' r b'' \<Longrightarrow> ends b r b''"
  using same_hooks_trans by (fastforce simp: ends_def)

lemma word_parses:
  assumes "starts b c d p" "word_at c p s" "s \<noteq> []" "last s \<noteq> 0" "n = length s"
  shows "ends b (p + n) (inc_offset n b)"
  using assms word_at_end [of c p s] startsD [of b c d p]
  by (auto simp: ends_def starts_def intro!: exI [of _ "pb_hooks b"])

lemma fuel_Suc: "3 * left b + k \<le> n \<Longrightarrow> ready b \<Longrightarrow> \<exists>m. n = Suc m"
  by (cases n) (auto simp: left_def ready_def)

lemma string_parses:
  assumes b: "starts b c d p" and lit: "literal_at c p e bs"
  shows "\<exists>b'. parse_string x b =
      Inr (True, set_valuestring (Some (cstr_of bs)) (set_ctype cJSON_String x), b') \<and> ends b (e + 1) b'"
proof -
  have s: "pb_ok b" "pb_offset b < pb_length b" "pb_content b = c" "pb_offset b = p" "always_grants (pb_hooks b)"
    using b by (auto simp: starts_def ready_def)
  from s(1,2) show ?thesis
  proof (cases rule: parse_string_result [of b x])
    case (failed off h)
    with s lit show ?thesis by blast
  next
    case (parsed e' bs' h)
    have eq: "e' = e \<and> bs' = bs"
      using lit parsed(2) s
        string_end_of_scan [of c e "p + 1" _ "pb_length b" 0]
        string_end_of_scan [of c e' "p + 1" _ "pb_length b" 0]
      by (fastforce simp: literal_at_def pb_ok_def)
    have "e + 1 < pb_length b"
      using lit s byte_before_last [of e c] by (auto simp: literal_at_def pb_ok_def)
    with parsed eq s show ?thesis by (auto simp: ends_def)
  qed
qed

lemma number_parses:
  assumes b: "starts b c d p" and st: "strtod (num_text c p) = (num, n)" "n \<noteq> 0" "saturated_int num = Inr k"
  shows "\<exists>b'. parse_number x b =
      Inr (True, set_ctype cJSON_Number (set_valueint k (set_valuedouble num x)), b') \<and> ends b (p + n) b'"
proof -
  have s: "pb_ok b" "pb_content b = c" "pb_offset b = p" "pb_length b = length c" "p < length c" "last c = 0"
    using startsD [OF b] b by (auto simp: starts_def)
  have "p + n < length c"
    using num_text_end [of p c] strtod_bounds [OF st(1)] s by simp
  with s st show ?thesis
    by (auto simp: parse_number_eq ends_def intro!: exI [of _ "pb_hooks b"])
qed

text \<open>A bracket: the loop and what follows it.\<close>

lemma bracket_parses:
  assumes b: "starts b c d p" and d: "d < CJSON_NESTING_LIMIT" and c0: "c ! p \<noteq> 0"
    and q: "q = skip_ws c (p + 1)"
    and chain: "parses_chain f c (d + 1) (q - 1) xs r" and close: "c ! r = byte ch" "byte ch \<noteq> 0"
    and n: "3 * left b \<le> n"
  shows "\<exists>b'. bind_run (f n [] (set_offset (q - 1) (set_offset q (b\<lparr>pb_depth := pb_depth b + 1\<rparr>))))
      (close_chain x ch t) = ret (True, set_child xs (set_ctype t x), b') \<and> ends b (r + 1) b'"
proof -
  have s: "ready b" "pb_content b = c" "pb_offset b = p" "pb_depth b = d" "always_grants (pb_hooks b)"
    using b by (auto simp: starts_def)
  define b0 where "b0 = set_offset (q - 1) (set_offset q (b\<lparr>pb_depth := pb_depth b + 1\<rparr>))"
  have ob: "ready b0" "pb_offset b0 + 1 < pb_length b0" "p \<le> pb_offset b0" "left b0 \<le> left b" "0 < q"
    using open_bracket [of b] s d c0 by (auto simp: b0_def q size_dec_def)
  have st0: "starts b0 c (d + 1) (q - 1)" using ob(1) s by (simp add: b0_def starts_def)
  moreover have "q - 1 + 1 < length c" "3 * left b0 \<le> n"
    using ob n startsD [OF b] by (auto simp: b0_def)
  ultimately obtain b1 where b1: "f n [] b0 = ret (True, xs, b1)" "ends b0 r b1"
    using chain [unfolded parses_chain_def, rule_format, of b0 n "[]"] by auto
  note st1 = ends_starts [OF st0 b1(2)]
  have rb: "ready b1" "pb_content b1 = c" "pb_offset b1 = r" "pb_depth b1 = d + 1" "pb_length b1 = length c"
    using st1 startsD [OF st1] by (auto simp: starts_def)
  have "r + 1 < length c" using ready_before_last [OF rb(1)] rb close by simp
  then have "ends b (r + 1) (inc_offset 1 (b1\<lparr>pb_depth := size_dec (pb_depth b1)\<rparr>))"
    using b1(2) s ob(3) startsD [OF b] by (auto simp: ends_def b0_def size_dec_def)
  moreover have "at_byte b1 ch = Inr True" using at_byte_eq [OF rb(1)] rb close by simp
  ultimately show ?thesis unfolding b0_def [symmetric] b1(1) by (simp add: close_chain_def)
qed


lemma chain_parses:
  assumes b: "starts b c d p"
    and IH: "ys = [] \<or> parses_chain f c d r ys t"
    and b2: "starts b2 c d q" "ends b q b2" and n: "3 * left b \<le> Suc n"
    and r: "r = skip_ws c q" "if ys = [] then c ! r \<noteq> byte (CHR '','') \<and> t = r else c ! r = byte (CHR '','')"
  shows "\<exists>b'. chain_next (f n) (xs @ [y]) b2 = ret (True, xs @ y # ys, b') \<and> ends b t b'"
proof -
  have s: "ready b2" "pb_content b2 = c" "pb_offset b2 = q" using b2 by (auto simp: starts_def)
  have rr: "q \<le> r" "r < length c" using skip_ws_bounds [of q c] startsD [OF b2(1)] r(1) by auto
  from b2(2) obtain h where h: "same_hooks (pb_hooks b) h" "b2 = b\<lparr>pb_hooks := h, pb_offset := q\<rparr>" "pb_offset b < q"
    by (auto simp: ends_def)
  have e3: "ends b r (set_offset r b2)"
    using h rr startsD [OF b] unfolding ends_def by (intro conjI exI [of _ h]) simp_all
  have s3: "starts (set_offset r b2) c d r"
    using ends_starts [OF b e3] .
  have run: "chain_next (f n) (xs @ [y]) b2 =
      (if c ! r = byte (CHR '','') then f n (xs @ [y]) (set_offset r b2)
       else ret (True, xs @ [y], set_offset r b2))"
    using chain_next_run [OF s(1), of "f n" "xs @ [y]"] s r(1) by (simp del: byte_Char)
  show ?thesis
  proof (cases "ys = []")
    case True
    with r(2) e3 show ?thesis unfolding run by auto
  next
    case False
    have "r + 1 < length c"
      using s3 startsD [OF s3] ready_before_last [of "set_offset r b2"] r(2) False
      by (auto simp: starts_def)
    moreover have "3 * left (set_offset r b2) \<le> n"
      using n e3 startsD [OF s3] startsD [OF b] by (auto simp: left_def ends_def)
    ultimately obtain b' where "f n (xs @ [y]) (set_offset r b2) = ret (True, (xs @ [y]) @ ys, b')"
      "ends (set_offset r b2) t b'"
      using IH False s3 unfolding parses_chain_def by blast
    with r(2) False e3 show ?thesis unfolding run by (auto intro: ends_trans)
  qed
qed

lemma element_parses:
  assumes v: "parses_value c d (skip_ws c (p + 1)) null_item y q"
    and IH: "ys = [] \<or> parses_chain array_elements c d r ys t"
    and r: "r = skip_ws c q" "if ys = [] then c ! r \<noteq> byte (CHR '','') \<and> t = r else c ! r = byte (CHR '','')"
  shows "parses_chain array_elements c d p (y # ys) t"
  unfolding parses_chain_def
proof (intro allI impI)
  fix n b xs assume b: "starts b c d p" and p: "p + 1 < length c" and n: "3 * left b \<le> n"
  have s: "ready b" "pb_content b = c" "pb_offset b = p" "always_grants (pb_hooks b)" "pb_length b = length c"
    using b startsD [OF b] by (auto simp: starts_def)
  from fuel_Suc [of b 0 n] n s obtain m where m: "n = Suc m" by auto
  from array_elements_run [of b m xs] s p obtain h where h: "same_hooks (pb_hooks b) h"
    and run: "array_elements n xs b =
      bind_run (parse_value m null_item (b\<lparr>pb_hooks := h, pb_offset := skip_ws c (p + 1)\<rparr>))
        (\<lambda>(ok, x', b). if \<not> ok then ret (False, xs @ [x'], b)
                       else chain_next (array_elements m) (xs @ [x']) b)"
    unfolding m by auto
  let ?b1 = "b\<lparr>pb_hooks := h, pb_offset := skip_ws c (p + 1)\<rparr>"
  have sk: "p + 1 \<le> skip_ws c (p + 1)" "skip_ws c (p + 1) < length c" using skip_ws_bounds [OF p] by auto
  have b1: "starts ?b1 c d (skip_ws c (p + 1))" using starts_moved [OF b h sk(2)] .
  have "3 * left ?b1 + 2 \<le> m" using n m sk s by (simp add: left_def)
  with v b1 obtain b2 where b2: "parse_value m null_item ?b1 = ret (True, y, b2)" "ends ?b1 q b2"
    unfolding parses_value_def by (metis null_item_blank(1))
  have "ends b q b2"
    using b2(2) h sk s by (auto simp: ends_def intro: same_hooks_trans)
  from chain_parses [OF b IH ends_starts [OF b1 b2(2)] this _ r, of m xs y] n m
  show "\<exists>b'. array_elements n xs b = ret (True, xs @ y # ys, b') \<and> ends b t b'"
    unfolding run b2(1) by simp
qed

lemma member_parses:
  assumes lit: "literal_at c (skip_ws c (p + 1)) e bs" "u = skip_ws c (e + 1)" "c ! u = byte (CHR '':'')"
    and v: "parses_value c d (skip_ws c (u + 1)) (named_item (cstr_of bs)) y q"
    and IH: "ys = [] \<or> parses_chain object_members c d r ys t"
    and r: "r = skip_ws c q" "if ys = [] then c ! r \<noteq> byte (CHR '','') \<and> t = r else c ! r = byte (CHR '','')"
  shows "parses_chain object_members c d p (y # ys) t"
  unfolding parses_chain_def
proof (intro allI impI)
  fix n b xs assume b: "starts b c d p" and p: "p + 1 < length c" and n: "3 * left b \<le> n"
  have s: "ready b" "pb_content b = c" "pb_offset b = p" "always_grants (pb_hooks b)" "pb_length b = length c"
    "c \<noteq> []" "last c = 0"
    using b startsD [OF b] by (auto simp: starts_def)
  from fuel_Suc [of b 0 n] n s obtain m where m: "n = Suc m" by auto
  from object_members_run [of b e bs u m xs] s p lit obtain h where h: "same_hooks (pb_hooks b) h"
    and e: "e + 1 < length c" "skip_ws c (p + 1) < e"
    and run: "object_members n xs b =
      bind_run (parse_value m (named_item (cstr_of bs)) (b\<lparr>pb_hooks := h, pb_offset := skip_ws c (u + 1)\<rparr>))
        (\<lambda>(ok, x', b). if \<not> ok then ret (False, xs @ [x'], b)
                       else chain_next (object_members m) (xs @ [x']) b)"
    unfolding m by auto
  let ?b1 = "b\<lparr>pb_hooks := h, pb_offset := skip_ws c (u + 1)\<rparr>"
  have u: "e + 1 \<le> u" "u < length c" using skip_ws_bounds [OF e(1)] lit(2) by auto
  then have "u + 1 < length c" using byte_before_last [of u c] lit(3) s by simp
  then have sk: "p + 1 \<le> skip_ws c (u + 1)" "skip_ws c (u + 1) < length c"
    using skip_ws_bounds [of "u + 1" c] skip_ws_bounds [OF p] e u by auto
  have b1: "starts ?b1 c d (skip_ws c (u + 1))" using starts_moved [OF b h sk(2)] .
  have "3 * left ?b1 + 2 \<le> m" using n m sk s by (simp add: left_def)
  with v b1 obtain b2 where b2: "parse_value m (named_item (cstr_of bs)) ?b1 = ret (True, y, b2)" "ends ?b1 q b2"
    unfolding parses_value_def by (metis named_item_blank(1))
  have "ends b q b2"
    using b2(2) h sk s by (auto simp: ends_def intro: same_hooks_trans)
  from chain_parses [OF b IH ends_starts [OF b1 b2(2)] this _ r, of m xs y] n m
  show "\<exists>b'. object_members n xs b = ret (True, xs @ y # ys, b') \<and> ends b t b'"
    unfolding run b2(1) by simp
qed

lemma parses_valueI:
  assumes "\<And>n b. starts b c d p \<Longrightarrow> ready b \<Longrightarrow> pb_content b = c \<Longrightarrow> pb_offset b = p \<Longrightarrow> pb_depth b = d \<Longrightarrow>
      3 * left b + 1 \<le> n \<Longrightarrow>
      \<exists>b'. parse_value (Suc n) x b = ret (True, x', b') \<and> ends b q b'"
  shows "parses_value c d p x x' q"
  unfolding parses_value_def
proof (intro allI impI)
  fix n b assume b: "starts b c d p" and n: "3 * left b + 2 \<le> n"
  then have s: "ready b" "pb_content b = c" "pb_offset b = p" "pb_depth b = d" by (auto simp: starts_def)
  from fuel_Suc [OF n s(1)] obtain m where "n = Suc m" by blast
  with assms [OF b s, of m] n show "\<exists>b'. parse_value n x b = ret (True, x', b') \<and> ends b q b'" by simp
qed

lemma array_parses:
  assumes d: "d < CJSON_NESTING_LIMIT" and c: "c ! p = byte (CHR ''['')" and q: "q = skip_ws c (p + 1)"
    and cont: "c ! q = byte (CHR '']'') \<and> xs = [] \<and> r = q \<or>
      c ! q \<noteq> byte (CHR '']'') \<and> parses_chain array_elements c (d + 1) (q - 1) xs r \<and> c ! r = byte (CHR '']'')"
  shows "parses_value c d p x (set_child xs (set_ctype cJSON_Array x)) (r + 1)"
proof (rule parses_valueI)
  fix n b assume b: "starts b c d p" and s: "ready b" "pb_content b = c" "pb_offset b = p" "pb_depth b = d"
    and n: "3 * left b + 1 \<le> n"
  have nw: "\<not> word_at c p (bytes ''null'')" "\<not> word_at c p (bytes ''false'')" "\<not> word_at c p (bytes ''true'')"
    using word_at_first [of c p] c by fastforce+
  have pv: "parse_value (Suc n) x b = parse_array n x b"
    using nw c s unfolding parse_value_run [OF s(1)] by (simp add: Let_def is_digit_def del: bytes_simps)
  from fuel_Suc [OF n s(1)] obtain m where m: "n = Suc m" by blast
  note run = parse_array_run [of b m x, unfolded s, OF s(1) c d, folded q]
  have c0: "c ! p \<noteq> 0" using c by simp
  from cont show "\<exists>b'. parse_value (Suc n) x b = ret (True, set_child xs (set_ctype cJSON_Array x), b') \<and> ends b (r + 1) b'"
  proof (elim disjE conjE)
    assume e: "c ! q = byte (CHR '']'')" "xs = []" "r = q"
    have "p < q" "q < length c"
      using skip_ws_bounds [of "p + 1" c] ready_before_last [OF s(1)] s c0 startsD [OF b] q by auto
    moreover have "q + 1 < length c"
      using byte_before_last [of q c] e(1) \<open>q < length c\<close> startsD [OF b] by simp
    ultimately have "ends b (q + 1) (inc_offset 1 (set_offset q (b\<lparr>pb_depth := pb_depth b + 1\<rparr>)\<lparr>pb_depth := pb_depth b\<rparr>))"
      using s startsD [OF b] by (auto simp: ends_def intro!: exI [of _ "pb_hooks b"])
    then show ?thesis
      using e s unfolding pv unfolding m run by (simp del: byte_Char)
  next
    assume e: "c ! q \<noteq> byte (CHR '']'')" "parses_chain array_elements c (d + 1) (q - 1) xs r" "c ! r = byte (CHR '']'')"
    have "3 * left b \<le> m" using n m by simp
    from bracket_parses [OF b d c0 q e(2,3) _ this, of x cJSON_Array] e(1) s show ?thesis
      unfolding pv unfolding m run by simp
  qed
qed

lemma object_parses:
  assumes d: "d < CJSON_NESTING_LIMIT" and c: "c ! p = byte (CHR ''{'')" and q: "q = skip_ws c (p + 1)"
    and cont: "c ! q = byte (CHR ''}'') \<and> xs = [] \<and> r = q \<or>
      c ! q \<noteq> byte (CHR ''}'') \<and> parses_chain object_members c (d + 1) (q - 1) xs r \<and> c ! r = byte (CHR ''}'')"
  shows "parses_value c d p x (set_child xs (set_ctype cJSON_Object x)) (r + 1)"
proof (rule parses_valueI)
  fix n b assume b: "starts b c d p" and s: "ready b" "pb_content b = c" "pb_offset b = p" "pb_depth b = d"
    and n: "3 * left b + 1 \<le> n"
  have nw: "\<not> word_at c p (bytes ''null'')" "\<not> word_at c p (bytes ''false'')" "\<not> word_at c p (bytes ''true'')"
    using word_at_first [of c p] c by fastforce+
  have pv: "parse_value (Suc n) x b = parse_object n x b"
    using nw c s unfolding parse_value_run [OF s(1)] by (simp add: Let_def is_digit_def del: bytes_simps)
  from fuel_Suc [OF n s(1)] obtain m where m: "n = Suc m" by blast
  note run = parse_object_run [of b m x, unfolded s, OF s(1) c d, folded q]
  have c0: "c ! p \<noteq> 0" using c by simp
  from cont show "\<exists>b'. parse_value (Suc n) x b = ret (True, set_child xs (set_ctype cJSON_Object x), b') \<and> ends b (r + 1) b'"
  proof (elim disjE conjE)
    assume e: "c ! q = byte (CHR ''}'')" "xs = []" "r = q"
    have "p < q" "q < length c"
      using skip_ws_bounds [of "p + 1" c] ready_before_last [OF s(1)] s c0 startsD [OF b] q by auto
    moreover have "q + 1 < length c"
      using byte_before_last [of q c] e(1) \<open>q < length c\<close> startsD [OF b] by simp
    ultimately have "ends b (q + 1) (inc_offset 1 (set_offset q (b\<lparr>pb_depth := pb_depth b + 1\<rparr>)\<lparr>pb_depth := pb_depth b\<rparr>))"
      using s startsD [OF b] by (auto simp: ends_def intro!: exI [of _ "pb_hooks b"])
    then show ?thesis
      using e s unfolding pv unfolding m run by (simp del: byte_Char)
  next
    assume e: "c ! q \<noteq> byte (CHR ''}'')" "parses_chain object_members c (d + 1) (q - 1) xs r" "c ! r = byte (CHR ''}'')"
    have "3 * left b \<le> m" using n m by simp
    from bracket_parses [OF b d c0 q e(2,3) _ this, of x cJSON_Object] e(1) s show ?thesis
      unfolding pv unfolding m run by simp
  qed
qed

lemma value_parses: "value_at c d p x x' q \<Longrightarrow> parses_value c d p x x' q"
  and "elements_at c d p' xs q' \<Longrightarrow> parses_chain array_elements c d p' xs q' \<and> xs \<noteq> []"
  and "members_at c d p'' ys q'' \<Longrightarrow> parses_chain object_members c d p'' ys q'' \<and> ys \<noteq> []"
proof (induction rule: value_at_elements_at_members_at.inducts)
  case (v_null p d x)
  show ?case
  proof (rule parses_valueI)
    fix n b assume b: "starts b c d p" "ready b" "pb_content b = c" "pb_offset b = p"
    have "ends b (p + 4) (inc_offset 4 b)" by (rule word_parses [OF b(1) v_null]) simp_all
    with b v_null
    show "\<exists>b'. parse_value (Suc n) x b = ret (True, set_ctype cJSON_NULL x, b') \<and> ends b (p + 4) b'"
      unfolding parse_value_run [OF b(2)] by simp
  qed
next
  case (v_false p d x)
  have "\<not> word_at c p (bytes ''null'')"
    using word_at_first [of c p] word_at_first [OF v_false] by fastforce
  show ?case
  proof (rule parses_valueI)
    fix n b assume b: "starts b c d p" "ready b" "pb_content b = c" "pb_offset b = p"
    have "ends b (p + 5) (inc_offset 5 b)" by (rule word_parses [OF b(1) v_false]) simp_all
    with b v_false \<open>\<not> word_at c p (bytes ''null'')\<close>
    show "\<exists>b'. parse_value (Suc n) x b = ret (True, set_ctype cJSON_False x, b') \<and> ends b (p + 5) b'"
      unfolding parse_value_run [OF b(2)] by simp
  qed
next
  case (v_true p d x)
  have n: "\<not> word_at c p (bytes ''null'')" "\<not> word_at c p (bytes ''false'')"
    using word_at_first [of c p] word_at_first [OF v_true] by fastforce+
  show ?case
  proof (rule parses_valueI)
    fix n b assume b: "starts b c d p" "ready b" "pb_content b = c" "pb_offset b = p"
    have "ends b (p + 4) (inc_offset 4 b)" by (rule word_parses [OF b(1) v_true]) simp_all
    with b v_true n
    show "\<exists>b'. parse_value (Suc n) x b = ret (True, set_valueint 1 (set_ctype cJSON_True x), b') \<and> ends b (p + 4) b'"
      unfolding parse_value_run [OF b(2)] by simp
  qed
next
  case (v_string p e bs d x)
  then have c: "c ! p = 34" by (simp add: literal_at_def)
  have n: "\<not> word_at c p (bytes ''null'')" "\<not> word_at c p (bytes ''false'')" "\<not> word_at c p (bytes ''true'')"
    using word_at_first [of c p] c by fastforce+
  show ?case
  proof (rule parses_valueI)
    fix n b assume b: "starts b c d p" "ready b" "pb_content b = c" "pb_offset b = p"
    with string_parses [OF b(1) v_string, of x] n c
    show "\<exists>b'. parse_value (Suc n) x b =
        ret (True, set_valuestring (Some (cstr_of bs)) (set_ctype cJSON_String x), b') \<and> ends b (e + 1) b'"
      unfolding parse_value_run [OF b(2)] by (simp add: Let_def del: bytes_simps)
  qed
next
  case (v_number p num k m d x)
  then have c: "c ! p = 45 \<or> is_digit (c ! p)" by simp
  then have q: "c ! p \<noteq> 34" "\<And>k. 58 \<le> unat k \<Longrightarrow> c ! p \<noteq> k" by (auto simp: is_digit_def word_le_nat_alt)
  have n: "\<not> word_at c p (bytes ''null'')" "\<not> word_at c p (bytes ''false'')" "\<not> word_at c p (bytes ''true'')"
    using word_at_first [of c p] q(2) [of 110] q(2) [of 102] q(2) [of 116] by fastforce+
  show ?case
  proof (rule parses_valueI)
    fix n' b assume b: "starts b c d p" "ready b" "pb_content b = c" "pb_offset b = p"
    with number_parses [OF b(1) v_number(2-4), of x] n c q(1)
    show "\<exists>b'. parse_value (Suc n') x b =
        ret (True, set_ctype cJSON_Number (set_valueint m (set_valuedouble num x)), b') \<and> ends b (p + k) b'"
      unfolding parse_value_run [OF b(2)] by (simp add: Let_def del: bytes_simps)
  qed
next
  case (v_empty_array d p q x) then show ?case by (intro array_parses) auto
next
  case (v_array d p q xs r x) then show ?case by (intro array_parses [where q = q]) auto
next
  case (v_empty_object d p q x) then show ?case by (intro object_parses) auto
next
  case (v_object d p q xs r x) then show ?case by (intro object_parses [where q = q]) auto
next
  case (e_last d p y q r) then show ?case by (auto intro!: element_parses)
next
  case (e_more d p y q r ys t) then show ?case by (auto intro!: element_parses)
next
  case (m_last p e bs q d y r t) then show ?case by (auto intro!: member_parses simp: named_item_def)
next
  case (m_more p e bs q d y r t ys u) then show ?case by (auto intro!: member_parses simp: named_item_def)
qed

end
