(* ===== verification/CJsonParseProps.thy ===== *)
theory CJsonParseProps
  imports CJsonParseComplete
begin

text \<open>
  Properties of the parser's entry point \<open>cJSON_ParseWithOpts\<close> on an arbitrary text, and of
  the string literals within it.
\<close>

declare parse_value.simps [simp del] parse_array.simps [simp del] parse_object.simps [simp del]
  array_elements.simps [simp del] object_members.simps [simp del]

section \<open>Nesting\<close>

lemma nesting_set [simp]:
  "t \<noteq> 32 \<Longrightarrow> t \<noteq> 64 \<Longrightarrow> nesting (set_ctype t x) = 0"
  "nesting (set_valueint i x) = nesting x" "nesting (set_valuestring v x) = nesting x"
  "t = 32 \<or> t = 64 \<Longrightarrow> nesting (set_child c (set_ctype t x)) = Suc (foldr max (map nesting c) 0)"
  by (cases x; simp)+

lemma value_nesting: "value_at c d p x x' q \<Longrightarrow> d \<le> CJSON_NESTING_LIMIT \<Longrightarrow> nesting x' + d \<le> CJSON_NESTING_LIMIT"
  and "elements_at c d p' xs q' \<Longrightarrow> d \<le> CJSON_NESTING_LIMIT \<Longrightarrow> \<forall>y \<in> set xs. nesting y + d \<le> CJSON_NESTING_LIMIT"
  and "members_at c d p'' ys q'' \<Longrightarrow> d \<le> CJSON_NESTING_LIMIT \<Longrightarrow> \<forall>y \<in> set ys. nesting y + d \<le> CJSON_NESTING_LIMIT"
proof (induction rule: value_at_elements_at_members_at.inducts)
  case (v_array d p q xs r x)
  then have "\<forall>y \<in> set xs. nesting y \<le> 999 - d" by auto
  then have "foldr max (map nesting xs) 0 \<le> 999 - d" by (simp only: nesting_children)
  then show ?case using v_array.hyps by simp
next
  case (v_object d p q xs r x)
  then have "\<forall>y \<in> set xs. nesting y \<le> 999 - d" by auto
  then have "foldr max (map nesting xs) 0 \<le> 999 - d" by (simp only: nesting_children)
  then show ?case using v_object.hyps by simp
qed simp_all

section \<open>The entry point\<close>

definition bom_length :: "u8 list \<Rightarrow> nat" where
  "bom_length c = (if 4 < length c \<and> take 3 c = [0xEF, 0xBB, 0xBF] then 3 else 0)"

definition text_start :: "cstr \<Rightarrow> nat" where
  "text_start v = skip_ws (v @ [0]) (bom_length (v @ [0]))"

definition trailing :: "cstr \<Rightarrow> bool \<Rightarrow> nat \<Rightarrow> nat" where
  "trailing v req q = (if req then skip_ws (v @ [0]) q else q)"

definition document :: "cstr \<Rightarrow> bool \<Rightarrow> cJSON \<Rightarrow> nat \<Rightarrow> bool" where
  "document v req x r \<longleftrightarrow> (\<exists>q. value_at (v @ [0]) 0 (text_start v) null_item x q \<and> r = trailing v req q \<and>
     (req \<longrightarrow> (v @ [0]) ! r = 0))"

definition initial :: "cstr \<Rightarrow> internal_hooks \<Rightarrow> parse_buffer" where
  "initial v h = \<lparr>pb_content = v @ [0], pb_length = length v + 1, pb_offset = 0, pb_depth = 0, pb_hooks = h\<rparr>"

lemma initial_skipped:
  "skip_utf8_bom (initial v h) = Inr (Some (set_offset (bom_length (v @ [0])) (initial v h)))"
  "ready (set_offset (bom_length (v @ [0])) (initial v h))"
  "buffer_skip_whitespace (set_offset (bom_length (v @ [0])) (initial v h)) =
     Inr (set_offset (text_start v) (initial v h))"
  "ready (set_offset (text_start v) (initial v h))"
proof -
  show "skip_utf8_bom (initial v h) = Inr (Some (set_offset (bom_length (v @ [0])) (initial v h)))"
    by (auto simp: skip_utf8_bom_def initial_def can_access_at_index_def text_at_def memcmp_eq_def bom_length_def
        numeral_3_eq_3)
  show r: "ready (set_offset (bom_length (v @ [0])) (initial v h))"
    by (auto simp: ready_def pb_ok_def initial_def bom_length_def)
  note sk = skip_ready_here [OF r]
  show "buffer_skip_whitespace (set_offset (bom_length (v @ [0])) (initial v h)) =
     Inr (set_offset (text_start v) (initial v h))" "ready (set_offset (text_start v) (initial v h))"
    using sk(1,2) by (simp_all add: initial_def text_start_def)
qed

text \<open>What \<open>cJSON_ParseWithOpts\<close> does with the outcome of \<open>parse_value\<close>.\<close>

definition conclude :: "cstr \<Rightarrow> bool \<Rightarrow> bool \<times> cJSON \<times> parse_buffer \<Rightarrow>
  (cJSON option \<times> nat option \<times> parse_error \<times> internal_hooks) res option" where
  "conclude v req = (\<lambda>(ok, item, b).
     let failed = (\<lambda>item b.
           ret (parse_failure v (b\<lparr>pb_hooks := cJSON_Delete [item] (pb_hooks b)\<rparr>))) in
     if \<not> ok then failed item b
     else if req then
       bind_run (Some (buffer_skip_whitespace b)) (\<lambda>b.
       if pb_length b \<le> pb_offset b then failed item b
       else
       bind_run (Some (at_offset b 0)) (\<lambda>c.
       if c \<noteq> 0 then failed item b
       else ret (Some item, Some (pb_offset b),
                 \<lparr>error_json = None, error_position = 0\<rparr>, pb_hooks b)))
     else ret (Some item, Some (pb_offset b),
               \<lparr>error_json = None, error_position = 0\<rparr>, pb_hooks b))"

lemma ParseWithOpts_run:
  "cJSON_ParseWithOpts h (Some v) req =
     (case cJSON_New_Item h of
        (h', None) \<Rightarrow> ret (parse_failure v (initial v h'))
      | (h', Some item) \<Rightarrow>
          bind_run (parse_value (parse_fuel (length v)) item (set_offset (text_start v) (initial v h')))
            (conclude v req))"
  unfolding cJSON_ParseWithOpts_def conclude_def option.case
  using initial_skipped [of v]
  by (simp add: initial_def Let_def split: prod.split option.split)

lemma conclude_ok:
  assumes b: "ready b" "pb_content b = v @ [0]"
  shows "conclude v req (True, x, b) =
    (let r = trailing v req (pb_offset b) in
     if req \<and> (v @ [0]) ! r \<noteq> 0
     then ret (parse_failure v (b\<lparr>pb_offset := r, pb_hooks := cJSON_Delete [x] (pb_hooks b)\<rparr>))
     else ret (Some x, Some r, \<lparr>error_json = None, error_position = 0\<rparr>, pb_hooks b))"
proof -
  note sk = skip_ready_here [OF b(1)]
  have "\<not> pb_length b \<le> skip_ws (v @ [0]) (pb_offset b)" using sk(2) b(2) by (simp add: ready_def)
  with sk at_offset_eq [OF sk(2)] b(2) show ?thesis
    by (simp add: conclude_def trailing_def Let_def)
qed


lemma parse_fuel_enough: "ready b \<Longrightarrow> pb_length b = length v + 1 \<Longrightarrow> 3 * left b + 2 \<le> parse_fuel (length v)"
  by (simp add: left_def parse_fuel_def)

lemma parse_failure_position:
  "pb_length b = length v + 1 \<Longrightarrow>
     \<exists>pos. parse_failure v b = (None, Some pos, \<lparr>error_json = Some v, error_position = pos\<rparr>, pb_hooks b) \<and>
       pos \<le> length v"
  by (simp add: parse_failure_def Let_def)

lemma live_deleted:
  "plain x \<Longrightarrow> live (cJSON_Delete [x] h) = live h - blocks x"
  by (simp add: cJSON_Delete_plain)

text \<open>
  C29. \<open>cJSON_ParseWithOpts\<close> on any C string: it returns, without an access out of bounds, a
  null pointer dereference or an undefined conversion, whatever requests the allocator refuses.
  When it fails, every block it allocated has been given back, and the error position and
  \<open>return_parse_end\<close> are the same position of the text. When it succeeds, the blocks handed out are
  exactly those of the tree, and no array or object is nested deeper than \<open>CJSON_NESTING_LIMIT\<close>.
\<close>

theorem cJSON_ParseWithOpts_safe:
  "\<exists>result pos err h'.
     cJSON_ParseWithOpts h (Some v) require_null_terminated = ret (result, Some pos, err, h') \<and>
     pos \<le> length v \<and>
     (case result of
        None \<Rightarrow> live h' = live h \<and> err = \<lparr>error_json = Some v, error_position = pos\<rparr>
      | Some x \<Rightarrow> live h' = live h + blocks x \<and> err = \<lparr>error_json = None, error_position = 0\<rparr> \<and>
          nesting x \<le> CJSON_NESTING_LIMIT)"
proof -
  let ?req = require_null_terminated
  obtain h1 r where new: "cJSON_New_Item h = (h1, r)" by fastforce
  note nc = new_item_cases [OF new]
  show ?thesis
  proof (cases r)
    case None
    with nc new parse_failure_position [of "initial v h1" v] show ?thesis
      unfolding ParseWithOpts_run by (auto simp: initial_def)
  next
    case (Some y)
    with nc have y: "y = null_item" "live h1 = live h + 1" by auto
    let ?b = "set_offset (text_start v) (initial v h1)"
    have len: "pb_length ?b = length v + 1" and c: "pb_content ?b = v @ [0]" and d: "pb_depth ?b = 0"
      and hk: "pb_hooks ?b = h1"
      by (simp_all add: initial_def)
    note rb = initial_skipped(4) [of v h1]
    have "value_post null_item ?b (parse_value (parse_fuel (length v)) null_item ?b)"
      using parser_post [of "parse_fuel (length v)"] rb parse_fuel_enough [OF rb len]
      by simp
    then obtain ok x b' where p: "parse_value (parse_fuel (length v)) null_item ?b = ret (ok, x, b')"
      "went ?b ok b'" "plain x" "live (pb_hooks b') - blocks x = live h"
      "ok \<longrightarrow> value_at (v @ [0]) 0 (text_start v) null_item x (pb_offset b')"
      unfolding value_post_def c d hk using y by (auto simp: initial_def)
    have len': "pb_length b' = length v + 1" "pb_content b' = v @ [0]"
      using p(2) len c by (auto simp: went_def same_text_def initial_def)
    have run: "cJSON_ParseWithOpts h (Some v) ?req = conclude v ?req (ok, x, b')"
      unfolding ParseWithOpts_run using new Some y p(1) by simp
    have fail: "\<exists>pos. ret (parse_failure v (b'\<lparr>pb_offset := o', pb_hooks := cJSON_Delete [x] (pb_hooks b')\<rparr>)) =
        ret (None, Some pos, \<lparr>error_json = Some v, error_position = pos\<rparr>, cJSON_Delete [x] (pb_hooks b')) \<and> pos \<le> length v" for o'
      using parse_failure_position [of "b'\<lparr>pb_offset := o', pb_hooks := cJSON_Delete [x] (pb_hooks b')\<rparr>" v] len' by simp
    have lv: "live (cJSON_Delete [x] (pb_hooks b')) = live h" using p(3,4) by (simp add: live_deleted)
    show ?thesis
    proof (cases ok)
      case False
      then have "cJSON_ParseWithOpts h (Some v) ?req =
          ret (parse_failure v (b'\<lparr>pb_offset := pb_offset b', pb_hooks := cJSON_Delete [x] (pb_hooks b')\<rparr>))"
        by (simp add: run conclude_def Let_def)
      with fail [of "pb_offset b'"] lv show ?thesis by auto
    next
      case True
      with p(2) len' rb have rb': "ready b'"
        by (auto simp: went_def ready_def pb_ok_def initial_def)
      have "trailing v ?req (pb_offset b') \<le> length v"
        using skip_ws_bounds [of "pb_offset b'" "v @ [0]"] rb' len'
        by (auto simp: trailing_def ready_def)
      moreover have "nesting x \<le> CJSON_NESTING_LIMIT" using value_nesting(1) [of "v @ [0]" 0] p(5) True by force
      moreover have "cJSON_ParseWithOpts h (Some v) ?req = conclude v ?req (True, x, b')"
        using run True by simp
      ultimately show ?thesis
        using fail [of "trailing v ?req (pb_offset b')"] lv p(4)
        unfolding conclude_ok [OF rb' len'(2)] Let_def by (auto split: if_splits)
    qed
  qed
qed


text \<open>Exactly the documents are accepted.\<close>

lemma parse_accepts_documents:
  assumes "always_grants h"
  shows "(\<exists>err h'. cJSON_ParseWithOpts h (Some v) require_null_terminated = ret (Some x, Some pos, err, h')) \<longleftrightarrow>
    document v require_null_terminated x pos"
proof -
  let ?req = require_null_terminated
  obtain h1 where new: "cJSON_New_Item h = (h1, Some null_item)" "same_hooks h h1"
    using new_item_granted [OF assms] by blast
  let ?b = "set_offset (text_start v) (initial v h1)" and ?n = "parse_fuel (length v)"
  have len: "pb_length ?b = length v + 1" by (simp add: initial_def)
  note rb = initial_skipped(4) [of v h1]
  note fuel = parse_fuel_enough [OF rb len]
  have st: "starts ?b (v @ [0]) 0 (text_start v)"
    using rb assms new(2) by (simp add: starts_def initial_def always_grants_def same_hooks_def)
  have run: "cJSON_ParseWithOpts h (Some v) ?req = bind_run (parse_value ?n null_item ?b) (conclude v ?req)"
    unfolding ParseWithOpts_run using new by simp
  have post: "value_post null_item ?b (parse_value ?n null_item ?b)"
    using parser_post [of ?n] rb fuel by simp
  have concl: "conclude v ?req (True, y, b') =
      (let r = trailing v ?req q in
       if ?req \<and> (v @ [0]) ! r \<noteq> 0
       then ret (parse_failure v (b'\<lparr>pb_offset := r, pb_hooks := cJSON_Delete [y] (pb_hooks b')\<rparr>))
       else ret (Some y, Some r, \<lparr>error_json = None, error_position = 0\<rparr>, pb_hooks b'))"
    if "ends ?b q b'" for y b' q
    using conclude_ok [of b' v ?req y] ends_starts [OF st that] by (simp add: starts_def)
  show ?thesis
  proof
    assume "document v ?req x pos"
    then obtain q where q: "value_at (v @ [0]) 0 (text_start v) null_item x q" "pos = trailing v ?req q"
      "?req \<longrightarrow> (v @ [0]) ! pos = 0" unfolding document_def by blast
    from value_parses(1) [OF q(1)] obtain b'
      where b': "parse_value ?n null_item ?b = ret (True, x, b')" "ends ?b q b'"
      using st fuel unfolding parses_value_def by (metis null_item_blank(1))
    have "cJSON_ParseWithOpts h (Some v) ?req =
        ret (Some x, Some pos, \<lparr>error_json = None, error_position = 0\<rparr>, pb_hooks b')"
      unfolding run b'(1) bind_run_simps concl [OF b'(2)] Let_def q(2) [symmetric]
      using q(3) by auto
    then show "\<exists>err h'. cJSON_ParseWithOpts h (Some v) ?req = ret (Some x, Some pos, err, h')"
      by blast
  next
    assume "\<exists>err h'. cJSON_ParseWithOpts h (Some v) ?req = ret (Some x, Some pos, err, h')"
    then obtain err h' where r: "cJSON_ParseWithOpts h (Some v) ?req = ret (Some x, Some pos, err, h')" by blast
    from post obtain ok y b' where p: "parse_value ?n null_item ?b = ret (ok, y, b')"
      "ok \<longrightarrow> value_at (v @ [0]) 0 (text_start v) null_item y (pb_offset b')"
      unfolding value_post_def by (auto simp: initial_def)
    have ok: "ok" using r unfolding run p(1) by (auto simp: conclude_def parse_failure_def Let_def split: if_splits)
    from value_parses(1) [OF p(2) [rule_format, OF ok]] obtain b'' where
      "parse_value ?n null_item ?b = ret (True, y, b'')" "ends ?b (pb_offset b') b''"
      using st fuel unfolding parses_value_def by (metis null_item_blank(1))
    with p(1) have e: "ends ?b (pb_offset b') b'" by simp
    from r p(1) ok concl [OF e, of y] p(2) show "document v ?req x pos"
      unfolding run by (auto simp: document_def parse_failure_def Let_def split: if_splits)
  qed
qed

text \<open>
  C30. When the allocator grants every request, \<open>cJSON_ParseWithOpts\<close> accepts exactly the texts of
  the grammar \<open>document\<close>, and returns the tree of the text and the position after it: it
  neither rejects a text of the grammar nor accepts another one.
\<close>

theorem cJSON_ParseWithOpts_exact:
  assumes "always_grants h"
  shows "(\<exists>err h'. cJSON_ParseWithOpts h (Some v) require_null_terminated = ret (Some x, Some pos, err, h')) \<longleftrightarrow>
    document v require_null_terminated x pos"
  using assms by (rule parse_accepts_documents)

definition granting_hooks :: internal_hooks where
  "granting_hooks = \<lparr>grants = \<lambda>_ _. True, has_reallocate = True, fill = 0xAA, requests = 0, live = 0\<rparr>"

lemma always_grants_granting [simp]: "always_grants granting_hooks"
  by (simp add: always_grants_def granting_hooks_def)

theorem cJSON_ParseWithOpts_exact_witness:
  "always_grants granting_hooks \<and>
   document (bytes '' null '') True (set_ctype cJSON_NULL null_item) 6 \<and>
   (\<exists>err h'. cJSON_ParseWithOpts granting_hooks (Some (bytes '' null '')) True =
      ret (Some (set_ctype cJSON_NULL null_item), Some 6, err, h'))"
proof -
  have t: "text_start (bytes '' null '') = 1" "trailing (bytes '' null '') True 5 = 6"
    by (simp_all add: text_start_def trailing_def skip_ws_def bom_length_def)
  have "value_at (bytes '' null '' @ [0]) 0 1 null_item (set_ctype cJSON_NULL null_item) (1 + 4)"
    by (rule v_null) (simp add: word_at_def)
  with t have "document (bytes '' null '') True (set_ctype cJSON_NULL null_item) 6"
    unfolding document_def by (intro exI [of _ 5]) simp
  with cJSON_ParseWithOpts_exact [OF always_grants_granting] show ?thesis by simp
qed

text \<open>
  C31. \<open>parse_string\<close> on a zero-terminated buffer: it returns, so that neither the input nor the
  block allocated for the output, whose size is estimated by counting backslashes, is accessed
  out of bounds, even when the digits of a \<open>u\<close> literal contain backslashes and the two passes
  disagree on where escapes begin. On success the string is the C string of the bytes the literal
  denotes; on failure the item is unchanged and the block has been given back.
\<close>

theorem parse_string_correct:
  assumes "pb_ok b" and "pb_offset b < pb_length b"
  shows "\<exists>ok item' b'. parse_string item b = Inr (ok, item', b') \<and>
    pb_offset b < pb_offset b' \<and> pb_offset b' \<le> pb_length b' \<and> pb_content b' = pb_content b \<and>
    live (pb_hooks b') = live (pb_hooks b) + of_bool ok \<and>
    (if ok then \<exists>bs. literal_at (pb_content b) (pb_offset b) (pb_offset b' - 1) bs \<and>
        item' = set_valuestring (Some (cstr_of bs)) (set_ctype cJSON_String item)
     else item' = item)"
  using assms
proof (cases rule: parse_string_result [of b item])
  case (failed off h)
  then show ?thesis by auto
next
  case (parsed e bs h)
  then have "e < length (pb_content b)" by (simp add: literal_at_def)
  with parsed assms show ?thesis by (auto simp: pb_ok_def)
qed

definition sample_buffer :: "u8 list \<Rightarrow> parse_buffer" where
  "sample_buffer c = \<lparr>pb_content = c, pb_length = length c, pb_offset = 0, pb_depth = 0,
     pb_hooks = granting_hooks\<rparr>"

text \<open>The literal whose four digits are \<open>abc\<close> and a backslash, followed by a backslash.\<close>

theorem parse_string_correct_witness:
  "pb_ok (sample_buffer [34, 92, 117, 97, 98, 99, 92, 92, 34, 0]) \<and>
   (\<exists>ok item' b'. parse_string null_item (sample_buffer [34, 92, 117, 97, 98, 99, 92, 92, 34, 0]) =
      Inr (ok, item', b') \<and> live (pb_hooks b') = of_bool ok)"
  using parse_string_correct [of "sample_buffer [34, 92, 117, 97, 98, 99, 92, 92, 34, 0]" null_item]
  by (auto simp: sample_buffer_def pb_ok_def granting_hooks_def)

text \<open>
  C32. \<open>utf16_literal_to_utf8\<close> within a text and with room for four bytes: it rejects exactly the
  literals that are cut off, begin with a low surrogate or have a high surrogate without a low
  one; otherwise it writes the UTF-8 encoding of the code point at the output pointer, changes
  nothing else, and reports the six or twelve bytes it read.
\<close>

theorem utf16_literal_to_utf8_correct:
  assumes "input_end \<le> length inp" and "op + 4 \<le> length out"
  shows "utf16_literal_to_utf8 inp p input_end out op =
    Inr (case utf16_decode inp p input_end of
           None \<Rightarrow> (0, out, op)
         | Some (n, cp) \<Rightarrow> (n, put out op (utf8_encode cp), op + length (utf8_encode cp)))"
  using assms by (intro utf16_literal_to_utf8_eq) (auto simp: length_utf8_encode)

text \<open>The surrogate pair of U+1F600.\<close>

definition smiley :: "u8 list" where
  "smiley = [92, 117, 100, 56, 51, 100, 92, 117, 68, 69, 48, 48]"

theorem utf16_literal_to_utf8_correct_witness:
  "(12 \<le> length smiley \<and> 0 + 4 \<le> length [0, 0, 0, 0 :: u8]) \<and>
   utf16_literal_to_utf8 smiley 0 12 [0, 0, 0, 0] 0 = Inr (12, [0xF0, 0x9F, 0x98, 0x80], 4)"
proof -
  have "utf16_decode smiley 0 12 = Some (12, 0x1F600)"
    by (simp add: utf16_decode_def hex4_value_def hex_digit_def smiley_def)
  moreover have "utf8_encode 0x1F600 = [0xF0, 0x9F, 0x98, 0x80]"
    by (simp add: utf8_encode_def)
  ultimately show ?thesis
    using utf16_literal_to_utf8_correct [of 12 smiley 0 "[0, 0, 0, 0]" 0]
    by (simp add: smiley_def put_def)
qed

text \<open>
  Four bytes that are no hexadecimal digits are taken for the code zero, and a NaN has no
  defined value as an \<open>int\<close>.
\<close>

lemma invalid_hex_accepted:
  "utf16_decode (bytes [CHR 0x5C, CHR ''u'', CHR ''z'', CHR ''z'', CHR ''z'', CHR ''z'']) 0 6 = Some (6, 0)"
  by (simp add: utf16_decode_def hex4_value_def hex_digit_def)

lemma nan_number_undefined: "cJSON_SetNumberHelper x NotANumber = Inl SignedOverflow"
  by (simp add: cJSON_SetNumberHelper_def saturated_int_def)

end
