(* ===== verification/CJsonPrintBuffer.thy ===== *)
theory CJsonPrintBuffer
  imports CJsonPrint CJsonParseProps Complex_Main
begin

text \<open>
  A reference definition of the text of an item, the state of the print buffer, and the proof
  that the printer's primitives stay within the block, keep what is already written, and fail
  only for want of room.
\<close>

section \<open>The text of an item\<close>

primrec escaped_text :: "cstr \<Rightarrow> u8 list" where
  "escaped_text [] = []"
| "escaped_text (c # s) = fst (escaped c) @ escaped_text s"

definition render_string :: "cstr option \<Rightarrow> u8 list" where
  "render_string s = 34 # (case s of None \<Rightarrow> [] | Some t \<Rightarrow> escaped_text t) @ [34]"

definition render_number :: "double \<Rightarrow> u8 list option" where
  "render_number d = (case number_text d of Inl _ \<Rightarrow> None | Inr s \<Rightarrow> Some s)"

text \<open>The second argument is the depth at which the item stands.\<close>

fun render :: "bool \<Rightarrow> nat \<Rightarrow> cJSON \<Rightarrow> u8 list option"
and render_elements :: "bool \<Rightarrow> nat \<Rightarrow> cJSON list \<Rightarrow> u8 list option"
and render_members :: "bool \<Rightarrow> nat \<Rightarrow> cJSON list \<Rightarrow> u8 list option" where
  "render fmt n (CJSON t v i d s c) =
     (let ty = t AND 0xFF in
      if ty = cJSON_NULL then Some (bytes ''null'')
      else if ty = cJSON_False then Some (bytes ''false'')
      else if ty = cJSON_True then Some (bytes ''true'')
      else if ty = cJSON_Number then render_number d
      else if ty = cJSON_Raw then v
      else if ty = cJSON_String then Some (render_string v)
      else if ty = cJSON_Array then
        map_option (\<lambda>es. byte (CHR ''['') # es @ [byte (CHR '']'')]) (render_elements fmt (n + 1) c)
      else if ty = cJSON_Object then
        map_option (\<lambda>ms. (byte (CHR ''{'') # (if fmt then [10] else [])) @ ms @
            (if fmt then replicate n 9 else []) @ [byte (CHR ''}'')])
          (render_members fmt (n + 1) c)
      else None)"
| "render_elements fmt n [] = Some []"
| "render_elements fmt n (x # xs) =
     (case (render fmt n x, render_elements fmt n xs) of
        (Some e, Some es) \<Rightarrow>
          Some (e @ (if xs \<noteq> [] then byte (CHR '','') # (if fmt then [32] else []) else []) @ es)
      | _ \<Rightarrow> None)"
| "render_members fmt n [] = Some []"
| "render_members fmt n (x # xs) =
     (case (render fmt n x, render_members fmt n xs) of
        (Some e, Some es) \<Rightarrow>
          Some ((if fmt then replicate n 9 else []) @ render_string (cstring x) @
                (byte (CHR '':'') # (if fmt then [9] else [])) @ e @
                ((if xs \<noteq> [] then [byte (CHR '','')] else []) @ (if fmt then [10] else [])) @ es)
      | _ \<Rightarrow> None)"

text \<open>Items whose strings are C strings and whose numbers are values of a \<open>double\<close>.\<close>

fun wf_item :: "cJSON \<Rightarrow> bool" where
  "wf_item (CJSON t v i d s c) \<longleftrightarrow>
     (\<forall>w. v = Some w \<longrightarrow> 0 \<notin> set w) \<and> (\<forall>w. s = Some w \<longrightarrow> 0 \<notin> set w) \<and>
     double_ok d \<and> (\<forall>x \<in> set c. wf_item x)"

section \<open>The state of the print buffer\<close>

definition pw :: "printbuffer \<Rightarrow> bool" where
  "pw p \<longleftrightarrow> (\<exists>buf. out_buffer p = Some buf \<and> out_length p \<le> length buf) \<and>
     (out_offset p < out_length p \<or> out_length p = 0 \<and> out_offset p = 0 \<and> (has_reallocate (out_hooks p) \<or> out_noalloc p))"

definition kept :: "printbuffer \<Rightarrow> printbuffer \<Rightarrow> bool" where
  "kept p p' \<longleftrightarrow> out_format p' = out_format p \<and> out_noalloc p' = out_noalloc p \<and>
     same_hooks (out_hooks p) (out_hooks p') \<and> (out_noalloc p \<longrightarrow> out_length p' = out_length p)"

text \<open>After a failure the block may be gone, but then it has been given back.\<close>

definition lost :: "printbuffer \<Rightarrow> printbuffer \<Rightarrow> bool" where
  "lost p p' \<longleftrightarrow>
     live (out_hooks p') = live (out_hooks p) - (if out_buffer p' = None then 1 else 0)"

definition the_buffer :: "printbuffer \<Rightarrow> u8 list" where
  "the_buffer p = (case out_buffer p of Some buf \<Rightarrow> buf | None \<Rightarrow> [])"

text \<open>
  \<open>advanced p out p'\<close>: \<open>out\<close> has been appended to the text, the offset is behind it.
  \<open>printed p out p'\<close>: \<open>out\<close> and a zero stand behind the text; the offset is somewhere in \<open>out\<close>.
\<close>

definition advanced :: "printbuffer \<Rightarrow> u8 list \<Rightarrow> printbuffer \<Rightarrow> bool" where
  "advanced p out p' \<longleftrightarrow> pw p' \<and> kept p p' \<and> out_depth p' = out_depth p \<and>
     live (out_hooks p') = live (out_hooks p) \<and>
     out_offset p' = out_offset p + length out \<and>
     take (out_offset p + length out) (the_buffer p') = take (out_offset p) (the_buffer p) @ out"

definition printed :: "printbuffer \<Rightarrow> u8 list \<Rightarrow> printbuffer \<Rightarrow> bool" where
  "printed p out p' \<longleftrightarrow> pw p' \<and> kept p p' \<and> out_depth p' = out_depth p \<and>
     live (out_hooks p') = live (out_hooks p) \<and>
     out_offset p \<le> out_offset p' \<and> out_offset p' \<le> out_offset p + length out \<and>
     out_offset p + length out < out_length p' \<and>
     take (out_offset p + length out + 1) (the_buffer p') =
       take (out_offset p) (the_buffer p) @ out @ [0]"

text \<open>There is room for \<open>n\<close> bytes in all.\<close>

definition fits :: "printbuffer \<Rightarrow> nat \<Rightarrow> bool" where
  "fits p n \<longleftrightarrow> n \<le> SIZE_INT_MAX \<and>
     (if out_noalloc p then n \<le> out_length p else always_grants (out_hooks p))"

text \<open>
  What a printing operation may do when the text it is for is \<open>out\<close>: succeed with it, or fail
  for want of room.
\<close>

definition outcome :: "(printbuffer \<Rightarrow> u8 list \<Rightarrow> printbuffer \<Rightarrow> bool) \<Rightarrow> printbuffer \<Rightarrow>
    (bool \<times> printbuffer) res \<Rightarrow> u8 list option \<Rightarrow> bool" where
  "outcome rel p r out \<longleftrightarrow>
     (\<exists>p' s. r = Inr (True, p') \<and> out = Some s \<and> rel p s p') \<or>
     (\<exists>p'. r = Inr (False, p') \<and> lost p p' \<and>
        (\<forall>s. out = Some s \<longrightarrow> \<not> fits p (out_offset p + length s + 2)))"

abbreviation "advances \<equiv> outcome advanced"
abbreviation "prints \<equiv> outcome printed"

lemma outcomeI_ok: "r = Inr (True, p') \<Longrightarrow> out = Some s \<Longrightarrow> rel p s p' \<Longrightarrow> outcome rel p r out"
  by (simp add: outcome_def)

lemma outcomeI_fail:
  "r = Inr (False, p') \<Longrightarrow> lost p p' \<Longrightarrow>
     (\<And>s. out = Some s \<Longrightarrow> \<not> fits p (out_offset p + length s + 2)) \<Longrightarrow> outcome rel p r out"
  by (simp add: outcome_def)

lemma outcome_cases:
  assumes "outcome rel p r out"
  obtains (ok) p' s where "r = Inr (True, p')" "out = Some s" "rel p s p'"
    | (fail) p' where "r = Inr (False, p')" "lost p p'"
        "\<And>s. out = Some s \<Longrightarrow> \<not> fits p (out_offset p + length s + 2)"
  using assms unfolding outcome_def by blast

lemma kept_trans: "kept p q \<Longrightarrow> kept q r \<Longrightarrow> kept p r"
  by (auto simp: kept_def intro: same_hooks_trans)

lemma kept_refl [simp]: "kept p p"
  by (simp add: kept_def)

lemma advanced_refl: "pw p \<Longrightarrow> advanced p [] p"
  by (simp add: advanced_def)

lemma advanced_trans:
  assumes "advanced p a q" "advanced q b r"
  shows "advanced p (a @ b) r"
  using assms by (auto simp: advanced_def add.assoc intro: kept_trans)

lemma advanced_printed:
  assumes "advanced p a q" "printed q b r"
  shows "printed p (a @ b) r"
  using assms by (auto simp: advanced_def printed_def add.assoc intro: kept_trans)

lemma fits_mono: "fits p n \<Longrightarrow> m \<le> n \<Longrightarrow> fits p m"
  by (auto simp: fits_def split: if_splits)

lemma fits_kept: "kept p q \<Longrightarrow> fits q n = fits p n"
  by (auto simp: fits_def kept_def always_grants_def same_hooks_def)

lemma lost_trans:
  assumes "live (out_hooks q) = live (out_hooks p)" "lost q r"
  shows "lost p r"
  using assms by (simp add: lost_def)

section \<open>\<open>ensure\<close>\<close>

text \<open>The block after \<open>ensure\<close>: as before up to the offset, with room for what is needed.\<close>

definition ensured :: "printbuffer \<Rightarrow> nat \<Rightarrow> printbuffer \<Rightarrow> bool" where
  "ensured p needed p' \<longleftrightarrow> pw p' \<and> kept p p' \<and> out_depth p' = out_depth p \<and>
     live (out_hooks p') = live (out_hooks p) \<and> out_offset p' = out_offset p \<and>
     out_offset p + needed + 1 \<le> out_length p' \<and>
     take (out_offset p) (the_buffer p') = take (out_offset p) (the_buffer p)"

lemma grow_result:
  assumes p: "pw p" "out_buffer p = Some buf" "\<not> out_noalloc p" and n: "out_offset p + needed + 1 \<le> newsize"
  shows "\<exists>r p'. grow p buf newsize = Inr (r, p') \<and>
    (case r of None \<Rightarrow> lost p p' \<and> \<not> always_grants (out_hooks p)
     | Some i \<Rightarrow> i = out_offset p \<and> ensured p needed p')"
proof (cases "has_reallocate (out_hooks p)")
  case True
  show ?thesis
    using True n p
    by (auto simp: grow_def Let_def reallocate_def always_grants_def lost_def deallocate_def ensured_def pw_def
        kept_def same_hooks_def the_buffer_def take_append min_def)
next
  case False
  then have "out_offset p + 1 \<le> length buf" using p by (auto simp: pw_def)
  then show ?thesis
    using False n p
    by (auto simp: grow_def Let_def allocate_def always_grants_def lost_def deallocate_def ensured_def pw_def
        kept_def same_hooks_def the_buffer_def memcpy_def)
qed


lemma ensure_result:
  assumes p: "pw p"
  shows "\<exists>r p'. ensure p needed = Inr (r, p') \<and>
    (case r of None \<Rightarrow> lost p p' \<and> \<not> fits p (out_offset p + needed + 1)
     | Some i \<Rightarrow> i = out_offset p \<and> ensured p needed p')"
proof -
  obtain buf where buf: "out_buffer p = Some buf" "out_length p \<le> length buf" using p by (auto simp: pw_def)
  have off: "\<not> (0 < out_length p \<and> out_length p \<le> out_offset p)" using p by (auto simp: pw_def)
  have lost: "lost p p" using buf by (simp add: lost_def)
  consider "SIZE_INT_MAX < needed" | "out_offset p + needed + 1 \<le> out_length p" "needed \<le> SIZE_INT_MAX"
    | "out_length p < out_offset p + needed + 1" "out_noalloc p" "needed \<le> SIZE_INT_MAX"
    | "out_length p < out_offset p + needed + 1" "\<not> out_noalloc p" "needed \<le> SIZE_INT_MAX"
    by linarith
  then show ?thesis
  proof cases
    case 1
    then have "ensure p needed = Inr (None, p)" using buf off by (simp add: ensure_def)
    with 1 lost show ?thesis by (simp add: fits_def)
  next
    case 2
    then show ?thesis
      using buf off p by (simp add: ensure_def ensured_def add.commute add.left_commute)
  next
    case 3
    then show ?thesis using buf off lost by (simp add: ensure_def fits_def add.commute add.left_commute)
  next
    case 4
    define n where "n = out_offset p + needed + 1"
    have e: "ensure p needed = (if SIZE_INT_MAX div 2 < n
        then if n \<le> SIZE_INT_MAX then grow p buf SIZE_INT_MAX else Inr (None, p) else grow p buf (n * 2))"
      using 4 buf off by (auto simp: ensure_def n_def Let_def add.commute add.left_commute)
    show ?thesis
    proof (cases "n \<le> SIZE_INT_MAX")
      case False
      with e lost 4 show ?thesis by (simp add: fits_def n_def)
    next
      case True
      then obtain m where m: "ensure p needed = grow p buf m" "n \<le> m"
        using e by (metis mult_2_right le_add1)
      from grow_result [OF p buf(1) 4(2), of needed m] m obtain r p' where
        "ensure p needed = Inr (r, p')"
        "case r of None \<Rightarrow> lost p p' \<and> \<not> always_grants (out_hooks p) | Some i \<Rightarrow> i = out_offset p \<and> ensured p needed p'"
        by (auto simp: n_def)
      with 4 show ?thesis by (auto simp: fits_def split: option.splits)
    qed
  qed
qed


section \<open>Writing\<close>

lemma write_at_result:
  assumes p: "out_buffer p = Some buf" and i: "i + length bs \<le> length buf"
  shows "write_at p i bs = Inr (p\<lparr>out_buffer := Some (put buf i bs)\<rparr>)"
  using assms by (simp add: write_at_def memcpy_def put_def)

lemma take_put: "i + length bs \<le> length buf \<Longrightarrow> k \<le> length bs \<Longrightarrow>
    take (i + k) (put buf i bs) = take i buf @ take k bs"
  by (simp add: put_def)

lemma ensured_buffer:
  assumes "ensured p needed p'" "k \<le> needed + 1"
  obtains buf where "out_buffer p' = Some buf" "out_offset p + k \<le> length buf" "the_buffer p' = buf"
  using assms by (auto simp: ensured_def pw_def the_buffer_def)

lemma emit_advances:
  assumes p: "pw p" and len: "length bs \<le> needed + 1" "adv \<le> length bs" "adv \<le> needed" "needed \<le> adv + 1"
  shows "advances p (emit p needed bs adv) (Some (take adv bs))"
proof -
  obtain r p1 where e: "ensure p needed = Inr (r, p1)"
    "case r of None \<Rightarrow> lost p p1 \<and> \<not> fits p (out_offset p + needed + 1)
     | Some i \<Rightarrow> i = out_offset p \<and> ensured p needed p1"
    using ensure_result [OF p] by blast
  show ?thesis
  proof (cases r)
    case None
    with e len show ?thesis
      using fits_mono [of p "out_offset p + adv + 2" "out_offset p + needed + 1"]
      by (intro outcomeI_fail [where p' = p1]) (auto simp: emit_def)
  next
    case (Some i)
    with e(2) have en: "i = out_offset p" "ensured p needed p1" by auto
    from ensured_buffer [OF en(2) len(1)] obtain buf where
      buf: "out_buffer p1 = Some buf" "out_offset p + length bs \<le> length buf" "the_buffer p1 = buf" by blast
    let ?p2 = "p1\<lparr>out_buffer := Some (put buf i bs), out_offset := out_offset p1 + adv\<rparr>"
    have "emit p needed bs adv = Inr (True, ?p2)"
      using e(1) Some en(1) write_at_result [OF buf(1)] buf(2) by (simp add: emit_def)
    moreover have "advanced p (take adv bs) ?p2"
      using en buf len take_put [OF buf(2), of adv]
      by (auto simp: advanced_def ensured_def pw_def kept_def the_buffer_def)
    ultimately show ?thesis by (blast intro: outcomeI_ok)
  qed
qed

lemma emit_prints:
  assumes p: "pw p" and len: "length out \<le> needed" "needed \<le> length out + 1" "adv \<le> length out"
  shows "prints p (emit p needed (out @ [0]) adv) (Some out)"
proof -
  obtain r p1 where e: "ensure p needed = Inr (r, p1)"
    "case r of None \<Rightarrow> lost p p1 \<and> \<not> fits p (out_offset p + needed + 1)
     | Some i \<Rightarrow> i = out_offset p \<and> ensured p needed p1"
    using ensure_result [OF p] by blast
  show ?thesis
  proof (cases r)
    case None
    with e len show ?thesis
      using fits_mono [of p "out_offset p + length out + 2" "out_offset p + needed + 1"]
      by (intro outcomeI_fail [where p' = p1]) (auto simp: emit_def)
  next
    case (Some i)
    with e(2) have en: "i = out_offset p" "ensured p needed p1" by auto
    from ensured_buffer [OF en(2), of "length (out @ [0])"] len(1) obtain buf where
      buf: "out_buffer p1 = Some buf" "out_offset p + length (out @ [0]) \<le> length buf" "the_buffer p1 = buf"
      by auto
    let ?p2 = "p1\<lparr>out_buffer := Some (put buf i (out @ [0])), out_offset := out_offset p1 + adv\<rparr>"
    have "emit p needed (out @ [0]) adv = Inr (True, ?p2)"
      using e(1) Some en(1) write_at_result [OF buf(1)] buf(2) by (simp add: emit_def)
    moreover have "printed p out ?p2"
      using en buf len take_put [OF buf(2), of "length (out @ [0])"]
      by (auto simp: printed_def ensured_def pw_def kept_def the_buffer_def)
    ultimately show ?thesis by (blast intro: outcomeI_ok)
  qed
qed

section \<open>Composition\<close>

lemma on_success_simps [simp]:
  "on_success (Inr (True, p)) f = f p" "on_success (Inr (False, p)) f = Inr (False, p)"
  by (simp_all add: on_success_def)

lemma outcome_seq:
  assumes r: "advances p r (Some a)" and f: "\<And>q. advanced p a q \<Longrightarrow> outcome rel q (f q) out"
    and seq: "\<And>q b p'. advanced p a q \<Longrightarrow> rel q b p' \<Longrightarrow> rel p (a @ b) p'"
  shows "outcome rel p (on_success r f) (map_option ((@) a) out)"
  using r
proof (cases rule: outcome_cases)
  case (fail p')
  have "\<not> fits p (out_offset p + length (a @ s) + 2)" for s
    using fail(3) fits_mono [of p "out_offset p + length (a @ s) + 2" "out_offset p + length a + 2"] by auto
  with fail show ?thesis by (intro outcomeI_fail [where p' = p']) auto
next
  case (ok q)
  then have adv: "advanced p a q" by simp
  have fits: "fits q n = fits p n" for n using adv by (simp add: advanced_def fits_kept)
  have off: "out_offset q = out_offset p + length a" "live (out_hooks q) = live (out_hooks p)"
    using adv by (simp_all add: advanced_def)
  from f [OF adv] show ?thesis
  proof (cases rule: outcome_cases)
    case ok2: (ok p' s)
    with ok seq [OF adv] show ?thesis by (intro outcomeI_ok [where p' = p' and s = "a @ s"]) auto
  next
    case (fail p')
    with ok off fits show ?thesis
      by (intro outcomeI_fail [where p' = p']) (auto simp: add.assoc intro: lost_trans)
  qed
qed

lemmas advances_then_prints = outcome_seq [where rel = printed, OF _ _ advanced_printed]
lemmas advances_then_advances = outcome_seq [where rel = advanced, OF _ _ advanced_trans]

text \<open>\<open>update_offset\<close> turns a printed text into an appended one.\<close>

lemma update_offset_printed:
  assumes "printed p out q" "0 \<notin> set out"
  shows "\<exists>q'. update_offset q = Inr q' \<and> advanced p out q'"
proof -
  from assms(1) obtain buf where buf: "out_buffer q = Some buf" "out_length q \<le> length buf"
    by (auto simp: printed_def pw_def)
  define k where "k = out_offset q - out_offset p"
  have k: "out_offset q = out_offset p + k" "k \<le> length out" "out_offset p + length out < length buf"
    and tk: "take (out_offset p + length out + 1) buf = take (out_offset p) (the_buffer p) @ out @ [0]"
    using assms(1) buf by (auto simp: printed_def k_def the_buffer_def)
  have pre: "length (take (out_offset p) (the_buffer p)) = out_offset p"
    using arg_cong [OF tk, of length] k(3) by simp
  have "take (out_offset p + length out) buf = take (out_offset p + length out) (take (out_offset p + length out + 1) buf)"
    by simp
  also have "\<dots> = take (out_offset p) (the_buffer p) @ out"
    unfolding tk using pre by simp
  finally have tk2: "take (out_offset p + length out) buf = take (out_offset p) (the_buffer p) @ out" .
  have tb: "the_buffer (q\<lparr>out_offset := n\<rparr>) = buf" for n using buf by (simp add: the_buffer_def)
  have "drop (out_offset q) (take (out_offset p + length out + 1) buf) = drop k out @ [0]"
    unfolding tk using pre k(1,2) by simp
  then have dr: "drop (out_offset q) buf = drop k out @ 0 # drop (out_offset p + length out + 1) buf"
    using k append_take_drop_id [of "length out + 1 - k" "drop (out_offset q) buf"]
    by (simp add: drop_take add.commute)
  have "takeWhile (\<lambda>c. c \<noteq> 0) (drop k out @ 0 # ys) = drop k out" for ys
  proof -
    have "takeWhile (\<lambda>c. c \<noteq> 0) (drop k out @ 0 # ys) = drop k out @ takeWhile (\<lambda>c. c \<noteq> 0) (0 # ys)"
      using assms(2) by (intro takeWhile_append2) (auto dest: in_set_dropD)
    then show ?thesis by simp
  qed
  then have "strlen_from buf (out_offset q) = Inr (length out - k)"
    unfolding strlen_from_def dr by simp
  then have "update_offset q = Inr (q\<lparr>out_offset := out_offset p + length out\<rparr>)"
    using buf(1) k by (simp add: update_offset_def)
  moreover have "advanced p out (q\<lparr>out_offset := out_offset p + length out\<rparr>)"
    using assms(1) buf k tk2 tb by (auto simp: advanced_def printed_def pw_def kept_def)
  ultimately show ?thesis by blast
qed

end
