(* ===== verification/CJsonPrintCorrect.thy ===== *)
theory CJsonPrintCorrect
  imports CJsonPrintBuffer
begin

text \<open>
  The printer writes the text of an item whenever it succeeds, and succeeds when there is room:
  first for strings, then for numbers (whose text always fits the 26 bytes it is formatted
  into), then by induction for whole items.
\<close>

section \<open>Strings\<close>

lemma length_escaped: "length (fst (escaped c)) = 1 + escape_cost c"
  by (simp add: escaped_def escape_cost_def word_le_nat_alt word_less_nat_alt)

lemma length_escaped_text: "length (escaped_text s) = length s + sum_list (map escape_cost s)"
  by (induction s) (simp_all add: length_escaped)

lemma escaped_plain: "escape_cost c = 0 \<Longrightarrow> fst (escaped c) = [c]"
  by (auto simp: escaped_def escape_cost_def word_less_nat_alt word_le_nat_alt split: if_splits)

lemma escaped_plain_text: "sum_list (map escape_cost s) = 0 \<Longrightarrow> escaped_text s = s"
  by (induction s) (simp_all add: escaped_plain)

lemma hex_char_nonzero: "n < 16 \<Longrightarrow> hex_char n \<noteq> 0"
proof -
  assume n: "n < 16"
  then have "unat (hex_char n) \<noteq> 0" by (simp add: hex_char_def unat_of_nat del: of_nat_add)
  then show ?thesis by auto
qed

lemma unat_u8_less: "unat (c :: u8) < 256"
  using unsigned_less [of c, where ?'a = nat] by simp

lemma escaped_nonzero: "c \<noteq> 0 \<Longrightarrow> 0 \<notin> set (fst (escaped c))"
  using hex_char_nonzero [of "unat c div 16"] hex_char_nonzero [of "unat c mod 16"] unat_u8_less [of c]
  by (auto simp: escaped_def split: if_splits)

lemma escaped_text_nonzero: "0 \<notin> set s \<Longrightarrow> 0 \<notin> set (escaped_text s)"
  using escaped_nonzero by (induction s) auto

lemma render_string_nonzero:
  "(\<And>w. s = Some w \<Longrightarrow> 0 \<notin> set w) \<Longrightarrow> 0 \<notin> set (render_string s)"
  by (cases s) (simp_all add: render_string_def escaped_text_nonzero)

lemma write_escaped_result:
  assumes "out_buffer p = Some buf" "i + length (escaped_text s) < length buf"
  shows "\<exists>buf'. write_escaped p i s = Inr (p\<lparr>out_buffer := Some buf'\<rparr>) \<and> length buf' = length buf \<and>
    take (i + length (escaped_text s)) buf' = take i buf @ escaped_text s"
  using assms
proof (induction s arbitrary: p i buf)
  case Nil
  then show ?case by (auto intro: exI [of _ buf])
next
  case (Cons c s)
  obtain bs z where e: "escaped c = (bs, z)" by fastforce
  let ?t = "escaped_text s" and ?w = "bs @ (if z then [0] else [])"
  have len: "i + length ?w \<le> length buf" "i + length bs + length ?t < length buf"
    using Cons.prems(2) e by auto
  define q where "q = p\<lparr>out_buffer := Some (put buf i ?w)\<rparr>"
  have w: "write_at p i ?w = Inr q" using write_at_result [OF Cons.prems(1) len(1)] by (simp add: q_def)
  have "out_buffer q = Some (put buf i ?w)" "i + length bs + length ?t < length (put buf i ?w)"
    using len by (simp_all add: q_def)
  from Cons.IH [OF this] obtain buf' where b: "write_escaped q (i + length bs) s = Inr (q\<lparr>out_buffer := Some buf'\<rparr>)"
    "length buf' = length buf"
    "take (i + length bs + length ?t) buf' = take (i + length bs) (put buf i ?w) @ ?t"
    using len by auto
  have "take (i + length bs) (put buf i ?w) = take i buf @ bs"
    using take_put [OF len(1), of "length bs"] by simp
  with b w e show ?case by (auto simp: q_def add.assoc)
qed

lemma print_string_ptr_prints:
  assumes p: "pw p"
  shows "prints p (print_string_ptr s p) (Some (render_string s))"
proof (cases s)
  case None
  then show ?thesis
    using emit_prints [OF p, of "[34, 34]" 3 0] by (simp add: print_string_ptr_def render_string_def)
next
  case (Some t)
  let ?e = "escaped_text t"
  let ?n = "length t + sum_list (map escape_cost t)"
  have out: "render_string s = 34 # ?e @ [34]" "length ?e = ?n"
    using Some by (simp_all add: render_string_def length_escaped_text)
  obtain r p1 where e: "ensure p (?n + 3) = Inr (r, p1)"
    "case r of None \<Rightarrow> lost p p1 \<and> \<not> fits p (out_offset p + (?n + 3) + 1)
     | Some i \<Rightarrow> i = out_offset p \<and> ensured p (?n + 3) p1"
    using ensure_result [OF p] by blast
  show ?thesis
  proof (cases r)
    case None
    have "out_offset p + length (render_string s) + 2 = out_offset p + (?n + 3) + 1" using out by simp
    with e(2) None have "\<not> fits p (out_offset p + length (render_string s) + 2)" "lost p p1"
      by (simp_all only: option.case simp_thms)
    with e(1) None Some show ?thesis
      by (intro outcomeI_fail [where p' = p1]) (auto simp only: print_string_ptr_def Let_def option.case bind_res_simps prod.case)
  next
    case i: (Some i)
    with e(2) have en: "i = out_offset p" "ensured p (?n + 3) p1" by auto
    from ensured_buffer [OF en(2), of "?n + 3"] obtain buf where
      buf: "out_buffer p1 = Some buf" "i + (?n + 3) \<le> length buf" "the_buffer p1 = buf" using en(1) by auto
    have "\<exists>buf'. print_string_ptr s p = Inr (True, p1\<lparr>out_buffer := Some buf'\<rparr>) \<and> length buf' = length buf \<and>
        take (i + (?n + 3)) buf' = take i buf @ 34 # ?e @ [34, 0]"
    proof (cases "sum_list (map escape_cost t) = 0")
      case True
      then have et: "?e = t" "?n = length t" by (simp_all add: escaped_plain_text)
      let ?w = "34 # t @ [34, 0 :: u8]"
      have ln: "i + length ?w = i + (?n + 3)" using et(2) by simp
      then have fit: "i + length ?w \<le> length buf" using buf(2) by simp
      have ps: "print_string_ptr s p = bind_res (write_at p1 i ?w) (\<lambda>p. Inr (True, p))"
        unfolding print_string_ptr_def Some option.case Let_def e(1) True
        using e(1) i by (simp add: True del: sum_list_eq_0_iff)
      have "print_string_ptr s p = Inr (True, p1\<lparr>out_buffer := Some (put buf i ?w)\<rparr>)"
        unfolding ps write_at_result [OF buf(1) fit] by simp
      moreover have "take (i + length ?w) (put buf i ?w) = take i buf @ ?w"
        using take_put [OF fit, of "length ?w"] by simp
      ultimately show ?thesis
        unfolding ln et(1) using length_put [OF fit] by blast
    next
      case False
      define b1 where "b1 = put buf i [34]"
      have w1: "write_at p1 i [34] = Inr (p1\<lparr>out_buffer := Some b1\<rparr>)" "length b1 = length buf"
        "take (i + 1) b1 = take i buf @ [34]"
        using buf take_put [of i "[34]" buf 1] write_at_result [OF buf(1), of i "[34]"] by (auto simp: b1_def)
      obtain b2 where b2: "write_escaped (p1\<lparr>out_buffer := Some b1\<rparr>) (i + 1) t = Inr (p1\<lparr>out_buffer := Some b2\<rparr>)"
        "length b2 = length buf" "take (i + 1 + ?n) b2 = take (i + 1) b1 @ ?e"
        using write_escaped_result [of "p1\<lparr>out_buffer := Some b1\<rparr>" b1 "i + 1" t] w1(2) buf out(2) by auto
      define b3 where "b3 = put b2 (i + ?n + 1) [34, 0]"
      have w3: "write_at (p1\<lparr>out_buffer := Some b2\<rparr>) (i + ?n + 1) [34, 0] = Inr (p1\<lparr>out_buffer := Some b3\<rparr>)"
        using write_at_result [of "p1\<lparr>out_buffer := Some b2\<rparr>" b2 "i + ?n + 1" "[34, 0]"] b2(2) buf
        by (simp add: b3_def)
      have "take (i + ?n + 1 + length [34, 0 :: u8]) b3 = take (i + ?n + 1) b2 @ [34, 0]"
        using take_put [of "i + ?n + 1" "[34, 0]" b2 2] b2(2) buf by (simp add: b3_def)
      then have t3: "take (i + (?n + 3)) b3 = take i buf @ 34 # ?e @ [34, 0]"
        using b2(3) w1(3) by (simp add: eval_nat_numeral add.commute add.left_commute)
      have "length b3 = length buf" using b2(2) buf by (simp add: b3_def)
      with t3 w1(1) b2(1) w3 show ?thesis
        using e(1) i Some False by (auto simp: print_string_ptr_def Let_def)
    qed
    then obtain buf' where b': "print_string_ptr s p = Inr (True, p1\<lparr>out_buffer := Some buf'\<rparr>)" "length buf' = length buf"
      "take (i + (?n + 3)) buf' = take i buf @ 34 # ?e @ [34, 0]" by blast
    have "printed p (render_string s) (p1\<lparr>out_buffer := Some buf'\<rparr>)"
      using en b' buf out by (auto simp: printed_def ensured_def pw_def kept_def the_buffer_def eval_nat_numeral)
    with b'(1) show ?thesis by (blast intro: outcomeI_ok)
  qed
qed

section \<open>The text of a number fits its buffer\<close>

lemma log_nat_bounds: "2 \<le> b \<Longrightarrow> 0 < n \<Longrightarrow> b ^ log_nat b n \<le> n \<and> n < b ^ Suc (log_nat b n)"
proof (induction b n rule: log_nat.induct)
  case (1 b n)
  show ?case
  proof (cases "n < b")
    case True
    with 1 show ?thesis by (subst (1 2) log_nat.simps) auto
  next
    case False
    then have pos: "0 < n div b" using 1 by (simp add: div_greater_zero_iff)
    with 1 False have IH: "b ^ log_nat b (n div b) \<le> n div b" "n div b < b ^ Suc (log_nat b (n div b))" by auto
    have "b ^ Suc (log_nat b (n div b)) \<le> n"
      using le_trans [OF mult_le_mono1 [OF IH(1), of b] div_times_less_eq_dividend [of n b]]
      by (simp add: mult.commute)
    moreover have "n < b ^ Suc (Suc (log_nat b (n div b)))"
      using IH(2) 1 by (simp add: div_less_iff_less_mult mult.commute)
    ultimately show ?thesis using False 1 by (subst (1 2) log_nat.simps) auto
  qed
qed

lemma log_nat_less: "2 \<le> b \<Longrightarrow> 0 < n \<Longrightarrow> n < b ^ k \<Longrightarrow> log_nat b n < k"
  using log_nat_bounds [of b n] by (meson le_less_trans nat_power_less_imp_less not_le power_increasing zero_less_numeral
      less_le_trans pos2 order_less_imp_le)

lemma scale_up_real: "0 < b \<Longrightarrow> real (scale_up b k) = real b powi k * real (scale_up b (- k))"
  by (cases "0 \<le> k") (auto simp: scale_up_def power_int_def field_simps)

lemma scale_up_pos [simp]: "0 < b \<Longrightarrow> 0 < scale_up b k"
  by (simp add: scale_up_def)

lemma log_ratio_upper:
  assumes b: "2 \<le> b" and p: "0 < p" and q: "0 < q"
  shows "real p < real q * real b powi (log_ratio b p q + 1)"
proof -
  define l where "l = int (log_nat b p) - int (log_nat b q)"
  have bp: "0 < b" "0 < real b" using b by auto
  show ?thesis
  proof (cases "q * scale_up b l \<le> p * scale_up b (- l)")
    case True
    then have x: "log_ratio b p q = l" by (simp add: log_ratio_def l_def Let_def)
    have "real p < real (b ^ Suc (log_nat b p))" using log_nat_bounds [OF b p] by (simp only: of_nat_less_iff)
    also have "\<dots> = real b powi int (Suc (log_nat b p))" by (simp only: of_nat_power power_int_of_nat)
    also have "int (Suc (log_nat b p)) = int (log_nat b p) + 1" by simp
    also have "real b powi (int (log_nat b p) + 1) = real b powi (l + 1) * real b powi int (log_nat b q)"
      using bp power_int_add [of "real b" "l + 1" "int (log_nat b q)"] by (simp add: l_def add.commute)
    also have "\<dots> \<le> real b powi (l + 1) * real q"
      using log_nat_bounds [OF b q] bp by (intro mult_left_mono) (simp_all flip: of_nat_power)
    finally show ?thesis by (simp add: x mult.commute)
  next
    case False
    then have x: "log_ratio b p q + 1 = l" by (simp add: log_ratio_def l_def Let_def)
    have "real p * real (scale_up b (- l)) < real q * real (scale_up b l)"
      using False by (simp flip: of_nat_mult)
    also have "\<dots> = real q * (real b powi l * real (scale_up b (- l)))"
      using scale_up_real [OF bp(1), of l] by simp
    finally have "real p < real q * real b powi l"
      using bp(1) by (simp add: mult.assoc [symmetric])
    then show ?thesis by (simp add: x)
  qed
qed

lemma log_ratio_range: "- int (log_nat b q) - 1 \<le> log_ratio b p q" "log_ratio b p q \<le> int (log_nat b p)"
  by (auto simp: log_ratio_def Let_def)

lemma div_half_even_le: "0 < q \<Longrightarrow> p \<le> n * q \<Longrightarrow> div_half_even p q \<le> n"
proof -
  assume q: "0 < q" and p: "p \<le> n * q"
  have d: "p div q \<le> n" using p q by (metis div_le_mono nonzero_mult_div_cancel_right not_gr_zero)
  show ?thesis
  proof (cases "p div q = n")
    case True
    have "p mod q = 0" using p True by (metis add_le_same_cancel1 div_mult_mod_eq le_zero_eq)
    with True q show ?thesis by (simp add: div_half_even_def)
  next
    case False
    with d show ?thesis by (simp add: div_half_even_def Let_def)
  qed
qed

lemma significant_bounds:
  assumes p: "0 < p" and q: "0 < q" and P: "0 < P" and s: "significant P p q = (n, x)"
  shows "n < 10 ^ P \<and> x \<le> log_ratio 10 p q + 1 \<and> log_ratio 10 p q \<le> x"
proof -
  define y where "y = log_ratio 10 p q"
  define k where "k = int P - 1 - y"
  have "real (p * scale_up 10 k) \<le> real (10 ^ P * (q * scale_up 10 (- k)))"
  proof -
    have "real p * 10 powi k \<le> real q * 10 powi (y + 1) * 10 powi k"
      using log_ratio_upper [of 10 p q] p q by (intro mult_right_mono) (simp_all add: y_def less_imp_le)
    also have "\<dots> = real q * 10 ^ P"
      using P by (simp add: k_def mult.assoc flip: power_int_add power_int_of_nat)
    finally have "real p * 10 powi k * real (scale_up 10 (- k)) \<le> real q * 10 ^ P * real (scale_up 10 (- k))"
      by (rule mult_right_mono) simp
    then show ?thesis
      using scale_up_real [of 10 k] by (simp add: mult.assoc mult.left_commute mult.commute)
  qed
  then have "p * scale_up 10 k \<le> 10 ^ P * (q * scale_up 10 (- k))" by (simp only: of_nat_le_iff)
  then have "div_half_even (p * scale_up 10 k) (q * scale_up 10 (- k)) \<le> 10 ^ P"
    using q by (intro div_half_even_le) simp_all
  then have d: "div_half_even (p * scale_up 10 k) (q * scale_up 10 (- k)) < 10 ^ P \<or>
      div_half_even (p * scale_up 10 k) (q * scale_up 10 (- k)) = 10 ^ P" by (rule le_imp_less_or_eq)
  have "significant P p q = (if div_half_even (p * scale_up 10 k) (q * scale_up 10 (- k)) = 10 ^ P
      then (10 ^ (P - 1), y + 1) else (div_half_even (p * scale_up 10 k) (q * scale_up 10 (- k)), y))"
    by (simp add: significant_def Let_def k_def y_def)
  then have "n = 10 ^ (P - 1) \<and> x = y + 1 \<or> n < 10 ^ P \<and> x = y"
    using s d by (simp split: if_splits)
  moreover have "(10 :: nat) ^ (P - 1) < 10 ^ P" using P by simp
  ultimately show ?thesis unfolding y_def by auto
qed

lemma length_decimal_digits: "0 < k \<Longrightarrow> n < 10 ^ k \<Longrightarrow> length (decimal_digits n) \<le> k"
proof (induction k arbitrary: n)
  case (Suc k)
  show ?case
  proof (cases "n < 10")
    case True then show ?thesis by (subst decimal_digits.simps) simp
  next
    case False
    with Suc.prems have k: "0 < k" by (cases k) auto
    have "n div 10 < 10 ^ k" using Suc.prems by (simp add: div_less_iff_less_mult mult.commute)
    with Suc.IH [OF k] False show ?thesis by (subst decimal_digits.simps) simp
  qed
qed simp

lemma length_strip_zeros: "length (strip_zeros ds) \<le> length ds"
  using length_dropWhile_le [of "\<lambda>c. c = byte (CHR ''0'')" "rev ds"] by (simp add: strip_zeros_def)

lemma length_with_fraction: "length (with_fraction ip fp) \<le> length ip + 1 + length fp"
  using length_strip_zeros [of fp] by (simp add: with_fraction_def)

lemma length_with_fraction_split: "length (with_fraction (take k ds) (drop k ds)) \<le> length ds + 1"
  using length_with_fraction [of "take k ds" "drop k ds"] arg_cong [OF append_take_drop_id [of k ds], of length]
  by (simp only: length_append)

lemma length_exponent_text: "\<bar>x\<bar> < 1000 \<Longrightarrow> length (exponent_text x) \<le> 5"
proof -
  assume x: "\<bar>x\<bar> < 1000"
  have "length (decimal_digits (nat \<bar>x\<bar>)) \<le> 3" using x by (intro length_decimal_digits) auto
  moreover have "length (decimal_digits (nat \<bar>x\<bar>)) \<le> 1" if "\<bar>x\<bar> < 10" using that by (intro length_decimal_digits) auto
  ultimately show ?thesis by (cases "\<bar>x\<bar> < 10") (simp_all add: exponent_text_def)
qed

lemma length_format_g:
  assumes d: "double_ok (Finite s m e)" and P: "P = 15 \<or> P = 17"
  shows "length (format_g P (Finite s m e)) \<le> 25"
proof (cases "m = 0")
  case True then show ?thesis by (simp add: format_g_def)
next
  case False
  let ?p = "numer m e" and ?q = "denom e"
  have pos: "0 < ?p" "0 < ?q" using False by (auto simp: numer_def denom_def)
  have m: "m < 2 ^ 53" and e: "-1074 \<le> e" "e \<le> 971" using d by (auto simp: double_ok_def)
  have "?p < 10 ^ 309"
  proof -
    have "?p \<le> m * 2 ^ nat e" by (simp add: numer_def)
    also have "\<dots> < 2 ^ 53 * 2 ^ nat e" using m by (intro mult_strict_right_mono) simp_all
    also have "\<dots> \<le> 2 ^ 53 * (2 :: nat) ^ 971" using e by (intro mult_left_mono power_increasing) auto
    also have "\<dots> < 10 ^ 309" by simp
    finally show ?thesis .
  qed
  then have lp: "log_nat 10 ?p < 309" using pos by (intro log_nat_less) auto
  have "?q < 10 ^ 324"
  proof -
    have "?q \<le> (2 :: nat) ^ nat (max 0 (- e))" by (simp add: denom_def)
    also have "\<dots> \<le> (2 :: nat) ^ 1074" using e by (intro power_increasing) auto
    also have "\<dots> < 10 ^ 324" by simp
    finally show ?thesis .
  qed
  then have lq: "log_nat 10 ?q < 324" using pos by (intro log_nat_less) auto
  obtain n x where sg: "significant P ?p ?q = (n, x)" by fastforce
  have n: "n < 10 ^ P" and x: "\<bar>x\<bar> < 1000"
    using significant_bounds [OF pos _ sg] P lp lq log_ratio_range(1) [of 10 ?q ?p]
      log_ratio_range(2) [of 10 ?p ?q] by auto
  have ds: "length (decimal_digits n) \<le> P" using n P by (intro length_decimal_digits) auto
  let ?ds = "decimal_digits n"
  have "length (with_fraction (take (nat x + 1) ?ds) (drop (nat x + 1) ?ds)) \<le> P + 1"
    "length (with_fraction (take 1 ?ds) (drop 1 ?ds)) \<le> P + 2"
    using length_with_fraction_split [of "nat x + 1" ?ds] length_with_fraction_split [of 1 ?ds] ds by linarith+
  moreover have "length (with_fraction [48] (replicate (nat (- x) - 1) 48 @ ?ds)) \<le> P + 5" if "-4 \<le> x"
    using length_with_fraction [of "[48]" "replicate (nat (- x) - 1) 48 @ ?ds"] that ds by auto
  ultimately show ?thesis
    using False P length_exponent_text [OF x] by (auto simp: format_g_def sg Let_def)
qed

lemma number_text_returns: "double_ok d \<Longrightarrow> returns (number_text d)"
proof (cases d)
  case (Finite s m e)
  assume "double_ok d"
  then have "length (format_g 15 d) \<le> 25" "length (format_g 17 d) \<le> 25"
    using Finite length_format_g by blast+
  then show ?thesis by (auto simp: number_text_def sprintf_to_def Let_def split: prod.split)
qed (auto simp: number_text_def sprintf_to_def)

section \<open>Numbers\<close>

lemma decimal_digits_nonzero: "c \<in> set (decimal_digits n) \<Longrightarrow> is_digit c"
proof (induction n rule: decimal_digits.induct)
  case (1 n)
  have d: "is_digit (word_of_nat (48 + k))" if "k < 10" for k
  proof -
    have "unat (word_of_nat (48 + k) :: u8) = 48 + k" using that by (simp add: unat_of_nat del: of_nat_add)
    with that show ?thesis by (simp add: is_digit_def word_le_nat_alt del: of_nat_add)
  qed
  show ?case
    using 1 d [of n] d [of "n mod 10"] by (subst (asm) decimal_digits.simps) (auto split: if_splits)
qed

lemma is_digit_nonzero: "is_digit c \<Longrightarrow> c \<noteq> 0"
  by (auto simp: is_digit_def)

lemma strip_zeros_subset: "set (strip_zeros ds) \<subseteq> set ds"
  by (auto simp: strip_zeros_def dest: set_dropWhileD)

text \<open>The characters of a formatted number are the ones the parser copies.\<close>

lemma number_char_digit: "is_digit c \<Longrightarrow> number_char c \<noteq> None"
  by (simp add: is_digit_def number_char_def)

lemma with_fraction_chars:
  assumes "\<forall>c \<in> set ip. is_digit c" "\<forall>c \<in> set fp. is_digit c" "c \<in> set (with_fraction ip fp)"
  shows "number_char c \<noteq> None"
proof -
  have "c = 46 \<or> is_digit c"
    using assms strip_zeros_subset [of fp] by (auto simp: with_fraction_def split: if_splits)
  then show ?thesis
  proof
    assume "c = 46" then show ?thesis by (simp add: number_char_def)
  qed (rule number_char_digit)
qed

lemma exponent_text_chars: "c \<in> set (exponent_text x) \<Longrightarrow> number_char c \<noteq> None"
  using decimal_digits_nonzero [of c "nat \<bar>x\<bar>"] number_char_digit [of c]
  by (auto simp: exponent_text_def split: if_splits) (auto simp: number_char_def)

lemma format_g_chars:
  assumes "c \<in> set (format_g P (Finite s m e))"
  shows "number_char c \<noteq> None"
proof (cases "m = 0")
  case True
  then show ?thesis using assms by (auto simp: format_g_def number_char_def split: if_splits)
next
  case False
  obtain n x where sg: "significant P (numer m e) (denom e) = (n, x)" by fastforce
  note dd = decimal_digits_nonzero [of _ n]
  have z: "is_digit 48" by (simp add: is_digit_def)
  consider "c = 45" | "c \<in> set (with_fraction (take (nat x + 1) (decimal_digits n)) (drop (nat x + 1) (decimal_digits n)))"
    | "c \<in> set (with_fraction [48] (replicate (nat (- x) - 1) 48 @ decimal_digits n))"
    | "c \<in> set (with_fraction (take 1 (decimal_digits n)) (drop 1 (decimal_digits n)))"
    | "c \<in> set (exponent_text x)"
    using assms False by (auto simp: format_g_def sg Let_def split: if_splits)
  then show ?thesis
  proof cases
    case 1 then show ?thesis by (simp add: number_char_def)
  next
    case 2 then show ?thesis by (rule with_fraction_chars [rotated 2]) (auto dest: in_set_takeD in_set_dropD dd)
  next
    case 3 then show ?thesis by (rule with_fraction_chars [rotated 2]) (auto simp: z dest: dd split: if_splits)
  next
    case 4 then show ?thesis by (rule with_fraction_chars [rotated 2]) (auto dest: in_set_takeD in_set_dropD dd)
  next
    case 5 then show ?thesis by (rule exponent_text_chars)
  qed
qed

lemma number_text_cases:
  assumes "number_text d = Inr s"
  shows "length s \<le> 25 \<and> 0 \<notin> set s"
proof (cases d)
  case (Finite g m e)
  have nz: "0 \<notin> set (format_g P d)" for P
    using format_g_chars [of 0 P g m e] Finite by (auto simp: number_char_def)
  from assms Finite have "s = format_g 15 d \<or> s = format_g 17 d" "length s \<le> 25"
    by (auto simp: number_text_def sprintf_to_def bind_res_def Let_def split: if_splits prod.splits sum.splits)
  with nz show ?thesis by auto
qed (use assms in \<open>auto simp: number_text_def sprintf_to_def split: if_splits\<close>)

lemma print_number_prints:
  assumes p: "pw p" and x: "returns (number_text (valuedouble x))"
  shows "prints p (print_number x p) (render_number (valuedouble x))"
proof -
  from x obtain s where s: "number_text (valuedouble x) = Inr s" by (auto simp: returns_iff)
  have m: "map (\<lambda>c. if c = get_decimal_point then byte (CHR ''.'') else c) s = s"
    by (rule map_idI) (simp add: get_decimal_point_def)
  show ?thesis
    using emit_prints [OF p, of s "length s + 1" "length s"] number_text_cases [OF s]
    by (simp add: print_number_def s render_number_def m Let_def)
qed

section \<open>Values\<close>

lemma on_success_assoc: "on_success (on_success r f) g = on_success r (\<lambda>p. on_success (f p) g)"
  by (cases r) (auto simp: on_success_def bind_res_def split: prod.splits)

lemma outcome_none: "outcome rel' p r None \<Longrightarrow> outcome rel p (on_success r f) None"
  by (auto simp: outcome_def)

lemma outcome_update:
  assumes r: "prints p r (Some a)" and a: "0 \<notin> set a"
    and f: "\<And>q. advanced p a q \<Longrightarrow> outcome rel q (f q) out"
    and seq: "\<And>q b p'. advanced p a q \<Longrightarrow> rel q b p' \<Longrightarrow> rel p (a @ b) p'"
  shows "outcome rel p (on_success r (\<lambda>p. bind_res (update_offset p) f)) (map_option ((@) a) out)"
proof -
  have "advances p (on_success r (\<lambda>p. bind_res (update_offset p) (\<lambda>p. Inr (True, p)))) (Some a)"
    using r
  proof (cases rule: outcome_cases)
    case (ok p' s)
    with update_offset_printed [of p a p'] a obtain q where "update_offset p' = Inr q" "advanced p a q" by auto
    with ok show ?thesis by (intro outcomeI_ok [where p' = q]) auto
  next
    case (fail p')
    then show ?thesis by (intro outcomeI_fail [where p' = p']) auto
  qed
  from outcome_seq [OF this, of rel f out, OF f seq]
  have "outcome rel p (on_success (on_success r (\<lambda>p. bind_res (update_offset p) (\<lambda>p. Inr (True, p)))) f)
      (map_option ((@) a) out)" .
  moreover have "on_success (bind_res (update_offset p) (\<lambda>p. Inr (True, p))) f = bind_res (update_offset p) f" for p
    by (cases "update_offset p") (simp_all add: on_success_def)
  ultimately show ?thesis by (simp add: on_success_assoc)
qed

lemma depth_simps [simp]:
  "pw (p\<lparr>out_depth := n\<rparr>) = pw p" "fits (p\<lparr>out_depth := n\<rparr>) k = fits p k"
  "lost (p\<lparr>out_depth := n\<rparr>) q = lost p q" "kept (p\<lparr>out_depth := n\<rparr>) q = kept p q"
  "kept p (q\<lparr>out_depth := n\<rparr>) = kept p q" "the_buffer (p\<lparr>out_depth := n\<rparr>) = the_buffer p"
  by (auto simp: pw_def fits_def lost_def kept_def the_buffer_def)

lemma outcome_deeper:
  assumes "prints (p\<lparr>out_depth := out_depth p + 1\<rparr>) r out"
  shows "prints p (on_success r (\<lambda>p. Inr (True, p\<lparr>out_depth := size_dec (out_depth p)\<rparr>))) out"
  using assms
proof (cases rule: outcome_cases)
  case (ok p' s)
  then have "printed p s (p'\<lparr>out_depth := size_dec (out_depth p')\<rparr>)"
    by (simp add: printed_def size_dec_def)
  with ok show ?thesis by (auto intro: outcomeI_ok)
next
  case (fail p')
  then show ?thesis by (intro outcomeI_fail [where p' = p']) auto
qed

lemma render_number_nonzero: "render_number d = Some s \<Longrightarrow> 0 \<notin> set s"
  using number_text_cases by (auto simp: render_number_def split: sum.splits)

lemma render_cases:
  assumes "render fmt n (CJSON t v i d k c) = Some s"
  obtains (word) "s \<in> {bytes ''null'', bytes ''false'', bytes ''true''}"
    | (number) "t AND 0xFF = cJSON_Number" "render_number d = Some s"
    | (raw) "v = Some s"
    | (string) "s = render_string v"
    | (array) es where "render_elements fmt (n + 1) c = Some es" "s = byte (CHR ''['') # es @ [byte (CHR '']'')]"
    | (object) ms where "render_members fmt (n + 1) c = Some ms"
        "s = (byte (CHR ''{'') # (if fmt then [10] else [])) @ ms @
            (if fmt then replicate n 9 else []) @ [byte (CHR ''}'')]"
proof -
  define ty where "ty = t AND 0xFF"
  note r = assms [unfolded render.simps Let_def, folded ty_def]
  consider "ty = 4 \<or> ty = 1 \<or> ty = 2" | "ty = 8" | "ty = 128" | "ty = 16" | "ty = 32" | "ty = 64"
    using r by (auto split: if_splits)
  then show thesis
  proof cases
    case 1 with r show thesis by (intro word) (auto simp del: bytes_simps)
  next
    case 2 with r show thesis by (intro number) (auto simp: ty_def)
  next
    case 3 with r show thesis by (intro raw) simp
  next
    case 4 with r show thesis by (intro string) simp
  next
    case 5 with r show thesis by (auto intro: array simp del: byte_Char)
  next
    case 6 with r show thesis by (auto intro: object simp del: byte_Char)
  qed
qed

lemma render_elements_Cons:
  assumes "render_elements fmt n (x # xs) = Some s"
  obtains e es where "render fmt n x = Some e" "render_elements fmt n xs = Some es"
    "s = e @ (if xs \<noteq> [] then byte (CHR '','') # (if fmt then [32] else []) else []) @ es"
  using assms by (auto split: option.splits simp del: byte_Char)

lemma render_members_Cons:
  assumes "render_members fmt n (x # xs) = Some s"
  obtains e es where "render fmt n x = Some e" "render_members fmt n xs = Some es"
    "s = (if fmt then replicate n 9 else []) @ render_string (cstring x) @
         (byte (CHR '':'') # (if fmt then [9] else [])) @ e @
         ((if xs \<noteq> [] then [byte (CHR '','')] else []) @ (if fmt then [10] else [])) @ es"
  using assms by (auto split: option.splits simp del: byte_Char)

lemma render_elements_nonzero:
  "\<forall>x \<in> set xs. \<forall>s. render fmt n x = Some s \<longrightarrow> 0 \<notin> set s \<Longrightarrow>
     render_elements fmt n xs = Some s \<Longrightarrow> 0 \<notin> set s"
proof (induction xs arbitrary: s)
  case (Cons x xs)
  from Cons.prems(2) obtain e es where es: "render fmt n x = Some e" "render_elements fmt n xs = Some es"
    "s = e @ (if xs \<noteq> [] then byte (CHR '','') # (if fmt then [32] else []) else []) @ es"
    by (rule render_elements_Cons)
  then have "0 \<notin> set e" "0 \<notin> set es" using Cons by auto
  with es(3) show ?case by simp
qed simp

lemma wf_item_name: "wf_item x \<Longrightarrow> 0 \<notin> set (render_string (cstring x))"
  using render_string_nonzero [of "cstring x"] by (cases x) simp

lemma render_members_nonzero:
  "\<forall>x \<in> set xs. wf_item x \<and> (\<forall>s. render fmt n x = Some s \<longrightarrow> 0 \<notin> set s) \<Longrightarrow>
     render_members fmt n xs = Some s \<Longrightarrow> 0 \<notin> set s"
proof (induction xs arbitrary: s)
  case (Cons x xs)
  from Cons.prems(2) obtain e es where es: "render fmt n x = Some e" "render_members fmt n xs = Some es"
    "s = (if fmt then replicate n 9 else []) @ render_string (cstring x) @
         (byte (CHR '':'') # (if fmt then [9] else [])) @ e @
         ((if xs \<noteq> [] then [byte (CHR '','')] else []) @ (if fmt then [10] else [])) @ es"
    by (rule render_members_Cons)
  then have "0 \<notin> set e" "0 \<notin> set es" "0 \<notin> set (render_string (cstring x))"
    using Cons wf_item_name by auto
  with es(3) show ?case by simp
qed simp

lemma render_nonzero: "wf_item x \<Longrightarrow> render fmt n x = Some s \<Longrightarrow> 0 \<notin> set s"
proof (induction x arbitrary: n s)
  case (CJSON t v i d k c)
  have wf: "\<forall>w. v = Some w \<longrightarrow> 0 \<notin> set w" "\<forall>x \<in> set c. wf_item x" using CJSON.prems by simp_all
  have IH: "\<forall>x \<in> set c. \<forall>s. render fmt (n + 1) x = Some s \<longrightarrow> 0 \<notin> set s" using CJSON.IH wf by blast
  from CJSON.prems(2) show ?case
  proof (cases rule: render_cases)
    case (array es) with render_elements_nonzero [OF IH] show ?thesis by simp
  next
    case (object ms)
    then have "0 \<notin> set ms" using render_members_nonzero [of c fmt "n + 1" ms] IH wf by blast
    with object show ?thesis by simp
  qed (use wf in \<open>auto simp: render_string_nonzero render_number_nonzero\<close>)
qed

section \<open>The printer writes the reference text\<close>

lemma print_elements_advances:
  assumes "\<forall>x \<in> set xs. wf_item x \<and> (\<forall>p. pw p \<longrightarrow> out_format p = fmt \<longrightarrow> out_depth p = n \<longrightarrow>
      prints p (print_value x p) (render fmt n x))"
    and "pw p" "out_format p = fmt" "out_depth p = n"
  shows "advances p (print_elements xs p) (render_elements fmt n xs)"
  using assms
proof (induction xs arbitrary: p)
  case Nil
  then show ?case by (auto intro!: outcomeI_ok advanced_refl)
next
  case (Cons x xs)
  note p = Cons.prems(2-4)
  have v: "prints p (print_value x p) (render fmt n x)" "wf_item x" using Cons.prems by simp_all
  show ?case
  proof (cases "render fmt n x")
    case None
    with v show ?thesis by (simp add: outcome_none)
  next
    case (Some e)
    define sep where "sep = (if xs \<noteq> [] then byte (CHR '','') # (if fmt then [32] else []) else [] :: u8 list)"
    have "advances p (print_elements (x # xs) p)
        (map_option ((@) e) (map_option ((@) sep) (render_elements fmt n xs)))"
      unfolding print_elements.simps
    proof (rule outcome_update [OF v(1) [unfolded Some]])
      show "0 \<notin> set e" using render_nonzero [OF v(2) Some] .
      fix q assume q: "advanced p e q"
      then have q': "pw q" "out_format q = fmt" "out_depth q = n" using p by (auto simp: advanced_def kept_def)
      have rest: "advances r (print_elements xs r) (render_elements fmt n xs)" if "advanced q a r" for a r
        using that q' Cons.prems(1) by (intro Cons.IH) (auto simp: advanced_def kept_def)
      show "advances q (if xs \<noteq> [] then let len = if out_format q then 2 else 1 in
            on_success (emit q (len + 1)
              (byte (CHR '','') # (if out_format q then [byte (CHR '' '')] else []) @ [0]) len)
              (\<lambda>p. print_elements xs p) else print_elements xs q)
          (map_option ((@) sep) (render_elements fmt n xs))"
      proof (cases "xs = []")
        case True
        then show ?thesis using rest [OF advanced_refl [OF q'(1)]] by (simp add: sep_def)
      next
        case False
        let ?len = "if fmt then 2 else 1 :: nat"
        let ?w = "byte (CHR '','') # (if fmt then [byte (CHR '' '')] else []) @ [0]"
        have "advances q (emit q (?len + 1) ?w ?len) (Some (take ?len ?w))"
          by (rule emit_advances [OF q'(1)]) auto
        moreover have "take ?len ?w = sep" using False by (simp add: sep_def)
        ultimately have "advances q (emit q (?len + 1) ?w ?len) (Some sep)" by simp
        from advances_then_advances [OF this, of "print_elements xs" "render_elements fmt n xs"] rest False q'(2)
        show ?thesis by (simp add: Let_def)
      qed
    qed (rule advanced_trans)
    with Some show ?thesis by (cases "render_elements fmt n xs") (simp_all add: sep_def)
  qed
qed


lemma print_members_advances:
  assumes "\<forall>x \<in> set xs. wf_item x \<and> (\<forall>p. pw p \<longrightarrow> out_format p = fmt \<longrightarrow> out_depth p = n \<longrightarrow>
      prints p (print_value x p) (render fmt n x))"
    and "pw p" "out_format p = fmt" "out_depth p = n"
  shows "advances p (print_members xs p) (render_members fmt n xs)"
  using assms
proof (induction xs arbitrary: p)
  case Nil
  then show ?case by (auto intro!: outcomeI_ok advanced_refl)
next
  case (Cons x xs)
  have v: "prints p (print_value x p) (render fmt n x)"
    if "pw p" "out_format p = fmt" "out_depth p = n" for p using that Cons.prems by simp
  have wf: "wf_item x" using Cons.prems by simp
  define tabs where "tabs = (if fmt then replicate n 9 else [] :: u8 list)"
  define colon where "colon = byte (CHR '':'') # (if fmt then [9] else [])"
  define sep where "sep = (if xs \<noteq> [] then [byte (CHR '','')] else []) @ (if fmt then [10] else [])"
  have keep: "pw q \<and> out_format q = fmt \<and> out_depth q = n"
    if "advanced p a q" "out_format p = fmt \<and> out_depth p = n" for p a q
    using that by (auto simp: advanced_def kept_def)
  define last' where "last' = (\<lambda>p.
     let len = (if out_format p then 1 else 0) + (if xs \<noteq> [] then 1 else 0) in
     on_success
       (emit p (len + 1)
          ((if xs \<noteq> [] then [byte (CHR '','')] else []) @ (if out_format p then [10] else []) @ [0])
          len) (\<lambda>p. print_members xs p))"
  define val' where "val' = (\<lambda>p. on_success (print_value x p) (\<lambda>p. bind_res (update_offset p) last'))"
  define col' where "col' = (\<lambda>p. let len = (if out_format p then 2 else 1) in
     on_success (emit p len (byte (CHR '':'') # (if out_format p then [9] else [])) len) val')"
  define name' where "name' = (\<lambda>p. on_success (print_string_ptr (cstring x) p) (\<lambda>p. bind_res (update_offset p) col'))"
  have body: "print_members (x # xs) p = on_success (if fmt then emit p n (replicate n 9) n else Inr (True, p)) name'"
    using Cons.prems(3,4) by (simp only: print_members.simps name'_def col'_def val'_def last'_def)
  \<comment> \<open>the parts of the body, from the last one to the first\<close>
  have separator: "advances q (last' q) (map_option ((@) sep) (render_members fmt n xs))"
    if q: "pw q" "out_format q = fmt \<and> out_depth q = n" for q
  proof -
    have eq: "last' q = on_success (emit q (length sep + 1) (sep @ [0]) (length sep)) (\<lambda>p. print_members xs p)"
      using q(2) by (simp add: last'_def sep_def Let_def del: print_members.simps)
    show ?thesis
      unfolding eq
    proof (rule advances_then_advances)
      show "advances q (emit q (length sep + 1) (sep @ [0]) (length sep)) (Some sep)"
        using emit_advances [OF q(1), of "sep @ [0]" "length sep + 1" "length sep"] by simp
      show "advances r (print_members xs r) (render_members fmt n xs)" if "advanced q sep r" for r
        using keep [OF that] q Cons.prems(1) by (intro Cons.IH) auto
    qed
  qed
  define out where "out = (case render fmt n x of None \<Rightarrow> None
     | Some e \<Rightarrow> map_option ((@) e) (map_option ((@) sep) (render_members fmt n xs)))"
  have val: "advances q (val' q) out" if q: "pw q" "out_format q = fmt \<and> out_depth q = n" for q
  proof (cases "render fmt n x")
    case None
    with v [of q] q outcome_none [of printed q "print_value x q" advanced] show ?thesis
      by (simp add: val'_def out_def)
  next
    case (Some e)
    have "advances q (on_success (print_value x q) (\<lambda>p. bind_res (update_offset p) last'))
        (map_option ((@) e) (map_option ((@) sep) (render_members fmt n xs)))"
    proof (rule outcome_update)
      show "prints q (print_value x q) (Some e)" using v q Some by fastforce
      show "advances r (last' r) (map_option ((@) sep) (render_members fmt n xs))" if "advanced q e r" for r
        using keep [OF that q(2)] by (intro separator) auto
    qed (use render_nonzero [OF wf Some] advanced_trans in auto)
    with Some show ?thesis by (simp add: val'_def out_def)
  qed
  have col: "advances q (col' q) (map_option ((@) colon) out)"
    if q: "pw q" "out_format q = fmt \<and> out_depth q = n" for q
  proof -
    have eq: "col' q = on_success (emit q (length colon) colon (length colon)) val'"
      using q(2) by (simp add: col'_def colon_def Let_def numeral_2_eq_2)
    show ?thesis
      unfolding eq
    proof (rule advances_then_advances)
      show "advances q (emit q (length colon) colon (length colon)) (Some colon)"
        using emit_advances [OF q(1), of colon "length colon" "length colon"] by simp
      show "advances r (val' r) out" if "advanced q colon r" for r
        using keep [OF that q(2)] by (intro val) auto
    qed
  qed
  have name: "advances q (name' q) (map_option ((@) (render_string (cstring x))) (map_option ((@) colon) out))"
    if q: "pw q" "out_format q = fmt \<and> out_depth q = n" for q
    unfolding name'_def
  proof (rule outcome_update [OF print_string_ptr_prints [OF q(1)]])
    show "advances r (col' r) (map_option ((@) colon) out)" if "advanced q (render_string (cstring x)) r" for r
      using keep [OF that q(2)] by (intro col) auto
  qed (use wf_item_name [OF wf] advanced_trans in auto)
  have p: "pw p" "out_format p = fmt \<and> out_depth p = n" using Cons.prems by auto
  have "advances p (print_members (x # xs) p)
      (map_option ((@) tabs) (map_option ((@) (render_string (cstring x))) (map_option ((@) colon) out)))"
    unfolding body
  proof (rule advances_then_advances)
    show "advances p (if fmt then emit p n (replicate n 9) n else Inr (True, p)) (Some tabs)"
      using emit_advances [OF p(1), of "replicate n 9" n n] advanced_refl [OF p(1)]
      by (auto simp: tabs_def intro: outcomeI_ok)
    show "advances q (name' q) (map_option ((@) (render_string (cstring x))) (map_option ((@) colon) out))"
      if "advanced p tabs q" for q
      using keep [OF that p(2)] by (intro name) auto
  qed
  moreover have "map_option ((@) tabs) (map_option ((@) (render_string (cstring x))) (map_option ((@) colon) out)) =
      render_members fmt n (x # xs)"
    unfolding out_def sep_def colon_def tabs_def
    by (cases "render fmt n x"; cases "render_members fmt n xs") (simp_all del: byte_Char)
  ultimately show ?case by simp
qed

text \<open>A bracketed text: the opening bracket, the loop one level deeper, the closing bracket.\<close>

lemma bracket_prints:
  assumes p: "pw p" and op: "advances p r (Some a)"
    and body: "\<And>q. advanced p a q \<Longrightarrow> advances (q\<lparr>out_depth := out_depth q + 1\<rparr>) (f (q\<lparr>out_depth := out_depth q + 1\<rparr>)) out"
    and close: "\<And>q s r. advanced p a q \<Longrightarrow> advanced (q\<lparr>out_depth := out_depth q + 1\<rparr>) s r \<Longrightarrow> prints r (g r) (Some z)"
  shows "prints p (on_success r (\<lambda>p. on_success (f (p\<lparr>out_depth := out_depth p + 1\<rparr>)) (\<lambda>p. on_success (g p)
      (\<lambda>p. Inr (True, p\<lparr>out_depth := size_dec (out_depth p)\<rparr>)))))
    (map_option (\<lambda>s. a @ s @ z) out)"
proof -
  have "prints p (on_success r (\<lambda>p. on_success (f (p\<lparr>out_depth := out_depth p + 1\<rparr>)) (\<lambda>p. on_success (g p)
      (\<lambda>p. Inr (True, p\<lparr>out_depth := size_dec (out_depth p)\<rparr>)))))
    (map_option ((@) a) (map_option (\<lambda>s. s @ z) out))"
  proof (rule advances_then_prints [OF op])
    fix q assume q: "advanced p a q"
    let ?q = "q\<lparr>out_depth := out_depth q + 1\<rparr>"
    have "prints ?q (on_success (f ?q) g) (map_option (\<lambda>s. s @ z) out)"
    proof (cases out)
      case None
      with body [OF q] show ?thesis by (simp add: outcome_none)
    next
      case (Some s)
      with advances_then_prints [of ?q "f ?q" s g "Some z"] body [OF q] close [OF q] show ?thesis by simp
    qed
    from outcome_deeper [OF this]
    show "prints q (on_success (f ?q) (\<lambda>p. on_success (g p) (\<lambda>p. Inr (True, p\<lparr>out_depth := size_dec (out_depth p)\<rparr>))))
        (map_option (\<lambda>s. s @ z) out)"
      by (simp add: on_success_assoc)
  qed
  then show ?thesis by (simp add: option.map_comp comp_def)
qed

lemma print_value_prints:
  "wf_item x \<Longrightarrow> pw p \<Longrightarrow> out_format p = fmt \<Longrightarrow> out_depth p = n \<Longrightarrow>
     prints p (print_value x p) (render fmt n x)"
proof (induction x arbitrary: p n)
  case (CJSON t v i d k c)
  note p = CJSON.prems(2-4)
  have wf: "\<forall>x \<in> set c. wf_item x" "returns (number_text d)"
    using CJSON.prems(1) number_text_returns by simp_all
  have IH: "\<forall>x \<in> set c. wf_item x \<and> (\<forall>p. pw p \<longrightarrow> out_format p = fmt \<longrightarrow> out_depth p = n + 1 \<longrightarrow>
      prints p (print_value x p) (render fmt (n + 1) x))"
    using CJSON.IH wf(1) by blast
  define ty where "ty = t AND 0xFF"
  have arr: "prints p (print_array c p)
      (map_option (\<lambda>es. byte (CHR ''['') # es @ [byte (CHR '']'')]) (render_elements fmt (n + 1) c))"
  proof -
    have "prints p (print_array c p)
        (map_option (\<lambda>s. [byte (CHR ''['')] @ s @ [byte (CHR '']'')]) (render_elements fmt (n + 1) c))"
      unfolding print_array.simps
    proof (rule bracket_prints [OF p(1)])
      show "advances p (emit p 1 [byte (CHR ''['')] 1) (Some [byte (CHR ''['')])"
        using emit_advances [OF p(1), of "[byte (CHR ''['')]" 1 1] by simp
      show "advances (q\<lparr>out_depth := out_depth q + 1\<rparr>) (print_elements c (q\<lparr>out_depth := out_depth q + 1\<rparr>))
          (render_elements fmt (n + 1) c)" if "advanced p [byte (CHR ''['')] q" for q
        using that p by (intro print_elements_advances [OF IH]) (auto simp: advanced_def kept_def)
      show "prints r (emit r 2 [byte (CHR '']''), 0] 0) (Some [byte (CHR '']'')])"
        if "advanced (q\<lparr>out_depth := out_depth q + 1\<rparr>) s r" for q s r
        using emit_prints [of r "[byte (CHR '']'')]" 2 0] that by (simp add: advanced_def)
    qed
    then show ?thesis by simp
  qed
  have obj: "prints p (print_object c p)
      (map_option (\<lambda>ms. (byte (CHR ''{'') # (if fmt then [10] else [])) @ ms @
          (if fmt then replicate n 9 else []) @ [byte (CHR ''}'')]) (render_members fmt (n + 1) c))"
    unfolding print_object.simps Let_def
  proof (rule bracket_prints [OF p(1)])
    let ?a = "byte (CHR ''{'') # (if fmt then [10] else [])"
    show "advances p (emit p ((if out_format p then 2 else 1) + 1)
        (byte (CHR ''{'') # (if out_format p then [10] else [])) (if out_format p then 2 else 1)) (Some ?a)"
      using emit_advances [OF p(1), of ?a "length ?a + 1" "length ?a"] p(2)
      by (cases fmt) (simp_all add: numeral_2_eq_2 numeral_3_eq_3)
    show "advances (q\<lparr>out_depth := out_depth q + 1\<rparr>) (print_members c (q\<lparr>out_depth := out_depth q + 1\<rparr>))
        (render_members fmt (n + 1) c)" if "advanced p ?a q" for q
      using that p by (intro print_members_advances [OF IH]) (auto simp: advanced_def kept_def)
    let ?z = "(if fmt then replicate n 9 else []) @ [byte (CHR ''}'')]"
    show "prints r (emit r (if out_format r then out_depth r + 1 else 2)
        ((if out_format r then replicate (out_depth r - 1) 9 else []) @ [byte (CHR ''}''), 0]) 0) (Some ?z)"
      if "advanced p ?a q" "advanced (q\<lparr>out_depth := out_depth q + 1\<rparr>) s r" for q s r
    proof -
      have r: "pw r" "out_format r = fmt" "out_depth r = n + 1" using that p by (auto simp: advanced_def kept_def)
      show ?thesis
        using emit_prints [OF r(1), of ?z "length ?z + 1" 0] r(2,3) by (cases fmt) (simp_all add: numeral_2_eq_2)
    qed
  qed
  note emits = emit_prints [OF p(1)]
  have fail: "prints p (Inr (False, p)) None"
    using p(1) by (intro outcomeI_fail [where p' = p]) (auto simp: lost_def pw_def)
  have num: "prints p (print_number (CJSON t v i d k c) p) (render_number d)"
    using print_number_prints [OF p(1), of "CJSON t v i d k c"] wf(2) by simp
  have str: "prints p (print_string (CJSON t v i d k c) p) (Some (render_string v))"
    using print_string_ptr_prints [OF p(1)] by (simp add: print_string_def)
  have raw: "prints p (case v of None \<Rightarrow> Inr (False, p) | Some raw \<Rightarrow> emit p (length raw + 1) (raw @ [0]) 0) v"
    using fail emits [of _ "_ + 1" 0] by (cases v) auto
  show ?case
    unfolding print_value.simps render.simps Let_def ty_def [symmetric]
    using emits [of "bytes ''null''" 5 0] emits [of "bytes ''false''" 6 0] emits [of "bytes ''true''" 5 0]
      num str raw arr obj fail
    by (simp del: print_array.simps print_object.simps)
qed

end
