(* ===== verification/CJsonNumberText.thy ===== *)
theory CJsonNumberText
  imports CJsonPrintCorrect
begin

text \<open>
  Numbers survive printing and parsing: the decimal text \<open>print_number\<close> writes is read back
  by \<open>strtod\<close> as the same \<open>double\<close>. Seventeen significant digits determine a \<open>double\<close>, because
  the decimal value is nearer to it than half the distance to its neighbours.
\<close>

section \<open>Logarithms and rounding\<close>

lemma log_ratio_lower:
  assumes b: "2 \<le> b" and p: "0 < p" and q: "0 < q"
  shows "real q * real b powi log_ratio b p q \<le> real p"
proof -
  define l where "l = int (log_nat b p) - int (log_nat b q)"
  have bp: "0 < b" "0 < real b" using b by auto
  show ?thesis
  proof (cases "q * scale_up b l \<le> p * scale_up b (- l)")
    case True
    then have x: "log_ratio b p q = l" by (simp add: log_ratio_def l_def Let_def)
    have "real q * real b powi l * real (scale_up b (- l)) = real (q * scale_up b l)"
      using scale_up_real [OF bp(1), of l] by simp
    also have "\<dots> \<le> real (p * scale_up b (- l))" using True by (simp only: of_nat_le_iff)
    also have "\<dots> = real p * real (scale_up b (- l))" by simp
    finally show ?thesis using bp(1) by (simp add: x)
  next
    case False
    then have x: "log_ratio b p q = l - 1" by (simp add: log_ratio_def l_def Let_def)
    have "real q \<le> real (b ^ Suc (log_nat b q))"
      using log_nat_bounds [OF b q] by (simp only: of_nat_le_iff less_imp_le)
    also have "\<dots> = real b powi int (Suc (log_nat b q))" by (simp only: of_nat_power power_int_of_nat)
    finally have "real q * real b powi (l - 1) \<le> real b powi int (Suc (log_nat b q)) * real b powi (l - 1)"
      by (intro mult_right_mono) auto
    also have "\<dots> = real b powi (int (Suc (log_nat b q)) + (l - 1))"
      by (rule power_int_add [symmetric]) (use bp in simp)
    also have "int (Suc (log_nat b q)) + (l - 1) = int (log_nat b p)" by (simp add: l_def)
    also have "real b powi \<dots> = real (b ^ log_nat b p)" by simp
    also have "\<dots> \<le> real p" using log_nat_bounds [OF b p] by (simp only: of_nat_le_iff)
    finally show ?thesis by (simp add: x)
  qed
qed

lemma log_ratio_real:
  assumes "2 \<le> b" "0 < p" "0 < q"
  shows "real b powi log_ratio b p q \<le> real p / real q" "real p / real q < real b powi (log_ratio b p q + 1)"
  using log_ratio_lower [OF assms] log_ratio_upper [OF assms] assms(3) by (simp_all add: field_simps)

lemma scaled_ratio:
  "0 < b \<Longrightarrow> 0 < q \<Longrightarrow>
     real (p * scale_up b k) / real (q * scale_up b (- k)) = real p / real q * real b powi k"
  using scale_up_real [of b k] scale_up_pos [of b "- k"] by (simp add: field_simps del: scale_up_pos)

text \<open>A fraction nearer than one half to a number is rounded to it.\<close>

lemma div_half_even_near:
  assumes q: "0 < q" and near: "\<bar>real p / real q - real d\<bar> < 1 / 2"
  shows "div_half_even p q = d"
proof -
  define k r where "k = p div q" and "r = p mod q"
  have pq: "real p = real k * real q + real r" and r: "r < q"
    using q by (auto simp: k_def r_def simp flip: of_nat_mult of_nat_add)
  have "real p / real q = real k + real r / real q" using q by (simp add: pq field_simps)
  moreover have "0 \<le> real r / real q" "real r / real q < 1" using r by simp_all
  moreover have half: "2 * r < q \<longleftrightarrow> real r / real q < 1 / 2" "2 * r = q \<longleftrightarrow> real r / real q = 1 / 2"
    using q by (auto simp: field_simps simp flip: of_nat_mult)
  ultimately have f: "real k + real r / real q - real d < 1 / 2" "real d - (real k + real r / real q) < 1 / 2"
      "0 \<le> real r / real q" "real r / real q < 1"
    using near by (simp_all only: abs_less_iff) linarith+
  then have "k < d + 1" "d < k + 2" by linarith+
  then have "k = d \<or> k + 1 = d" by linarith
  then have "k = d \<and> 2 * r < q \<or> k + 1 = d \<and> \<not> 2 * r < q \<and> 2 * r \<noteq> q"
    unfolding half using f by auto
  then show ?thesis by (auto simp: div_half_even_def Let_def k_def r_def)
qed

lemma div_half_even_error:
  assumes "0 < q" shows "\<bar>real p / real q - real (div_half_even p q)\<bar> \<le> 1 / 2"
proof -
  define k r where "k = p div q" and "r = p mod q"
  have pq: "real p = real k * real q + real r" and r: "r < q"
    using assms by (auto simp: k_def r_def simp flip: of_nat_mult of_nat_add)
  have "real p / real q = real k + real r / real q" using assms by (simp add: pq field_simps)
  moreover have "0 \<le> real r / real q" "real r / real q < 1" using r by simp_all
  moreover have "real r / real q \<le> 1 / 2" if "2 * r \<le> q"
    using assms that by (simp add: field_simps flip: of_nat_mult)
  moreover have "1 / 2 \<le> real r / real q" if "\<not> 2 * r < q"
    using assms that by (simp add: field_simps not_less flip: of_nat_mult)
  ultimately show ?thesis
    by (auto simp: div_half_even_def Let_def k_def [symmetric] r_def [symmetric])
qed

section \<open>Reading a number near a \<open>double\<close>\<close>

lemma powi_less_imp: "(2 :: real) powi a < 2 powi b \<Longrightarrow> a < b"
  by (meson not_le power_int_increasing one_le_numeral)

lemma double_of_ratio_near:
  assumes ab: "0 < a" "0 < b"
    and d: "double_ok (Finite s m e)" "m \<noteq> 0"
    and near: "\<bar>real a / real b - real m * 2 powi e\<bar> < 2 powi e / 2"
    and low: "m = 2 ^ 52 \<Longrightarrow> real m * 2 powi e - real a / real b < 2 powi e / 4"
  shows "double_of_ratio s a b = Finite s m e"
proof -
  define r where "r = real a / real b"
  define l where "l = log_ratio 2 a b"
  have l: "2 powi l \<le> r" "r < 2 powi (l + 1)"
    using log_ratio_real [of 2 a b] ab by (simp_all add: r_def l_def)
  have m: "m < 2 ^ 53" and e: "-1074 \<le> e" "e \<le> 971" "2 ^ 52 \<le> m \<or> e = -1074"
    using d(1) by (auto simp: double_ok_def)
  have pos: "(0 :: real) < 2 powi e" by simp
  have sh: "(2 :: real) powi (52 + e) = 2 ^ 52 * 2 powi e" "(2 :: real) powi (53 + e) = 2 ^ 53 * 2 powi e"
    by (simp_all add: power_int_add)
  have scale: "real (a * scale_up 2 (- k)) / real (b * scale_up 2 k) = r * 2 powi (- k)" for k
    using scaled_ratio [of 2 b a "- k"] ab by (simp add: r_def)
  have unscale: "y * 2 powi k * 2 powi (- k) = y" for y :: real and k
    by (simp add: power_int_minus)
  have near': "r < (real m + 1 / 2) * 2 powi e" "(real m - 1 / 2) * 2 powi e < r"
    using near unfolding r_def [symmetric] abs_less_iff left_diff_distrib distrib_right by linarith+
  have "r < 2 powi (53 + e)"
  proof -
    have "real (m + 1) \<le> real (2 ^ 53)" using m by (intro of_nat_mono) simp
    then have "real m + 1 / 2 < 2 ^ 53" by simp
    then have "(real m + 1 / 2) * 2 powi e < 2 ^ 53 * 2 powi e" using pos by (intro mult_strict_right_mono)
    with near'(1) show ?thesis by (simp only: sh)
  qed
  with l(1) have l53: "l < 53 + e" by (intro powi_less_imp) linarith
  show ?thesis
  proof (cases "2 powi (52 + e) \<le> r \<or> e = -1074")
    case large: True
    have e': "max (-1074) (l - 52) = e"
    proof (cases "2 powi (52 + e) \<le> r")
      case True
      with l(2) have "52 + e < l + 1" by (intro powi_less_imp) linarith
      with l53 e show ?thesis by simp
    qed (use large l53 in simp)
    have "\<bar>r * 2 powi (- e) - real m\<bar> < 1 / 2"
    proof -
      have "r * 2 powi (- e) < (real m + 1 / 2) * 2 powi e * 2 powi (- e)"
        "(real m - 1 / 2) * 2 powi e * 2 powi (- e) < r * 2 powi (- e)"
        using near' by (auto intro!: mult_strict_right_mono)
      then show ?thesis unfolding unscale abs_less_iff by simp
    qed
    then have "div_half_even (a * scale_up 2 (- e)) (b * scale_up 2 e) = m"
      using ab by (intro div_half_even_near) (simp_all only: scale, simp)
    then show ?thesis
      using ab m e by (simp add: double_of_ratio_def Let_def l_def [symmetric] e')
  next
    case False
    then have b52: "r < 2 powi (52 + e)" and e1: "-1074 < e" "2 ^ 52 \<le> m" using e by auto
    have "m < 2 ^ 52 + 1"
    proof -
      have "(real m - 1 / 2) * 2 powi e < 2 ^ 52 * 2 powi e" using near'(2) b52 by (simp only: sh)
      then have "real m - 1 / 2 < 2 ^ 52" using pos by (simp only: mult_less_cancel_right_pos)
      then have "real m < real (2 ^ 52 + 1)" by simp
      then show ?thesis by (simp only: of_nat_less_iff)
    qed
    with e1 have m52: "m = 2 ^ 52" by simp
    have half: "(2 :: real) powi e = 2 * 2 powi (e - 1)" using power_int_add [of "2 :: real" 1 "e - 1"] by simp
    have r: "(2 ^ 53 - 1 / 2) * 2 powi (e - 1) < r" "r < 2 ^ 53 * 2 powi (e - 1)"
      using low [OF m52] b52 unfolding sh m52 r_def [symmetric] half by (simp_all add: algebra_simps)
    have "l = 51 + e"
    proof -
      have "(2 :: real) powi (51 + e) = 2 ^ 52 * 2 powi (e - 1)"
        using power_int_add [of "2 :: real" 52 "e - 1"] by simp
      also have "\<dots> \<le> (2 ^ 53 - 1 / 2) * 2 powi (e - 1)" by (intro mult_right_mono) auto
      finally have "51 + e < l + 1" using r(1) l(2) by (intro powi_less_imp) linarith
      moreover have "l < 52 + e" using b52 l(1) by (intro powi_less_imp) linarith
      ultimately show ?thesis by simp
    qed
    then have e': "max (-1074) (l - 52) = e - 1" using e1 by simp
    have "\<bar>r * 2 powi (- (e - 1)) - real (2 ^ 53)\<bar> < 1 / 2"
    proof -
      have "r * 2 powi (- (e - 1)) < 2 ^ 53 * 2 powi (e - 1) * 2 powi (- (e - 1))"
        "(2 ^ 53 - 1 / 2) * 2 powi (e - 1) * 2 powi (- (e - 1)) < r * 2 powi (- (e - 1))"
        by (rule mult_strict_right_mono [OF r(2)], simp, rule mult_strict_right_mono [OF r(1)], simp)
      then show ?thesis unfolding unscale abs_less_iff by simp
    qed
    then have "div_half_even (a * scale_up 2 (- (e - 1))) (b * scale_up 2 (e - 1)) = 2 ^ 53"
      using ab by (intro div_half_even_near) (simp_all only: scale, simp)
    then show ?thesis
      using ab e m52 by (simp add: double_of_ratio_def Let_def l_def [symmetric] e')
  qed
qed


section \<open>The digits of a number\<close>

text \<open>The value that the \<open>P\<close> significant digits of a fraction stand for, and how far it is off.\<close>

lemma significant_error:
  assumes p: "0 < p" and q: "0 < q" and P: "0 < P" and s: "significant P p q = (n, x)"
  shows "\<bar>real n * 10 powi (x - int P + 1) - real p / real q\<bar> \<le> real p / real q * 10 powi (1 - int P) / 2"
    "10 ^ (P - 1) \<le> n"
proof -
  define y where "y = log_ratio 10 p q"
  define k where "k = int P - 1 - y"
  define r where "r = real p / real q"
  define d where "d = div_half_even (p * scale_up 10 k) (q * scale_up 10 (- k))"
  have y: "10 powi y \<le> r" using log_ratio_real(1) [of 10 p q] p q by (simp add: r_def y_def)
  have nx: "n = 10 ^ (P - 1) \<and> x = y + 1 \<and> d = 10 ^ P \<or> n = d \<and> x = y"
    using s by (auto simp: significant_def Let_def d_def k_def y_def split: if_splits)
  have ten: "(10 :: real) powi (a + b) = 10 powi a * 10 powi b" for a b by (simp add: power_int_add)
  have val: "real n * 10 powi (x - int P + 1) = real d * 10 powi (- k)"
  proof -
    have "real (10 ^ (P - 1)) * 10 powi (y + 1 - int P + 1) = real (10 ^ P) * 10 powi (y - int P + 1)"
      using P ten [of "int P - 1" "y + 1 - int P + 1"] ten [of "int P" "y - int P + 1"]
      by (simp add: of_nat_diff add.commute flip: power_int_of_nat)
    with nx show ?thesis by (auto simp: k_def algebra_simps)
  qed
  have rk: "real (p * scale_up 10 k) / real (q * scale_up 10 (- k)) = r * 10 powi k"
    using scaled_ratio [of 10 q p k] q by (simp add: r_def)
  have "\<bar>r * 10 powi k - real d\<bar> \<le> 1 / 2"
    using div_half_even_error [of "q * scale_up 10 (- k)" "p * scale_up 10 k"] q unfolding d_def rk by simp
  then have "\<bar>r * 10 powi k - real d\<bar> * 10 powi (- k) \<le> 1 / 2 * 10 powi (- k)"
    by (intro mult_right_mono) auto
  moreover have "\<bar>r * 10 powi k - real d\<bar> * 10 powi (- k) = \<bar>r - real d * 10 powi (- k)\<bar>"
    by (simp add: power_int_minus field_simps flip: abs_mult_pos)
  moreover have "10 powi (- k) = 10 powi (1 - int P) * (10 :: real) powi y"
    using ten [of "1 - int P" y] by (simp add: k_def algebra_simps)
  moreover have "10 powi (1 - int P) * (10 :: real) powi y \<le> 10 powi (1 - int P) * r"
    using y by (intro mult_left_mono) auto
  ultimately show "\<bar>real n * 10 powi (x - int P + 1) - real p / real q\<bar> \<le> real p / real q * 10 powi (1 - int P) / 2"
    unfolding val r_def [symmetric] abs_minus_commute [of _ r] mult.commute [of r "10 powi (1 - int P)"] by linarith
  have "10 ^ (P - 1) \<le> d"
  proof -
    have "(10 :: real) ^ (P - 1) = 10 powi k * 10 powi y"
      using P ten [of k y] by (simp add: k_def of_nat_diff flip: power_int_of_nat)
    also have "\<dots> \<le> 10 powi k * r" using y by (intro mult_left_mono) auto
    also have "\<dots> = real (p * scale_up 10 k) / real (q * scale_up 10 (- k))" unfolding rk by simp
    finally have "real (10 ^ (P - 1) * (q * scale_up 10 (- k))) \<le> real (p * scale_up 10 k)"
      using q by (simp add: field_simps)
    then have "10 ^ (P - 1) * (q * scale_up 10 (- k)) \<le> p * scale_up 10 k" by (simp only: of_nat_le_iff)
    then have "10 ^ (P - 1) \<le> (p * scale_up 10 k) div (q * scale_up 10 (- k))"
      using q by (simp add: less_eq_div_iff_mult_less_eq)
    then show ?thesis by (simp add: d_def div_half_even_def Let_def)
  qed
  with nx show "10 ^ (P - 1) \<le> n" by auto
qed

lemma ratio_value: "real (numer m e) / real (denom e) = real m * 2 powi e"
  by (auto simp: numer_def denom_def power_int_def power_int_minus field_simps)

text \<open>Seventeen digits are enough.\<close>

lemma seventeen_digits:
  assumes d: "double_ok (Finite s m e)" "m \<noteq> 0" and sg: "significant 17 (numer m e) (denom e) = (n, x)"
    and ab: "0 < a" "0 < b" "real a / real b = real n * 10 powi (x - 16)"
  shows "double_of_ratio s a b = Finite s m e"
proof -
  have pos: "0 < numer m e" "0 < denom e" using d(2) by (auto simp: numer_def denom_def)
  define r where "r = real m * 2 powi e"
  have err: "\<bar>real a / real b - r\<bar> \<le> r * 10 powi (-16) / 2"
    using significant_error(1) [OF pos _ sg] by (simp add: ratio_value r_def ab(3))
  have m: "m < 2 ^ 53" using d(1) by (simp add: double_ok_def)
  have "r * 10 powi (-16) = real m * 10 powi (-16) * 2 powi e" by (simp add: r_def)
  also have "\<dots> < 1 * 2 powi e"
    using m by (intro mult_strict_right_mono) (simp_all add: power_int_minus field_simps)
  finally have e1: "r * 10 powi (-16) < 2 powi e" by simp
  have e2: "r * 10 powi (-16) < 2 powi e / 2" if "m = 2 ^ 52"
  proof -
    have "r * 10 powi (-16) = real m * 10 powi (-16) * 2 powi e" by (simp add: r_def)
    also have "\<dots> < 1 / 2 * 2 powi e"
      unfolding that by (intro mult_strict_right_mono) (simp_all add: power_int_minus field_simps)
    finally show ?thesis by simp
  qed
  show ?thesis
  proof (rule double_of_ratio_near [OF ab(1,2) d])
    show "\<bar>real a / real b - real m * 2 powi e\<bar> < 2 powi e / 2"
      using err e1 unfolding r_def [symmetric] by linarith
    show "real m * 2 powi e - real a / real b < 2 powi e / 4" if "m = 2 ^ 52"
      using err e2 [OF that] unfolding r_def [symmetric] by linarith
  qed
qed

section \<open>Reading digits\<close>

lemma decimal_value_append: "decimal_value (as @ bs) = decimal_value as * 10 ^ length bs + decimal_value bs"
proof (induction bs rule: rev_induct)
  case (snoc b bs)
  then show ?case by (simp add: decimal_value_def algebra_simps)
qed (simp add: decimal_value_def)

lemma decimal_value_Nil [simp]: "decimal_value [] = 0"
  by (simp add: decimal_value_def)

lemma decimal_value_zeros [simp]: "decimal_value (replicate k 48) = 0"
  by (induction k) (simp_all add: decimal_value_def digit_value_def)

lemma decimal_value_cons_zero [simp]: "decimal_value (48 # ds) = decimal_value ds"
  by (simp add: decimal_value_def digit_value_def)

lemma digit_byte: "n < 10 \<Longrightarrow> is_digit (word_of_nat (48 + n)) \<and> digit_value (word_of_nat (48 + n)) = n"
proof -
  assume n: "n < 10"
  have "unat (word_of_nat (48 + n) :: u8) = 48 + n" using n by (subst unat_of_nat) simp
  with n show ?thesis by (simp add: is_digit_def digit_value_def word_le_nat_alt del: of_nat_add)
qed

lemma decimal_digits_digits: "\<forall>c \<in> set (decimal_digits n). is_digit c"
proof (induction n rule: decimal_digits.induct)
  case (1 n)
  then show ?case using digit_byte [of n] digit_byte [of "n mod 10"]
    by (subst decimal_digits.simps) (auto split: if_splits)
qed

lemma decimal_value_digits: "decimal_value (decimal_digits n) = n"
proof (induction n rule: decimal_digits.induct)
  case (1 n)
  then show ?case using digit_byte [of n] digit_byte [of "n mod 10"]
    by (subst decimal_digits.simps) (simp add: decimal_value_append, simp add: decimal_value_def)
qed

lemma length_decimal_digits_ge: "10 ^ k \<le> n \<Longrightarrow> k < length (decimal_digits n)"
proof (induction k arbitrary: n)
  case (Suc k)
  have "10 ^ 1 \<le> n" by (rule le_trans [OF power_increasing Suc.prems]) auto
  then have "\<not> n < 10" by simp
  moreover have "10 ^ k \<le> n div 10" using Suc.prems by (simp add: less_eq_div_iff_mult_less_eq mult.commute)
  ultimately show ?case using Suc.IH [of "n div 10"] by (subst decimal_digits.simps) simp
qed (subst decimal_digits.simps, simp)

lemma length_significant:
  "0 < P \<Longrightarrow> 10 ^ (P - 1) \<le> n \<Longrightarrow> n < 10 ^ P \<Longrightarrow> length (decimal_digits n) = P"
  using length_decimal_digits [of P n] length_decimal_digits_ge [of "P - 1" n] by simp

lemma strip_zeros_split: "\<exists>k. ds = strip_zeros ds @ replicate k 48"
proof -
  have zero: "byte (CHR ''0'') = 48" by simp
  have "rev ds = takeWhile (\<lambda>c. c = 48) (rev ds) @ dropWhile (\<lambda>c. c = 48) (rev ds)" by simp
  then have "ds = strip_zeros ds @ rev (takeWhile (\<lambda>c. c = 48) (rev ds))"
    unfolding strip_zeros_def by (metis zero rev_append rev_rev_ident)
  moreover have "takeWhile (\<lambda>c. c = 48) (rev ds) = replicate (length (takeWhile (\<lambda>c. c = 48) (rev ds))) 48"
    by (intro replicate_eqI) (auto dest: set_takeWhileD)
  ultimately show ?thesis by (metis rev_replicate)
qed

lemma strip_zeros_value:
  "real (decimal_value (ip @ strip_zeros fp)) * 10 powi - int (length (strip_zeros fp)) =
     real (decimal_value (ip @ fp)) * 10 powi - int (length fp)"
proof -
  obtain k where k: "fp = strip_zeros fp @ replicate k 48" using strip_zeros_split by blast
  have "decimal_value (ip @ fp) = decimal_value (ip @ strip_zeros fp) * 10 ^ k"
    by (subst k) (simp add: decimal_value_append algebra_simps power_add)
  moreover have "length fp = length (strip_zeros fp) + k" by (subst k) simp
  moreover have "(10 :: real) ^ k * 10 powi - int (length (strip_zeros fp) + k) = 10 powi - int (length (strip_zeros fp))"
    using power_int_add [of "10 :: real" "int k" "- int (length (strip_zeros fp) + k)"] by simp
  ultimately show ?thesis by simp
qed


section \<open>Reading the text of a number\<close>

lemma digit_bounds: "is_digit c \<longleftrightarrow> 48 \<le> unat c \<and> unat c \<le> 57"
  by (simp add: is_digit_def word_le_nat_alt)

lemma not_digits [simp]: "\<not> is_digit 46" "\<not> is_digit 101" "\<not> is_digit 45" "\<not> is_digit 43"
  by (simp_all add: is_digit_def word_le_nat_alt)

lemma take_digits:
  assumes "\<forall>c \<in> set ds. is_digit c" "w = [] \<or> \<not> is_digit (hd w)"
  shows "takeWhile is_digit (ds @ w) = ds" "dropWhile is_digit (ds @ w) = w"
  using assms by (induction ds) (cases w; simp)+

text \<open>What follows the digits: nothing, or a whole exponent with value \<open>x\<close>.\<close>

definition exponent_part :: "int \<Rightarrow> u8 list \<Rightarrow> bool" where
  "exponent_part x w \<longleftrightarrow> w = [] \<and> x = 0 \<or> w = exponent_text x"

lemma exponent_part_hd: "exponent_part x w \<Longrightarrow> w = [] \<or> hd w = 101"
  by (auto simp: exponent_part_def exponent_text_def)

lemma take_exponent_part: "exponent_part x w \<Longrightarrow> take_exponent w = (x, [])"
proof -
  assume "exponent_part x w"
  then consider "w = []" "x = 0" | "w = exponent_text x" by (auto simp: exponent_part_def)
  then show ?thesis
  proof cases
    case 2
    define ds where "ds = (if \<bar>x\<bar> < 10 then [48] else []) @ decimal_digits (nat \<bar>x\<bar>)"
    have ds: "\<forall>c \<in> set ds. is_digit c" "ds \<noteq> []" "decimal_value ds = nat \<bar>x\<bar>"
      using decimal_digits_digits [of "nat \<bar>x\<bar>"] decimal_value_digits [of "nat \<bar>x\<bar>"]
        length_decimal_digits_ge [of 0 "nat \<bar>x\<bar>"]
      by (auto simp: ds_def is_digit_def word_le_nat_alt decimal_digits.simps [of 0])
    have w: "w = 101 # (if x < 0 then 45 else 43) # ds" by (simp add: 2 exponent_text_def ds_def)
    have "takeWhile is_digit ds = ds" "dropWhile is_digit ds = []" using take_digits [OF ds(1), of "[]"] by simp_all
    then show ?thesis
      using ds(2,3)
      by (cases "x < 0") (simp_all add: w take_exponent_def take_sign_def CJsonDouble.signed_def Let_def
          del: takeWhile_eq_all_conv dropWhile_eq_Nil_conv)
  qed (simp add: take_exponent_def)
qed

lemma strtod_digits:
  assumes ip: "\<forall>c \<in> set ip. is_digit c" "ip \<noteq> []" and fp: "\<forall>c \<in> set fp. is_digit c" and w: "exponent_part x w"
  shows "\<exists>a b. strtod ((if s then [45] else []) @ with_fraction ip fp @ w) =
      (double_of_ratio s a b, length ((if s then [45] else []) @ with_fraction ip fp @ w)) \<and>
    0 < b \<and> real a / real b = real (decimal_value (ip @ fp)) * 10 powi (x - int (length fp))"
proof -
  define sf where "sf = strip_zeros fp"
  define k where "k = x - int (length sf)"
  define t where "t = with_fraction ip fp @ w"
  have sf: "\<forall>c \<in> set sf. is_digit c"
    using fp strip_zeros_split [of fp] unfolding sf_def by (metis Un_iff set_append)
  have hw: "w = [] \<or> \<not> is_digit (hd w)" "w = [] \<or> hd w \<noteq> 46" using exponent_part_hd [OF w] by auto
  have t: "t = ip @ (if sf = [] then w else 46 # sf @ w)" by (simp add: t_def with_fraction_def sf_def [symmetric])
  have tw: "takeWhile is_digit t = ip" "dropWhile is_digit t = (if sf = [] then w else 46 # sf @ w)"
    unfolding t using take_digits [OF ip(1), of "if sf = [] then w else 46 # sf @ w"] hw by (auto split: if_splits)
  have sfw: "takeWhile is_digit (sf @ w) = sf" "dropWhile is_digit (sf @ w) = w"
    using take_digits [OF sf hw(1)] by simp_all
  have "take_sign ((if s then [45] else []) @ t) = (s, t)"
  proof -
    obtain c u where "ip = c # u" "is_digit c" using ip by (cases ip) auto
    then have "\<exists>c u. t = c # u \<and> c \<noteq> 45 \<and> c \<noteq> 43" unfolding t by auto
    then show ?thesis by (auto simp: take_sign_def)
  qed
  moreover have "(case (if sf = [] then w else 46 # sf @ w) of
        c # v \<Rightarrow> if c = byte (CHR ''.'') \<and> (ip \<noteq> [] \<or> takeWhile is_digit v \<noteq> [])
                 then (takeWhile is_digit v, dropWhile is_digit v) else ([], if sf = [] then w else 46 # sf @ w)
      | [] \<Rightarrow> ([], [])) = (sf, w)"
    using hw(2) sfw ip(2) by (cases w) auto
  ultimately have "strtod ((if s then [45] else []) @ t) =
      (double_of_ratio s (decimal_value (ip @ sf) * scale_up 10 k) (scale_up 10 (- k)),
       length ((if s then [45] else []) @ t))"
    using ip(2) by (simp add: strtod_def tw take_exponent_part [OF w] k_def)
  moreover have "real (decimal_value (ip @ sf) * scale_up 10 k) / real (scale_up 10 (- k)) =
      real (decimal_value (ip @ fp)) * 10 powi (x - int (length fp))"
  proof -
    have "real (decimal_value (ip @ sf) * scale_up 10 k) / real (scale_up 10 (- k)) =
        real (decimal_value (ip @ sf)) * 10 powi k"
      using scaled_ratio [of 10 1 "decimal_value (ip @ sf)" k] by simp
    also have "\<dots> = real (decimal_value (ip @ sf)) * 10 powi - int (length sf) * 10 powi x"
      using power_int_add [of "10 :: real" "- int (length sf)" x] by (simp add: k_def)
    also have "\<dots> = real (decimal_value (ip @ fp)) * (10 powi - int (length fp) * 10 powi x)"
      unfolding sf_def strip_zeros_value by simp
    also have "10 powi - int (length fp) * (10 :: real) powi x = 10 powi (x - int (length fp))"
      using power_int_add [of "10 :: real" "- int (length fp)" x] by simp
    finally show ?thesis .
  qed
  moreover have "0 < scale_up 10 (- k)" by simp
  ultimately show ?thesis unfolding t_def [symmetric] by blast
qed

lemma strtod_format_g:
  assumes m: "m \<noteq> 0" and P: "0 < P" and sg: "significant P (numer m e) (denom e) = (n, x)"
  shows "\<exists>a b. strtod (format_g P (Finite s m e)) = (double_of_ratio s a b, length (format_g P (Finite s m e))) \<and>
    0 < a \<and> 0 < b \<and> real a / real b = real n * 10 powi (x - int P + 1)"
proof -
  have pos: "0 < numer m e" "0 < denom e" using m by (auto simp: numer_def denom_def)
  have n: "10 ^ (P - 1) \<le> n" "n < 10 ^ P"
    using significant_error(2) [OF pos P sg] significant_bounds [OF pos P sg] by auto
  define ds where "ds = decimal_digits n"
  have ds: "\<forall>c \<in> set ds. is_digit c" "length ds = P" "decimal_value ds = n"
    using decimal_digits_digits length_significant [OF P n] decimal_value_digits by (simp_all add: ds_def)
  define ip fp w y where "ip = (if -4 \<le> x \<and> x < int P then if 0 \<le> x then take (nat x + 1) ds else [48] else take 1 ds)"
    and "fp = (if -4 \<le> x \<and> x < int P then if 0 \<le> x then drop (nat x + 1) ds
               else replicate (nat (- x) - 1) 48 @ ds else drop 1 ds)"
    and "w = (if -4 \<le> x \<and> x < int P then [] else exponent_text x)"
    and "y = (if -4 \<le> x \<and> x < int P then 0 else x)"
  have eq: "format_g P (Finite s m e) = (if s then [45] else []) @ with_fraction ip fp @ w"
    using m by (simp add: format_g_def sg ip_def fp_def w_def ds_def [symmetric])
  have d48: "is_digit 48" by (simp add: is_digit_def word_le_nat_alt)
  have dg: "\<forall>c \<in> set ip. is_digit c" "\<forall>c \<in> set fp. is_digit c" "ip \<noteq> []"
    using ds(1,2) P d48 by (auto simp: ip_def fp_def dest: in_set_takeD in_set_dropD)
  have "exponent_part y w" by (auto simp: exponent_part_def w_def y_def)
  from strtod_digits [OF dg(1,3,2) this, of s] obtain a b where ab:
    "strtod (format_g P (Finite s m e)) = (double_of_ratio s a b, length (format_g P (Finite s m e)))"
    "0 < b" "real a / real b = real (decimal_value (ip @ fp)) * 10 powi (y - int (length fp))"
    unfolding eq by blast
  moreover have "decimal_value (ip @ fp) = n"
  proof (cases "-4 \<le> x \<and> x < 0")
    case True then show ?thesis using ds(3) P by (simp add: ip_def fp_def decimal_value_append)
  next
    case False
    then have "ip @ fp = ds" by (auto simp: ip_def fp_def)
    with ds(3) show ?thesis by simp
  qed
  moreover have "y - int (length fp) = x - int P + 1"
    using ds(2) P by (auto simp: fp_def y_def)
  moreover have "0 < a"
  proof -
    have "0 < n" using n(1) by (rule less_le_trans [rotated]) simp
    then have "0 < real a / real b" using ab(3) calculation(4,5) by simp
    then show ?thesis by (simp add: zero_less_divide_iff)
  qed
  ultimately show ?thesis by auto
qed

lemma number_reads_back:
  assumes "double_ok d" "\<not> times_zero_differs d"
  shows "\<exists>text. number_text d = Inr text \<and> strtod text = (d, length text)"
proof -
  obtain s m e where d: "d = Finite s m e" using assms(2) by (cases d) auto
  have P17: "sprintf_to 26 (format_g 17 d) = Inr (format_g 17 d)" and P15: "sprintf_to 26 (format_g 15 d) = Inr (format_g 15 d)"
    using length_format_g [of s m e 17] length_format_g [of s m e 15] assms(1) by (simp_all add: d sprintf_to_def)
  show ?thesis
  proof (cases "m = 0")
    case True
    then have "e = -1074" using assms(1) by (auto simp: d double_ok_def)
    with True show ?thesis
      by (auto simp: d number_text_def format_g_def sprintf_to_def strtod_def take_sign_def take_exponent_def
          double_of_ratio_def is_digit_def word_le_nat_alt decimal_value_def digit_value_def)
  next
    case False
    obtain n x where sg: "significant 17 (numer m e) (denom e) = (n, x)" by fastforce
    obtain a b where ab: "strtod (format_g 17 d) = (double_of_ratio s a b, length (format_g 17 d))"
      "0 < a" "0 < b" "real a / real b = real n * 10 powi (x - 16)"
      using strtod_format_g [OF False _ sg, of s] by (auto simp: d)
    then have r17: "strtod (format_g 17 d) = (d, length (format_g 17 d))"
      using seventeen_digits [OF _ False sg ab(2-4)] assms(1) by (simp add: d)
    obtain n' x' where sg': "significant 15 (numer m e) (denom e) = (n', x')" by fastforce
    obtain test where r15: "strtod (format_g 15 d) = (test, length (format_g 15 d))"
      using strtod_format_g [OF False _ sg', of s] by (auto simp: d)
    have "test = d" if "double_eq test d" using that False by (cases test) (auto simp: d split: if_splits)
    then show ?thesis using P15 P17 r15 r17 by (auto simp: number_text_def d Let_def)
  qed
qed

text \<open>
  C34. The text that \<open>print_number\<close> chooses for a finite number (15 digits when they read back
  as the number, otherwise 17) is read by \<open>strtod\<close> as exactly that number, and as a
  whole: printing a \<open>double\<close> loses nothing.
\<close>

theorem number_text_roundtrip:
  assumes "double_ok d" "\<not> times_zero_differs d"
  shows "\<exists>text. number_text d = Inr text \<and> strtod text = (d, length text)"
  using assms by (rule number_reads_back)

text \<open>One tenth.\<close>

theorem number_text_roundtrip_witness:
  "\<exists>text. number_text (Finite False 7205759403792794 (-56)) = Inr text \<and>
     strtod text = (Finite False 7205759403792794 (-56), length text)"
  by (rule number_text_roundtrip) (simp_all add: double_ok_def)

end
