(* ===== verification/CJsonPrintProps.thy ===== *)
theory CJsonPrintProps
  imports CJsonPrintCorrect
begin

text \<open>
  The entry points of the printer: what \<open>cJSON_Print\<close>, \<open>cJSON_PrintUnformatted\<close>,
  \<open>cJSON_PrintBuffered\<close> and \<open>cJSON_PrintPreallocated\<close> return, and what they do with the
  blocks they use.
\<close>

definition fresh_printbuffer :: "u8 list \<Rightarrow> nat \<Rightarrow> bool \<Rightarrow> bool \<Rightarrow> internal_hooks \<Rightarrow> printbuffer" where
  "fresh_printbuffer buf n noalloc fmt h =
     \<lparr>out_buffer = Some buf, out_length = n, out_offset = 0, out_depth = 0,
      out_noalloc = noalloc, out_format = fmt, out_hooks = h\<rparr>"

lemma fresh_printbuffer_simps [simp]:
  "out_buffer (fresh_printbuffer buf n noalloc fmt h) = Some buf"
  "out_length (fresh_printbuffer buf n noalloc fmt h) = n"
  "out_offset (fresh_printbuffer buf n noalloc fmt h) = 0"
  "out_depth (fresh_printbuffer buf n noalloc fmt h) = 0"
  "out_noalloc (fresh_printbuffer buf n noalloc fmt h) = noalloc"
  "out_format (fresh_printbuffer buf n noalloc fmt h) = fmt"
  "out_hooks (fresh_printbuffer buf n noalloc fmt h) = h"
  by (simp_all add: fresh_printbuffer_def)

lemma print_fresh:
  assumes "wf_item x" "n \<le> length buf" "0 < n \<or> has_reallocate h \<or> noalloc"
  shows "prints (fresh_printbuffer buf n noalloc fmt h) (print_value x (fresh_printbuffer buf n noalloc fmt h)) (render fmt 0 x)"
  using assms by (intro print_value_prints) (auto simp: pw_def)

lemma released_lost:
  "lost p p' \<Longrightarrow> live (release (out_buffer p') (out_hooks p')) = live (out_hooks p) - 1"
  by (auto simp: lost_def release_def deallocate_def split: option.splits if_splits)

text \<open>What is in the block after a value has been printed from the start of the block on.\<close>

lemma printed_text:
  assumes "printed p s q" "out_offset p = 0"
  obtains buf where "out_buffer q = Some buf" "take (length s + 1) buf = s @ [0]"
    "length s < out_length q" "out_length q \<le> length buf" "live (out_hooks q) = live (out_hooks p)"
    "always_grants (out_hooks q) = always_grants (out_hooks p)"
  using assms by (auto simp: printed_def pw_def kept_def the_buffer_def always_grants_def same_hooks_def)

lemma update_offset_text:
  assumes "wf_item x" "render fmt 0 x = Some s" "printed p s q" "out_offset p = 0"
  shows "update_offset q = Inr (q\<lparr>out_offset := length s\<rparr>)"
proof -
  obtain q' where q': "update_offset q = Inr q'" "advanced p s q'"
    using update_offset_printed [OF assms(3) render_nonzero [OF assms(1,2)]] by blast
  then have "\<exists>n. q' = q\<lparr>out_offset := n\<rparr>"
    by (auto simp: update_offset_def bind_res_def intro: exI [of _ "out_offset q"] split: option.splits sum.splits)
  with q' assms(4) show ?thesis by (auto simp: advanced_def)
qed

lemma copy_out_text:
  assumes "out_buffer q = Some buf" "take (length s + 1) buf = s @ [0]" "out_offset q = length s"
    "length s < out_length q" "out_length q \<le> length buf"
  shows "\<exists>result h'. copy_out q = Inr (result, h') \<and>
    (case result of
       Some block \<Rightarrow> block = s @ [0] \<and> live h' = live (out_hooks q)
     | None \<Rightarrow> live h' = live (out_hooks q) - 1 \<and> \<not> always_grants (out_hooks q))"
proof -
  have len: "length s + 1 \<le> length buf" using assms by simp
  then have sub: "Suc (length s) - length buf = 0" "min (out_length q) (Suc (length s)) = Suc (length s)"
    using assms(4) by auto
  have cp: "memcpy (replicate (length s + 1) z) 0 buf 0 (length s + 1) = Inr (s @ [0])" for z
    using assms(2) len by (simp add: memcpy_def)
  have w: "wr (s @ [0]) (length s) 0 = Inr (s @ [0])" by (simp add: wr_def)
  show ?thesis
    using assms(1,2,3) sub cp w
    by (auto simp: copy_out_def reallocate_def allocate_def deallocate_def always_grants_def)
qed

lemma print_item_result:
  assumes "wf_item x"
  shows "\<exists>result h'. print_item (Some x) fmt h = Inr (result, h') \<and>
    (case result of
       Some block \<Rightarrow> \<exists>s. render fmt 0 x = Some s \<and> block = s @ [0] \<and> live h' = live h + 1
     | None \<Rightarrow> live h' = live h \<and>
         (\<forall>s. render fmt 0 x = Some s \<longrightarrow> always_grants h \<longrightarrow> SIZE_INT_MAX < length s + 2))"
proof (cases "grants h (requests h) 256")
  case False
  then show ?thesis by (auto simp: print_item_def allocate_def always_grants_def)
next
  case True
  define h1 where "h1 = h\<lparr>requests := Suc (requests h), live := live h + 1\<rparr>"
  define p where "p = fresh_printbuffer (replicate 256 (fill h)) 256 False fmt h1"
  have eq: "print_item (Some x) fmt h = bind_res (print_value x p) (\<lambda>(ok, p).
               if \<not> ok then Inr (None, release (out_buffer p) (out_hooks p))
               else bind_res (update_offset p) copy_out)"
    using True by (simp add: print_item_def allocate_def h1_def p_def fresh_printbuffer_def)
  have h1: "live h1 = live h + 1" "always_grants h1 = always_grants h"
    by (auto simp: h1_def always_grants_def)
  have "prints p (print_value x p) (render fmt 0 x)"
    unfolding p_def using assms by (intro print_fresh) auto
  then show ?thesis
  proof (cases rule: outcome_cases)
    case (fail p')
    then show ?thesis
      using released_lost [OF fail(2)] h1 unfolding eq by (auto simp: fits_def p_def)
  next
    case (ok p' s)
    have p0: "out_offset p = 0" by (simp add: p_def)
    obtain buf where buf: "out_buffer p' = Some buf" "take (length s + 1) buf = s @ [0]"
        "length s < out_length p'" "out_length p' \<le> length buf" "live (out_hooks p') = live (out_hooks p)"
        "always_grants (out_hooks p') = always_grants (out_hooks p)"
      by (rule printed_text [OF ok(3) p0])
    obtain result h' where r: "copy_out (p'\<lparr>out_offset := length s\<rparr>) = Inr (result, h')"
      "case result of
         Some block \<Rightarrow> block = s @ [0] \<and> live h' = live (out_hooks (p'\<lparr>out_offset := length s\<rparr>))
       | None \<Rightarrow> live h' = live (out_hooks (p'\<lparr>out_offset := length s\<rparr>)) - 1 \<and>
           \<not> always_grants (out_hooks (p'\<lparr>out_offset := length s\<rparr>))"
      using copy_out_text [of "p'\<lparr>out_offset := length s\<rparr>" buf s] buf(1-4)
      by (simp del: One_nat_def add_Suc_right) blast
    have "print_item (Some x) fmt h = Inr (result, h')"
      unfolding eq ok(1) using update_offset_text [OF assms ok(2,3) p0] r(1) by simp
    then show ?thesis using r(2) buf(5,6) h1 ok(2) by (auto simp: p_def split: option.splits)
  qed
qed

text \<open>
  C35. \<open>cJSON_Print\<close> and \<open>cJSON_PrintUnformatted\<close> stay within the blocks they allocate and
  always return: either a block that holds exactly the text of the item and a terminating
  zero, with that one block more in use than before, or null with no block left behind. With an
  allocator that grants every request they fail only when the item has no text (an
  invalid type, a raw item without text) or when the text is too long for the size limit.
\<close>

theorem cJSON_Print_correct:
  assumes "wf_item x"
  shows "\<exists>result h'.
    (if fmt then cJSON_Print (Some x) h else cJSON_PrintUnformatted (Some x) h) = Inr (result, h') \<and>
    (case result of
       Some block \<Rightarrow> \<exists>s. render fmt 0 x = Some s \<and> block = s @ [0] \<and> live h' = live h + 1
     | None \<Rightarrow> live h' = live h \<and>
         (\<forall>s. render fmt 0 x = Some s \<longrightarrow> always_grants h \<longrightarrow> SIZE_INT_MAX < length s + 2))"
  using print_item_result [OF assms, of fmt h]
  by (cases fmt) (simp_all add: cJSON_Print_def cJSON_PrintUnformatted_def)

definition sample_item :: cJSON where
  "sample_item = CJSON cJSON_Array None 0 double_zero None
     [CJSON cJSON_True None 1 double_zero None [],
      CJSON cJSON_String (Some [104, 105, 10]) 0 double_zero None []]"

lemma sample_item_wf: "wf_item sample_item"
  by (simp add: sample_item_def double_ok_def double_zero_def)

lemma sample_item_text: "render True 0 sample_item = Some (bytes ''[true, '' @ [34] @ bytes ''hi'' @ [92] @ bytes ''n'' @ [34] @ bytes '']'')"
  by (simp add: sample_item_def render_string_def escaped_def)

theorem cJSON_Print_correct_witness:
  "\<exists>h'. cJSON_Print (Some sample_item) granting_hooks =
     Inr (Some (bytes ''[true, '' @ [34] @ bytes ''hi'' @ [92] @ bytes ''n'' @ [34] @ bytes '']'' @ [0]), h') \<and>
     live h' = live granting_hooks + 1"
  using cJSON_Print_correct [OF sample_item_wf, of True granting_hooks] sample_item_text
  by (auto split: option.splits)

text \<open>
  \<open>cJSON_PrintBuffered\<close> likewise, but the block may be longer than the text. A first block of
  size zero needs \<open>reallocate\<close>.
\<close>

lemma cJSON_PrintBuffered_result:
  assumes "wf_item x" "0 \<le> prebuffer" "0 < prebuffer \<or> has_reallocate h"
  shows "\<exists>result h'. cJSON_PrintBuffered (Some x) prebuffer fmt h = Inr (result, h') \<and>
    (case result of
       Some block \<Rightarrow> \<exists>s. render fmt 0 x = Some s \<and> take (length s + 1) block = s @ [0] \<and> live h' = live h + 1
     | None \<Rightarrow> live h' = live h \<and>
         (\<forall>s. render fmt 0 x = Some s \<longrightarrow> always_grants h \<longrightarrow> SIZE_INT_MAX < length s + 2))"
proof (cases "grants h (requests h) (nat prebuffer)")
  case False
  with assms show ?thesis by (auto simp: cJSON_PrintBuffered_def allocate_def always_grants_def)
next
  case True
  define h1 where "h1 = h\<lparr>requests := Suc (requests h), live := live h + 1\<rparr>"
  define p where "p = fresh_printbuffer (replicate (nat prebuffer) (fill h)) (nat prebuffer) False fmt h1"
  have eq: "cJSON_PrintBuffered (Some x) prebuffer fmt h = bind_res (print_value x p) (\<lambda>(ok, p).
                 if ok then Inr (out_buffer p, out_hooks p)
                 else Inr (None, release (out_buffer p) (out_hooks p)))"
    using True assms(2) by (simp add: cJSON_PrintBuffered_def allocate_def h1_def p_def fresh_printbuffer_def)
  have h1: "live h1 = live h + 1" "always_grants h1 = always_grants h" "has_reallocate h1 = has_reallocate h"
    by (auto simp: h1_def always_grants_def)
  have "prints p (print_value x p) (render fmt 0 x)"
    unfolding p_def using assms h1(3) by (intro print_fresh) auto
  then show ?thesis
  proof (cases rule: outcome_cases)
    case (fail p')
    then show ?thesis
      using released_lost [OF fail(2)] h1 unfolding eq by (auto simp: fits_def p_def)
  next
    case (ok p' s)
    obtain buf where "out_buffer p' = Some buf" "take (length s + 1) buf = s @ [0]"
        "live (out_hooks p') = live (out_hooks p)"
      by (rule printed_text [OF ok(3)]) (simp add: p_def)
    then show ?thesis unfolding eq using ok h1 by (simp add: p_def)
  qed
qed

text \<open>
  C36. \<open>cJSON_PrintPreallocated\<close> never writes outside the \<open>len\<close> bytes of the caller's block.
  When it reports success the block holds the text of the item and a terminating zero; it
  does succeed when there are two bytes more than the text has.
\<close>

theorem cJSON_PrintPreallocated_correct:
  assumes "wf_item x" "0 \<le> len" "len \<le> INT_MAX" "nat len \<le> length buf"
  shows "\<exists>ok result. cJSON_PrintPreallocated (Some x) (Some buf) len fmt h = Inr (ok, result) \<and>
    (ok \<longrightarrow> (\<exists>s block. render fmt 0 x = Some s \<and> result = Some block \<and>
        take (length s + 1) block = s @ [0] \<and> length s < nat len)) \<and>
    (\<forall>s. render fmt 0 x = Some s \<longrightarrow> length s + 2 \<le> nat len \<longrightarrow> ok)"
proof -
  define p where "p = fresh_printbuffer buf (nat len) True fmt h"
  have eq: "cJSON_PrintPreallocated (Some x) (Some buf) len fmt h =
      bind_res (print_value x p) (\<lambda>(ok, p). Inr (ok, out_buffer p))"
    using assms(2) by (simp add: cJSON_PrintPreallocated_def p_def fresh_printbuffer_def)
  have "prints p (print_value x p) (render fmt 0 x)"
    unfolding p_def using assms by (intro print_fresh) auto
  then show ?thesis
  proof (cases rule: outcome_cases)
    case (fail p')
    have "cJSON_PrintPreallocated (Some x) (Some buf) len fmt h = Inr (False, out_buffer p')"
      unfolding eq fail(1) by simp
    moreover have "\<not> length s + 2 \<le> nat len" if "render fmt 0 x = Some s" for s
      using fail(3) [OF that] assms(3) by (auto simp: fits_def p_def)
    ultimately show ?thesis by blast
  next
    case (ok p' s)
    obtain block where block: "out_buffer p' = Some block" "take (length s + 1) block = s @ [0]"
        "length s < out_length p'"
      by (rule printed_text [OF ok(3)]) (simp add: p_def)
    have "out_length p' = nat len" using ok(3) by (simp add: printed_def kept_def p_def)
    with block have "length s < nat len" by metis
    moreover have "cJSON_PrintPreallocated (Some x) (Some buf) len fmt h = Inr (True, Some block)"
      unfolding eq ok(1) by (simp add: block(1))
    ultimately show ?thesis using block(2) ok(2) by blast
  qed
qed

theorem cJSON_PrintPreallocated_correct_witness:
  "\<exists>block. cJSON_PrintPreallocated (Some sample_item) (Some (replicate 16 0)) 16 True granting_hooks = Inr (True, Some block) \<and>
     take 15 block = bytes ''[true, '' @ [34] @ bytes ''hi'' @ [92] @ bytes ''n'' @ [34] @ bytes '']'' @ [0]"
  using cJSON_PrintPreallocated_correct [OF sample_item_wf, of 16 "replicate 16 0" True granting_hooks] sample_item_text
  by (auto simp: numeral_eq_Suc)

text \<open>With no \<open>reallocate\<close> an empty first block is copied from although it holds nothing.\<close>

lemma PrintBuffered_empty_block_overread:
  "cJSON_PrintBuffered (Some (CJSON cJSON_NULL None 0 double_zero None [])) 0 False
     (granting_hooks\<lparr>has_reallocate := False\<rparr>) = Inl OutOfBounds"
  by (simp add: cJSON_PrintBuffered_def allocate_def granting_hooks_def emit_def ensure_def grow_def memcpy_def)

end
