(* ===== verification/CJsonRoundTrip.thy ===== *)
theory CJsonRoundTrip
  imports CJsonNumberText CJsonPrintProps
begin

text \<open>
  Printing an item and parsing the text gives the item back: the text of an item is a document
  of the parser's grammar whose tree is the item.
\<close>

section \<open>Words of a text\<close>

lemma word_at_Nil [simp]: "word_at c p [] \<longleftrightarrow> p \<le> length c"
  by (simp add: word_at_def)

lemma word_at_Cons [simp]: "word_at c p (b # s) \<longleftrightarrow> p < length c \<and> c ! p = b \<and> word_at c (Suc p) s"
  by (cases "p < length c") (auto simp: word_at_def Cons_nth_drop_Suc [symmetric])

lemma word_at_append [simp]: "word_at c p (s @ t) \<longleftrightarrow> word_at c p s \<and> word_at c (p + length s) t"
proof (induction s arbitrary: p)
  case Nil show ?case by (auto simp: word_at_def)
qed simp

lemma word_at_nth: "word_at c p s \<Longrightarrow> i < length s \<Longrightarrow> c ! (p + i) = s ! i"
  by (metis nth_drop nth_take word_at_def add_leD1)

lemma word_at_blank:
  "word_at c p s \<Longrightarrow> \<forall>b \<in> set s. b \<le> 32 \<Longrightarrow> p + length s < length c \<Longrightarrow> \<not> c ! (p + length s) \<le> 32 \<Longrightarrow>
     skip_ws c p = p + length s"
proof (induction s arbitrary: p)
  case Nil then show ?case by (simp add: skip_ws_here)
next
  case (Cons b s)
  then have "skip_ws c (Suc p) = p + length (b # s)" by simp
  moreover have "drop p c = b # drop (Suc p) c" using Cons.prems by (auto simp: Cons_nth_drop_Suc)
  ultimately show ?case using Cons.prems by (auto simp: skip_ws_def Let_def split: if_splits)
qed

section \<open>Strings\<close>

lemma hex_digit_char: "n < 16 \<Longrightarrow> hex_digit (hex_char n) = Some n"
proof -
  assume n: "n < 16"
  have "unat (word_of_nat (48 + n) :: u8) = 48 + n" "unat (word_of_nat (87 + n) :: u8) = 87 + n"
    using n by (subst unat_of_nat, simp)+
  with n show ?thesis
    by (auto simp: hex_char_def hex_digit_def word_le_nat_alt simp del: of_nat_add)
qed

lemma escaped_cases:
  obtains (plain) "escaped b = ([b], False)" "b \<noteq> 34" "b \<noteq> 92"
    | (short) x where "escaped b = ([92, x], False)" "escape_byte x = Some b"
    | (long) "escaped b = ([92, 117, 48, 48, hex_char (unat b div 16), hex_char (unat b mod 16)], True)" "b < 32"
proof -
  have "31 < b \<or> b < 32" by (simp add: word_less_nat_alt) linarith
  then consider "31 < b" "b \<noteq> 34" "b \<noteq> 92" | "b = 92" | "b = 34" | "b = 8" | "b = 12" | "b = 10" | "b = 13" | "b = 9"
    | "b < 32" "b \<noteq> 92" "b \<noteq> 34" "b \<noteq> 8" "b \<noteq> 12" "b \<noteq> 10" "b \<noteq> 13" "b \<noteq> 9"
    by blast
  then show thesis
  proof cases
    case 1 then show ?thesis by (intro plain) (simp_all add: escaped_def)
  next
    case 2 then show ?thesis by (intro short [of 92]) (simp_all add: escaped_def escape_byte_def)
  next
    case 3 then show ?thesis by (intro short [of 34]) (simp_all add: escaped_def escape_byte_def)
  next
    case 4 then show ?thesis by (intro short [of 98]) (simp_all add: escaped_def escape_byte_def)
  next
    case 5 then show ?thesis by (intro short [of 102]) (simp_all add: escaped_def escape_byte_def)
  next
    case 6 then show ?thesis by (intro short [of 110]) (simp_all add: escaped_def escape_byte_def)
  next
    case 7 then show ?thesis by (intro short [of 114]) (simp_all add: escaped_def escape_byte_def)
  next
    case 8 then show ?thesis by (intro short [of 116]) (simp_all add: escaped_def escape_byte_def)
  next
    case 9 then show ?thesis by (intro long) (auto simp: escaped_def word_less_nat_alt)
  qed
qed

lemma scan_step:
  "c ! p \<noteq> 92 \<Longrightarrow> c ! p \<noteq> 34 \<Longrightarrow> p < e \<Longrightarrow> \<exists>k. esc_scan c e (p + 1) k \<Longrightarrow> \<exists>k. esc_scan c e p k"
  "c ! p = 92 \<Longrightarrow> p < e \<Longrightarrow> \<exists>k. esc_scan c e (p + 2) k \<Longrightarrow> \<exists>k. esc_scan c e p k"
  by (blast intro: esc_scan.intros)+

lemma scan_plain_word:
  "word_at c p s \<Longrightarrow> \<forall>b \<in> set s. b \<noteq> 92 \<and> b \<noteq> 34 \<Longrightarrow> p + length s \<le> e \<Longrightarrow>
     \<exists>k. esc_scan c e (p + length s) k \<Longrightarrow> \<exists>k. esc_scan c e p k"
proof (induction s arbitrary: p)
  case (Cons b s)
  then show ?case using Cons.IH [of "Suc p"] scan_step(1) [of c p e] by simp
qed simp

lemma literal_bytes_escaped:
  assumes "word_at c p (escaped_text s)" "e = p + length (escaped_text s)"
  shows "literal_bytes c p e = Inr s \<and> (\<exists>k. esc_scan c e p k)"
  using assms
proof (induction s arbitrary: p)
  case Nil
  then show ?case by (subst literal_bytes.simps) (auto intro: scan_end)
next
  case (Cons b s)
  show ?case
  proof (cases b rule: escaped_cases)
    case plain
    with Cons.prems have "literal_bytes c (p + 1) e = Inr s" "\<exists>k. esc_scan c e (p + 1) k"
      using Cons.IH [of "p + 1"] by simp_all
    moreover have "c ! p = b" "p < e" using plain Cons.prems by auto
    ultimately show ?thesis
      using plain(2,3) scan_step(1) [of c p e] by (subst literal_bytes.simps) (simp add: prepend_def)
  next
    case (short x)
    with Cons.prems have "literal_bytes c (p + 2) e = Inr s" "\<exists>k. esc_scan c e (p + 2) k"
      using Cons.IH [of "p + 2"] by simp_all
    moreover have "c ! p = 92" "c ! (p + 1) = x" "p < e" using short Cons.prems by auto
    ultimately show ?thesis
      using short(2) scan_step(2) [of c p e] by (subst literal_bytes.simps) (simp add: prepend_def)
  next
    case long
    let ?h = "hex_char (unat b div 16)" and ?l = "hex_char (unat b mod 16)"
    have b32: "unat b < 32" using long(2) by (simp add: word_less_nat_alt)
    have six: "length [92, 117, 48, 48, ?h, ?l] = 6" by simp
    have w: "word_at c p [92, 117, 48, 48, ?h, ?l]" and w6: "word_at c (p + 6) (escaped_text s)"
      using Cons.prems(1) unfolding escaped_text.simps long(1) word_at_append fst_conv six by (rule conjunct1, rule conjunct2)
    have cs: "c ! p = 92" "c ! (p + 1) = 117" "c ! (p + 2) = 48" "c ! (p + 3) = 48" "c ! (p + 4) = ?h" "c ! (p + 5) = ?l"
      and e: "p + 6 \<le> e"
      using Cons.prems(2) long(1) word_at_nth [OF w, of 0] word_at_nth [OF w, of 1] word_at_nth [OF w, of 2]
        word_at_nth [OF w, of 3] word_at_nth [OF w, of 4] word_at_nth [OF w, of 5] by simp_all
    have IH: "literal_bytes c (p + 6) e = Inr s" "\<exists>k. esc_scan c e (p + 6) k"
      using Cons.IH [OF w6] Cons.prems(2) long(1) by simp_all
    have plain: "hex_char n \<noteq> 34 \<and> hex_char n \<noteq> 92" if "n < 16" for n
      using hex_digit_char [OF that] by (auto simp: hex_digit_def)
    have "word_at c (p + 2) [48, 48, ?h, ?l]" using w by simp
    moreover have "\<forall>x \<in> set [48, 48, ?h, ?l]. x \<noteq> 92 \<and> x \<noteq> 34" using plain b32 by simp
    moreover have four: "p + 2 + length [48, 48, ?h, ?l] = p + 6" by simp
    ultimately have sc2: "\<exists>k. esc_scan c e (p + 2) k"
      using e IH(2) scan_plain_word [of c "p + 2" "[48, 48, ?h, ?l]" e] unfolding four by blast
    have sc: "\<exists>k. esc_scan c e p k" by (rule scan_step(2) [OF cs(1) _ sc2]) (use e in simp)
    have "hex4_value c (p + 2) = unat b"
    proof -
      have pos: "p + 2 + 1 = p + 3" "p + 2 + 2 = p + 4" "p + 2 + 3 = p + 5" by simp_all
      have zero: "hex_digit 48 = Some 0" by (simp add: hex_digit_def)
      have "hex_digit ?h = Some (unat b div 16)" "hex_digit ?l = Some (unat b mod 16)"
        using b32 by (simp_all add: hex_digit_char)
      then show ?thesis unfolding hex4_value_def pos cs zero by simp
    qed
    then have dec: "utf16_decode c p e = Some (6, unat b)"
      using b32 e by (simp add: utf16_decode_def)
    have esc: "escape_byte 117 = None" by (simp add: escape_byte_def)
    have "utf8_encode (unat b) = [b]" using b32 by (simp add: utf8_encode_def)
    then have "literal_bytes c p e = Inr (b # s)"
      using cs e IH(1) dec esc by (subst literal_bytes.simps) (simp add: prepend_def)
    with sc show ?thesis by simp
  qed
qed

lemma literal_at_rendered:
  assumes "word_at c p (render_string (Some s))"
  shows "literal_at c p (p + length (render_string (Some s)) - 1) s"
  using assms literal_bytes_escaped [of c "p + 1" s "p + 1 + length (escaped_text s)"]
  by (auto simp: literal_at_def render_string_def)

lemma cstr_of_id [simp]: "0 \<notin> set s \<Longrightarrow> cstr_of s = s"
  by (simp add: cstr_of_def takeWhile_eq_all_conv) metis

section \<open>Items the parser can yield\<close>

text \<open>
  The items with the fields the way the parser leaves them: finite numbers, strings without
  zeros, names in objects and only there.
\<close>

fun json_item :: "cJSON \<Rightarrow> bool" where
  "json_item (CJSON t v i d s c) \<longleftrightarrow>
     (t \<in> {cJSON_NULL, cJSON_False} \<and> v = None \<and> i = 0 \<and> d = double_zero \<and> c = []) \<or>
     (t = cJSON_True \<and> v = None \<and> i = 1 \<and> d = double_zero \<and> c = []) \<or>
     (t = cJSON_Number \<and> v = None \<and> double_ok d \<and> \<not> times_zero_differs d \<and> saturated_int d = Inr i \<and> c = []) \<or>
     (t = cJSON_String \<and> v \<noteq> None \<and> 0 \<notin> set (the v) \<and> i = 0 \<and> d = double_zero \<and> c = []) \<or>
     (t = cJSON_Array \<and> v = None \<and> i = 0 \<and> d = double_zero \<and> (\<forall>x \<in> set c. json_item x \<and> cstring x = None)) \<or>
     (t = cJSON_Object \<and> v = None \<and> i = 0 \<and> d = double_zero \<and>
        (\<forall>x \<in> set c. json_item x \<and> cstring x \<noteq> None \<and> 0 \<notin> set (the (cstring x))))"

text \<open>The item the parser is called with: only its name is set.\<close>

definition named :: "int \<Rightarrow> cstr option \<Rightarrow> cJSON" where
  "named t s = CJSON t None 0 double_zero s []"

lemma named_simps [simp]:
  "set_cstring (Some s) (set_ctype t (named 0 None)) = named t (Some s)" "null_item = named 0 None"
  by (simp_all add: named_def null_item_def)

section \<open>Numbers\<close>

lemma num_text_rendered:
  assumes "word_at c p s" "length s \<le> 63" "\<forall>b \<in> set s. number_char b \<noteq> None" "p + length s < length c"
    "number_char (c ! (p + length s)) = None"
  shows "num_text c p = s"
proof -
  have "drop p c = s @ c ! (p + length s) # drop (Suc (p + length s)) c"
    using assms(1,4) append_take_drop_id [of "length s" "drop p c"]
    by (simp add: word_at_def Cons_nth_drop_Suc add.commute)
  then have "num_text c p = takeWhile (\<lambda>d. number_char d \<noteq> None)
      (s @ take (63 - length s) (c ! (p + length s) # drop (Suc (p + length s)) c))"
    using assms(2) by (simp add: num_text_def)
  also have "\<dots> = s @ takeWhile (\<lambda>d. number_char d \<noteq> None) (take (63 - length s) (c ! (p + length s) # drop (Suc (p + length s)) c))"
    using assms(3) by (intro takeWhile_append2) auto
  also have "\<dots> = s" using assms(5) by (cases "63 - length s") simp_all
  finally show ?thesis .
qed


lemma format_g_first:
  "format_g P (Finite g m e) \<noteq> [] \<and> (hd (format_g P (Finite g m e)) = 45 \<or> is_digit (hd (format_g P (Finite g m e))))"
proof (cases "m = 0 \<or> g")
  case True
  then show ?thesis by (auto simp: format_g_def is_digit_def word_le_nat_alt)
next
  case False
  obtain n x where sg: "significant P (numer m e) (denom e) = (n, x)" by fastforce
  obtain b ds where ds: "decimal_digits n = b # ds"
    using length_decimal_digits_ge [of 0 n] by (cases "decimal_digits n", subst (asm) decimal_digits.simps) (auto split: if_splits)
  then have "is_digit b" using decimal_digits_digits [of n] by simp
  moreover have "is_digit 48" by (simp add: is_digit_def word_le_nat_alt)
  ultimately show ?thesis
    using False by (cases "-4 \<le> x \<and> x < int P"; cases "0 \<le> x") (simp_all add: format_g_def sg with_fraction_def ds Let_def)
qed

lemma number_value:
  assumes "double_ok d" "\<not> times_zero_differs d" "saturated_int d = Inr i" "number_text d = Inr s"
    and w: "word_at c p s" "p + length s < length c" "number_char (c ! (p + length s)) = None"
  shows "value_at c n p (named t k) (CJSON cJSON_Number None i d k []) (p + length s)"
    "s \<noteq> []" "hd s = 45 \<or> is_digit (hd s)"
proof -
  obtain g m e where d: "d = Finite g m e" using assms(2) by (cases d) auto
  have st: "strtod s = (d, length s)" using number_reads_back [OF assms(1,2)] assms(4) by auto
  have sg: "s = format_g 15 d \<or> s = format_g 17 d" "length s \<le> 25"
    using assms(4) by (auto simp: d number_text_def sprintf_to_def bind_res_def Let_def split: if_splits prod.splits sum.splits)
  then have ch: "\<forall>b \<in> set s. number_char b \<noteq> None" using format_g_chars d by blast
  have nt: "num_text c p = s" using num_text_rendered [OF w(1) _ ch w(2,3)] sg(2) by simp
  show ne: "s \<noteq> []" and hd: "hd s = 45 \<or> is_digit (hd s)" using sg(1) format_g_first [of 15 g m e] format_g_first [of 17 g m e] d by auto
  have "c ! p = hd s" using w(1) ne by (cases s) auto
  then have "value_at c n p (named t k) (set_ctype cJSON_Number (set_valueint i (set_valuedouble d (named t k)))) (p + length s)"
    using hd ne st assms(3) by (intro v_number) (auto simp: nt)
  then show "value_at c n p (named t k) (CJSON cJSON_Number None i d k []) (p + length s)" by (simp add: named_def)
qed

section \<open>Whole items\<close>

lemma number_char_stops [simp]:
  "number_char 44 = None" "number_char 93 = None" "number_char 125 = None" "number_char 10 = None" "number_char 9 = None"
  "number_char 0 = None"
  by (simp_all add: number_char_def word_le_nat_alt)

lemma json_type_bits [simp]:
  "(4 :: int) AND 255 = 4" "(1 :: int) AND 255 = 1" "(2 :: int) AND 255 = 2" "(8 :: int) AND 255 = 8"
  "(16 :: int) AND 255 = 16" "(32 :: int) AND 255 = 32" "(64 :: int) AND 255 = 64"
  by simp_all

lemma render_chain_exists:
  "\<forall>x \<in> set xs. \<exists>s. render fmt n x = Some s \<Longrightarrow>
     (\<exists>s. render_elements fmt n xs = Some s) \<and> (\<exists>s. render_members fmt n xs = Some s)"
  by (induction xs) auto

lemma render_exists: "json_item x \<Longrightarrow> \<exists>s. render fmt n x = Some s"
proof (induction x arbitrary: n)
  case (CJSON t v i d s c)
  then have ch: "\<exists>s. render_elements fmt (n + 1) c = Some s" "\<exists>s. render_members fmt (n + 1) c = Some s"
    if "t = 32 \<or> t = 64" using that render_chain_exists [of c fmt "n + 1"] by auto
  have "\<exists>s. render_number d = Some s" if "double_ok d"
    using number_text_returns [OF that] by (auto simp: render_number_def returns_iff)
  with CJSON.prems ch show ?case by (auto simp: Let_def)
qed

lemma rendered_first:
  assumes "json_item x" "render fmt n x = Some s"
  shows "\<exists>b u. s = b # u \<and> \<not> b \<le> 32 \<and> b \<noteq> 93 \<and> b \<noteq> 125 \<and> b \<noteq> 239"
proof (cases x)
  case (CJSON t v i d k c)
  have num: "\<exists>b u. s = b # u \<and> \<not> b \<le> 32 \<and> b \<noteq> 93 \<and> b \<noteq> 125 \<and> b \<noteq> 239"
    if fin: "\<not> times_zero_differs d" "render_number d = Some s"
  proof -
    obtain g m e where d: "d = Finite g m e" using fin(1) by (cases d) auto
    have "number_text d = Inr s" using fin(2) by (auto simp: render_number_def split: sum.splits)
    then have "s = format_g 15 d \<or> s = format_g 17 d"
      by (auto simp: d number_text_def sprintf_to_def bind_res_def Let_def split: if_splits prod.splits sum.splits)
    then have "s \<noteq> [] \<and> (hd s = 45 \<or> is_digit (hd s))"
      using format_g_first [of 15 g m e] format_g_first [of 17 g m e] d by auto
    then show ?thesis by (cases s) (auto simp: is_digit_def word_le_nat_alt)
  qed
  from assms CJSON num show ?thesis
    by (auto simp: Let_def render_string_def word_le_nat_alt)
qed

lemma elements_first:
  assumes "json_item x" "render_elements fmt n (x # xs) = Some s"
  shows "\<exists>b u. s = b # u \<and> \<not> b \<le> 32 \<and> b \<noteq> 93"
  using assms rendered_first [of x fmt n] by (fastforce split: option.splits)

text \<open>The statement of the main induction, for one value.\<close>

definition reads_back :: "bool \<Rightarrow> nat \<Rightarrow> u8 list \<Rightarrow> nat \<Rightarrow> cJSON \<Rightarrow> bool" where
  "reads_back fmt n c d x \<longleftrightarrow> (\<forall>p s t. render fmt n x = Some s \<longrightarrow> word_at c p s \<longrightarrow> p + length s < length c \<longrightarrow>
     number_char (c ! (p + length s)) = None \<longrightarrow> value_at c d p (named t (cstring x)) x (p + length s))"

lemma reads_backD:
  "reads_back fmt n c d x \<Longrightarrow> render fmt n x = Some s \<Longrightarrow> word_at c p s \<Longrightarrow> p + length s < length c \<Longrightarrow>
     number_char (c ! (p + length s)) = None \<Longrightarrow> value_at c d p (named t (cstring x)) x (p + length s)"
  by (simp add: reads_back_def)

lemma elements_rendered:
  assumes "\<forall>x \<in> set xs. json_item x \<and> cstring x = None \<and> reads_back fmt n c d x" "xs \<noteq> []"
    "render_elements fmt n xs = Some s" "word_at c q s" "q + length s < length c" "c ! (q + length s) = 93"
    "skip_ws c (p + 1) = q"
  shows "elements_at c d p xs (q + length s)"
  using assms
proof (induction xs arbitrary: p q s)
  case (Cons x xs)
  obtain e es where e: "render fmt n x = Some e" "render_elements fmt n xs = Some es"
    and s: "s = e @ (if xs \<noteq> [] then 44 # (if fmt then [32] else []) else []) @ es"
    using Cons.prems(3) by (auto split: option.splits)
  have x: "json_item x" "cstring x = None" "reads_back fmt n c d x" using Cons.prems(1) by simp_all
  let ?r = "q + length e"
  show ?case
  proof (cases "xs = []")
    case True
    then have "s = e" using s e(2) by simp
    with Cons.prems x e(1) have "value_at c d q (named 0 None) x ?r" using reads_backD [OF x(3) e(1)] by simp
    moreover have "skip_ws c ?r = ?r" using Cons.prems \<open>s = e\<close> by (intro skip_ws_here) (simp_all add: word_le_nat_alt)
    ultimately show ?thesis
      using Cons.prems(6,7) \<open>s = e\<close> e_last [of c d p x ?r ?r] unfolding True by simp
  next
    case False
    let ?q = "?r + 1 + (if fmt then 1 else 0)"
    have w: "word_at c q e" "?r < length c" "c ! ?r = 44" "word_at c ?q es" "fmt \<Longrightarrow> word_at c (?r + 1) [32]"
      and len: "q + length s = ?q + length es"
      using Cons.prems(4) False by (auto simp: s split: if_splits)
    have v: "value_at c d q (named 0 None) x ?r" using reads_backD [OF x(3) e(1) w(1,2)] w(3) x(2) by simp
    have r: "skip_ws c ?r = ?r" using w by (intro skip_ws_here) (simp_all add: word_le_nat_alt)
    have "\<exists>b u. es = b # u \<and> \<not> b \<le> 32 \<and> b \<noteq> 93"
      using elements_first e(2) False Cons.prems(1) by (cases xs) auto
    then have q: "?q < length c" "\<not> c ! ?q \<le> 32" using w(4) by auto
    have "skip_ws c (?r + 1) = ?r + 1 + length (if fmt then [32 :: u8] else [])"
      by (rule word_at_blank) (use w q in auto)
    then have "skip_ws c (?r + 1) = ?q" by simp
    then have "elements_at c d ?r xs (?q + length es)"
      using Cons.prems(1,5,6) False e(2) w(4) len by (intro Cons.IH) (simp_all only: len, auto)
    then show ?thesis unfolding len
      using v r w(3) Cons.prems(7) by (intro e_more [where q = ?r and r = ?r]) simp_all
  qed
qed simp


lemma members_rendered:
  assumes "\<forall>x \<in> set xs. json_item x \<and> cstring x \<noteq> None \<and> 0 \<notin> set (the (cstring x)) \<and> reads_back fmt n c d x"
    "xs \<noteq> []" "render_members fmt n xs = Some s" "word_at c q s"
    "skip_ws c (p + 1) = q + (if fmt then n else 0)"
    "word_at c (q + length s) (replicate k 9 @ [125])"
  shows "members_at c d p xs (q + length s + k)"
  using assms
proof (induction xs arbitrary: p q s)
  case (Cons x xs)
  obtain e es where e: "render fmt n x = Some e" "render_members fmt n xs = Some es"
    and s: "s = (if fmt then replicate n 9 else []) @ render_string (cstring x) @
      (58 # (if fmt then [9] else [])) @ e @ ((if xs \<noteq> [] then [44] else []) @ (if fmt then [10] else [])) @ es"
    using Cons.prems(3) by (auto split: option.splits)
  obtain name where name: "cstring x = Some name" "0 \<notin> set name" using Cons.prems(1) by auto
  have x: "json_item x" "reads_back fmt n c d x" using Cons.prems(1) by simp_all
  define q0 q1 q2 r where "q0 = q + (if fmt then n else 0)" and "q1 = q0 + length (render_string (Some name))"
    and "q2 = q1 + 1 + (if fmt then 1 else 0)" and "r = q2 + length e"
  note q_defs = q0_def q1_def q2_def r_def
  have w: "word_at c q0 (render_string (Some name))" "q1 < length c" "c ! q1 = 58"
      "word_at c (q1 + 1) (if fmt then [9] else [])" "word_at c q2 e"
      "word_at c r ((if xs \<noteq> [] then [44] else []) @ (if fmt then [10] else []) @ es)"
    using Cons.prems(4) unfolding s name(1) q_defs by (auto split: if_splits)
  have len: "q + length s = r + length ((if xs \<noteq> [] then [44 :: u8] else []) @ (if fmt then [10] else []) @ es)"
    by (simp add: s name(1) q_defs)
  have lit: "literal_at c (skip_ws c (p + 1)) (q1 - 1) name" and q1: "q1 - 1 + 1 = q1"
    using literal_at_rendered [OF w(1)] Cons.prems(5) by (simp_all add: render_string_def q_defs)
  have s1: "skip_ws c q1 = q1" using w(2,3) by (intro skip_ws_here) (simp_all add: word_le_nat_alt)
  obtain b u where b: "e = b # u" "\<not> b \<le> 32" using rendered_first [OF x(1) e(1)] by auto
  have "skip_ws c (q1 + 1) = q1 + 1 + length (if fmt then [9 :: u8] else [])"
    by (rule word_at_blank) (use w(4,5) b in \<open>auto simp: word_le_nat_alt q2_def\<close>)
  then have s2: "skip_ws c (q1 + 1) = q2" by (simp add: q2_def)
  have end125: "word_at c (q + length s) (replicate k 9)" "q + length s + k < length c" "c ! (q + length s + k) = 125"
    using Cons.prems(6) by auto
  show ?case
  proof (cases "xs = []")
    case True
    then have es: "es = []" using e(2) by simp
    have stop: "r < length c \<and> number_char (c ! r) = None"
      using w(6) end125 len True es by (cases fmt; cases k) auto
    have v: "value_at c d q2 (named 16 (Some name)) x r"
      using reads_backD [OF x(2) e(1) w(5)] stop name(1) by (simp add: r_def)
    have "skip_ws c r = r + length ((if fmt then [10] else []) @ replicate k (9 :: u8))"
      by (rule word_at_blank) (use w(6) end125 len True es in \<open>auto simp: word_le_nat_alt add.assoc split: if_splits\<close>)
    then have t: "skip_ws c r = q + length s + k" using len True es by simp
    show ?thesis unfolding True
      by (rule m_last [OF lit, where q = q1 and r = r])
        (use s1 s2 q1 v w(3) t end125(3) name(2) in simp_all)
  next
    case False
    let ?q = "r + 1 + (if fmt then 1 else 0)"
    have r: "r < length c" "c ! r = 44" "word_at c (r + 1) (if fmt then [10] else [])" "word_at c ?q es"
      using w(6) False by (auto split: if_splits)
    have l: "q + length s = ?q + length es" using len False by simp
    have v: "value_at c d q2 (named 16 (Some name)) x r"
      using reads_backD [OF x(2) e(1) w(5)] r(1,2) name(1) by (simp add: r_def)
    have t: "skip_ws c r = r" using r(1,2) by (intro skip_ws_here) (simp_all add: word_le_nat_alt)
    obtain y ys where xs: "xs = y # ys" using False by (cases xs) auto
    then obtain u where es: "es = (if fmt then replicate n 9 else []) @ 34 # u"
      using e(2) by (auto simp: render_string_def split: option.splits)
    have "skip_ws c (r + 1) = r + 1 + length ((if fmt then [10] else []) @ (if fmt then replicate n (9 :: u8) else []))"
      by (rule word_at_blank) (use r(3,4) es in \<open>auto simp: word_le_nat_alt split: if_splits\<close>)
    then have "members_at c d r xs (?q + length es + k)"
      using Cons.prems(1,6) False e(2) r(4) l by (intro Cons.IH) (simp_all only: l, auto)
    then show ?thesis unfolding l
      by (intro m_more [OF lit, where q = q1 and r = r and t = r])
        (use s1 s2 q1 v w(3) t r(2) name(2) in simp_all)
  qed
qed simp


lemma container_depth:
  "nesting (CJSON t v i d s c) + n \<le> CJSON_NESTING_LIMIT \<Longrightarrow> t = cJSON_Array \<or> t = cJSON_Object \<Longrightarrow>
     n < CJSON_NESTING_LIMIT \<and> (\<forall>x \<in> set c. nesting x + (n + 1) \<le> CJSON_NESTING_LIMIT)"
  using nesting_children [of c "CJSON_NESTING_LIMIT - (n + 1)"] by auto

lemma array_reads_back:
  assumes "\<forall>x \<in> set xs. json_item x \<and> cstring x = None \<and> reads_back fmt (n + 1) c (d + 1) x" "d < CJSON_NESTING_LIMIT"
    "render_elements fmt (n + 1) xs = Some es" "word_at c p (91 # es @ [93])"
  shows "value_at c d p (named t k) (CJSON cJSON_Array None 0 double_zero k xs) (p + length es + 2)"
proof -
  have w: "c ! p = 91" "word_at c (p + 1) es" "p + 1 + length es < length c" "c ! (p + 1 + length es) = 93"
    using assms(4) by auto
  show ?thesis
  proof (cases "xs = []")
    case True
    then have "es = []" using assms(3) by simp
    then have "skip_ws c (p + 1) = p + 1" using w by (intro skip_ws_here) (simp_all add: word_le_nat_alt)
    then have "value_at c d p (named t k) (set_child [] (set_ctype cJSON_Array (named t k))) (p + 1 + 1)"
      using w assms(2) \<open>es = []\<close> by (intro v_empty_array) simp_all
    then show ?thesis using True \<open>es = []\<close> by (simp add: named_def)
  next
    case False
    obtain y ys where xs: "xs = y # ys" using False by (cases xs) auto
    obtain b u where b: "es = b # u" "\<not> b \<le> 32" "b \<noteq> 93" using elements_first [of y fmt "n + 1" ys es] assms(1,3) xs by auto
    have s: "skip_ws c (p + 1) = p + 1" using w b by (intro skip_ws_here) auto
    have "elements_at c (d + 1) p xs (p + 1 + length es)"
      by (rule elements_rendered [OF assms(1) False assms(3) w(2-4) s])
    then have "value_at c d p (named t k) (set_child xs (set_ctype cJSON_Array (named t k))) (p + 1 + length es + 1)"
      using w assms(2) b s by (intro v_array [where q = "p + 1"]) auto
    then show ?thesis by (simp add: named_def)
  qed
qed

lemma object_reads_back:
  assumes "\<forall>x \<in> set xs. json_item x \<and> cstring x \<noteq> None \<and> 0 \<notin> set (the (cstring x)) \<and> reads_back fmt (n + 1) c (d + 1) x"
    "d < CJSON_NESTING_LIMIT" "render_members fmt (n + 1) xs = Some ms"
    "word_at c p ((123 # (if fmt then [10] else [])) @ ms @ (if fmt then replicate n 9 else []) @ [125])"
  shows "value_at c d p (named t k) (CJSON cJSON_Object None 0 double_zero k xs)
    (p + length ((123 # (if fmt then [10] else [])) @ ms @ (if fmt then replicate n 9 else []) @ [125 :: u8]))"
proof -
  let ?q = "p + 1 + (if fmt then 1 else 0)" and ?k = "if fmt then n else 0"
  have tabs: "(if fmt then replicate n 9 else []) = replicate ?k (9 :: u8)" by simp
  have w: "c ! p = 123" "word_at c (p + 1) (if fmt then [10] else [])" "word_at c ?q ms"
      "word_at c (?q + length ms) (replicate ?k 9 @ [125])"
    using assms(4) by (auto split: if_splits)
  have len: "p + length ((123 # (if fmt then [10] else [])) @ ms @ (if fmt then replicate n 9 else []) @ [125 :: u8]) =
      ?q + length ms + ?k + 1" by simp
  have e: "?q + length ms + ?k < length c" "c ! (?q + length ms + ?k) = 125" using w(4) by auto
  show ?thesis
  proof (cases "xs = []")
    case True
    then have "ms = []" using assms(3) by simp
    have "skip_ws c (p + 1) = p + 1 + length ((if fmt then [10] else []) @ replicate ?k (9 :: u8))"
      by (rule word_at_blank) (use w e \<open>ms = []\<close> in \<open>auto simp: word_le_nat_alt split: if_splits\<close>)
    then have s: "skip_ws c (p + 1) = ?q + ?k" by simp
    have "value_at c d p (named t k) (set_child [] (set_ctype cJSON_Object (named t k))) (?q + ?k + 1)"
      by (rule v_empty_object [where q = "?q + ?k"]) (use w e assms(2) s \<open>ms = []\<close> in simp_all)
    then show ?thesis unfolding len using True \<open>ms = []\<close> by (simp add: named_def)
  next
    case False
    let ?t = "if fmt then n + 1 else 0"
    obtain y ys where xs: "xs = y # ys" using False by (cases xs) auto
    then obtain u where ms: "ms = replicate ?t 9 @ 34 # u"
      using assms(3) by (auto simp: render_string_def split: option.splits if_splits)
    have "skip_ws c (p + 1) = p + 1 + length ((if fmt then [10] else []) @ replicate ?t (9 :: u8))"
      by (rule word_at_blank) (use w(2,3) ms in \<open>auto simp: word_le_nat_alt split: if_splits\<close>)
    then have s: "skip_ws c (p + 1) = ?q + ?t" by simp
    have quote: "c ! (?q + ?t) = 34" using w(3) ms by auto
    have "skip_ws c (?q + ?t) = ?q + ?t"
      using quote w(3) ms by (intro skip_ws_here) (auto simp: word_le_nat_alt)
    then have m: "members_at c (d + 1) (?q + ?t - 1) xs (?q + length ms + ?k)"
      by (intro members_rendered [OF assms(1) False assms(3) w(3) _ w(4)]) simp
    have "value_at c d p (named t k) (set_child xs (set_ctype cJSON_Object (named t k))) (?q + length ms + ?k + 1)"
      by (rule v_object [OF assms(2) _ s [symmetric] _ m]) (use w e quote in simp_all)
    then show ?thesis unfolding len by (simp add: named_def)
  qed
qed

lemma item_reads_back: "json_item x \<Longrightarrow> nesting x + d \<le> CJSON_NESTING_LIMIT \<Longrightarrow> reads_back fmt n c d x"
proof (induction x arbitrary: d n)
  case (CJSON t v i num k ch)
  show ?case
    unfolding reads_back_def cJSON.sel
  proof (intro allI impI)
    fix p s t0
    assume s: "render fmt n (CJSON t v i num k ch) = Some s" and w: "word_at c p s" "p + length s < length c"
      "number_char (c ! (p + length s)) = None"
    have sub: "d < CJSON_NESTING_LIMIT" "\<forall>x \<in> set ch. json_item x \<longrightarrow> reads_back fmt (n + 1) c (d + 1) x"
      if "t = cJSON_Array \<or> t = cJSON_Object"
      using container_depth [OF CJSON.prems(2) that] CJSON.IH by auto
    consider (null) "t = 4" "v = None" "i = 0" "num = double_zero" "ch = []"
      | (false) "t = 1" "v = None" "i = 0" "num = double_zero" "ch = []"
      | (true) "t = 2" "v = None" "i = 1" "num = double_zero" "ch = []"
      | (number) "t = 8" "v = None" "double_ok num" "\<not> times_zero_differs num" "saturated_int num = Inr i" "ch = []"
      | (str) str where "t = 16" "v = Some str" "0 \<notin> set str" "i = 0" "num = double_zero" "ch = []"
      | (array) "t = 32" "v = None" "i = 0" "num = double_zero" "\<forall>x \<in> set ch. json_item x \<and> cstring x = None"
      | (object) "t = 64" "v = None" "i = 0" "num = double_zero"
          "\<forall>x \<in> set ch. json_item x \<and> cstring x \<noteq> None \<and> 0 \<notin> set (the (cstring x))"
      using CJSON.prems(1) by auto
    then show "value_at c d p (named t0 k) (CJSON t v i num k ch) (p + length s)"
    proof cases
      case null
      then have eq: "s = bytes ''null''" using s by simp
      have "length s = 4" unfolding eq by simp
      with v_null [of c p d "named t0 k"] w(1) show ?thesis unfolding eq [symmetric] by (simp add: named_def null)
    next
      case false
      then have eq: "s = bytes ''false''" using s by simp
      have "length s = 5" unfolding eq by simp
      with v_false [of c p d "named t0 k"] w(1) show ?thesis unfolding eq [symmetric] by (simp add: named_def false)
    next
      case true
      then have eq: "s = bytes ''true''" using s by simp
      have "length s = 4" unfolding eq by simp
      with v_true [of c p d "named t0 k"] w(1) show ?thesis unfolding eq [symmetric] by (simp add: named_def true)
    next
      case number
      then have "number_text num = Inr s" using s by (auto simp: render_number_def split: sum.splits)
      then show ?thesis using number_value(1) [OF number(3-5) _ w] number by simp
    next
      case str
      then have r: "s = render_string (Some str)" using s by simp
      then have "value_at c d p (named t0 k) (set_valuestring (Some (cstr_of str)) (set_ctype cJSON_String (named t0 k)))
          (p + length (render_string (Some str)) - 1 + 1)"
        using w(1) by (intro v_string literal_at_rendered) simp
      then show ?thesis using str r by (simp add: named_def render_string_def)
    next
      case array
      then obtain es where es: "render_elements fmt (n + 1) ch = Some es" "s = 91 # es @ [93]" using s by auto
      then show ?thesis
        using array_reads_back [OF _ sub(1) es(1), of c p t0 k] sub(2) array w(1) by (simp add: add.commute)
    next
      case object
      then obtain ms where ms: "render_members fmt (n + 1) ch = Some ms"
        "s = (123 # (if fmt then [10] else [])) @ ms @ (if fmt then replicate n 9 else []) @ [125]" using s by auto
      have "value_at c d p (named t0 k) (CJSON cJSON_Object None 0 double_zero k ch)
        (p + length ((123 # (if fmt then [10] else [])) @ ms @ (if fmt then replicate n 9 else []) @ [125 :: u8]))"
        by (rule object_reads_back [OF _ _ ms(1)]) (use sub object w(1) ms(2) in auto)
      then show ?thesis using object unfolding ms(2) by simp
    qed
  qed
qed

lemma json_item_wf: "json_item x \<Longrightarrow> (\<forall>w. cstring x = Some w \<longrightarrow> 0 \<notin> set w) \<Longrightarrow> wf_item x"
proof (induction x)
  case (CJSON t v i d s c)
  have "\<forall>x \<in> set c. wf_item x" using CJSON by auto
  moreover have "double_ok d" using CJSON.prems(1) by (auto simp: double_zero_def double_ok_def)
  ultimately show ?case using CJSON.prems by auto
qed

lemma rendered_document:
  assumes x: "json_item x" "cstring x = None" "nesting x \<le> CJSON_NESTING_LIMIT" and s: "render fmt 0 x = Some s"
  shows "document s req x (length s)"
proof -
  obtain b u where b: "s = b # u" "\<not> b \<le> 32" "b \<noteq> 239" using rendered_first [OF x(1) s] by auto
  then have st: "text_start s = 0" by (simp add: text_start_def bom_length_def skip_ws_here)
  have "reads_back fmt 0 (s @ [0]) 0 x" using item_reads_back [OF x(1), of 0] x(3) by simp
  then have v: "value_at (s @ [0]) 0 0 (named 0 (cstring x)) x (0 + length s)"
    by (rule reads_backD [OF _ s]) (simp_all add: word_at_def)
  have "trailing s req (length s) = length s" by (simp add: trailing_def skip_ws_def)
  moreover have "(s @ [0]) ! length s = 0" by simp
  ultimately show ?thesis using v st x(2) unfolding document_def by (intro exI [of _ "length s"]) simp
qed

text \<open>
  C33. Whatever \<open>cJSON_Print\<close> or \<open>cJSON_PrintUnformatted\<close> writes for an item with JSON content
  (finite numbers, strings without zeros, names in objects, nested at most
  \<open>CJSON_NESTING_LIMIT\<close> deep), \<open>cJSON_ParseWithOpts\<close> reads back as the same item, to the last
  byte, when memory does not run out.
\<close>

theorem print_parse_roundtrip:
  assumes "json_item x" "cstring x = None" "nesting x \<le> CJSON_NESTING_LIMIT"
    and "always_grants h" "always_grants h2" "length (the (render fmt 0 x)) + 2 \<le> SIZE_INT_MAX"
  shows "\<exists>text h' err h3.
    (if fmt then cJSON_Print (Some x) h else cJSON_PrintUnformatted (Some x) h) = Inr (Some (text @ [0]), h') \<and>
    cJSON_ParseWithOpts h2 (Some text) require_null_terminated = ret (Some x, Some (length text), err, h3)"
proof -
  obtain s where s: "render fmt 0 x = Some s" using render_exists [OF assms(1)] by blast
  have wf: "wf_item x" using json_item_wf assms(1,2) by simp
  obtain result h' where r: "print_item (Some x) fmt h = Inr (result, h')"
    and c: "case result of
       Some block \<Rightarrow> \<exists>s. render fmt 0 x = Some s \<and> block = s @ [0] \<and> live h' = live h + 1
     | None \<Rightarrow> live h' = live h \<and>
         (\<forall>s. render fmt 0 x = Some s \<longrightarrow> always_grants h \<longrightarrow> SIZE_INT_MAX < length s + 2)"
    using print_item_result [OF wf] by blast
  have "result = Some (s @ [0])" using c s assms(4,6) by (cases result) auto
  with r have "(if fmt then cJSON_Print (Some x) h else cJSON_PrintUnformatted (Some x) h) = Inr (Some (s @ [0]), h')"
    by (cases fmt) (simp_all add: cJSON_Print_def cJSON_PrintUnformatted_def)
  moreover have "\<exists>err h3. cJSON_ParseWithOpts h2 (Some s) require_null_terminated = ret (Some x, Some (length s), err, h3)"
    using parse_accepts_documents [OF assms(5)] rendered_document [OF assms(1-3) s] by blast
  ultimately show ?thesis by blast
qed

theorem print_parse_roundtrip_witness:
  "\<exists>text h' err h3. cJSON_Print (Some sample_item) granting_hooks = Inr (Some (text @ [0]), h') \<and>
     cJSON_ParseWithOpts granting_hooks (Some text) True = ret (Some sample_item, Some (length text), err, h3)"
  using print_parse_roundtrip [of sample_item granting_hooks granting_hooks True True] sample_item_text
  by (simp add: sample_item_def double_ok_def double_zero_def)

end
