(* ===== verification/CJsonHeap.thy ===== *)
theory CJsonHeap
  imports CJsonParse
begin

text \<open>
  The operations of cJSON that build, search and rewire items (\<open>cJSON.c\<close>). They work on items
  in memory that point to each other, so the model has an explicit heap: a map from addresses
  to items and one from addresses to strings. An access to an address that holds nothing is
  \<open>UseAfterFree\<close>, giving back such an address is \<open>InvalidFree\<close>, and an access through a null
  pointer is \<open>NullDeref\<close>.

  A loop along \<open>next\<close> pointers that come back to an item does not end. The loops have fuel for
  one step more than there were requests for memory; a chain without a cycle has fewer
  items than that, so the result \<open>None\<close> means that the loop does not end.
\<close>

section \<open>The heap\<close>

record node =
  nnext :: "nat option"
  nprev :: "nat option"
  nchild :: "nat option"
  ntype :: int
  nvaluestring :: "nat option"
  nvalueint :: int
  nvaluedouble :: double
  nstring :: "nat option"

text \<open>
  Strings are the ones allocated through the hooks as well as the ones the caller passes in.
  A granted request gets the number of the request as its address.
\<close>

record heap =
  items :: "nat \<Rightarrow> node option"
  strs :: "nat \<Rightarrow> cstr option"
  hooks :: internal_hooks

definition fuel :: "heap \<Rightarrow> nat" where
  "fuel h = Suc (requests (hooks h))"

definition zero_node :: node where
  "zero_node = \<lparr>nnext = None, nprev = None, nchild = None, ntype = cJSON_Invalid, nvaluestring = None,
     nvalueint = 0, nvaluedouble = double_zero, nstring = None\<rparr>"

definition rd_item :: "heap \<Rightarrow> nat \<Rightarrow> node res" where
  "rd_item h a = (case items h a of None \<Rightarrow> Inl UseAfterFree | Some n \<Rightarrow> Inr n)"

definition upd_item :: "nat \<Rightarrow> (node \<Rightarrow> node) \<Rightarrow> heap \<Rightarrow> heap res" where
  "upd_item a f h = bind_res (rd_item h a) (\<lambda>n. Inr (h\<lparr>items := (items h)(a \<mapsto> f n)\<rparr>))"

text \<open>The same through a pointer that may be null.\<close>

definition deref :: "nat option \<Rightarrow> nat res" where
  "deref p = (case p of None \<Rightarrow> Inl NullDeref | Some a \<Rightarrow> Inr a)"

definition rd_str :: "heap \<Rightarrow> nat \<Rightarrow> cstr res" where
  "rd_str h a = (case strs h a of None \<Rightarrow> Inl UseAfterFree | Some s \<Rightarrow> Inr s)"

definition rd_opt_str :: "heap \<Rightarrow> nat option \<Rightarrow> cstr option res" where
  "rd_opt_str h p = (case p of None \<Rightarrow> Inr None | Some a \<Rightarrow> bind_res (rd_str h a) (\<lambda>s. Inr (Some s)))"

definition free_item :: "nat \<Rightarrow> heap \<Rightarrow> heap res" where
  "free_item a h = (case items h a of None \<Rightarrow> Inl InvalidFree
     | Some _ \<Rightarrow> Inr (h\<lparr>items := (items h)(a := None), hooks := deallocate (hooks h)\<rparr>))"

definition free_str :: "nat \<Rightarrow> heap \<Rightarrow> heap res" where
  "free_str a h = (case strs h a of None \<Rightarrow> Inl InvalidFree
     | Some _ \<Rightarrow> Inr (h\<lparr>strs := (strs h)(a := None), hooks := deallocate (hooks h)\<rparr>))"

definition free_opt_str :: "nat option \<Rightarrow> heap \<Rightarrow> heap res" where
  "free_opt_str p h = (case p of None \<Rightarrow> Inr h | Some a \<Rightarrow> free_str a h)"

section \<open>Creating and deleting items\<close>

definition new_item :: "heap \<Rightarrow> nat option \<times> heap" where
  "new_item h =
     (case allocate (hooks h) 64 of
        (k, None) \<Rightarrow> (None, h\<lparr>hooks := k\<rparr>)
      | (k, Some _) \<Rightarrow>
          (Some (requests (hooks h)),
           h\<lparr>items := (items h)(requests (hooks h) \<mapsto> zero_node), hooks := k\<rparr>))"

definition strdup :: "nat option \<Rightarrow> heap \<Rightarrow> (nat option \<times> heap) res" where
  "strdup p h =
     (case p of
        None \<Rightarrow> Inr (None, h)
      | Some a \<Rightarrow>
          bind_res (rd_str h a) (\<lambda>s.
          case allocate (hooks h) (length s + 1) of
            (k, None) \<Rightarrow> Inr (None, h\<lparr>hooks := k\<rparr>)
          | (k, Some _) \<Rightarrow>
              Inr (Some (requests (hooks h)),
                   h\<lparr>strs := (strs h)(requests (hooks h) \<mapsto> s), hooks := k\<rparr>)))"

text \<open>The loop of \<open>cJSON_Delete\<close> and its recursion.\<close>

fun delete_loop :: "nat \<Rightarrow> nat option \<Rightarrow> heap \<Rightarrow> heap res option" where
  "delete_loop 0 item h = None"
| "delete_loop (Suc k) None h = ret h"
| "delete_loop (Suc k) (Some a) h =
     bind_run (Some (rd_item h a)) (\<lambda>n.
     let next_item = nnext n in
     bind_run
       (if ntype n AND cJSON_IsReference = 0 \<and> nchild n \<noteq> None then delete_loop k (nchild n) h else ret h) (\<lambda>h.
     bind_run (Some (rd_item h a)) (\<lambda>n.
     bind_run
       (if ntype n AND cJSON_IsReference = 0 then Some (free_opt_str (nvaluestring n) h) else ret h) (\<lambda>h.
     bind_run
       (if ntype n AND cJSON_StringIsConst = 0 then Some (free_opt_str (nstring n) h) else ret h) (\<lambda>h.
     bind_run (Some (free_item a h)) (\<lambda>h.
     delete_loop k next_item h))))))"

definition Delete :: "nat option \<Rightarrow> heap \<Rightarrow> heap res option" where
  "Delete item h = delete_loop (fuel h) item h"

section \<open>Looking up children\<close>

fun size_loop :: "nat \<Rightarrow> heap \<Rightarrow> nat option \<Rightarrow> nat \<Rightarrow> nat res option" where
  "size_loop 0 h c n = None"
| "size_loop (Suc k) h None n = ret n"
| "size_loop (Suc k) h (Some a) n = bind_run (Some (rd_item h a)) (\<lambda>x. size_loop k h (nnext x) (n + 1))"

text \<open>The conversion of the \<open>size_t\<close> to \<open>int\<close> keeps the low 32 bits.\<close>

definition cJSON_GetArraySize :: "nat option \<Rightarrow> heap \<Rightarrow> int res option" where
  "cJSON_GetArraySize array h =
     (case array of
        None \<Rightarrow> ret 0
      | Some a \<Rightarrow>
          bind_run (Some (rd_item h a)) (\<lambda>n.
          bind_run (size_loop (fuel h) h (nchild n) 0) (\<lambda>k.
          ret (sint (word_of_nat k :: u32)))))"

fun item_loop :: "nat \<Rightarrow> heap \<Rightarrow> nat option \<Rightarrow> nat \<Rightarrow> nat option res option" where
  "item_loop 0 h c index = None"
| "item_loop (Suc k) h None index = ret None"
| "item_loop (Suc k) h (Some a) index =
     (if 0 < index then bind_run (Some (rd_item h a)) (\<lambda>x. item_loop k h (nnext x) (index - 1))
      else ret (Some a))"

definition get_array_item :: "nat option \<Rightarrow> nat \<Rightarrow> heap \<Rightarrow> nat option res option" where
  "get_array_item array index h =
     (case array of
        None \<Rightarrow> ret None
      | Some a \<Rightarrow> bind_run (Some (rd_item h a)) (\<lambda>n. item_loop (fuel h) h (nchild n) index))"

definition cJSON_GetArrayItem :: "nat option \<Rightarrow> int \<Rightarrow> heap \<Rightarrow> nat option res option" where
  "cJSON_GetArrayItem array index h = (if index < 0 then ret None else get_array_item array (nat index) h)"

text \<open>The loops that look for a name; the test is whether the loop goes on.\<close>

definition name_differs :: "bool \<Rightarrow> cstr \<Rightarrow> cstr option \<Rightarrow> bool" where
  "name_differs case_sensitive name s =
     (if case_sensitive then s \<noteq> None \<and> s \<noteq> Some name
      else case_insensitive_strcmp (Some name) s \<noteq> 0)"

fun name_loop :: "nat \<Rightarrow> bool \<Rightarrow> heap \<Rightarrow> nat \<Rightarrow> nat option \<Rightarrow> nat option res option" where
  "name_loop 0 case_sensitive h name c = None"
| "name_loop (Suc k) case_sensitive h name None = ret None"
| "name_loop (Suc k) case_sensitive h name (Some a) =
     bind_run (Some (rd_item h a)) (\<lambda>x.
     bind_run (Some (rd_opt_str h (nstring x))) (\<lambda>s.
     bind_run (Some (if s = None then Inr [] else rd_str h name)) (\<lambda>w.
     if name_differs case_sensitive w s then name_loop k case_sensitive h name (nnext x)
     else if s = None then ret None
     else ret (Some a))))"

definition get_object_item :: "nat option \<Rightarrow> nat option \<Rightarrow> bool \<Rightarrow> heap \<Rightarrow> nat option res option" where
  "get_object_item object name case_sensitive h =
     (case (object, name) of
        (Some a, Some p) \<Rightarrow>
          bind_run (Some (rd_item h a)) (\<lambda>n. name_loop (fuel h) case_sensitive h p (nchild n))
      | _ \<Rightarrow> ret None)"

definition cJSON_GetObjectItem :: "nat option \<Rightarrow> nat option \<Rightarrow> heap \<Rightarrow> nat option res option" where
  "cJSON_GetObjectItem object string h = get_object_item object string False h"

definition cJSON_GetObjectItemCaseSensitive :: "nat option \<Rightarrow> nat option \<Rightarrow> heap \<Rightarrow> nat option res option" where
  "cJSON_GetObjectItemCaseSensitive object string h = get_object_item object string True h"

definition cJSON_HasObjectItem :: "nat option \<Rightarrow> nat option \<Rightarrow> heap \<Rightarrow> bool res option" where
  "cJSON_HasObjectItem object string h =
     bind_run (cJSON_GetObjectItem object string h) (\<lambda>p. ret (p \<noteq> None))"

section \<open>Adding children\<close>

definition suffix_object :: "nat \<Rightarrow> nat \<Rightarrow> heap \<Rightarrow> heap res" where
  "suffix_object prev item h =
     bind_res (upd_item prev (\<lambda>n. n\<lparr>nnext := Some item\<rparr>) h) (\<lambda>h.
     upd_item item (\<lambda>n. n\<lparr>nprev := Some prev\<rparr>) h)"

definition create_reference :: "nat option \<Rightarrow> heap \<Rightarrow> (nat option \<times> heap) res" where
  "create_reference item h =
     (case item of
        None \<Rightarrow> Inr (None, h)
      | Some i \<Rightarrow>
          (case new_item h of
             (None, h) \<Rightarrow> Inr (None, h)
           | (Some r, h) \<Rightarrow>
               bind_res (rd_item h i) (\<lambda>n.
               bind_res
                 (upd_item r (\<lambda>_. n\<lparr>nstring := None, ntype := ntype n OR cJSON_IsReference,
                                     nnext := None, nprev := None\<rparr>) h) (\<lambda>h.
               Inr (Some r, h)))))"

fun last_loop :: "nat \<Rightarrow> heap \<Rightarrow> nat \<Rightarrow> nat res option" where
  "last_loop 0 h a = None"
| "last_loop (Suc k) h a =
     bind_run (Some (rd_item h a)) (\<lambda>n.
     case nnext n of None \<Rightarrow> ret a | Some b \<Rightarrow> last_loop k h b)"

definition add_item_to_array :: "nat option \<Rightarrow> nat option \<Rightarrow> heap \<Rightarrow> (bool \<times> heap) res option" where
  "add_item_to_array array item h =
     (case (array, item) of
        (Some a, Some i) \<Rightarrow>
          bind_run (Some (rd_item h a)) (\<lambda>n.
          case nchild n of
            None \<Rightarrow> bind_run (Some (upd_item a (\<lambda>n. n\<lparr>nchild := Some i\<rparr>) h)) (\<lambda>h. ret (True, h))
          | Some c \<Rightarrow>
              bind_run (last_loop (fuel h) h c) (\<lambda>l.
              bind_run (Some (suffix_object l i h)) (\<lambda>h. ret (True, h))))
      | _ \<Rightarrow> ret (False, h))"

definition cJSON_AddItemToArray :: "nat option \<Rightarrow> nat option \<Rightarrow> heap \<Rightarrow> heap res option" where
  "cJSON_AddItemToArray array item h = bind_run (add_item_to_array array item h) (\<lambda>(_, h). ret h)"

text \<open>
  Setting the name of an item, as \<open>add_item_to_object\<close> does before it adds the item: the new key and
  type are determined first, then the old name is given back.
\<close>

definition make_key :: "nat \<Rightarrow> node \<Rightarrow> bool \<Rightarrow> heap \<Rightarrow> ((nat \<times> int) option \<times> heap) res" where
  "make_key string n constant_key h =
     (if constant_key then Inr (Some (string, ntype n OR cJSON_StringIsConst), h)
      else
        bind_res (strdup (Some string) h) (\<lambda>(key, h).
        case key of
          None \<Rightarrow> Inr (None, h)
        | Some k \<Rightarrow> Inr (Some (k, ntype n AND NOT cJSON_StringIsConst), h)))"

definition add_item_to_object ::
  "nat option \<Rightarrow> nat option \<Rightarrow> nat option \<Rightarrow> bool \<Rightarrow> heap \<Rightarrow> (bool \<times> heap) res option" where
  "add_item_to_object object string item constant_key h =
     (case (object, string, item) of
        (Some ob, Some s, Some i) \<Rightarrow>
          bind_run (Some (rd_item h i)) (\<lambda>n.
          bind_run (Some (make_key s n constant_key h)) (\<lambda>(key, h).
          case key of
            None \<Rightarrow> ret (False, h)
          | Some (new_key, new_type) \<Rightarrow>
              bind_run
                (if ntype n AND cJSON_StringIsConst = 0 then Some (free_opt_str (nstring n) h) else ret h) (\<lambda>h.
              bind_run
                (Some (upd_item i (\<lambda>n. n\<lparr>nstring := Some new_key, ntype := new_type\<rparr>) h)) (\<lambda>h.
              add_item_to_array object item h))))
      | _ \<Rightarrow> ret (False, h))"

definition cJSON_AddItemToObject :: "nat option \<Rightarrow> nat option \<Rightarrow> nat option \<Rightarrow> heap \<Rightarrow> heap res option" where
  "cJSON_AddItemToObject object string item h =
     bind_run (add_item_to_object object string item False h) (\<lambda>(_, h). ret h)"

definition cJSON_AddItemToObjectCS :: "nat option \<Rightarrow> nat option \<Rightarrow> nat option \<Rightarrow> heap \<Rightarrow> heap res option" where
  "cJSON_AddItemToObjectCS object string item h =
     bind_run (add_item_to_object object string item True h) (\<lambda>(_, h). ret h)"

definition cJSON_AddItemReferenceToArray :: "nat option \<Rightarrow> nat option \<Rightarrow> heap \<Rightarrow> heap res option" where
  "cJSON_AddItemReferenceToArray array item h =
     (if array = None then ret h
      else
        bind_run (Some (create_reference item h)) (\<lambda>(r, h).
        bind_run (add_item_to_array array r h) (\<lambda>(_, h). ret h)))"

definition cJSON_AddItemReferenceToObject ::
  "nat option \<Rightarrow> nat option \<Rightarrow> nat option \<Rightarrow> heap \<Rightarrow> heap res option" where
  "cJSON_AddItemReferenceToObject object string item h =
     (if object = None \<or> string = None then ret h
      else
        bind_run (Some (create_reference item h)) (\<lambda>(r, h).
        bind_run (add_item_to_object object string r False h) (\<lambda>(_, h). ret h)))"


section \<open>Constructors\<close>

text \<open>The pattern of the simple ones: a new item with some fields set.\<close>

definition create_with :: "(node \<Rightarrow> node) \<Rightarrow> heap \<Rightarrow> (nat option \<times> heap) res" where
  "create_with f h =
     (case new_item h of
        (None, h) \<Rightarrow> Inr (None, h)
      | (Some a, h) \<Rightarrow> bind_res (upd_item a f h) (\<lambda>h. Inr (Some a, h)))"

definition cJSON_CreateNull :: "heap \<Rightarrow> (nat option \<times> heap) res" where
  "cJSON_CreateNull = create_with (\<lambda>n. n\<lparr>ntype := cJSON_NULL\<rparr>)"

definition cJSON_CreateTrue :: "heap \<Rightarrow> (nat option \<times> heap) res" where
  "cJSON_CreateTrue = create_with (\<lambda>n. n\<lparr>ntype := cJSON_True\<rparr>)"

definition cJSON_CreateFalse :: "heap \<Rightarrow> (nat option \<times> heap) res" where
  "cJSON_CreateFalse = create_with (\<lambda>n. n\<lparr>ntype := cJSON_False\<rparr>)"

definition cJSON_CreateBool :: "bool \<Rightarrow> heap \<Rightarrow> (nat option \<times> heap) res" where
  "cJSON_CreateBool b = create_with (\<lambda>n. n\<lparr>ntype := (if b then cJSON_True else cJSON_False)\<rparr>)"

definition cJSON_CreateNumber :: "double \<Rightarrow> heap \<Rightarrow> (nat option \<times> heap) res" where
  "cJSON_CreateNumber num h =
     (case new_item h of
        (None, h) \<Rightarrow> Inr (None, h)
      | (Some a, h) \<Rightarrow>
          bind_res (saturated_int num) (\<lambda>i.
          bind_res
            (upd_item a (\<lambda>n. n\<lparr>ntype := cJSON_Number, nvaluedouble := num, nvalueint := i\<rparr>) h) (\<lambda>h.
          Inr (Some a, h))))"

text \<open>\<open>cJSON_CreateString\<close> and \<open>cJSON_CreateRaw\<close> differ in the type only.\<close>

definition create_text :: "int \<Rightarrow> nat option \<Rightarrow> heap \<Rightarrow> (nat option \<times> heap) res option" where
  "create_text t string h =
     (case new_item h of
        (None, h) \<Rightarrow> ret (None, h)
      | (Some a, h) \<Rightarrow>
          bind_run (Some (strdup string h)) (\<lambda>(v, h).
          bind_run (Some (upd_item a (\<lambda>n. n\<lparr>ntype := t, nvaluestring := v\<rparr>) h)) (\<lambda>h.
          if v = None then bind_run (Delete (Some a) h) (\<lambda>h. ret (None, h))
          else ret (Some a, h))))"

definition cJSON_CreateString :: "nat option \<Rightarrow> heap \<Rightarrow> (nat option \<times> heap) res option" where
  "cJSON_CreateString = create_text cJSON_String"

definition cJSON_CreateRaw :: "nat option \<Rightarrow> heap \<Rightarrow> (nat option \<times> heap) res option" where
  "cJSON_CreateRaw = create_text cJSON_Raw"

definition cJSON_CreateStringReference :: "nat option \<Rightarrow> heap \<Rightarrow> (nat option \<times> heap) res" where
  "cJSON_CreateStringReference string =
     create_with (\<lambda>n. n\<lparr>ntype := cJSON_String OR cJSON_IsReference, nvaluestring := string\<rparr>)"

definition cJSON_CreateObjectReference :: "nat option \<Rightarrow> heap \<Rightarrow> (nat option \<times> heap) res" where
  "cJSON_CreateObjectReference child_item =
     create_with (\<lambda>n. n\<lparr>ntype := cJSON_Object OR cJSON_IsReference, nchild := child_item\<rparr>)"

definition cJSON_CreateArrayReference :: "nat option \<Rightarrow> heap \<Rightarrow> (nat option \<times> heap) res" where
  "cJSON_CreateArrayReference child_item =
     create_with (\<lambda>n. n\<lparr>ntype := cJSON_Array OR cJSON_IsReference, nchild := child_item\<rparr>)"

definition cJSON_CreateArray :: "heap \<Rightarrow> (nat option \<times> heap) res" where
  "cJSON_CreateArray = create_with (\<lambda>n. n\<lparr>ntype := cJSON_Array\<rparr>)"

definition cJSON_CreateObject :: "heap \<Rightarrow> (nat option \<times> heap) res" where
  "cJSON_CreateObject = create_with (\<lambda>n. n\<lparr>ntype := cJSON_Object\<rparr>)"

section \<open>Arrays from values\<close>

text \<open>
  The loop shared by the functions that build an array: the number of elements still to be made, the
  values left where the pointer points to, the array and the item made last. Its first argument is
  the constructor of an element. Reading past the values is out of bounds.
\<close>

fun fill_loop :: "('v \<Rightarrow> heap \<Rightarrow> (nat option \<times> heap) res option) \<Rightarrow> nat \<Rightarrow> 'v list \<Rightarrow> nat \<Rightarrow> nat option \<Rightarrow> heap \<Rightarrow>
  (nat option \<times> heap) res option" where
  "fill_loop create 0 vs a p h = ret (Some a, h)"
| "fill_loop create (Suc k) [] a p h = Some (Inl OutOfBounds)"
| "fill_loop create (Suc k) (v # vs) a p h =
     bind_run (create v h) (\<lambda>(n, h).
     case n of
       None \<Rightarrow> bind_run (Delete (Some a) h) (\<lambda>h. ret (None, h))
     | Some n \<Rightarrow>
         bind_run
           (Some (case p of
                    None \<Rightarrow> upd_item a (\<lambda>x. x\<lparr>nchild := Some n\<rparr>) h
                  | Some p \<Rightarrow> suffix_object p n h)) (\<lambda>h.
         fill_loop create k vs a (Some n) h))"

definition create_array_of :: "('v \<Rightarrow> heap \<Rightarrow> (nat option \<times> heap) res option) \<Rightarrow> 'v list option \<Rightarrow> int \<Rightarrow> heap \<Rightarrow>
  (nat option \<times> heap) res option" where
  "create_array_of create numbers count h =
     (case numbers of
        None \<Rightarrow> ret (None, h)
      | Some vs \<Rightarrow>
          if count < 0 then ret (None, h)
          else
            bind_run (Some (cJSON_CreateArray h)) (\<lambda>(a, h).
            case a of
              None \<Rightarrow> ret (None, h)
            | Some a \<Rightarrow> fill_loop create (nat count) vs a None h))"

definition cJSON_CreateIntArray :: "int list option \<Rightarrow> int \<Rightarrow> heap \<Rightarrow> (nat option \<times> heap) res option" where
  "cJSON_CreateIntArray = create_array_of (\<lambda>v h. Some (cJSON_CreateNumber (double_of_int v) h))"

text \<open>Every \<open>float\<close> is a \<open>double\<close>.\<close>

definition cJSON_CreateFloatArray :: "double list option \<Rightarrow> int \<Rightarrow> heap \<Rightarrow> (nat option \<times> heap) res option" where
  "cJSON_CreateFloatArray = create_array_of (\<lambda>v h. Some (cJSON_CreateNumber v h))"

definition cJSON_CreateDoubleArray :: "double list option \<Rightarrow> int \<Rightarrow> heap \<Rightarrow> (nat option \<times> heap) res option" where
  "cJSON_CreateDoubleArray = create_array_of (\<lambda>v h. Some (cJSON_CreateNumber v h))"

definition cJSON_CreateStringArray :: "nat option list option \<Rightarrow> int \<Rightarrow> heap \<Rightarrow> (nat option \<times> heap) res option" where
  "cJSON_CreateStringArray = create_array_of cJSON_CreateString"

section \<open>Adding new members\<close>

text \<open>The pattern of the \<open>cJSON_Add...ToObject\<close> functions: an item that cannot be added is deleted.\<close>

definition add_new :: "(nat option \<times> heap) res option \<Rightarrow> nat option \<Rightarrow> nat option \<Rightarrow> (nat option \<times> heap) res option" where
  "add_new created object name =
     bind_run created (\<lambda>(item, h).
     bind_run (add_item_to_object object name item False h) (\<lambda>(ok, h).
     if ok then ret (item, h)
     else bind_run (Delete item h) (\<lambda>h. ret (None, h))))"

definition cJSON_AddNullToObject :: "nat option \<Rightarrow> nat option \<Rightarrow> heap \<Rightarrow> (nat option \<times> heap) res option" where
  "cJSON_AddNullToObject object name h = add_new (Some (cJSON_CreateNull h)) object name"

definition cJSON_AddTrueToObject :: "nat option \<Rightarrow> nat option \<Rightarrow> heap \<Rightarrow> (nat option \<times> heap) res option" where
  "cJSON_AddTrueToObject object name h = add_new (Some (cJSON_CreateTrue h)) object name"

definition cJSON_AddFalseToObject :: "nat option \<Rightarrow> nat option \<Rightarrow> heap \<Rightarrow> (nat option \<times> heap) res option" where
  "cJSON_AddFalseToObject object name h = add_new (Some (cJSON_CreateFalse h)) object name"

definition cJSON_AddBoolToObject :: "nat option \<Rightarrow> nat option \<Rightarrow> bool \<Rightarrow> heap \<Rightarrow> (nat option \<times> heap) res option" where
  "cJSON_AddBoolToObject object name boolean h = add_new (Some (cJSON_CreateBool boolean h)) object name"

definition cJSON_AddNumberToObject :: "nat option \<Rightarrow> nat option \<Rightarrow> double \<Rightarrow> heap \<Rightarrow> (nat option \<times> heap) res option" where
  "cJSON_AddNumberToObject object name number h = add_new (Some (cJSON_CreateNumber number h)) object name"

definition cJSON_AddStringToObject :: "nat option \<Rightarrow> nat option \<Rightarrow> nat option \<Rightarrow> heap \<Rightarrow> (nat option \<times> heap) res option" where
  "cJSON_AddStringToObject object name string h = add_new (cJSON_CreateString string h) object name"

definition cJSON_AddRawToObject :: "nat option \<Rightarrow> nat option \<Rightarrow> nat option \<Rightarrow> heap \<Rightarrow> (nat option \<times> heap) res option" where
  "cJSON_AddRawToObject object name raw h = add_new (cJSON_CreateRaw raw h) object name"

definition cJSON_AddObjectToObject :: "nat option \<Rightarrow> nat option \<Rightarrow> heap \<Rightarrow> (nat option \<times> heap) res option" where
  "cJSON_AddObjectToObject object name h = add_new (Some (cJSON_CreateObject h)) object name"

definition cJSON_AddArrayToObject :: "nat option \<Rightarrow> nat option \<Rightarrow> heap \<Rightarrow> (nat option \<times> heap) res option" where
  "cJSON_AddArrayToObject object name h = add_new (Some (cJSON_CreateArray h)) object name"

end
