(* ===== verification/CJsonEdit.thy ===== *)
theory CJsonEdit
  imports CJsonHeap
begin

text \<open>
  Detaching, inserting, replacing, duplicating and comparing items on the heap
  (\<open>cJSON.c\<close>), and the tests for the type of an item. Fields are read again after every
  write, since pointers may be equal.
\<close>

section \<open>Detaching\<close>

definition cJSON_DetachItemViaPointer :: "nat option \<Rightarrow> nat option \<Rightarrow> heap \<Rightarrow> (nat option \<times> heap) res" where
  "cJSON_DetachItemViaPointer parent item h =
     (case (parent, item) of
        (Some p, Some i) \<Rightarrow>
          bind_res (rd_item h i) (\<lambda>n.
          bind_res
            (case nprev n of None \<Rightarrow> Inr h | Some b \<Rightarrow> upd_item b (\<lambda>m. m\<lparr>nnext := nnext n\<rparr>) h) (\<lambda>h.
          bind_res (rd_item h i) (\<lambda>n.
          bind_res
            (case nnext n of None \<Rightarrow> Inr h | Some b \<Rightarrow> upd_item b (\<lambda>m. m\<lparr>nprev := nprev n\<rparr>) h) (\<lambda>h.
          bind_res (rd_item h p) (\<lambda>q.
          bind_res
            (if nchild q = Some i
             then bind_res (rd_item h i) (\<lambda>n. upd_item p (\<lambda>q. q\<lparr>nchild := nnext n\<rparr>) h)
             else Inr h) (\<lambda>h.
          bind_res (upd_item i (\<lambda>n. n\<lparr>nprev := None, nnext := None\<rparr>) h) (\<lambda>h.
          Inr (Some i, h))))))))
      | _ \<Rightarrow> Inr (None, h))"

definition cJSON_DetachItemFromArray :: "nat option \<Rightarrow> int \<Rightarrow> heap \<Rightarrow> (nat option \<times> heap) res option" where
  "cJSON_DetachItemFromArray array which h =
     (if which < 0 then ret (None, h)
      else
        bind_run (get_array_item array (nat which) h) (\<lambda>i.
        Some (cJSON_DetachItemViaPointer array i h)))"

definition cJSON_DeleteItemFromArray :: "nat option \<Rightarrow> int \<Rightarrow> heap \<Rightarrow> heap res option" where
  "cJSON_DeleteItemFromArray array which h =
     bind_run (cJSON_DetachItemFromArray array which h) (\<lambda>(i, h). Delete i h)"

definition cJSON_DetachItemFromObject :: "nat option \<Rightarrow> nat option \<Rightarrow> heap \<Rightarrow> (nat option \<times> heap) res option" where
  "cJSON_DetachItemFromObject object string h =
     bind_run (cJSON_GetObjectItem object string h) (\<lambda>to_detach.
     Some (cJSON_DetachItemViaPointer object to_detach h))"

definition cJSON_DetachItemFromObjectCaseSensitive ::
  "nat option \<Rightarrow> nat option \<Rightarrow> heap \<Rightarrow> (nat option \<times> heap) res option" where
  "cJSON_DetachItemFromObjectCaseSensitive object string h =
     bind_run (cJSON_GetObjectItemCaseSensitive object string h) (\<lambda>to_detach.
     Some (cJSON_DetachItemViaPointer object to_detach h))"

definition cJSON_DeleteItemFromObject :: "nat option \<Rightarrow> nat option \<Rightarrow> heap \<Rightarrow> heap res option" where
  "cJSON_DeleteItemFromObject object string h =
     bind_run (cJSON_DetachItemFromObject object string h) (\<lambda>(i, h). Delete i h)"

definition cJSON_DeleteItemFromObjectCaseSensitive :: "nat option \<Rightarrow> nat option \<Rightarrow> heap \<Rightarrow> heap res option" where
  "cJSON_DeleteItemFromObjectCaseSensitive object string h =
     bind_run (cJSON_DetachItemFromObjectCaseSensitive object string h) (\<lambda>(i, h). Delete i h)"

section \<open>Inserting and replacing\<close>

text \<open>The part of \<open>cJSON_InsertItemInArray\<close> that links the new item in before another one.\<close>

definition insert_before :: "nat \<Rightarrow> nat \<Rightarrow> nat option \<Rightarrow> heap \<Rightarrow> heap res" where
  "insert_before a after_inserted newitem h =
     bind_res (deref newitem) (\<lambda>i.
     bind_res (upd_item i (\<lambda>n. n\<lparr>nnext := Some after_inserted\<rparr>) h) (\<lambda>h.
     bind_res (rd_item h after_inserted) (\<lambda>m.
     bind_res (upd_item i (\<lambda>n. n\<lparr>nprev := nprev m\<rparr>) h) (\<lambda>h.
     bind_res (upd_item after_inserted (\<lambda>m. m\<lparr>nprev := Some i\<rparr>) h) (\<lambda>h.
     bind_res (rd_item h a) (\<lambda>q.
     if nchild q = Some after_inserted then upd_item a (\<lambda>q. q\<lparr>nchild := Some i\<rparr>) h
     else
       bind_res (rd_item h i) (\<lambda>n.
       bind_res (deref (nprev n)) (\<lambda>b.
       upd_item b (\<lambda>m. m\<lparr>nnext := Some i\<rparr>) h))))))))"

definition cJSON_InsertItemInArray :: "nat option \<Rightarrow> int \<Rightarrow> nat option \<Rightarrow> heap \<Rightarrow> heap res option" where
  "cJSON_InsertItemInArray array which newitem h =
     (if which < 0 then ret h
      else
        bind_run (get_array_item array (nat which) h) (\<lambda>after_inserted.
        case after_inserted of
          None \<Rightarrow> bind_run (add_item_to_array array newitem h) (\<lambda>(_, h). ret h)
        | Some b \<Rightarrow> bind_run (Some (deref array)) (\<lambda>a. Some (insert_before a b newitem h))))"

text \<open>The part of \<open>cJSON_ReplaceItemViaPointer\<close> that rewires the pointers.\<close>

definition replace_links :: "nat \<Rightarrow> nat \<Rightarrow> nat \<Rightarrow> heap \<Rightarrow> heap res" where
  "replace_links p i r h =
     bind_res (rd_item h i) (\<lambda>n.
     bind_res (upd_item r (\<lambda>m. m\<lparr>nnext := nnext n\<rparr>) h) (\<lambda>h.
     bind_res (rd_item h i) (\<lambda>n.
     bind_res (upd_item r (\<lambda>m. m\<lparr>nprev := nprev n\<rparr>) h) (\<lambda>h.
     bind_res (rd_item h r) (\<lambda>m.
     bind_res (case nnext m of None \<Rightarrow> Inr h | Some b \<Rightarrow> upd_item b (\<lambda>x. x\<lparr>nprev := Some r\<rparr>) h) (\<lambda>h.
     bind_res (rd_item h r) (\<lambda>m.
     bind_res (case nprev m of None \<Rightarrow> Inr h | Some b \<Rightarrow> upd_item b (\<lambda>x. x\<lparr>nnext := Some r\<rparr>) h) (\<lambda>h.
     bind_res (rd_item h p) (\<lambda>q.
     bind_res (if nchild q = Some i then upd_item p (\<lambda>q. q\<lparr>nchild := Some r\<rparr>) h else Inr h) (\<lambda>h.
     upd_item i (\<lambda>n. n\<lparr>nnext := None, nprev := None\<rparr>) h))))))))))"

definition cJSON_ReplaceItemViaPointer ::
  "nat option \<Rightarrow> nat option \<Rightarrow> nat option \<Rightarrow> heap \<Rightarrow> (bool \<times> heap) res option" where
  "cJSON_ReplaceItemViaPointer parent item replacement h =
     (case (parent, replacement, item) of
        (Some p, Some r, Some i) \<Rightarrow>
          if r = i then ret (True, h)
          else
            bind_run (Some (replace_links p i r h)) (\<lambda>h.
            bind_run (Delete (Some i) h) (\<lambda>h. ret (True, h)))
      | _ \<Rightarrow> ret (False, h))"

definition cJSON_ReplaceItemInArray :: "nat option \<Rightarrow> int \<Rightarrow> nat option \<Rightarrow> heap \<Rightarrow> heap res option" where
  "cJSON_ReplaceItemInArray array which newitem h =
     (if which < 0 then ret h
      else
        bind_run (get_array_item array (nat which) h) (\<lambda>i.
        bind_run (cJSON_ReplaceItemViaPointer array i newitem h) (\<lambda>(_, h). ret h)))"

definition replace_item_in_object ::
  "nat option \<Rightarrow> nat option \<Rightarrow> nat option \<Rightarrow> bool \<Rightarrow> heap \<Rightarrow> (bool \<times> heap) res option" where
  "replace_item_in_object object string replacement case_sensitive h =
     (case (replacement, string) of
        (Some r, Some _) \<Rightarrow>
          bind_run (Some (rd_item h r)) (\<lambda>n.
          bind_run
            (if ntype n AND cJSON_StringIsConst = 0 then Some (free_opt_str (nstring n) h) else ret h) (\<lambda>h.
          bind_run (Some (strdup string h)) (\<lambda>(key, h).
          bind_run
            (Some (upd_item r (\<lambda>n. n\<lparr>nstring := key, ntype := ntype n AND NOT cJSON_StringIsConst\<rparr>) h)) (\<lambda>h.
          bind_run (get_object_item object string case_sensitive h) (\<lambda>i.
          bind_run (cJSON_ReplaceItemViaPointer object i replacement h) (\<lambda>(_, h).
          ret (True, h)))))))
      | _ \<Rightarrow> ret (False, h))"

definition cJSON_ReplaceItemInObject :: "nat option \<Rightarrow> nat option \<Rightarrow> nat option \<Rightarrow> heap \<Rightarrow> heap res option" where
  "cJSON_ReplaceItemInObject object string newitem h =
     bind_run (replace_item_in_object object string newitem False h) (\<lambda>(_, h). ret h)"

definition cJSON_ReplaceItemInObjectCaseSensitive ::
  "nat option \<Rightarrow> nat option \<Rightarrow> nat option \<Rightarrow> heap \<Rightarrow> heap res option" where
  "cJSON_ReplaceItemInObjectCaseSensitive object string newitem h =
     bind_run (replace_item_in_object object string newitem True h) (\<lambda>(_, h). ret h)"

section \<open>Duplicating\<close>

text \<open>
  The first half of \<open>cJSON_Duplicate\<close>: the new item with its fields copied. \<open>Inl\<close> is the item
  to be deleted when a string could not be copied.
\<close>

definition duplicate_fields :: "nat \<Rightarrow> heap \<Rightarrow> ((nat option + nat) \<times> heap) res" where
  "duplicate_fields i h =
     (case new_item h of
        (None, h) \<Rightarrow> Inr (Inl None, h)
      | (Some a, h) \<Rightarrow>
          bind_res (rd_item h i) (\<lambda>n.
          bind_res
            (upd_item a (\<lambda>m. m\<lparr>ntype := ntype n AND NOT cJSON_IsReference, nvalueint := nvalueint n,
                                nvaluedouble := nvaluedouble n\<rparr>) h) (\<lambda>h.
          bind_res (strdup (nvaluestring n) h) (\<lambda>(v, h).
          bind_res (upd_item a (\<lambda>m. m\<lparr>nvaluestring := v\<rparr>) h) (\<lambda>h.
          if nvaluestring n \<noteq> None \<and> v = None then Inr (Inl (Some a), h)
          else
            bind_res
              (if ntype n AND cJSON_StringIsConst \<noteq> 0 then Inr (nstring n, h) else strdup (nstring n) h) (\<lambda>(s, h).
            bind_res (upd_item a (\<lambda>m. m\<lparr>nstring := s\<rparr>) h) (\<lambda>h.
            if nstring n \<noteq> None \<and> s = None then Inr (Inl (Some a), h)
            else Inr (Inr a, h))))))))"

text \<open>Deleting what has been made of the copy and returning null.\<close>

definition duplicate_fail :: "nat option \<Rightarrow> heap \<Rightarrow> (nat option \<times> heap) res option" where
  "duplicate_fail newitem h = bind_run (Delete newitem h) (\<lambda>h. ret (None, h))"

fun duplicate_item :: "nat \<Rightarrow> nat option \<Rightarrow> bool \<Rightarrow> heap \<Rightarrow> (nat option \<times> heap) res option"
and duplicate_children :: "nat \<Rightarrow> nat \<Rightarrow> nat option \<Rightarrow> nat option \<Rightarrow> heap \<Rightarrow> (nat option \<times> heap) res option" where
  "duplicate_item 0 item recurse h = None"
| "duplicate_item (Suc k) None recurse h = ret (None, h)"
| "duplicate_item (Suc k) (Some i) recurse h =
     bind_run (Some (duplicate_fields i h)) (\<lambda>(r, h).
     case r of
       Inl newitem \<Rightarrow> duplicate_fail newitem h
     | Inr a \<Rightarrow>
         if \<not> recurse then ret (Some a, h)
         else
           bind_run (Some (rd_item h i)) (\<lambda>n.
           duplicate_children k a (nchild n) None h))"
| "duplicate_children 0 a c p h = None"
| "duplicate_children (Suc k) a None p h = ret (Some a, h)"
| "duplicate_children (Suc k) a (Some c) p h =
     bind_run (duplicate_item k (Some c) True h) (\<lambda>(newchild, h).
     case newchild of
       None \<Rightarrow> duplicate_fail (Some a) h
     | Some b \<Rightarrow>
         bind_run
           (Some (case p of
                    None \<Rightarrow> upd_item a (\<lambda>m. m\<lparr>nchild := Some b\<rparr>) h
                  | Some p \<Rightarrow>
                      bind_res (upd_item p (\<lambda>m. m\<lparr>nnext := Some b\<rparr>) h) (\<lambda>h.
                      upd_item b (\<lambda>m. m\<lparr>nprev := Some p\<rparr>) h))) (\<lambda>h.
         bind_run (Some (rd_item h c)) (\<lambda>n.
         duplicate_children k a (nnext n) (Some b) h)))"

text \<open>An item and its chain of children take one step each.\<close>

definition cJSON_Duplicate :: "nat option \<Rightarrow> bool \<Rightarrow> heap \<Rightarrow> (nat option \<times> heap) res option" where
  "cJSON_Duplicate item recurse h = duplicate_item (2 * fuel h) item recurse h"

section \<open>Tests for the type\<close>

definition type_is :: "int \<Rightarrow> nat option \<Rightarrow> heap \<Rightarrow> bool res" where
  "type_is t item h =
     (case item of None \<Rightarrow> Inr False | Some a \<Rightarrow> bind_res (rd_item h a) (\<lambda>n. Inr (ntype n AND 0xFF = t)))"

definition cJSON_IsInvalid :: "nat option \<Rightarrow> heap \<Rightarrow> bool res" where
  "cJSON_IsInvalid = type_is cJSON_Invalid"
definition cJSON_IsFalse :: "nat option \<Rightarrow> heap \<Rightarrow> bool res" where
  "cJSON_IsFalse = type_is cJSON_False"
definition cJSON_IsTrue :: "nat option \<Rightarrow> heap \<Rightarrow> bool res" where
  "cJSON_IsTrue = type_is cJSON_True"
definition cJSON_IsBool :: "nat option \<Rightarrow> heap \<Rightarrow> bool res" where
  "cJSON_IsBool item h =
     (case item of
        None \<Rightarrow> Inr False
      | Some a \<Rightarrow> bind_res (rd_item h a) (\<lambda>n. Inr (ntype n AND (cJSON_True OR cJSON_False) \<noteq> 0)))"
definition cJSON_IsNull :: "nat option \<Rightarrow> heap \<Rightarrow> bool res" where
  "cJSON_IsNull = type_is cJSON_NULL"
definition cJSON_IsNumber :: "nat option \<Rightarrow> heap \<Rightarrow> bool res" where
  "cJSON_IsNumber = type_is cJSON_Number"
definition cJSON_IsString :: "nat option \<Rightarrow> heap \<Rightarrow> bool res" where
  "cJSON_IsString = type_is cJSON_String"
definition cJSON_IsArray :: "nat option \<Rightarrow> heap \<Rightarrow> bool res" where
  "cJSON_IsArray = type_is cJSON_Array"
definition cJSON_IsObject :: "nat option \<Rightarrow> heap \<Rightarrow> bool res" where
  "cJSON_IsObject = type_is cJSON_Object"
definition cJSON_IsRaw :: "nat option \<Rightarrow> heap \<Rightarrow> bool res" where
  "cJSON_IsRaw = type_is cJSON_Raw"

definition cJSON_GetStringValue :: "nat option \<Rightarrow> heap \<Rightarrow> nat option res" where
  "cJSON_GetStringValue item h =
     bind_res (cJSON_IsString item h) (\<lambda>g.
     if \<not> g then Inr None
     else bind_res (deref item) (\<lambda>a. bind_res (rd_item h a) (\<lambda>n. Inr (nvaluestring n))))"

section \<open>Comparing\<close>

definition valid_type :: "int \<Rightarrow> bool" where
  "valid_type t \<longleftrightarrow> t \<in> {cJSON_False, cJSON_True, cJSON_NULL, cJSON_Number, cJSON_String, cJSON_Raw,
     cJSON_Array, cJSON_Object}"

fun compare :: "nat \<Rightarrow> nat option \<Rightarrow> nat option \<Rightarrow> bool \<Rightarrow> heap \<Rightarrow> bool res option"
and compare_elements :: "nat \<Rightarrow> nat option \<Rightarrow> nat option \<Rightarrow> bool \<Rightarrow> heap \<Rightarrow> bool res option"
and compare_members :: "nat \<Rightarrow> nat option \<Rightarrow> nat \<Rightarrow> bool \<Rightarrow> heap \<Rightarrow> bool res option" where
  "compare 0 pa pb case_sensitive h = None"
| "compare (Suc k) pa pb case_sensitive h =
     (case (pa, pb) of
        (Some a, Some b) \<Rightarrow>
          bind_run (Some (rd_item h a)) (\<lambda>x.
          bind_run (Some (rd_item h b)) (\<lambda>y.
          let t = ntype x AND 0xFF in
          if t \<noteq> ntype y AND 0xFF \<or> \<not> valid_type t then ret False
          else if a = b then ret True
          else if t = cJSON_Number then ret (double_eq (nvaluedouble x) (nvaluedouble y))
          else if t = cJSON_String \<or> t = cJSON_Raw then
            (if nvaluestring x = None \<or> nvaluestring y = None then ret False
             else
               bind_run (Some (rd_opt_str h (nvaluestring x))) (\<lambda>v.
               bind_run (Some (rd_opt_str h (nvaluestring y))) (\<lambda>w.
               ret (v = w))))
          else if t = cJSON_Array then compare_elements k (nchild x) (nchild y) case_sensitive h
          else if t = cJSON_Object then
            bind_run (compare_members k (nchild x) b case_sensitive h) (\<lambda>r.
            if \<not> r then ret False else compare_members k (nchild y) a case_sensitive h)
          else ret True))
      | _ \<Rightarrow> ret False)"
| "compare_elements 0 pa pb case_sensitive h = None"
| "compare_elements (Suc k) pa pb case_sensitive h =
     (case (pa, pb) of
        (Some a, Some b) \<Rightarrow>
          bind_run (compare k (Some a) (Some b) case_sensitive h) (\<lambda>r.
          if \<not> r then ret False
          else
            bind_run (Some (rd_item h a)) (\<lambda>x.
            bind_run (Some (rd_item h b)) (\<lambda>y.
            compare_elements k (nnext x) (nnext y) case_sensitive h)))
      | _ \<Rightarrow> ret (pa = pb))"
| "compare_members 0 pa b case_sensitive h = None"
| "compare_members (Suc k) None b case_sensitive h = ret True"
| "compare_members (Suc k) (Some a) b case_sensitive h =
     bind_run (Some (rd_item h a)) (\<lambda>x.
     bind_run (get_object_item (Some b) (nstring x) case_sensitive h) (\<lambda>q.
     if q = None then ret False
     else
       bind_run (compare k (Some a) q case_sensitive h) (\<lambda>r.
       if \<not> r then ret False else compare_members k (nnext x) b case_sensitive h)))"

text \<open>Every step goes down or on in one of the two items at least.\<close>

definition cJSON_Compare :: "nat option \<Rightarrow> nat option \<Rightarrow> bool \<Rightarrow> heap \<Rightarrow> bool res option" where
  "cJSON_Compare a b case_sensitive h = compare (4 * fuel h) a b case_sensitive h"

end
