(* ===== verification/CJsonChain.thy ===== *)
theory CJsonChain
  imports CJsonEdit CJsonParseCorrect
begin

text \<open>
  Chains of items on the heap, linked by \<open>next\<close> and \<open>prev\<close>: what the loops along them compute, and
  what adding, inserting, detaching and replacing an item makes of the chain.
\<close>

section \<open>Chains of items\<close>

text \<open>
  \<open>seg h pv p as q\<close>: from the pointer \<open>p\<close> on, the items \<open>as\<close> are chained by \<open>next\<close> and
  \<open>prev\<close>; \<open>pv\<close> is what the first one has as its predecessor, \<open>q\<close> what follows the last one.
\<close>

fun seg :: "heap \<Rightarrow> nat option \<Rightarrow> nat option \<Rightarrow> nat list \<Rightarrow> nat option \<Rightarrow> bool" where
  "seg h pv p [] q \<longleftrightarrow> p = q"
| "seg h pv p (a # as) q \<longleftrightarrow>
     p = Some a \<and> (\<exists>n. items h a = Some n \<and> nprev n = pv \<and> seg h (Some a) (nnext n) as q)"

definition tail_ptr :: "nat option \<Rightarrow> nat list \<Rightarrow> nat option" where
  "tail_ptr pv xs = (if xs = [] then pv else Some (last xs))"

lemma tail_ptr_simps [simp]:
  "tail_ptr pv [] = pv" "tail_ptr pv (a # as) = tail_ptr (Some a) as" "tail_ptr pv (as @ [b]) = Some b"
  by (simp_all add: tail_ptr_def)

lemma seg_append: "seg h pv p (xs @ ys) q \<longleftrightarrow> (\<exists>m. seg h pv p xs m \<and> seg h (tail_ptr pv xs) m ys q)"
  by (induction xs arbitrary: pv p) auto

lemma seg_cong: "(\<And>a. a \<in> set as \<Longrightarrow> items h' a = items h a) \<Longrightarrow> seg h' pv p as q = seg h pv p as q"
  by (induction as arbitrary: pv p) auto

lemma seg_items: "seg h pv p as q \<Longrightarrow> a \<in> set as \<Longrightarrow> \<exists>n. items h a = Some n"
  by (induction as arbitrary: pv p) auto

text \<open>Changing what follows the last item, and what precedes the first one.\<close>

lemma seg_retarget:
  assumes "seg h pv p xs m" "distinct xs" "\<forall>a \<in> set (butlast xs). items h' a = items h a"
    "xs \<noteq> [] \<longrightarrow> items h' (last xs) = map_option (\<lambda>n. n\<lparr>nnext := m'\<rparr>) (items h (last xs))"
  shows "seg h' pv (if xs = [] then m' else p) xs m'"
  using assms
proof (induction xs arbitrary: pv p)
  case (Cons a xs)
  show ?case
  proof (cases "xs = []")
    case True
    with Cons.prems show ?thesis by auto
  next
    case False
    with Cons.prems have "items h' a = items h a" by simp
    moreover obtain n where n: "items h a = Some n" "nprev n = pv" "seg h (Some a) (nnext n) xs m" "p = Some a"
      using Cons.prems(1) by auto
    moreover have "seg h' (Some a) (if xs = [] then m' else nnext n) xs m'"
      using Cons.prems False n(3) by (intro Cons.IH) auto
    ultimately show ?thesis using False by simp
  qed
qed simp

lemma seg_reprev:
  assumes "seg h pv p ys q" "\<forall>a \<in> set (tl ys). items h' a = items h a"
    "ys \<noteq> [] \<longrightarrow> items h' (hd ys) = map_option (\<lambda>n. n\<lparr>nprev := pv'\<rparr>) (items h (hd ys))"
  shows "seg h' pv' p ys q"
proof (cases ys)
  case (Cons b bs)
  then obtain n where n: "p = Some b" "items h b = Some n" "seg h (Some b) (nnext n) bs q" using assms(1) by auto
  have "seg h' (Some b) (nnext n) bs q" using assms(2) Cons n(3) by (subst seg_cong [of bs h' h]) auto
  with n assms(3) Cons show ?thesis by auto
qed (use assms(1) in simp)

section \<open>Fuel\<close>

definition heap_ok :: "heap \<Rightarrow> bool" where
  "heap_ok h \<longleftrightarrow> (\<forall>a. items h a \<noteq> None \<longrightarrow> a < requests (hooks h)) \<and> (\<forall>a. strs h a \<noteq> None \<longrightarrow> a < requests (hooks h))"

lemma distinct_bounded_length: "distinct as \<Longrightarrow> \<forall>a \<in> set as. a < (n :: nat) \<Longrightarrow> length as \<le> n"
  using card_mono [of "{..<n}" "set as"] by (auto simp: distinct_card)

lemma seg_fuel: "heap_ok h \<Longrightarrow> seg h pv p as q \<Longrightarrow> distinct as \<Longrightarrow> length as < fuel h"
  using distinct_bounded_length [of as "requests (hooks h)"] seg_items
  by (fastforce simp: fuel_def heap_ok_def less_Suc_eq_le)

section \<open>The loops\<close>

lemma rd_item_Some [simp]: "items h a = Some n \<Longrightarrow> rd_item h a = Inr n"
  by (simp add: rd_item_def)

lemma upd_item_Some [simp]: "items h a = Some n \<Longrightarrow> upd_item a f h = Inr (h\<lparr>items := (items h)(a \<mapsto> f n)\<rparr>)"
  by (simp add: upd_item_def)

lemma size_loop_eq: "seg h pv p as None \<Longrightarrow> length as < k \<Longrightarrow> size_loop k h p n = ret (n + length as)"
proof (induction as arbitrary: pv p k n)
  case Nil then show ?case by (cases k) auto
next
  case (Cons a as)
  obtain k' where k: "k = Suc k'" "length as < k'" using Cons.prems(2) by (cases k) auto
  from Cons.prems(1) obtain m where "p = Some a" "items h a = Some m" "seg h (Some a) (nnext m) as None" by auto
  with Cons.IH k show ?case by simp
qed

lemma item_loop_eq:
  "seg h pv p as None \<Longrightarrow> length as < k \<Longrightarrow>
     item_loop k h p i = ret (if i < length as then Some (as ! i) else None)"
proof (induction as arbitrary: pv p k i)
  case Nil then show ?case by (cases k) auto
next
  case (Cons a as)
  obtain k' where k: "k = Suc k'" "length as < k'" using Cons.prems(2) by (cases k) auto
  from Cons.prems(1) obtain m where "p = Some a" "items h a = Some m" "seg h (Some a) (nnext m) as None" by auto
  with Cons.IH [of "Some a" "nnext m" k' "i - 1"] k show ?case by (cases i) auto
qed

lemma last_loop_eq:
  "seg h pv (Some a) (a # as) None \<Longrightarrow> length as < k \<Longrightarrow> last_loop k h a = ret (last (a # as))"
proof (induction as arbitrary: pv a k)
  case Nil then show ?case by (cases k) auto
next
  case (Cons b as)
  obtain k' where k: "k = Suc k'" "length as < k'" using Cons.prems(2) by (cases k) auto
  from Cons.prems(1) obtain m where "items h a = Some m" "nnext m = Some b" "seg h (Some a) (Some b) (b # as) None" by auto
  with Cons.IH [of "Some a" b k'] k show ?case by simp
qed

text \<open>The item a search for a name stops at.\<close>

fun find_name :: "bool \<Rightarrow> cstr \<Rightarrow> (nat \<times> cstr option) list \<Rightarrow> nat option" where
  "find_name cs name [] = None"
| "find_name cs name ((a, s) # rest) =
     (if name_differs cs name s then find_name cs name rest else if s = None then None else Some a)"

definition str_at :: "heap \<Rightarrow> nat option \<Rightarrow> cstr option \<Rightarrow> bool" where
  "str_at h p s \<longleftrightarrow> rd_opt_str h p = Inr s"

lemma str_at_iff: "str_at h p s \<longleftrightarrow> (case p of None \<Rightarrow> s = None | Some a \<Rightarrow> s \<noteq> None \<and> strs h a = s)"
  by (auto simp: str_at_def rd_opt_str_def rd_str_def split: option.splits)

lemma name_differs_None: "name_differs cs w None = name_differs cs w' None"
  by (simp add: name_differs_def case_insensitive_strcmp_def)

lemma name_loop_eq:
  assumes "seg h pv p (map fst as) None" "length as < k" "strs h name = Some w"
    "\<forall>(a, s) \<in> set as. \<exists>n. items h a = Some n \<and> str_at h (nstring n) s"
  shows "name_loop k cs h name p = ret (find_name cs w as)"
  using assms(1,2,4)
proof (induction as arbitrary: pv p k)
  case Nil then show ?case by (cases k) auto
next
  case (Cons x as)
  obtain a s where x: "x = (a, s)" by (cases x)
  obtain k' where k: "k = Suc k'" "length as < k'" using Cons.prems(2) by (cases k) auto
  from Cons.prems(1,3) x obtain m where m: "p = Some a" "items h a = Some m" "seg h (Some a) (nnext m) (map fst as) None"
    "str_at h (nstring m) s" by auto
  have r: "rd_opt_str h (nstring m) = Inr s" using m(4) by (simp add: str_at_def)
  have IH: "name_loop k' cs h name (nnext m) = ret (find_name cs w as)"
    using Cons.prems(3) k m(3) by (intro Cons.IH) auto
  show ?case
    using m(1,2) k(1) r IH assms(3) name_differs_None [of cs "[]" w] by (simp add: x rd_str_def)
qed

section \<open>Rewiring the children of an item\<close>

definition body :: "node \<Rightarrow> node" where
  "body n = n\<lparr>nnext := None, nprev := None\<rparr>"

lemma body_simps [simp]:
  "body (n\<lparr>nnext := x\<rparr>) = body n" "body (n\<lparr>nprev := x\<rparr>) = body n"
  by (simp_all add: body_def)

text \<open>
  \<open>rewired h a cs S h'\<close>: the children of \<open>a\<close> are now the items \<open>cs\<close>; besides the \<open>child\<close> pointer
  of \<open>a\<close> only \<open>next\<close> and \<open>prev\<close> of the items \<open>S\<close> have changed.
\<close>

definition rewired :: "heap \<Rightarrow> nat \<Rightarrow> nat list \<Rightarrow> nat list \<Rightarrow> heap \<Rightarrow> bool" where
  "rewired h a cs S h' \<longleftrightarrow> strs h' = strs h \<and> hooks h' = hooks h \<and>
     (\<exists>n c. items h a = Some n \<and> items h' a = Some (n\<lparr>nchild := c\<rparr>) \<and> seg h' None c cs None) \<and>
     (\<forall>z. z \<notin> insert a (set S) \<longrightarrow> items h' z = items h z) \<and>
     (\<forall>z \<in> set S. map_option body (items h' z) = map_option body (items h z))"

lemma rewiredI:
  "strs h' = strs h \<Longrightarrow> hooks h' = hooks h \<Longrightarrow> items h a = Some n \<Longrightarrow> items h' a = Some (n\<lparr>nchild := c\<rparr>) \<Longrightarrow>
     seg h' None c cs None \<Longrightarrow> \<forall>z. z \<notin> insert a (set S) \<longrightarrow> items h' z = items h z \<Longrightarrow>
     (\<And>z. z \<noteq> a \<Longrightarrow> map_option body (items h' z) = map_option body (items h z)) \<Longrightarrow> a \<notin> set S \<Longrightarrow> rewired h a cs S h'"
  unfolding rewired_def by (intro conjI ballI) (blast | metis)+

definition unlinked :: "heap \<Rightarrow> nat \<Rightarrow> bool" where
  "unlinked h i \<longleftrightarrow> (\<exists>m. items h i = Some m \<and> nnext m = None \<and> nprev m = None)"

lemma last_not_butlast: "distinct xs \<Longrightarrow> z \<in> set (butlast xs) \<Longrightarrow> z \<noteq> last xs"
  by (cases xs rule: rev_cases) auto

lemma seg_last_item: "seg h pv p xs q \<Longrightarrow> xs \<noteq> [] \<Longrightarrow> \<exists>n. items h (last xs) = Some n \<and> nnext n = q"
  by (induction xs arbitrary: pv p) auto

lemma seg_first: "seg h pv p xs q \<Longrightarrow> xs \<noteq> [] \<Longrightarrow> p = Some (hd xs)"
  by (cases xs) auto

text \<open>Appending to the chain, when its last item is known.\<close>

lemma append_rewires:
  assumes a: "items h a = Some n" "seg h None (nchild n) cs None" and i: "unlinked h i" and d: "distinct (a # i # cs)"
  shows "\<exists>h'. (case tail_ptr None cs of
        None \<Rightarrow> upd_item a (\<lambda>n. n\<lparr>nchild := Some i\<rparr>) h
      | Some l \<Rightarrow> suffix_object l i h) = Inr h' \<and> rewired h a (cs @ [i]) (i # cs) h'"
proof -
  obtain m where m: "items h i = Some m" "nnext m = None" "nprev m = None" using i by (auto simp: unlinked_def)
  show ?thesis
  proof (cases "cs = []")
    case True
    have "rewired h a [i] [i] (h\<lparr>items := (items h)(a \<mapsto> n\<lparr>nchild := Some i\<rparr>)\<rparr>)"
      using a d m by (auto simp: rewired_def)
    then show ?thesis using True a by simp
  next
    case False
    let ?l = "last cs"
    obtain nl where nl: "items h ?l = Some nl" "nnext nl = None" using seg_last_item [OF a(2) False] by auto
    have lm: "?l \<in> set cs" using False by simp
    then have ne: "?l \<noteq> i" "?l \<noteq> a" "a \<noteq> i" using d by auto
    define h' where "h' = h\<lparr>items := (items h)(?l \<mapsto> nl\<lparr>nnext := Some i\<rparr>, i \<mapsto> m\<lparr>nprev := Some ?l\<rparr>)\<rparr>"
    have "suffix_object ?l i h = Inr h'" using nl m ne by (simp add: suffix_object_def h'_def)
    moreover have "seg h' None (nchild n) (cs @ [i]) None"
    proof -
      have "seg h' None (if cs = [] then Some i else nchild n) cs (Some i)"
        by (rule seg_retarget [OF a(2)])
          (use d nl ne last_not_butlast [of cs] in \<open>auto simp: h'_def dest: in_set_butlastD\<close>)
      then show ?thesis using False m by (auto simp: seg_append tail_ptr_def h'_def)
    qed
    then have "rewired h a (cs @ [i]) (i # cs) h'"
      using a(1) d ne nl m lm by (auto simp: rewired_def h'_def intro!: exI [of _ n] exI [of _ "nchild n"])
    ultimately show ?thesis using False by (simp add: tail_ptr_def)
  qed
qed

lemma add_item_rewires:
  assumes h: "heap_ok h" and a: "items h a = Some n" "seg h None (nchild n) cs None"
    and i: "unlinked h i" and d: "distinct (a # i # cs)"
  shows "\<exists>h'. add_item_to_array (Some a) (Some i) h = ret (True, h') \<and> rewired h a (cs @ [i]) (i # cs) h'"
proof (cases cs)
  case Nil
  then show ?thesis using append_rewires [OF a i d] a by (auto simp: add_item_to_array_def)
next
  case (Cons c cs')
  then have "last_loop (fuel h) h c = ret (last cs)" "nchild n = Some c"
    using last_loop_eq [of h None c cs' "fuel h"] a(2) seg_fuel [OF h a(2)] d by auto
  then show ?thesis
    using append_rewires [OF a i d] a(1) Cons by (auto simp: add_item_to_array_def tail_ptr_def)
qed

lemma insert_before_rewires:
  assumes a: "items h a = Some n" "seg h None (nchild n) (xs @ b # ys) None"
    and i: "unlinked h i" and d: "distinct (a # i # xs @ b # ys)"
  shows "\<exists>h'. insert_before a b (Some i) h = Inr h' \<and> rewired h a (xs @ i # b # ys) (i # xs @ b # ys) h'"
proof -
  obtain m where m: "items h i = Some m" using i by (auto simp: unlinked_def)
  obtain q where q: "seg h None (nchild n) xs q" "seg h (tail_ptr None xs) q (b # ys) None"
    using a(2) by (auto simp only: seg_append)
  then obtain nb where nb: "items h b = Some nb" "nprev nb = tail_ptr None xs" "q = Some b" by auto
  have ne: "a \<noteq> i" "b \<noteq> i" "a \<noteq> b" "i \<notin> set xs" "a \<notin> set xs" "b \<notin> set xs" using d by auto
  define g where "g = (items h)(i \<mapsto> m\<lparr>nnext := Some b, nprev := tail_ptr None xs\<rparr>, b \<mapsto> nb\<lparr>nprev := Some i\<rparr>)"
  define h' where "h' = h\<lparr>items := (if xs = [] then g(a \<mapsto> n\<lparr>nchild := Some i\<rparr>)
     else g(last xs \<mapsto> (the (items h (last xs)))\<lparr>nnext := Some i\<rparr>))\<rparr>"
  have lx: "\<exists>nl. items h (last xs) = Some nl" "last xs \<noteq> a" "last xs \<noteq> i" "last xs \<noteq> b" "last xs \<notin> set ys"
    if "xs \<noteq> []"
    using seg_last_item [OF q(1) that] last_in_set [OF that] d by auto
  have ch: "nchild n = Some b \<longleftrightarrow> xs = []" using q(1) nb(3) seg_first [OF q(1)] ne(6) by (cases xs) auto
  have "insert_before a b (Some i) h = Inr h'"
  proof (cases "xs = []")
    case True
    with ch a m nb ne show ?thesis by (auto simp: insert_before_def deref_def h'_def g_def)
  next
    case False
    then obtain nl where nl: "items h (last xs) = Some nl" using lx by blast
    note lm = lx(2-4) [OF False]
    have tp: "tail_ptr None xs = Some (last xs)" using False by (simp add: tail_ptr_def)
    from False ch a m nb ne nl lm show ?thesis
      by (auto simp: insert_before_def deref_def h'_def g_def tp fun_upd_twist)
  qed
  moreover have "seg h' None (if xs = [] then Some i else nchild n) (xs @ i # b # ys) None"
  proof -
    have "seg h' None (if xs = [] then Some i else nchild n) xs (Some i)"
      by (rule seg_retarget [OF q(1)])
        (use d lx ne last_not_butlast [of xs] in \<open>auto simp: h'_def g_def dest: in_set_butlastD\<close>)
    moreover have "seg h' (Some i) q (b # ys) None"
      by (rule seg_reprev [OF q(2)]) (use d nb lx ne in \<open>auto simp: h'_def g_def\<close>)
    moreover have "items h' i = Some (m\<lparr>nnext := Some b, nprev := tail_ptr None xs\<rparr>)"
      using ne lx by (auto simp: h'_def g_def)
    ultimately show ?thesis using nb(3) by (auto simp: seg_append)
  qed
  moreover have "items h' a = Some (n\<lparr>nchild := (if xs = [] then Some i else nchild n)\<rparr>)"
    using a(1) ne lx by (auto simp: h'_def g_def)
  ultimately show ?thesis
    using a(1) d m nb lx
    by (auto simp: rewired_def h'_def g_def intro!: exI [of _ n])
qed

lemma seg_head: "seg h pv p ys None \<Longrightarrow> p = (if ys = [] then None else Some (hd ys))"
  by (cases ys) auto

lemma detach_rewires:
  assumes a: "items h a = Some n" "seg h None (nchild n) (xs @ i # ys) None" and d: "distinct (a # xs @ i # ys)"
  shows "\<exists>h'. cJSON_DetachItemViaPointer (Some a) (Some i) h = Inr (Some i, h') \<and>
    rewired h a (xs @ ys) (xs @ i # ys) h' \<and> unlinked h' i"
proof -
  obtain q where q: "seg h None (nchild n) xs q" "seg h (tail_ptr None xs) q (i # ys) None"
    using a(2) by (auto simp only: seg_append)
  then obtain ni where ni: "items h i = Some ni" "nprev ni = tail_ptr None xs" "q = Some i" "seg h (Some i) (nnext ni) ys None"
    by auto
  have nx: "nnext ni = (if ys = [] then None else Some (hd ys))" by (rule seg_head [OF ni(4)])
  have ne: "a \<noteq> i" "i \<notin> set xs" "i \<notin> set ys" "a \<notin> set xs" "a \<notin> set ys" using d by auto
  define nl ny where "nl = the (items h (last xs))" and "ny = the (items h (hd ys))"
  have lx: "items h (last xs) = Some nl" "last xs \<noteq> a" "last xs \<noteq> i" "last xs \<notin> set ys" "last xs \<noteq> hd ys \<or> ys = []"
    if "xs \<noteq> []"
    using seg_last_item [OF q(1) that] last_in_set [OF that] d hd_in_set [of ys] by (auto simp: nl_def)
  have hy: "items h (hd ys) = Some ny" "hd ys \<noteq> a" "hd ys \<noteq> i" "hd ys \<notin> set xs"
    if "ys \<noteq> []"
    using seg_items [OF ni(4), of "hd ys"] hd_in_set [OF that] d by (auto simp: ny_def)
  define g where "g = (if xs = [] then items h else (items h)(last xs \<mapsto> nl\<lparr>nnext := nnext ni\<rparr>))"
  define g2 where "g2 = (if ys = [] then g else g(hd ys \<mapsto> ny\<lparr>nprev := nprev ni\<rparr>))"
  define g3 where "g3 = (if xs = [] then g2(a \<mapsto> n\<lparr>nchild := nnext ni\<rparr>) else g2)"
  define h' where "h' = h\<lparr>items := g3(i \<mapsto> ni\<lparr>nprev := None, nnext := None\<rparr>)\<rparr>"
  have ch: "nchild n = Some i \<longleftrightarrow> xs = []" using q(1) ni(3) seg_first [OF q(1)] ne(2) by (cases xs) auto
  have gi: "g i = Some ni" "g2 i = Some ni" "g3 i = Some ni" and ga: "g2 a = Some n"
    using ni(1) a(1) ne(1) lx(2,3) hy(2,3) by (cases "xs = []"; cases "ys = []"; simp add: g_def g2_def g3_def)+
  have s1: "(case nprev ni of None \<Rightarrow> Inr h | Some b \<Rightarrow> upd_item b (\<lambda>m. m\<lparr>nnext := nnext ni\<rparr>) h) = Inr (h\<lparr>items := g\<rparr>)"
    using ni(2) lx by (cases "xs = []") (simp_all add: g_def tail_ptr_def upd_item_def rd_item_def)
  have gy: "g (hd ys) = items h (hd ys)" if "ys \<noteq> []" using lx(5) that by (auto simp: g_def)
  have s2: "(case nnext ni of None \<Rightarrow> Inr (h\<lparr>items := g\<rparr>)
      | Some b \<Rightarrow> upd_item b (\<lambda>m. m\<lparr>nprev := nprev ni\<rparr>) (h\<lparr>items := g\<rparr>)) = Inr (h\<lparr>items := g2\<rparr>)"
    using nx hy(1) gy by (cases "ys = []") (simp_all add: g2_def upd_item_def rd_item_def)
  have s3: "(if nchild n = Some i
      then bind_res (rd_item (h\<lparr>items := g2\<rparr>) i) (\<lambda>n. upd_item a (\<lambda>q. q\<lparr>nchild := nnext n\<rparr>) (h\<lparr>items := g2\<rparr>))
      else Inr (h\<lparr>items := g2\<rparr>)) = Inr (h\<lparr>items := g3\<rparr>)"
    using ch gi ga by (simp add: g3_def rd_item_def upd_item_def)
  have "cJSON_DetachItemViaPointer (Some a) (Some i) h = Inr (Some i, h')"
    unfolding cJSON_DetachItemViaPointer_def using ni(1) gi ga ne(1)
    by (simp add: s1 s2 h'_def g3_def ch)
  moreover have "seg h' None (if xs = [] then nnext ni else nchild n) (xs @ ys) None"
  proof -
    have "seg h' None (if xs = [] then nnext ni else nchild n) xs (nnext ni)"
      by (rule seg_retarget [OF q(1)])
        (use d lx hy ne last_not_butlast [of xs] in \<open>auto simp: h'_def g_def g2_def g3_def dest: in_set_butlastD\<close>)
    moreover have "seg h' (tail_ptr None xs) (nnext ni) ys None"
      by (rule seg_reprev [OF ni(4)]) (use d ni lx hy ne in \<open>(cases ys; auto simp: h'_def g_def g2_def g3_def)+\<close>)
    ultimately show ?thesis by (auto simp: seg_append)
  qed
  moreover have "items h' a = Some (n\<lparr>nchild := (if xs = [] then nnext ni else nchild n)\<rparr>)"
    using a(1) ne ga by (auto simp: h'_def g3_def)
  moreover have "\<forall>z. z \<notin> insert a (set (xs @ i # ys)) \<longrightarrow> items h' z = items h z"
    using lx hy by (auto simp: h'_def g3_def g2_def g_def)
  moreover have "map_option body (items h' z) = map_option body (items h z)" if "z \<noteq> a" for z
  proof -
    have "map_option body (g z) = map_option body (items h z)" using lx(1) by (cases "xs = []") (simp_all add: g_def)
    then have "map_option body (g2 z) = map_option body (items h z)" using hy(1) by (cases "ys = []") (simp_all add: g2_def)
    then show ?thesis using ni(1) that by (simp add: h'_def g3_def)
  qed
  moreover have "unlinked h' i" by (simp add: unlinked_def h'_def)
  moreover have "strs h' = strs h" "hooks h' = hooks h" by (simp_all add: h'_def)
  moreover have "a \<notin> set (xs @ i # ys)" using d by simp
  ultimately show ?thesis
    using rewiredI [of h' h a n _ "xs @ ys" "xs @ i # ys"] a(1) by blast
qed


lemma replace_rewires:
  assumes a: "items h a = Some n" "seg h None (nchild n) (xs @ i # ys) None" and r: "items h r = Some nr"
    and d: "distinct (a # r # xs @ i # ys)"
  shows "\<exists>h'. replace_links a i r h = Inr h' \<and> rewired h a (xs @ r # ys) (r # xs @ i # ys) h' \<and> unlinked h' i"
proof -
  obtain q where q: "seg h None (nchild n) xs q" "seg h (tail_ptr None xs) q (i # ys) None"
    using a(2) by (auto simp only: seg_append)
  then obtain ni where ni: "items h i = Some ni" "nprev ni = tail_ptr None xs" "q = Some i" "seg h (Some i) (nnext ni) ys None"
    by auto
  have nx: "nnext ni = (if ys = [] then None else Some (hd ys))" by (rule seg_head [OF ni(4)])
  have ne: "a \<noteq> i" "i \<notin> set xs" "i \<notin> set ys" "a \<notin> set xs" "a \<notin> set ys" "a \<noteq> r" "i \<noteq> r" "r \<notin> set xs" "r \<notin> set ys"
    using d by auto
  define nl ny where "nl = the (items h (last xs))" and "ny = the (items h (hd ys))"
  have lx: "items h (last xs) = Some nl" "last xs \<noteq> a" "last xs \<noteq> i" "last xs \<noteq> r" "last xs \<notin> set ys" "last xs \<noteq> hd ys \<or> ys = []"
    if "xs \<noteq> []"
    using seg_last_item [OF q(1) that] last_in_set [OF that] d hd_in_set [of ys] by (auto simp: nl_def)
  have hy: "items h (hd ys) = Some ny" "hd ys \<noteq> a" "hd ys \<noteq> i" "hd ys \<noteq> r" "hd ys \<notin> set xs"
    if "ys \<noteq> []"
    using seg_items [OF ni(4), of "hd ys"] hd_in_set [OF that] d by (auto simp: ny_def)
  define m where "m = nr\<lparr>nnext := nnext ni, nprev := nprev ni\<rparr>"
  define g where "g = (items h)(r \<mapsto> m)"
  define g2 where "g2 = (if ys = [] then g else g(hd ys \<mapsto> ny\<lparr>nprev := Some r\<rparr>))"
  define g3 where "g3 = (if xs = [] then g2 else g2(last xs \<mapsto> nl\<lparr>nnext := Some r\<rparr>))"
  define g4 where "g4 = (if xs = [] then g3(a \<mapsto> n\<lparr>nchild := Some r\<rparr>) else g3)"
  define h' where "h' = h\<lparr>items := g4(i \<mapsto> ni\<lparr>nnext := None, nprev := None\<rparr>)\<rparr>"
  have ch: "nchild n = Some i \<longleftrightarrow> xs = []" using q(1) ni(3) seg_first [OF q(1)] ne(2) by (cases xs) auto
  have gr: "g2 r = Some m" "g3 r = Some m" and gi: "g4 i = Some ni" and ga: "g3 a = Some n"
    using ni(1) a(1) ne(1,6,7) lx(2-4) hy(2-4) by (cases "xs = []"; cases "ys = []"; simp add: g_def g2_def g3_def g4_def)+
  have s0: "bind_res (upd_item r (\<lambda>m. m\<lparr>nnext := nnext ni\<rparr>) h) (\<lambda>h.
      bind_res (rd_item h i) (\<lambda>n. bind_res (upd_item r (\<lambda>m. m\<lparr>nprev := nprev n\<rparr>) h) f)) = f (h\<lparr>items := g\<rparr>)" for f
    using r ni(1) ne(7) by (simp add: g_def m_def)
  have s1: "(case nnext m of None \<Rightarrow> Inr (h\<lparr>items := g\<rparr>)
      | Some b \<Rightarrow> upd_item b (\<lambda>x. x\<lparr>nprev := Some r\<rparr>) (h\<lparr>items := g\<rparr>)) = Inr (h\<lparr>items := g2\<rparr>)"
    using nx hy(1,4) by (cases "ys = []") (simp_all add: g2_def g_def m_def)
  have gl: "g2 (last xs) = Some nl" if "xs \<noteq> []"
    using lx(1,4,6) [OF that] by (cases "ys = []") (simp_all add: g2_def g_def)
  have s2: "(case nprev m of None \<Rightarrow> Inr (h\<lparr>items := g2\<rparr>)
      | Some b \<Rightarrow> upd_item b (\<lambda>x. x\<lparr>nnext := Some r\<rparr>) (h\<lparr>items := g2\<rparr>)) = Inr (h\<lparr>items := g3\<rparr>)"
    using ni(2) gl by (cases "xs = []") (simp_all add: g3_def m_def tail_ptr_def)
  have s3: "(if nchild n = Some i then upd_item a (\<lambda>q. q\<lparr>nchild := Some r\<rparr>) (h\<lparr>items := g3\<rparr>)
      else Inr (h\<lparr>items := g3\<rparr>)) = Inr (h\<lparr>items := g4\<rparr>)"
    using ch ga by (simp add: g4_def)
  have "replace_links a i r h = Inr h'"
    unfolding replace_links_def using ni(1) gr ga gi by (simp add: s0 s1 s2 s3 h'_def g_def [THEN fun_cong] )
  moreover have "seg h' None (if xs = [] then Some r else nchild n) (xs @ r # ys) None"
  proof -
    have "seg h' None (if xs = [] then Some r else nchild n) xs (Some r)"
      by (rule seg_retarget [OF q(1)])
        (use d lx hy ne last_not_butlast [of xs] in \<open>auto simp: h'_def g_def g2_def g3_def g4_def dest: in_set_butlastD\<close>)
    moreover have "seg h' (Some r) (nnext ni) ys None"
      by (rule seg_reprev [OF ni(4)]) (use d ni lx hy ne in \<open>(cases ys; auto simp: h'_def g_def g2_def g3_def g4_def)+\<close>)
    moreover have "items h' r = Some m" using gr(2) ne(6,7) by (simp add: h'_def g4_def)
    ultimately show ?thesis using ni(2) by (auto simp: seg_append m_def)
  qed
  moreover have "items h' a = Some (n\<lparr>nchild := (if xs = [] then Some r else nchild n)\<rparr>)"
    using a(1) ne ga by (auto simp: h'_def g4_def)
  moreover have "\<forall>z. z \<notin> insert a (set (r # xs @ i # ys)) \<longrightarrow> items h' z = items h z"
    using lx hy by (auto simp: h'_def g4_def g3_def g2_def g_def)
  moreover have "map_option body (items h' z) = map_option body (items h z)" if "z \<noteq> a" for z
  proof -
    have "map_option body (g z) = map_option body (items h z)" using r by (simp add: g_def m_def)
    then have "map_option body (g2 z) = map_option body (items h z)" using hy(1) by (cases "ys = []") (simp_all add: g2_def)
    then have "map_option body (g3 z) = map_option body (items h z)" using lx(1) by (cases "xs = []") (simp_all add: g3_def)
    then show ?thesis using ni(1) that by (simp add: h'_def g4_def)
  qed
  moreover have "unlinked h' i" by (simp add: unlinked_def h'_def)
  moreover have "strs h' = strs h" "hooks h' = hooks h" by (simp_all add: h'_def)
  moreover have "a \<notin> set (r # xs @ i # ys)" using d by simp
  ultimately show ?thesis
    using rewiredI [of h' h a n _ "xs @ r # ys" "r # xs @ i # ys"] a(1) by blast
qed

end
