(* ===== verification/CJsonTree.thy ===== *)
theory CJsonTree
  imports CJsonChain
begin

text \<open>
  Items on the heap as trees: where the parts of an item are (its shape), the tree it represents,
  and the operations that edit an array or free an item as operations on trees.
\<close>

section \<open>Items that represent trees\<close>

text \<open>
  A shape says where an item is: the address of the item and of its two strings, and the shapes of
  its children. \<open>rep h sh x\<close>: on the heap, the item of that shape is the tree \<open>x\<close>.
\<close>

datatype shape = Shape (addr: nat) (vref: "nat option") (nref: "nat option") (sub: "shape list")

fun iaddrs :: "shape \<Rightarrow> nat list" where
  "iaddrs (Shape a v m ks) = a # concat (map iaddrs ks)"

definition opt_list :: "'a option \<Rightarrow> 'a list" where
  "opt_list x = (case x of None \<Rightarrow> [] | Some y \<Rightarrow> [y])"

lemma opt_list_simps [simp]: "opt_list None = []" "opt_list (Some y) = [y]"
  by (simp_all add: opt_list_def)

fun saddrs :: "shape \<Rightarrow> nat list" where
  "saddrs (Shape a v m ks) = opt_list v @ opt_list m @ concat (map saddrs ks)"

definition fields :: "heap \<Rightarrow> node \<Rightarrow> nat option \<Rightarrow> nat option \<Rightarrow> cJSON \<Rightarrow> bool" where
  "fields h n v m x \<longleftrightarrow> ntype n = ctype x \<and> nvalueint n = valueint x \<and> nvaluedouble n = valuedouble x \<and>
     nvaluestring n = v \<and> nstring n = m \<and> str_at h v (valuestring x) \<and> str_at h m (cstring x)"

fun rep :: "heap \<Rightarrow> shape \<Rightarrow> cJSON \<Rightarrow> bool" where
  "rep h (Shape a v m ks) x \<longleftrightarrow>
     (\<exists>n. items h a = Some n \<and> fields h n v m x \<and> seg h None (nchild n) (map addr ks) None) \<and>
     list_all2 (rep h) ks (child x)"

lemma addr_in_iaddrs [simp]: "addr k \<in> set (iaddrs k)"
  by (cases k) simp

lemma addr_in_children: "z \<in> addr ` set ks \<Longrightarrow> z \<in> set (concat (map iaddrs ks))"
  by (induction ks) auto

lemma fields_cong:
  "(\<And>z. z \<in> set (opt_list v @ opt_list m) \<Longrightarrow> strs h' z = strs h z) \<Longrightarrow> fields h' n v m x = fields h n v m x"
  by (auto simp: fields_def str_at_iff split: option.splits)

lemma rep_cong:
  "(\<And>z. z \<in> set (iaddrs sh) \<Longrightarrow> items h' z = items h z) \<Longrightarrow>
   (\<And>z. z \<in> set (saddrs sh) \<Longrightarrow> strs h' z = strs h z) \<Longrightarrow> rep h' sh x = rep h sh x"
proof (induction sh arbitrary: x)
  case (Shape a v m ks)
  have "items h' a = items h a" using Shape.prems(1) by simp
  moreover have "fields h' n v m x = fields h n v m x" for n
    by (rule fields_cong) (use Shape.prems(2) in auto)
  moreover have "seg h' None p (map addr ks) None = seg h None p (map addr ks) None" for p
    by (rule seg_cong) (use Shape.prems(1) addr_in_children [of _ ks] in auto)
  moreover have "list_all2 (rep h') ks (child x) = list_all2 (rep h) ks (child x)"
    by (rule list.rel_cong [OF refl refl]) (use Shape in fastforce)
  ultimately show ?case by simp
qed

text \<open>Linking an item elsewhere does not change the tree it represents.\<close>

lemma fields_body: "body n = body n' \<Longrightarrow> fields h n v m x = fields h n' v m x \<and> nchild n = nchild n'"
  by (cases n; cases n') (simp add: body_def fields_def)

lemma rep_relinked:
  assumes "map_option body (items h' (addr sh)) = map_option body (items h (addr sh))"
    "\<And>z. z \<in> set (tl (iaddrs sh)) \<Longrightarrow> items h' z = items h z"
    "\<And>z. z \<in> set (saddrs sh) \<Longrightarrow> strs h' z = strs h z"
  shows "rep h' sh x = rep h sh x"
proof (cases sh)
  case (Shape a v m ks)
  have f: "fields h' n v m x = fields h n v m x" for n
    by (rule fields_cong) (use assms(3) Shape in auto)
  have s: "seg h' None p (map addr ks) None = seg h None p (map addr ks) None" for p
    by (rule seg_cong) (use assms(2) Shape addr_in_children [of _ ks] in auto)
  have "list_all2 (rep h') ks (child x) = list_all2 (rep h) ks (child x)"
    by (rule list.rel_cong [OF refl refl], rule rep_cong) (use assms(2,3) Shape in fastforce)+
  moreover have "(\<exists>n. items h' a = Some n \<and> fields h n v m x \<and> seg h None (nchild n) (map addr ks) None) =
      (\<exists>n. items h a = Some n \<and> fields h n v m x \<and> seg h None (nchild n) (map addr ks) None)"
  proof (cases "items h a")
    case None
    with assms(1) Shape show ?thesis by simp
  next
    case (Some n)
    with assms(1) Shape obtain n' where "items h' a = Some n'" "body n' = body n" by auto
    with Some fields_body [of n' n h v m x] show ?thesis by simp
  qed
  ultimately show ?thesis unfolding Shape rep.simps f s by simp
qed

section \<open>Editing arrays\<close>

lemma rewired_rep:
  assumes x: "rep h (Shape a v m ks) x" and w: "rewired h a (map addr ks') S h'"
    and S: "\<And>k. k \<in> set ks' \<Longrightarrow> addr k \<in> set S" and c: "list_all2 (rep h) ks' cs"
    and d: "\<And>k z. k \<in> set ks' \<Longrightarrow> z \<in> set (tl (iaddrs k)) \<Longrightarrow> z \<notin> insert a (set S)"
  shows "rep h' (Shape a v m ks') (set_child cs x)"
proof -
  obtain n c where n: "items h a = Some n" "items h' a = Some (n\<lparr>nchild := c\<rparr>)" "seg h' None c (map addr ks') None"
    and st: "strs h' = strs h" and out: "\<forall>z. z \<notin> insert a (set S) \<longrightarrow> items h' z = items h z"
    and bd: "\<forall>z \<in> set S. map_option body (items h' z) = map_option body (items h z)"
    using w unfolding rewired_def by blast
  have "rep h' k y" if "rep h k y" "k \<in> set ks'" for k y
  proof -
    have "rep h' k y = rep h k y"
      by (rule rep_relinked) (use that S [OF that(2)] d [OF that(2)] out bd st in auto)
    with that show ?thesis by simp
  qed
  then have "list_all2 (rep h') ks' cs" using c by (auto simp: list_all2_conv_all_nth)
  moreover have "fields h' (n\<lparr>nchild := c\<rparr>) v m (set_child cs x)"
    using x n(1) st by (cases x) (auto simp: fields_def str_at_iff split: option.splits)
  ultimately show ?thesis using n by (cases x) auto
qed

definition insert_at :: "nat \<Rightarrow> 'a \<Rightarrow> 'a list \<Rightarrow> 'a list" where
  "insert_at k x xs = take k xs @ x # drop k xs"

definition remove_at :: "nat \<Rightarrow> 'a list \<Rightarrow> 'a list" where
  "remove_at k xs = take k xs @ drop (Suc k) xs"

lemma tl_iaddrs: "iaddrs k = addr k # tl (iaddrs k)"
  by (cases k) simp

text \<open>Below the root of one item there is no root of another one.\<close>

lemma below_no_root:
  assumes "distinct (concat (map iaddrs ks))" "k \<in> set ks" "k' \<in> set ks" "z \<in> set (tl (iaddrs k))"
  shows "z \<noteq> addr k'"
proof (cases "iaddrs k = iaddrs k'")
  case True
  have "distinct (iaddrs k)" using assms(1,2) by (auto simp: distinct_concat_iff)
  then show ?thesis using assms(4) tl_iaddrs [of k] True by (cases k; cases k') auto
next
  case False
  then have "set (iaddrs k) \<inter> set (iaddrs k') = {}" using assms(1-3) by (auto simp: distinct_concat_iff)
  then show ?thesis using assms(4) tl_iaddrs [of k] addr_in_iaddrs [of k'] by (metis disjoint_iff list.set_intros(2))
qed

lemma distinct_roots: "distinct (concat (map iaddrs ks)) \<Longrightarrow> distinct (map addr ks)"
proof (induction ks)
  case (Cons k ks)
  then have "set (iaddrs k) \<inter> set (concat (map iaddrs ks)) = {}" by simp
  then have "addr k \<notin> set (concat (map iaddrs ks))" using addr_in_iaddrs [of k] by (metis disjoint_iff)
  then have "addr k \<notin> set (map addr ks)" using addr_in_children [of "addr k" ks] by auto
  with Cons show ?case by simp
qed simp

lemma rewired_children:
  assumes x: "rep h (Shape a v m ks) x" and w: "rewired h a (map addr ks') (map addr ks0) h'"
    and S: "set ks' \<subseteq> set ks0" and c: "list_all2 (rep h) ks' cs" and d: "distinct (a # concat (map iaddrs ks0))"
  shows "rep h' (Shape a v m ks') (set_child cs x)"
proof (rule rewired_rep [OF x w _ c])
  show "addr k \<in> set (map addr ks0)" if "k \<in> set ks'" for k using that S by auto
  fix k z
  assume k: "k \<in> set ks'" and z: "z \<in> set (tl (iaddrs k))"
  have k0: "k \<in> set ks0" using k S by auto
  then have "set (iaddrs k) \<subseteq> set (concat (map iaddrs ks0))" by auto
  then have "z \<noteq> a" using d z tl_iaddrs [of k] by (metis distinct.simps(2) list.set_intros(2) subsetD)
  moreover have "z \<notin> addr ` set ks0" using below_no_root [OF _ k0 _ z] d by auto
  ultimately show "z \<notin> insert a (set (map addr ks0))" by simp
qed

lemma list_all2_insert_at: "list_all2 P xs ys \<Longrightarrow> P x y \<Longrightarrow> list_all2 P (insert_at k x xs) (insert_at k y ys)"
  by (simp add: insert_at_def list_all2_appendI list_all2_takeI list_all2_dropI)

lemma list_all2_remove_at: "list_all2 P xs ys \<Longrightarrow> list_all2 P (remove_at k xs) (remove_at k ys)"
  by (simp add: remove_at_def list_all2_appendI list_all2_takeI list_all2_dropI)

lemma rep_kids:
  assumes "rep h (Shape a v m ks) x"
  obtains n where "items h a = Some n" "seg h None (nchild n) (map addr ks) None" "list_all2 (rep h) ks (child x)"
  using assms by auto

lemma get_array_item_rep:
  assumes "heap_ok h" "rep h (Shape a v m ks) x" "distinct (concat (map iaddrs ks))"
  shows "get_array_item (Some a) i h = ret (if i < length ks then Some (addr (ks ! i)) else None)"
proof -
  obtain n where n: "items h a = Some n" "seg h None (nchild n) (map addr ks) None" by (rule rep_kids [OF assms(2)])
  show ?thesis
    using item_loop_eq [OF n(2) seg_fuel [OF assms(1) n(2) distinct_roots [OF assms(3)]], of i] n(1)
    by (simp add: get_array_item_def)
qed

lemma insert_item_rep:
  assumes h: "heap_ok h" and x: "rep h (Shape a v m ks) x" and y: "rep h sh y" "unlinked h (addr sh)"
    and d: "distinct (a # concat (map iaddrs (sh # ks)))"
  shows "\<exists>h'. cJSON_InsertItemInArray (Some a) (int i) (Some (addr sh)) h = ret h' \<and>
    rep h' (Shape a v m (insert_at i sh ks)) (set_child (insert_at i y (child x)) x) \<and>
    rewired h a (map addr (insert_at i sh ks)) (map addr (sh # ks)) h'"
proof -
  obtain n where n: "items h a = Some n" "seg h None (nchild n) (map addr ks) None" "list_all2 (rep h) ks (child x)"
    by (rule rep_kids [OF x])
  have dk: "distinct (concat (map iaddrs ks))" using d by simp
  have dr: "distinct (a # addr sh # map addr ks)"
  proof -
    have "distinct (map addr (sh # ks))" using d by (intro distinct_roots) simp
    moreover have "a \<notin> addr ` set (sh # ks)" using d addr_in_children [of a "sh # ks"] by auto
    ultimately show ?thesis by auto
  qed
  have len: "length ks = length (child x)" using n(3) by (rule list_all2_lengthD)
  have "\<exists>h'. cJSON_InsertItemInArray (Some a) (int i) (Some (addr sh)) h = ret h' \<and>
    rewired h a (map addr (insert_at i sh ks)) (map addr (sh # ks)) h'"
  proof (cases "i < length ks")
    case True
    then have ks: "ks = take i ks @ ks ! i # drop (Suc i) ks" by (rule id_take_nth_drop)
    then have ak: "map addr ks = map addr (take i ks) @ addr (ks ! i) # map addr (drop (Suc i) ks)"
      by (metis list.simps(9) map_append)
    obtain h' where "insert_before a (addr (ks ! i)) (Some (addr sh)) h = Inr h'"
      "rewired h a (map addr (take i ks) @ addr sh # addr (ks ! i) # map addr (drop (Suc i) ks))
         (addr sh # map addr (take i ks) @ addr (ks ! i) # map addr (drop (Suc i) ks)) h'"
      using insert_before_rewires [OF n(1) _ y(2), of "map addr (take i ks)" "addr (ks ! i)" "map addr (drop (Suc i) ks)"]
        n(2) dr unfolding ak by blast
    moreover have "map addr (insert_at i sh ks) = map addr (take i ks) @ addr sh # addr (ks ! i) # map addr (drop (Suc i) ks)"
      using True by (simp add: insert_at_def flip: Cons_nth_drop_Suc)
    ultimately show ?thesis
      using get_array_item_rep [OF h x dk, of i] True ak by (simp add: cJSON_InsertItemInArray_def deref_def)
  next
    case False
    then show ?thesis
      using add_item_rewires [OF h n(1,2) y(2) dr] get_array_item_rep [OF h x dk, of i]
      by (auto simp: cJSON_InsertItemInArray_def insert_at_def)
  qed
  then obtain h' where h': "cJSON_InsertItemInArray (Some a) (int i) (Some (addr sh)) h = ret h'"
    "rewired h a (map addr (insert_at i sh ks)) (map addr (sh # ks)) h'" by blast
  moreover have "rep h' (Shape a v m (insert_at i sh ks)) (set_child (insert_at i y (child x)) x)"
    by (rule rewired_children [OF x h'(2) _ list_all2_insert_at [OF n(3) y(1)] d])
      (auto simp: insert_at_def dest: in_set_takeD in_set_dropD)
  ultimately show ?thesis by blast
qed

lemma detach_item_rep:
  assumes h: "heap_ok h" and x: "rep h (Shape a v m ks) x" and d: "distinct (iaddrs (Shape a v m ks))" and i: "i < length ks"
  shows "\<exists>h'. cJSON_DetachItemFromArray (Some a) (int i) h = ret (Some (addr (ks ! i)), h') \<and>
    rep h' (Shape a v m (remove_at i ks)) (set_child (remove_at i (child x)) x) \<and>
    rep h' (ks ! i) (child x ! i) \<and> unlinked h' (addr (ks ! i)) \<and>
    rewired h a (map addr (remove_at i ks)) (map addr ks) h'"
proof -
  obtain n where n: "items h a = Some n" "seg h None (nchild n) (map addr ks) None" "list_all2 (rep h) ks (child x)"
    by (rule rep_kids [OF x])
  have dk: "distinct (a # concat (map iaddrs ks))" using d by simp
  have dr: "distinct (a # map addr ks)" using dk distinct_roots [of ks] addr_in_children [of a ks] by auto
  have ks: "ks = take i ks @ ks ! i # drop (Suc i) ks" using i by (rule id_take_nth_drop)
  then have ak: "map addr ks = map addr (take i ks) @ addr (ks ! i) # map addr (drop (Suc i) ks)"
    by (metis list.simps(9) map_append)
  obtain h' where h': "cJSON_DetachItemViaPointer (Some a) (Some (addr (ks ! i))) h = Inr (Some (addr (ks ! i)), h')"
    "rewired h a (map addr (remove_at i ks)) (map addr ks) h'" "unlinked h' (addr (ks ! i))"
    using detach_rewires [OF n(1), of "map addr (take i ks)" "addr (ks ! i)" "map addr (drop (Suc i) ks)"]
      n(2) dr unfolding remove_at_def map_append ak by blast
  have "cJSON_DetachItemFromArray (Some a) (int i) h = ret (Some (addr (ks ! i)), h')"
    using get_array_item_rep [OF h x, of i] dk i h'(1) by (simp add: cJSON_DetachItemFromArray_def)
  moreover have "rep h' (Shape a v m (remove_at i ks)) (set_child (remove_at i (child x)) x)"
    by (rule rewired_children [OF x h'(2) _ list_all2_remove_at [OF n(3)] dk])
      (auto simp: remove_at_def dest: in_set_takeD in_set_dropD)
  moreover have "rep h' (ks ! i) (child x ! i)"
  proof -
    have k: "ks ! i \<in> set ks" using i by simp
    have "rep h' (ks ! i) (child x ! i) = rep h (ks ! i) (child x ! i)"
    proof (rule rep_relinked)
      fix z assume z: "z \<in> set (tl (iaddrs (ks ! i)))"
      have "set (iaddrs (ks ! i)) \<subseteq> set (concat (map iaddrs ks))" using k by auto
      then have "z \<noteq> a" using dk z tl_iaddrs [of "ks ! i"] by (metis distinct.simps(2) list.set_intros(2) subsetD)
      moreover have "z \<notin> addr ` set ks" using below_no_root [OF _ k _ z] dk by auto
      ultimately show "items h' z = items h z" using h'(2) by (simp add: rewired_def)
    qed (use h'(2) k in \<open>auto simp: rewired_def\<close>)
    then show ?thesis using n(3) i by (simp add: list_all2_nthD)
  qed
  ultimately show ?thesis using h'(2,3) by blast
qed

section \<open>Deleting\<close>

definition drop_all :: "nat list \<Rightarrow> (nat \<Rightarrow> 'b option) \<Rightarrow> nat \<Rightarrow> 'b option" where
  "drop_all A f = (\<lambda>z. if z \<in> set A then None else f z)"

lemma drop_all_simps [simp]:
  "drop_all [] f = f" "z \<notin> set A \<Longrightarrow> drop_all A f z = f z" "z \<in> set A \<Longrightarrow> drop_all A f z = None"
  "drop_all B (drop_all A f) = drop_all (A @ B) f" "(drop_all A f)(z := None) = drop_all (A @ [z]) f"
  by (auto simp: drop_all_def)

lemma drop_all_cong: "set A = set B \<Longrightarrow> drop_all A f = drop_all B f"
  by (simp add: drop_all_def)

text \<open>The heap without the blocks of some items.\<close>

definition without :: "shape list \<Rightarrow> cJSON list \<Rightarrow> heap \<Rightarrow> heap" where
  "without ks xs h = h\<lparr>items := drop_all (concat (map iaddrs ks)) (items h),
     strs := drop_all (concat (map saddrs ks)) (strs h),
     hooks := (hooks h)\<lparr>live := live (hooks h) - sum_list (map blocks xs)\<rparr>\<rparr>"

lemma without_Nil [simp]: "without [] [] h = h"
  by (simp add: without_def)

lemma without_Cons: "without ks xs (without [k] [x] h) = without (k # ks) (x # xs) h"
  by (simp add: without_def algebra_simps)

lemma without_sel [simp]:
  "items (without ks xs h) = drop_all (concat (map iaddrs ks)) (items h)"
  "strs (without ks xs h) = drop_all (concat (map saddrs ks)) (strs h)"
  "requests (hooks (without ks xs h)) = requests (hooks h)"
  by (simp_all add: without_def)

text \<open>The last three steps for one item, after its children are gone.\<close>

lemma delete_own:
  assumes n: "items h a = Some n" "fields h n v m x" and d: "distinct (saddrs (Shape a v m cs))" "a \<notin> set (concat (map iaddrs cs))"
    and x: "plain x" "length cs = length (child x)"
  shows "bind_res (free_opt_str (nvaluestring n) (without cs (child x) h)) (\<lambda>h.
      bind_res (free_opt_str (nstring n) h) (\<lambda>h. free_item a h)) = Inr (without [Shape a v m cs] [x] h)"
proof -
  obtain t vs i dd s c where xc: "x = CJSON t vs i dd s c" by (cases x)
  have vm: "nvaluestring n = v" "nstring n = m" "str_at h v vs" "str_at h m s" using n(2) xc by (auto simp: fields_def)
  let ?S = "concat (map saddrs cs)"
  have dv: "w \<notin> set ?S" if "v = Some w" for w using d(1) that by auto
  have dm: "w \<notin> set ?S \<and> v \<noteq> Some w" if "m = Some w" for w using d(1) that by auto
  have bl: "blocks x = 1 + of_bool (v \<noteq> None) + of_bool (m \<noteq> None) + sum_list (map blocks c)"
    using vm(3,4) by (auto simp: xc str_at_iff split: option.splits)
  define h1 where "h1 = h\<lparr>items := drop_all (concat (map iaddrs cs)) (items h), strs := drop_all (?S @ opt_list v) (strs h),
     hooks := (hooks h)\<lparr>live := live (hooks h) - sum_list (map blocks c) - of_bool (v \<noteq> None)\<rparr>\<rparr>"
  define h2 where "h2 = h1\<lparr>strs := drop_all (?S @ opt_list v @ opt_list m) (strs h),
     hooks := (hooks h)\<lparr>live := live (hooks h) - sum_list (map blocks c) - of_bool (v \<noteq> None) - of_bool (m \<noteq> None)\<rparr>\<rparr>"
  have s1: "free_opt_str v (without cs c h) = Inr h1"
    using vm(3) dv by (cases v) (auto simp: free_opt_str_def free_str_def h1_def without_def str_at_iff deallocate_def split: option.splits)
  have s2: "free_opt_str m h1 = Inr h2"
    using vm(4) dm by (cases m; cases v) (auto simp: free_opt_str_def free_str_def h1_def h2_def str_at_iff deallocate_def split: option.splits)
  have "free_item a h2 = Inr (without [Shape a v m cs] [x] h)"
  proof -
    have "drop_all (concat (map iaddrs cs) @ [a]) (items h) = drop_all (a # concat (map iaddrs cs)) (items h)"
      "drop_all (?S @ opt_list v @ opt_list m) (strs h) = drop_all (opt_list v @ opt_list m @ ?S) (strs h)"
      by (rule drop_all_cong, auto)+
    then show ?thesis
      using n(1) d(2) bl by (simp add: free_item_def h2_def h1_def without_def deallocate_def algebra_simps)
  qed
  then show ?thesis using s1 s2 vm(1,2) by (simp add: xc)
qed

lemma delete_loop_rep:
  assumes "seg h pv p (map addr ks) None" "list_all2 (rep h) ks xs" "\<forall>x \<in> set xs. plain x"
    "distinct (concat (map iaddrs ks))" "distinct (concat (map saddrs ks))" "length (concat (map iaddrs ks)) < k"
  shows "delete_loop k p h = ret (without ks xs h)"
  using assms
proof (induction k arbitrary: h pv p ks xs)
  case (Suc k)
  show ?case
  proof (cases ks)
    case Nil
    with Suc.prems show ?thesis by simp
  next
    case (Cons sh ks')
    obtain a v m cs where sh: "sh = Shape a v m cs" by (cases sh)
    obtain x xs' where xs: "xs = x # xs'" "rep h sh x" "list_all2 (rep h) ks' xs'"
      using Suc.prems(2) Cons by (auto simp: list_all2_Cons1)
    obtain n where n: "items h a = Some n" "p = Some a" "seg h (Some a) (nnext n) (map addr ks') None"
      using Suc.prems(1) Cons sh by auto
    have r: "fields h n v m x" "seg h None (nchild n) (map addr cs) None" "list_all2 (rep h) cs (child x)"
      using xs(2) sh n(1) by auto
    have pl: "plain x" "\<forall>y \<in> set (child x). plain y" "ntype n AND 256 = 0" "ntype n AND 512 = 0"
      using Suc.prems(3) xs(1) r(1) by (cases x, auto simp: fields_def)+
    have ch: "(if ntype n AND 256 = 0 \<and> nchild n \<noteq> None then delete_loop k (nchild n) h else ret h) =
        ret (without cs (child x) h)"
    proof (cases "cs = []")
      case True
      with r(2,3) show ?thesis by simp
    next
      case False
      then have "nchild n \<noteq> None" using r(2) by (cases cs) auto
      moreover have "delete_loop k (nchild n) h = ret (without cs (child x) h)"
        using Suc.prems(4-6) Cons sh pl(2) by (intro Suc.IH [OF r(2,3)]) auto
      ultimately show ?thesis using pl(3) by simp
    qed
    have an: "items (without cs (child x) h) a = Some n" using Suc.prems(4) Cons sh n(1) by simp
    let ?h = "without [sh] [x] h"
    obtain h1 h2 where own: "free_opt_str (nvaluestring n) (without cs (child x) h) = Inr h1"
      "free_opt_str (nstring n) h1 = Inr h2" "free_item a h2 = Inr ?h"
    proof -
      have "distinct (saddrs (Shape a v m cs))"
        using Suc.prems(5) unfolding Cons sh by (simp only: list.map concat.simps distinct_append)
      moreover have "a \<notin> set (concat (map iaddrs cs))" using Suc.prems(4) unfolding Cons sh by simp
      ultimately show ?thesis
        using delete_own [OF n(1) r(1) _ _ pl(1) list_all2_lengthD [OF r(3)]] that
        unfolding sh bind_res_Inr_iff by blast
    qed
    have dis: "set (iaddrs sh) \<inter> set (concat (map iaddrs ks')) = {}" "set (saddrs sh) \<inter> set (concat (map saddrs ks')) = {}"
      using Suc.prems(4,5) Cons by simp_all
    have keep: "items ?h z = items h z" if "z \<in> set (concat (map iaddrs ks'))" for z
      using dis(1) that by (auto simp: drop_all_def)
    have keeps: "strs ?h z = strs h z" if "z \<in> set (concat (map saddrs ks'))" for z
      using dis(2) that by (auto simp: drop_all_def)
    have "delete_loop k (nnext n) ?h = ret (without ks' xs' ?h)"
    proof (rule Suc.IH)
      show "seg ?h (Some a) (nnext n) (map addr ks') None"
        using n(3) keep addr_in_children [of _ ks'] by (subst seg_cong [of _ _ h]) auto
      show "list_all2 (rep ?h) ks' xs'"
      proof -
        have "list_all2 (rep ?h) ks' xs' = list_all2 (rep h) ks' xs'"
          by (rule list.rel_cong [OF refl refl], rule rep_cong) (use keep keeps in auto)
        with xs(3) show ?thesis by simp
      qed
    qed (use Suc.prems(3-6) Cons xs(1) sh in auto)
    then show ?thesis
      using ch an own pl(3,4) n(1,2) unfolding Cons xs(1) without_Cons by simp
  qed
qed simp

lemma list_all2_ex: "list_all2 P xs ys \<Longrightarrow> x \<in> set xs \<Longrightarrow> \<exists>y. P x y"
  by (induction rule: list_all2_induct) auto

lemma heap_ok_length:
  assumes "heap_ok h" "list_all2 (rep h) ks xs" "distinct (concat (map iaddrs ks))"
  shows "length (concat (map iaddrs ks)) < fuel h"
proof -
  have "rep h sh x \<Longrightarrow> \<forall>z \<in> set (iaddrs sh). items h z \<noteq> None" for sh x
  proof (induction sh arbitrary: x)
    case (Shape a v m cs)
    then have "list_all2 (rep h) cs (child x)" by simp
    then have "\<forall>c \<in> set cs. \<exists>y. rep h c y" using list_all2_ex by fast
    with Shape show ?case by fastforce
  qed
  moreover have "\<forall>k \<in> set ks. \<exists>x. rep h k x" using assms(2) list_all2_ex by fast
  ultimately have "\<forall>z \<in> set (concat (map iaddrs ks)). items h z \<noteq> None" by fastforce
  then have "\<forall>z \<in> set (concat (map iaddrs ks)). z < requests (hooks h)" using assms(1) by (auto simp: heap_ok_def)
  from distinct_bounded_length [OF assms(3) this] show ?thesis by (simp add: fuel_def)
qed

lemma Delete_rep:
  assumes "heap_ok h" "rep h sh x" "unlinked h (addr sh)" "plain x" "distinct (iaddrs sh)" "distinct (saddrs sh)"
  shows "Delete (Some (addr sh)) h = ret (without [sh] [x] h)"
proof -
  have "seg h None (Some (addr sh)) (map addr [sh]) None" using assms(3) by (auto simp: unlinked_def)
  moreover have "length (concat (map iaddrs [sh])) < fuel h"
    using assms(1,2,5) by (intro heap_ok_length [where xs = "[x]"]) auto
  ultimately show ?thesis unfolding Delete_def using assms by (intro delete_loop_rep) auto
qed

lemma rewired_dom: "rewired h a cs S h' \<Longrightarrow> items h' z = None \<longleftrightarrow> items h z = None"
  unfolding rewired_def by (metis insert_iff map_option_is_None option.distinct(1))

lemma rewired_ok: "rewired h a cs S h' \<Longrightarrow> heap_ok h \<Longrightarrow> heap_ok h'"
  unfolding heap_ok_def using rewired_dom [of h a cs S h'] by (simp add: rewired_def)

text \<open>
  \<open>only_relinked a S F h h'\<close>: the items \<open>F\<close> are freed; of the item \<open>a\<close> only the \<open>child\<close> pointer has
  changed, of the other items \<open>S\<close> only \<open>next\<close> and \<open>prev\<close>, and every other item is as it was.
\<close>

definition only_relinked :: "nat \<Rightarrow> nat set \<Rightarrow> nat set \<Rightarrow> heap \<Rightarrow> heap \<Rightarrow> bool" where
  "only_relinked a S F h h' \<longleftrightarrow>
     (\<forall>z \<in> F. items h' z = None) \<and>
     (\<exists>n c. items h a = Some n \<and> items h' a = Some (n\<lparr>nchild := c\<rparr>)) \<and>
     (\<forall>z \<in> S - F. map_option body (items h' z) = map_option body (items h z)) \<and>
     (\<forall>z. z \<notin> insert a (S \<union> F) \<longrightarrow> items h' z = items h z)"

lemma rewired_relinks: "rewired h a cs S h' \<Longrightarrow> only_relinked a (set S) {} h h'"
  unfolding rewired_def only_relinked_def by auto

lemma rewired_without:
  assumes "rewired h a cs S h1" "a \<notin> set (iaddrs k)"
  shows "only_relinked a (set S) (set (iaddrs k)) h (without [k] [x] h1)"
proof -
  obtain n c where "items h a = Some n" "items h1 a = Some (n\<lparr>nchild := c\<rparr>)" using assms(1) by (auto simp: rewired_def)
  moreover have "items (without [k] [x] h1) z = (if z \<in> set (iaddrs k) then None else items h1 z)" for z
    by (simp add: without_def drop_all_def)
  ultimately show ?thesis using assms unfolding rewired_def only_relinked_def by auto
qed

lemma rep_without:
  assumes "rep h sh x" "set (iaddrs sh) \<inter> set (concat (map iaddrs ks)) = {}"
    "set (saddrs sh) \<inter> set (concat (map saddrs ks)) = {}"
  shows "rep (without ks xs h) sh x"
proof -
  have "rep (without ks xs h) sh x = rep h sh x"
    by (rule rep_cong) (use assms(2,3) in \<open>auto simp: drop_all_def\<close>)
  with assms(1) show ?thesis by simp
qed

lemma remove_at_set:
  assumes "i < length ks"
  shows "concat (map f ks) = concat (map f (take i ks)) @ f (ks ! i) @ concat (map f (drop (Suc i) ks))"
  by (subst id_take_nth_drop [OF assms]) simp

lemma remove_at_apart:
  assumes "distinct (concat (map f ks))" "i < length ks"
  shows "set (concat (map f (remove_at i ks))) \<inter> set (f (ks ! i)) = {}" "distinct (f (ks ! i))"
proof -
  have "distinct (concat (map f (take i ks)) @ f (ks ! i) @ concat (map f (drop (Suc i) ks)))"
    using assms(1) remove_at_set [OF assms(2)] by metis
  then show "set (concat (map f (remove_at i ks))) \<inter> set (f (ks ! i)) = {}" "distinct (f (ks ! i))"
    by (auto simp: remove_at_def)
qed

lemma delete_item_rep:
  assumes h: "heap_ok h" and x: "rep h (Shape a v m ks) x" "plain x"
    and d: "distinct (iaddrs (Shape a v m ks))" "distinct (saddrs (Shape a v m ks))" and i: "i < length ks"
  shows "\<exists>h'. cJSON_DeleteItemFromArray (Some a) (int i) h = ret h' \<and>
    rep h' (Shape a v m (remove_at i ks)) (set_child (remove_at i (child x)) x) \<and>
    only_relinked a (addr ` set ks) (set (iaddrs (ks ! i))) h h' \<and>
    strs h' = drop_all (saddrs (ks ! i)) (strs h) \<and>
    hooks h' = (hooks h)\<lparr>live := live (hooks h) - blocks (child x ! i)\<rparr>"
proof -
  obtain h1 where h1: "cJSON_DetachItemFromArray (Some a) (int i) h = ret (Some (addr (ks ! i)), h1)"
    "rep h1 (Shape a v m (remove_at i ks)) (set_child (remove_at i (child x)) x)"
    "rep h1 (ks ! i) (child x ! i)" "unlinked h1 (addr (ks ! i))" "rewired h a (map addr (remove_at i ks)) (map addr ks) h1"
    using detach_item_rep [OF h x(1) d(1) i] by blast
  have len: "length ks = length (child x)" using x(1) by (auto dest: list_all2_lengthD)
  have pl: "plain (child x ! i)" using x(2) len i by (cases x) auto
  have di: "distinct (concat (map iaddrs ks))" "distinct (concat (map saddrs ks))" using d by auto
  note ai = remove_at_apart [OF di(1) i] and as = remove_at_apart [OF di(2) i]
  let ?h = "without [ks ! i] [child x ! i] h1"
  have "cJSON_DeleteItemFromArray (Some a) (int i) h = ret ?h"
    using h1(1) Delete_rep [OF rewired_ok [OF h1(5) h] h1(3,4) pl ai(2) as(2)] by (simp add: cJSON_DeleteItemFromArray_def)
  moreover have "rep ?h (Shape a v m (remove_at i ks)) (set_child (remove_at i (child x)) x)"
  proof (rule rep_without [OF h1(2)])
    have ik: "set (iaddrs (ks ! i)) \<subseteq> set (concat (map iaddrs ks))" and sk: "set (saddrs (ks ! i)) \<subseteq> set (concat (map saddrs ks))"
      using remove_at_set [OF i, of iaddrs] remove_at_set [OF i, of saddrs] by (simp_all del: set_concat) blast+
    have "a \<notin> set (iaddrs (ks ! i))" using d(1) ik by auto
    then show "set (iaddrs (Shape a v m (remove_at i ks))) \<inter> set (concat (map iaddrs [ks ! i])) = {}"
      using ai(1) by auto
    have "set (opt_list v @ opt_list m) \<inter> set (saddrs (ks ! i)) = {}" using d(2) sk by auto
    then show "set (saddrs (Shape a v m (remove_at i ks))) \<inter> set (concat (map saddrs [ks ! i])) = {}"
      using as(1) by auto
  qed
  moreover have "a \<notin> set (iaddrs (ks ! i))" using d(1) i by (auto dest: nth_mem)
  then have "only_relinked a (addr ` set ks) (set (iaddrs (ks ! i))) h ?h"
    using rewired_without [OF h1(5), of "ks ! i"] by simp
  moreover have "strs ?h = drop_all (saddrs (ks ! i)) (strs h)"
      "hooks ?h = (hooks h)\<lparr>live := live (hooks h) - blocks (child x ! i)\<rparr>"
    using h1(5) by (auto simp: rewired_def without_def)
  ultimately show ?thesis by blast
qed

section \<open>Replacing\<close>

definition replace_at :: "nat \<Rightarrow> 'a \<Rightarrow> 'a list \<Rightarrow> 'a list" where
  "replace_at k x xs = take k xs @ x # drop (Suc k) xs"

lemma replace_item_rep:
  assumes h: "heap_ok h" and x: "rep h (Shape a v m ks) x" "plain x" and y: "rep h sh y"
    and d: "distinct (a # concat (map iaddrs (sh # ks)))" "distinct (opt_list v @ opt_list m @ concat (map saddrs (sh # ks)))"
    and i: "i < length ks"
  shows "\<exists>h'. cJSON_ReplaceItemInArray (Some a) (int i) (Some (addr sh)) h = ret h' \<and>
    rep h' (Shape a v m (replace_at i sh ks)) (set_child (replace_at i y (child x)) x) \<and>
    only_relinked a (addr ` set (sh # ks)) (set (iaddrs (ks ! i))) h h' \<and>
    strs h' = drop_all (saddrs (ks ! i)) (strs h) \<and>
    hooks h' = (hooks h)\<lparr>live := live (hooks h) - blocks (child x ! i)\<rparr>"
proof -
  obtain n where n: "items h a = Some n" "seg h None (nchild n) (map addr ks) None" "list_all2 (rep h) ks (child x)"
    by (rule rep_kids [OF x(1)])
  have di: "distinct (concat (map iaddrs ks))" "distinct (concat (map saddrs ks))" using d by auto
  note ai = remove_at_apart [OF di(1) i] and as = remove_at_apart [OF di(2) i]
  have dr: "distinct (a # addr sh # map addr ks)"
  proof -
    have "distinct (map addr (sh # ks))" using d by (intro distinct_roots) simp
    moreover have "a \<notin> addr ` set (sh # ks)" using d addr_in_children [of a "sh # ks"] by auto
    ultimately show ?thesis by auto
  qed
  have ks: "ks = take i ks @ ks ! i # drop (Suc i) ks" using i by (rule id_take_nth_drop)
  then have ak: "map addr ks = map addr (take i ks) @ addr (ks ! i) # map addr (drop (Suc i) ks)"
    by (metis list.simps(9) map_append)
  obtain nr where nr: "items h (addr sh) = Some nr" using y by (cases sh) auto
  obtain h1 where h1: "replace_links a (addr (ks ! i)) (addr sh) h = Inr h1"
    "rewired h a (map addr (replace_at i sh ks)) (map addr (sh # ks)) h1" "unlinked h1 (addr (ks ! i))"
    using replace_rewires [OF n(1) _ nr, of "map addr (take i ks)" "addr (ks ! i)" "map addr (drop (Suc i) ks)"]
      n(2) dr unfolding replace_at_def map_append list.map(2) ak by blast
  have "list_all2 (rep h) (replace_at i sh ks) (replace_at i y (child x))"
    using n(3) y by (simp add: replace_at_def list_all2_appendI list_all2_takeI list_all2_dropI)
  then have r1: "rep h1 (Shape a v m (replace_at i sh ks)) (set_child (replace_at i y (child x)) x)"
    by (intro rewired_children [OF x(1) h1(2) _ _ d(1)]) (auto simp: replace_at_def dest: in_set_takeD in_set_dropD)
  have len: "length ks = length (child x)" using n(3) by (rule list_all2_lengthD)
  have pl: "plain (child x ! i)" using x(2) len i by (cases x) auto
  have r2: "rep h1 (ks ! i) (child x ! i)"
  proof -
    have k: "ks ! i \<in> set (sh # ks)" using i by simp
    have "rep h1 (ks ! i) (child x ! i) = rep h (ks ! i) (child x ! i)"
    proof (rule rep_relinked)
      fix z assume z: "z \<in> set (tl (iaddrs (ks ! i)))"
      have "set (iaddrs (ks ! i)) \<subseteq> set (concat (map iaddrs (sh # ks)))" using k by auto
      then have "z \<noteq> a" using d(1) z tl_iaddrs [of "ks ! i"] by (metis distinct.simps(2) list.set_intros(2) subsetD)
      moreover have "z \<notin> addr ` set (sh # ks)" using below_no_root [OF _ k _ z] d(1) by auto
      ultimately show "items h1 z = items h z" using h1(2) by (simp add: rewired_def)
    qed (use h1(2) i in \<open>auto simp: rewired_def\<close>)
    then show ?thesis using n(3) i by (simp add: list_all2_nthD)
  qed
  let ?h = "without [ks ! i] [child x ! i] h1"
  have "addr sh \<noteq> addr (ks ! i)" using dr i by auto
  then have "cJSON_ReplaceItemInArray (Some a) (int i) (Some (addr sh)) h = ret ?h"
    using h1(1) Delete_rep [OF rewired_ok [OF h1(2) h] r2 h1(3) pl ai(2) as(2)] get_array_item_rep [OF h x(1) di(1), of i] i
    by (simp add: cJSON_ReplaceItemInArray_def cJSON_ReplaceItemViaPointer_def)
  moreover have "rep ?h (Shape a v m (replace_at i sh ks)) (set_child (replace_at i y (child x)) x)"
  proof (rule rep_without [OF r1])
    have ik: "set (iaddrs (ks ! i)) \<subseteq> set (concat (map iaddrs ks))" and sk: "set (saddrs (ks ! i)) \<subseteq> set (concat (map saddrs ks))"
      using remove_at_set [OF i, of iaddrs] remove_at_set [OF i, of saddrs] by (simp_all del: set_concat) blast+
    have "a \<notin> set (iaddrs (ks ! i))" "set (iaddrs sh) \<inter> set (iaddrs (ks ! i)) = {}" using d(1) ik by auto
    then show "set (iaddrs (Shape a v m (replace_at i sh ks))) \<inter> set (concat (map iaddrs [ks ! i])) = {}"
      using ai(1) by (auto simp: replace_at_def remove_at_def)
    have "set (opt_list v @ opt_list m @ saddrs sh) \<inter> set (saddrs (ks ! i)) = {}" using d(2) sk by auto
    then show "set (saddrs (Shape a v m (replace_at i sh ks))) \<inter> set (concat (map saddrs [ks ! i])) = {}"
      using as(1) by (auto simp: replace_at_def remove_at_def)
  qed
  moreover have "a \<notin> set (iaddrs (ks ! i))" using d(1) i by (auto dest: nth_mem)
  then have "only_relinked a (addr ` set (sh # ks)) (set (iaddrs (ks ! i))) h ?h"
    using rewired_without [OF h1(2), of "ks ! i"] by simp
  moreover have "strs ?h = drop_all (saddrs (ks ! i)) (strs h)"
      "hooks ?h = (hooks h)\<lparr>live := live (hooks h) - blocks (child x ! i)\<rparr>"
    using h1(2) by (auto simp: rewired_def without_def)
  ultimately show ?thesis by blast
qed

end
