(* ===== verification/CJsonDuplicate.thy ===== *)
theory CJsonDuplicate
  imports CJsonTree
begin

text \<open>
  \<open>cJSON_Duplicate\<close> on the heap: a copy in blocks of its own, or nothing left behind when memory
  runs out on the way.
\<close>

section \<open>Duplicating\<close>

text \<open>\<open>unchanged h h'\<close>: the same blocks. \<open>grown h h' sh y\<close>: new blocks in addition that make up the item \<open>y\<close>.\<close>

definition unchanged :: "heap \<Rightarrow> heap \<Rightarrow> bool" where
  "unchanged h h' \<longleftrightarrow> items h' = items h \<and> strs h' = strs h \<and> live (hooks h') = live (hooks h) \<and>
     grants (hooks h') = grants (hooks h) \<and> requests (hooks h) \<le> requests (hooks h')"

definition grown :: "heap \<Rightarrow> heap \<Rightarrow> shape \<Rightarrow> cJSON \<Rightarrow> bool" where
  "grown h h' sh y \<longleftrightarrow> rep h' sh y \<and> unlinked h' (addr sh) \<and> plain y \<and>
     distinct (iaddrs sh) \<and> distinct (saddrs sh) \<and>
     (\<forall>z \<in> set (iaddrs sh). requests (hooks h) \<le> z) \<and> (\<forall>z \<in> set (saddrs sh). requests (hooks h) \<le> z) \<and>
     (\<forall>z. z \<notin> set (iaddrs sh) \<longrightarrow> items h' z = items h z) \<and>
     (\<forall>z. z \<notin> set (saddrs sh) \<longrightarrow> strs h' z = strs h z) \<and>
     live (hooks h') = live (hooks h) + blocks y \<and>
     grants (hooks h') = grants (hooks h) \<and> requests (hooks h) \<le> requests (hooks h') \<and> heap_ok h'"

lemma unchanged_ok: "unchanged h h' \<Longrightarrow> heap_ok h \<Longrightarrow> heap_ok h'"
  by (fastforce simp: unchanged_def heap_ok_def)

text \<open>Deleting the new item leaves what was there before.\<close>

lemma grown_deleted:
  assumes "grown h h' sh y" "heap_ok h"
  shows "\<exists>h2. Delete (Some (addr sh)) h' = ret h2 \<and> unchanged h h2"
proof -
  have "Delete (Some (addr sh)) h' = ret (without [sh] [y] h')"
    using assms(1) by (intro Delete_rep) (auto simp: grown_def)
  moreover have "unchanged h (without [sh] [y] h')"
  proof -
    have "items h z = None" if "z \<in> set (iaddrs sh)" for z
      using assms that unfolding grown_def heap_ok_def by (meson not_le)
    then have "drop_all (iaddrs sh) (items h') = items h"
      using assms(1) by (auto simp: grown_def drop_all_def)
    moreover have "strs h z = None" if "z \<in> set (saddrs sh)" for z
      using assms that unfolding grown_def heap_ok_def by (meson not_le)
    then have "drop_all (saddrs sh) (strs h') = strs h"
      using assms(1) by (auto simp: grown_def drop_all_def)
    ultimately
    show ?thesis using assms(1) by (simp add: unchanged_def grown_def without_def)
  qed
  ultimately show ?thesis by blast
qed

lemma strdup_cases:
  assumes "str_at h p s"
  obtains (null) "p = None" "strdup p h = Inr (None, h)"
    | (granted) w where "p \<noteq> None" "s = Some w"
        "strdup p h = Inr (Some (requests (hooks h)), h\<lparr>strs := (strs h)(requests (hooks h) \<mapsto> w),
           hooks := (hooks h)\<lparr>requests := Suc (requests (hooks h)), live := live (hooks h) + 1\<rparr>\<rparr>)"
    | (refused) "p \<noteq> None" "\<not> always_grants (hooks h)"
        "strdup p h = Inr (None, h\<lparr>hooks := (hooks h)\<lparr>requests := Suc (requests (hooks h))\<rparr>\<rparr>)"
proof (cases p)
  case None
  then show ?thesis using null by (simp add: strdup_def)
next
  case (Some a)
  then obtain w where w: "s = Some w" "strs h a = Some w" using assms by (auto simp: str_at_iff)
  show ?thesis
  proof (cases "grants (hooks h) (requests (hooks h)) (length w + 1)")
    case True
    then show ?thesis using Some w by (intro granted [of w]) (simp_all add: strdup_def rd_str_def allocate_def)
  next
    case False
    then show ?thesis using Some w by (intro refused) (auto simp: strdup_def rd_str_def allocate_def always_grants_def)
  qed
qed

lemma and_not_flag: "(t :: int) AND 256 = 0 \<Longrightarrow> t AND NOT 256 = t"
proof -
  assume "t AND 256 = 0"
  moreover have "(t AND 256) OR (t AND NOT 256) = t" by (rule bit_eqI) (auto simp: bit_simps)
  ultimately show ?thesis by simp
qed


lemma alloc_item_cases:
  obtains (granted) "new_item h = (Some (requests (hooks h)), h\<lparr>items := (items h)(requests (hooks h) \<mapsto> zero_node),
       hooks := (hooks h)\<lparr>requests := Suc (requests (hooks h)), live := live (hooks h) + 1\<rparr>\<rparr>)"
    | (refused) "\<not> always_grants (hooks h)"
        "new_item h = (None, h\<lparr>hooks := (hooks h)\<lparr>requests := Suc (requests (hooks h))\<rparr>\<rparr>)"
proof (cases "grants (hooks h) (requests (hooks h)) 64")
  case True then show ?thesis by (intro granted) (simp add: new_item_def allocate_def)
next
  case False then show ?thesis by (intro refused) (auto simp: new_item_def allocate_def always_grants_def)
qed

text \<open>A copy without children, with or without its strings.\<close>

lemma leaf_grown:
  assumes h: "heap_ok h" and x: "plain x"
    and y: "y = CJSON (ctype x) vs (valueint x) (valuedouble x) s []"
    and g: "r = requests (hooks h)" "r < req" "vs \<noteq> None \<longrightarrow> v = Some (Suc r)" "vs = None \<longrightarrow> v = None"
      "s \<noteq> None \<longrightarrow> (\<exists>w. m = Some w \<and> r < w \<and> w < req \<and> v \<noteq> Some w)" "s = None \<longrightarrow> m = None" "vs \<noteq> None \<longrightarrow> Suc r < req"
    and h': "h' = \<lparr>items = (items h)(r \<mapsto> \<lparr>nnext = None, nprev = None, nchild = None, ntype = ctype x, nvaluestring = v,
        nvalueint = valueint x, nvaluedouble = valuedouble x, nstring = m\<rparr>),
        strs = (\<lambda>z. if v = Some z then vs else if m = Some z then s else strs h z),
        hooks = (hooks h)\<lparr>requests := req, live := live (hooks h) + blocks y\<rparr>\<rparr>"
  shows "grown h h' (Shape r v m []) y"
proof -
  have pl: "plain y" using x by (cases x) (simp add: y)
  have ok: "heap_ok h'"
    using h g unfolding heap_ok_def h' by (cases v; cases m) (auto split: if_splits)
  have "rep h' (Shape r v m []) y"
    using g by (cases v; cases m) (auto simp: y h' fields_def str_at_iff)
  then show ?thesis
    using pl ok g by (cases v; cases m) (auto simp: grown_def h' unlinked_def y)
qed

definition copied :: "heap \<Rightarrow> cJSON \<Rightarrow> (nat option + nat) \<times> heap \<Rightarrow> bool" where
  "copied h x r \<longleftrightarrow> (case r of
     (Inl None, h') \<Rightarrow> unchanged h h' \<and> \<not> always_grants (hooks h)
   | (Inl (Some a), h') \<Rightarrow> (\<exists>v m y. grown h h' (Shape a v m []) y) \<and> \<not> always_grants (hooks h)
   | (Inr a, h') \<Rightarrow> \<exists>v m. grown h h' (Shape a v m []) (set_child [] x))"

lemma copiedI:
  "grown h h' (Shape a v m []) (set_child [] x) \<Longrightarrow> copied h x (Inr a, h')"
  "grown h h' (Shape a v m []) y \<Longrightarrow> \<not> always_grants (hooks h) \<Longrightarrow> copied h x (Inl (Some a), h')"
  by (auto simp: copied_def)

lemma duplicate_fields_copies:
  assumes h: "heap_ok h" and x: "rep h (Shape i v m cs) x" "plain x"
  shows "\<exists>r. duplicate_fields i h = Inr r \<and> copied h x r"
proof -
  obtain I S K where hc: "h = \<lparr>items = I, strs = S, hooks = K\<rparr>" by (cases h)
  obtain n where n: "items h i = Some n" "fields h n v m x" using x(1) by auto
  obtain t vs j d s c where xc: "x = CJSON t vs j d s c" by (cases x)
  have f: "ntype n = t" "nvalueint n = j" "nvaluedouble n = d" "nvaluestring n = v" "nstring n = m"
    "str_at h v vs" "str_at h m s" using n(2) by (auto simp: xc fields_def)
  have t: "t AND 256 = 0" "t AND 512 = 0" "t AND NOT 256 = t" using x(2) and_not_flag by (auto simp: xc)
  let ?r = "requests (hooks h)"
  have ir: "i < ?r" "i \<noteq> ?r" using h n(1) by (auto simp: heap_ok_def)
  show ?thesis
  proof (cases h rule: alloc_item_cases)
    case refused
    then show ?thesis by (simp add: duplicate_fields_def copied_def unchanged_def)
  next
    case granted
    define node where "node v m = \<lparr>nnext = None, nprev = None, nchild = None, ntype = t, nvaluestring = v,
        nvalueint = j, nvaluedouble = d, nstring = m\<rparr>" for v m
    define hp where "hp v m S q l = \<lparr>items = (items h)(?r \<mapsto> node v m), strs = S,
        hooks = (hooks h)\<lparr>requests := q, live := l\<rparr>\<rparr>" for v m S q l
    let ?l = "live (hooks h)"
    have start: "duplicate_fields i h =
        bind_res (strdup v (hp None None (strs h) (Suc ?r) (?l + 1))) (\<lambda>(v', h).
          bind_res (upd_item ?r (\<lambda>m. m\<lparr>nvaluestring := v'\<rparr>) h) (\<lambda>h.
          if v \<noteq> None \<and> v' = None then Inr (Inl (Some ?r), h)
          else
            bind_res (strdup m h) (\<lambda>(s, h).
            bind_res (upd_item ?r (\<lambda>m. m\<lparr>nstring := s\<rparr>) h) (\<lambda>h.
            if m \<noteq> None \<and> s = None then Inr (Inl (Some ?r), h)
            else Inr (Inr ?r, h)))))"
      unfolding duplicate_fields_def granted using n(1) f t ir(2)
      by (simp add: zero_node_def hp_def node_def hc cong: if_cong)
    have grow: "grown h (hp v' m' (\<lambda>z. if v' = Some z then vs' else if m' = Some z then s' else strs h z) q l) (Shape ?r v' m' []) (CJSON t vs' j d s' [])"
      if "l = ?l + blocks (CJSON t vs' j d s' [])" "?r < q" "vs' \<noteq> None \<longrightarrow> v' = Some (Suc ?r)" "vs' = None \<longrightarrow> v' = None"
      "s' \<noteq> None \<longrightarrow> (\<exists>w. m' = Some w \<and> ?r < w \<and> w < q \<and> v' \<noteq> Some w)" "s' = None \<longrightarrow> m' = None" "vs' \<noteq> None \<longrightarrow> Suc ?r < q"
      for v' m' vs' s' q l
      by (rule leaf_grown [OF h x(2), of _ vs' s' ?r q v' m']) (use that in \<open>simp_all add: xc hp_def node_def\<close>)
    let ?A = "\<lambda>v' m' vs' s' z. if v' = Some z then vs' else if m' = Some z then s' else strs h z"
    have hp_simps: "hooks (hp v m S q l) = (hooks h)\<lparr>requests := q, live := l\<rparr>" "strs (hp v m S q l) = S"
      "upd_item ?r (\<lambda>x. x\<lparr>nvaluestring := v'\<rparr>) (hp v m S q l) = Inr (hp v' m S q l)"
      "upd_item ?r (\<lambda>x. x\<lparr>nstring := v'\<rparr>) (hp v m S q l) = Inr (hp v v' S q l)"
      "(hp v m S q l)\<lparr>strs := S', hooks := (hooks h)\<lparr>requests := q', live := l'\<rparr>\<rparr> = hp v m S' q' l'"
      "(hp v m S q l)\<lparr>hooks := (hooks h)\<lparr>requests := q', live := l'\<rparr>\<rparr> = hp v m S q' l'"
      "(hp v m S q l)\<lparr>hooks := (hooks h)\<lparr>live := l', requests := q'\<rparr>\<rparr> = hp v m S q' l'"
      for v m S q l v' S' q' l'
      by (simp_all add: hp_def node_def)
    have second: "\<exists>r. bind_res (strdup m (hp v' None (?A v' None vs None) q l1)) (\<lambda>(s, h).
            bind_res (upd_item ?r (\<lambda>m. m\<lparr>nstring := s\<rparr>) h) (\<lambda>h.
            if m \<noteq> None \<and> s = None then Inr (Inl (Some ?r), h)
            else Inr (Inr ?r, h))) = Inr r \<and> copied h x r"
      if q: "?r < q" "vs \<noteq> None \<longrightarrow> v' = Some (Suc ?r) \<and> Suc ?r < q" "vs = None \<longrightarrow> v' = None"
        "l1 = ?l + 1 + of_bool (vs \<noteq> None)" for v' q l1
    proof -
      have sa: "str_at (hp v' None (?A v' None vs None) q l1) m s"
        using f(7) q(2,3) h by (cases vs) (auto simp: str_at_iff hp_simps heap_ok_def split: option.splits)
      from sa show ?thesis
      proof (cases rule: strdup_cases)
        case null
        then have "s = None" using f(7) by (simp add: str_at_iff)
        then have "grown h (hp v' None (?A v' None vs None) q l1) (Shape ?r v' None []) (set_child [] x)"
          using grow [of l1 vs None q v' None] q by (auto simp: xc)
        then show ?thesis using null copiedI(1) by (simp add: hp_simps)
      next
        case (granted w)
        have S: "(?A v' None vs None)(q \<mapsto> w) = ?A v' (Some q) vs (Some w)" using q by (auto simp: fun_eq_iff)
        have "grown h (hp v' (Some q) (?A v' (Some q) vs (Some w)) (Suc q) (l1 + 1)) (Shape ?r v' (Some q) []) (set_child [] x)"
          using granted grow [of "l1 + 1" vs "Some w" "Suc q" v' "Some q"] q by (auto simp: xc)
        then show ?thesis using granted copiedI(1) by (simp add: hp_simps S)
      next
        case refused
        have "grown h (hp v' None (?A v' None vs None) (Suc q) l1) (Shape ?r v' None []) (CJSON t vs j d None [])"
          using grow [of l1 vs None "Suc q" v' None] q by auto
        then show ?thesis using refused copiedI(2) by (auto simp: hp_simps always_grants_def)
      qed
    qed
    have sv: "str_at (hp None None (strs h) (Suc ?r) (?l + 1)) v vs" using f(6) unfolding str_at_iff hp_simps .
    from sv show ?thesis
    proof (cases rule: strdup_cases)
      case null
      then have "vs = None" using f(6) by (simp add: str_at_iff)
      then show ?thesis unfolding start using null second [of "Suc ?r" None "?l + 1"] by (simp add: hp_simps)
    next
      case (granted w)
      have S: "(strs h)(Suc ?r \<mapsto> w) = ?A (Some (Suc ?r)) None (Some w) None" by (auto simp: fun_eq_iff)
      show ?thesis unfolding start
        using granted(1,3) second [of "Suc (Suc ?r)" "Some (Suc ?r)" "2 + ?l"]
        unfolding granted(2) by (simp add: hp_simps S)
    next
      case refused
      have "grown h (hp None None (strs h) (Suc (Suc ?r)) (?l + 1)) (Shape ?r None None []) (CJSON t None j d None [])"
        using grow [of "?l + 1" None None "Suc (Suc ?r)" None None] by simp
      then show ?thesis unfolding start using refused copiedI(2) by (auto simp: hp_simps always_grants_def)
    qed
  qed
qed

lemma rep_dom:
  "rep h sh x \<Longrightarrow> (\<forall>z \<in> set (iaddrs sh). items h z \<noteq> None) \<and> (\<forall>z \<in> set (saddrs sh). strs h z \<noteq> None)"
proof (induction sh arbitrary: x)
  case (Shape a v m cs)
  then have "list_all2 (rep h) cs (child x)" by simp
  then have "\<forall>c \<in> set cs. \<exists>y. rep h c y" using list_all2_ex by fast
  with Shape.IH have "\<forall>c \<in> set cs. (\<forall>z \<in> set (iaddrs c). items h z \<noteq> None) \<and> (\<forall>z \<in> set (saddrs c). strs h z \<noteq> None)" by blast
  moreover have "\<forall>z \<in> set (opt_list v @ opt_list m). strs h z \<noteq> None"
    using Shape.prems by (auto simp: fields_def str_at_iff opt_list_def split: option.splits)
  ultimately show ?case using Shape.prems by auto
qed

lemma rep_below:
  assumes "heap_ok h" "rep h sh x"
  shows "\<forall>z \<in> set (iaddrs sh). z < requests (hooks h)" "\<forall>z \<in> set (saddrs sh). z < requests (hooks h)"
  using assms rep_dom [OF assms(2)] by (auto simp: heap_ok_def)

text \<open>What was there before is still there.\<close>

lemma grown_keeps:
  assumes g: "grown h h' sh y" and h: "heap_ok h" and x: "rep h k x"
  shows "rep h' k x"
proof -
  have "rep h' k x = rep h k x"
  proof (rule rep_cong)
    show "items h' z = items h z" if "z \<in> set (iaddrs k)" for z
      using g rep_below(1) [OF h x] that unfolding grown_def by (metis not_le)
    show "strs h' z = strs h z" if "z \<in> set (saddrs k)" for z
      using g rep_below(2) [OF h x] that unfolding grown_def by (metis not_le)
  qed
  with x show ?thesis by simp
qed

lemma grown_item: "grown h h' sh y \<Longrightarrow> z < requests (hooks h) \<Longrightarrow> items h' z = items h z"
  unfolding grown_def by (metis not_le)

lemma child_set_child [simp]:
  "child (set_child ys x) = ys" "set_child ys (set_child zs x) = set_child ys x"
  "blocks (set_child (ys @ [y]) x) = blocks (set_child ys x) + blocks y"
  "plain (set_child (ys @ [y]) x) \<longleftrightarrow> plain (set_child ys x) \<and> plain y"
  by (cases x; auto)+

lemma child_appended:
  assumes h0: "heap_ok h0" and g: "grown h0 h (Shape a v m ks) (set_child ys x)" and c: "grown h h1 k y"
  shows "\<exists>h2. (case tail_ptr None (map addr ks) of
        None \<Rightarrow> upd_item a (\<lambda>n. n\<lparr>nchild := Some (addr k)\<rparr>) h1
      | Some l \<Rightarrow> suffix_object l (addr k) h1) = Inr h2 \<and>
    grown h0 h2 (Shape a v m (ks @ [k])) (set_child (ys @ [y]) x)"
proof -
  have ok: "heap_ok h" and rx: "rep h (Shape a v m ks) (set_child ys x)" using g by (auto simp: grown_def)
  have rx1: "rep h1 (Shape a v m ks) (set_child ys x)" by (rule grown_keeps [OF c ok rx])
  have low: "\<forall>z \<in> set (iaddrs (Shape a v m ks)). z < requests (hooks h)" "\<forall>z \<in> set (saddrs (Shape a v m ks)). z < requests (hooks h)"
    using rep_below [OF ok rx] by auto
  have high: "\<forall>z \<in> set (iaddrs k). requests (hooks h) \<le> z" "\<forall>z \<in> set (saddrs k). requests (hooks h) \<le> z"
    using c by (auto simp: grown_def)
  have dis: "set (iaddrs (Shape a v m ks)) \<inter> set (iaddrs k) = {}" "set (saddrs (Shape a v m ks)) \<inter> set (saddrs k) = {}"
    using low high by (metis disjoint_iff not_le)+
  have dg: "distinct (iaddrs (Shape a v m ks))" "distinct (saddrs (Shape a v m ks))" "distinct (iaddrs k)" "distinct (saddrs k)"
    using g c by (auto simp: grown_def)
  have d: "distinct (a # concat (map iaddrs (k # ks)))" using dg(1,3) dis(1) by auto
  obtain n where n: "items h1 a = Some n" "seg h1 None (nchild n) (map addr ks) None" "list_all2 (rep h1) ks ys"
    by (rule rep_kids [OF rx1]) simp
  have dr: "distinct (a # addr k # map addr ks)"
  proof -
    have "distinct (map addr (k # ks))" using d by (intro distinct_roots) simp
    moreover have "a \<notin> addr ` set (k # ks)" using d addr_in_children [of a "k # ks"] by auto
    ultimately show ?thesis by auto
  qed
  have uk: "unlinked h1 (addr k)" "rep h1 k y" using c by (auto simp: grown_def)
  obtain h2 where h2: "(case tail_ptr None (map addr ks) of
        None \<Rightarrow> upd_item a (\<lambda>n. n\<lparr>nchild := Some (addr k)\<rparr>) h1
      | Some l \<Rightarrow> suffix_object l (addr k) h1) = Inr h2"
    "rewired h1 a (map addr (ks @ [k])) (map addr (k # ks)) h2"
    using append_rewires [OF n(1,2) uk(1) dr] by auto
  have "rep h2 (Shape a v m (ks @ [k])) (set_child (ys @ [y]) (set_child ys x))"
    by (rule rewired_children [OF rx1 h2(2) _ _ d]) (use n(3) uk(2) in \<open>auto intro: list_all2_appendI\<close>)
  then have r2: "rep h2 (Shape a v m (ks @ [k])) (set_child (ys @ [y]) x)" by simp
  have ua: "unlinked h2 a"
  proof -
    have "unlinked h a" using g by (simp add: grown_def)
    moreover have "items h1 a = items h a" using grown_item [OF c] low(1) by simp
    moreover obtain q where "items h2 a = Some (n\<lparr>nchild := q\<rparr>)" using h2(2) n(1) by (auto simp: rewired_def)
    ultimately show ?thesis using n(1) by (auto simp: unlinked_def)
  qed
  have it: "items h2 z = items h0 z" if "z \<notin> set (iaddrs (Shape a v m (ks @ [k])))" for z
  proof -
    have "z \<notin> insert a (set (map addr (k # ks)))" using that addr_in_children [of z "k # ks"] by auto
    then have "items h2 z = items h1 z" using h2(2) by (simp add: rewired_def)
    also have "\<dots> = items h z" using c that by (simp add: grown_def)
    also have "\<dots> = items h0 z" using g that by (simp add: grown_def)
    finally show ?thesis .
  qed
  have st: "strs h2 z = strs h0 z" if "z \<notin> set (saddrs (Shape a v m (ks @ [k])))" for z
    using h2(2) c g that by (simp add: rewired_def grown_def)
  have rq: "requests (hooks h0) \<le> requests (hooks h)" "hooks h2 = hooks h1" using g h2(2) by (auto simp: grown_def rewired_def)
  have "grown h0 h2 (Shape a v m (ks @ [k])) (set_child (ys @ [y]) x)"
    unfolding grown_def
  proof (intro conjI)
    show "distinct (iaddrs (Shape a v m (ks @ [k])))" using dg(1,3) dis(1) by auto
    show "distinct (saddrs (Shape a v m (ks @ [k])))" using dg(2,4) dis(2) by auto
    show "\<forall>z \<in> set (iaddrs (Shape a v m (ks @ [k]))). requests (hooks h0) \<le> z"
      using g high(1) rq(1) by (fastforce simp: grown_def)
    show "\<forall>z \<in> set (saddrs (Shape a v m (ks @ [k]))). requests (hooks h0) \<le> z"
      using g high(2) rq(1) by (fastforce simp: grown_def)
    show "heap_ok h2" using rewired_ok [OF h2(2)] c by (simp add: grown_def)
  qed (use r2 ua it st rq g c in \<open>auto simp: grown_def\<close>)
  with h2(1) show ?thesis by blast
qed

definition dup_post :: "heap \<Rightarrow> (nat option \<times> heap) res option \<Rightarrow> cJSON \<Rightarrow> bool" where
  "dup_post h r y \<longleftrightarrow> (\<exists>sh h'. r = ret (Some (addr sh), h') \<and> grown h h' sh y) \<or>
     (\<exists>h'. r = ret (None, h') \<and> unchanged h h' \<and> \<not> always_grants (hooks h))"

lemma duplicate_fail_post:
  assumes "grown h h' sh y" "heap_ok h" "\<not> always_grants (hooks h)"
  shows "dup_post h (duplicate_fail (Some (addr sh)) h') x"
  using grown_deleted [OF assms(1,2)] assms(3) by (auto simp: dup_post_def duplicate_fail_def)

lemma grown_unchanged:
  assumes "grown h0 h sh y" "unchanged h h1"
  shows "grown h0 h1 sh y"
proof -
  have "rep h1 sh y = rep h sh y" by (rule rep_cong) (use assms(2) in \<open>simp_all add: unchanged_def\<close>)
  moreover have "heap_ok h1" using unchanged_ok [OF assms(2)] assms(1) by (simp add: grown_def)
  ultimately show ?thesis using assms by (auto simp: grown_def unchanged_def unlinked_def)
qed

lemma duplicate_post:
  "(\<forall>h sh x. heap_ok h \<longrightarrow> rep h sh x \<longrightarrow> plain x \<longrightarrow> 2 * length (iaddrs sh) \<le> k \<longrightarrow>
      dup_post h (duplicate_item k (Some (addr sh)) True h) x) \<and>
   (\<forall>h0 h a v m ks ys x c pv rest xs. heap_ok h0 \<longrightarrow> grown h0 h (Shape a v m ks) (set_child ys x) \<longrightarrow>
      seg h0 pv c (map addr rest) None \<longrightarrow> list_all2 (rep h0) rest xs \<longrightarrow> (\<forall>x \<in> set xs. plain x) \<longrightarrow>
      2 * length (concat (map iaddrs rest)) + 1 \<le> k \<longrightarrow>
      dup_post h0 (duplicate_children k a c (tail_ptr None (map addr ks)) h) (set_child (ys @ xs) x))"
proof (induction k)
  case 0
  have "iaddrs sh \<noteq> []" for sh by (cases sh) simp
  then show ?case by simp
next
  case (Suc k)
  show ?case
  proof (intro conjI allI impI)
    fix h sh x
    assume h: "heap_ok h" and x: "rep h sh x" "plain x" and k: "2 * length (iaddrs sh) \<le> Suc k"
    obtain i v m cs where sh: "sh = Shape i v m cs" by (cases sh)
    obtain r h1 where r: "duplicate_fields i h = Inr (r, h1)" "copied h x (r, h1)"
      using duplicate_fields_copies [OF h, of i v m cs x] x sh by auto
    show "dup_post h (duplicate_item (Suc k) (Some (addr sh)) True h) x"
    proof (cases r)
      case (Inl p)
      show ?thesis
      proof (cases p)
        case None
        then have "unchanged h h1" "\<not> always_grants (hooks h)" using r(2) Inl by (auto simp: copied_def)
        moreover have "Delete None h1 = ret h1" by (simp add: Delete_def fuel_def)
        ultimately show ?thesis using r(1) Inl None sh by (auto simp: dup_post_def duplicate_fail_def)
      next
        case (Some a)
        then obtain v' m' y where "grown h h1 (Shape a v' m' []) y" "\<not> always_grants (hooks h)"
          using r(2) Inl by (auto simp: copied_def)
        then show ?thesis using duplicate_fail_post [OF _ h] r(1) Inl Some sh by fastforce
      qed
    next
      case (Inr a)
      obtain v' m' where g: "grown h h1 (Shape a v' m' []) (set_child [] x)" using r(2) Inr by (auto simp: copied_def)
      obtain n where n: "items h i = Some n" "seg h None (nchild n) (map addr cs) None" "list_all2 (rep h) cs (child x)"
        using x(1) sh by auto
      have "i < requests (hooks h)" using rep_below(1) [OF h x(1)] sh by simp
      then have "items h1 i = Some n" using grown_item [OF g] n(1) by simp
      moreover have "dup_post h (duplicate_children k a (nchild n) (tail_ptr None (map addr [])) h1) (set_child ([] @ child x) x)"
      proof -
        have "\<forall>y \<in> set (child x). plain y" using x(2) by (cases x) simp
        moreover have "2 * length (concat (map iaddrs cs)) + 1 \<le> k" using k sh by simp
        ultimately show ?thesis using Suc.IH [THEN conjunct2] h g n(2,3) by blast
      qed
      moreover have "set_child (child x) x = x" by (cases x) simp
      ultimately show ?thesis using r(1) Inr sh by simp
    qed
  next
    fix h0 h a v m ks ys x c pv rest xs
    assume h0: "heap_ok h0" and g: "grown h0 h (Shape a v m ks) (set_child ys x)"
      and s: "seg h0 pv c (map addr rest) None" and l: "list_all2 (rep h0) rest xs" and p: "\<forall>x \<in> set xs. plain x"
      and k: "2 * length (concat (map iaddrs rest)) + 1 \<le> Suc k"
    show "dup_post h0 (duplicate_children (Suc k) a c (tail_ptr None (map addr ks)) h) (set_child (ys @ xs) x)"
    proof (cases rest)
      case Nil
      then have "c = None" "xs = []" using s l by auto
      moreover have "dup_post h0 (ret (Some a, h)) (set_child ys x)"
        using g unfolding dup_post_def by (metis shape.sel(1))
      ultimately show ?thesis by simp
    next
      case (Cons sc rest')
      obtain y xs' where xs: "xs = y # xs'" "rep h0 sc y" "list_all2 (rep h0) rest' xs'" using l Cons by (auto simp: list_all2_Cons1)
      obtain n where n: "c = Some (addr sc)" "items h0 (addr sc) = Some n" "seg h0 (Some (addr sc)) (nnext n) (map addr rest') None"
        using s Cons by auto
      have ok: "heap_ok h" using g by (simp add: grown_def)
      have "dup_post h (duplicate_item k (Some (addr sc)) True h) y"
        using Suc.IH [THEN conjunct1] ok grown_keeps [OF g h0 xs(2)] p xs(1) k Cons by simp
      then consider (ok) b h1 where "duplicate_item k (Some (addr sc)) True h = ret (Some (addr b), h1)" "grown h h1 b y"
        | (no) h1 where "duplicate_item k (Some (addr sc)) True h = ret (None, h1)" "unchanged h h1" "\<not> always_grants (hooks h)"
        unfolding dup_post_def by blast
      then show ?thesis
      proof cases
        case no
        have "\<not> always_grants (hooks h0)" using no(3) g by (simp add: grown_def always_grants_def)
        then have "dup_post h0 (duplicate_fail (Some (addr (Shape a v m ks))) h1) (set_child (ys @ xs) x)"
          by (intro duplicate_fail_post [OF grown_unchanged [OF g no(2)] h0])
        then show ?thesis using no(1) n(1) by simp
      next
        case ok
        obtain h2 where h2: "(case tail_ptr None (map addr ks) of
              None \<Rightarrow> upd_item a (\<lambda>n. n\<lparr>nchild := Some (addr b)\<rparr>) h1
            | Some l \<Rightarrow> suffix_object l (addr b) h1) = Inr h2"
          "grown h0 h2 (Shape a v m (ks @ [b])) (set_child (ys @ [y]) x)"
          using child_appended [OF h0 g ok(2)] by blast
        have "items h2 (addr sc) = Some n"
          using grown_item [OF h2(2), of "addr sc"] rep_below(1) [OF h0 xs(2)] n(2) by simp
        moreover have "dup_post h0 (duplicate_children k a (nnext n) (tail_ptr None (map addr (ks @ [b]))) h2)
            (set_child ((ys @ [y]) @ xs') x)"
        proof -
          have "2 * length (concat (map iaddrs rest')) + 1 \<le> k" using k Cons by (cases sc) simp
          moreover have "\<forall>x \<in> set xs'. plain x" using p xs(1) by simp
          ultimately show ?thesis using Suc.IH [THEN conjunct2] h0 h2(2) n(3) xs(3) by blast
        qed
        ultimately show ?thesis
          using ok(1) n(1) h2(1) [unfolded suffix_object_def] xs(1) by simp
      qed
    qed
  qed
qed

lemma Duplicate_post:
  assumes "heap_ok h" "rep h sh x" "plain x" "distinct (iaddrs sh)"
  shows "dup_post h (cJSON_Duplicate (Some (addr sh)) True h) x"
proof -
  have "length (concat (map iaddrs [sh])) < fuel h" using assms by (intro heap_ok_length [where xs = "[x]"]) auto
  then show ?thesis
    unfolding cJSON_Duplicate_def using duplicate_post [of "2 * fuel h"] assms(1-3) by simp
qed

end
