(* ===== verification/CJsonEditProps.thy ===== *)
theory CJsonEditProps
  imports CJsonDuplicate CJsonParseProps
begin

text \<open>
  The properties of the operations that edit trees in memory, on the heap: inserting, deleting and
  replacing a child refine the operations on the list of children of the tree, and a duplicate is an
  equal tree in new memory. The last section evaluates calls for which the code goes wrong.
\<close>

section \<open>A small heap\<close>

text \<open>The array \<open>[true, "hi"]\<close> at address 0 and a null item at address 4.\<close>

definition sample_node :: "nat option \<Rightarrow> nat option \<Rightarrow> nat option \<Rightarrow> int \<Rightarrow> nat option \<Rightarrow> int \<Rightarrow> node" where
  "sample_node nx pv ch t vs i = \<lparr>nnext = nx, nprev = pv, nchild = ch, ntype = t, nvaluestring = vs,
     nvalueint = i, nvaluedouble = double_zero, nstring = None\<rparr>"

definition sample_heap :: heap where
  "sample_heap = \<lparr>
     items = [0 \<mapsto> sample_node None None (Some 1) cJSON_Array None 0,
              1 \<mapsto> sample_node (Some 2) None None cJSON_True None 1,
              2 \<mapsto> sample_node None (Some 1) None cJSON_String (Some 3) 0,
              4 \<mapsto> sample_node None None None cJSON_NULL None 0],
     strs = [3 \<mapsto> [104, 105]],
     hooks = granting_hooks\<lparr>requests := 5, live := 5\<rparr>\<rparr>"

definition sample_array :: cJSON where
  "sample_array = CJSON cJSON_Array None 0 double_zero None
     [CJSON cJSON_True None 1 double_zero None [], CJSON cJSON_String (Some [104, 105]) 0 double_zero None []]"

definition sample_null :: cJSON where
  "sample_null = CJSON cJSON_NULL None 0 double_zero None []"

abbreviation "sample_kids \<equiv> [Shape 1 None None [], Shape 2 (Some 3) None []]"

text \<open>An empty object at address 0 and an item at address 1 with the name at address 2.\<close>

definition named_heap :: heap where
  "named_heap = \<lparr>
     items = [0 \<mapsto> sample_node None None None cJSON_Object None 0,
              1 \<mapsto> (sample_node None None None cJSON_NULL None 0)\<lparr>nstring := Some 2\<rparr>],
     strs = [2 \<mapsto> [107], 3 \<mapsto> [108]],
     hooks = granting_hooks\<lparr>requests := 4, live := 3\<rparr>\<rparr>"

lemma sample_rep:
  "heap_ok sample_heap" "rep sample_heap (Shape 0 None None sample_kids) sample_array"
  "rep sample_heap (Shape 4 None None []) sample_null" "unlinked sample_heap 4" "unlinked sample_heap 0"
  "plain sample_array"
  by (auto simp: heap_ok_def sample_heap_def sample_node_def sample_array_def sample_null_def fields_def
      str_at_iff unlinked_def split: if_splits)

section \<open>Properties\<close>

text \<open>
  C37. \<open>cJSON_InsertItemInArray\<close> inserts into the list of children: when \<open>a\<close> is an item with the
  tree \<open>x\<close> and another, unlinked item with the tree \<open>y\<close> is inserted at an index, \<open>a\<close> has the tree \<open>x\<close> with \<open>y\<close>
  among its children at that index (at the end when there are fewer). The pointers \<open>next\<close> and
  \<open>prev\<close> are consistent again, and nothing is changed but the \<open>child\<close> pointer of \<open>a\<close> and the links of
  the items of this chain.
\<close>

theorem cJSON_InsertItemInArray_refines:
  assumes "heap_ok h" "rep h (Shape a v m ks) x" "rep h sh y" "unlinked h (addr sh)"
    "distinct (a # concat (map iaddrs (sh # ks)))" "0 \<le> which"
  shows "\<exists>h'. cJSON_InsertItemInArray (Some a) which (Some (addr sh)) h = ret h' \<and>
    rep h' (Shape a v m (insert_at (nat which) sh ks)) (set_child (insert_at (nat which) y (child x)) x) \<and>
    strs h' = strs h \<and> hooks h' = hooks h \<and>
    only_relinked a (addr ` set (sh # ks)) {} h h' \<and>
    (\<forall>z. z \<notin> insert a (addr ` set (sh # ks)) \<longrightarrow> items h' z = items h z)"
proof -
  obtain h' where h': "cJSON_InsertItemInArray (Some a) which (Some (addr sh)) h = ret h'"
    "rep h' (Shape a v m (insert_at (nat which) sh ks)) (set_child (insert_at (nat which) y (child x)) x)"
    "rewired h a (map addr (insert_at (nat which) sh ks)) (map addr (sh # ks)) h'"
    using insert_item_rep [OF assms(1-5), of "nat which"] assms(6) by auto
  then show ?thesis using rewired_relinks [OF h'(3)] by (auto simp: rewired_def)
qed

theorem cJSON_InsertItemInArray_refines_witness:
  "\<exists>h'. cJSON_InsertItemInArray (Some 0) 1 (Some 4) sample_heap = ret h' \<and>
     rep h' (Shape 0 None None [Shape 1 None None [], Shape 4 None None [], Shape 2 (Some 3) None []])
       (CJSON cJSON_Array None 0 double_zero None
          [CJSON cJSON_True None 1 double_zero None [], sample_null,
           CJSON cJSON_String (Some [104, 105]) 0 double_zero None []])"
  using cJSON_InsertItemInArray_refines [OF sample_rep(1,2,3), of 1] sample_rep(4)
  by (simp add: sample_array_def insert_at_def del: rep.simps) blast

text \<open>
  C38. \<open>cJSON_DeleteItemFromArray\<close> takes the item at an index out of the list of children and
  frees it, in a tree in which no item is a reference or has a constant name: afterwards the array has the
  tree without this child, the item blocks and the strings of the child are gone, each freed once, and the
  allocator has that many blocks fewer in use. Of the array itself only the \<open>child\<close> pointer and of its other
  children only \<open>next\<close> and \<open>prev\<close> may differ; every other item and string of the heap is as it was.
\<close>

theorem cJSON_DeleteItemFromArray_frees:
  assumes "heap_ok h" "rep h (Shape a v m ks) x" "plain x"
    "distinct (iaddrs (Shape a v m ks))" "distinct (saddrs (Shape a v m ks))" "i < length ks"
  shows "\<exists>h'. cJSON_DeleteItemFromArray (Some a) (int i) h = ret h' \<and>
    rep h' (Shape a v m (remove_at i ks)) (set_child (remove_at i (child x)) x) \<and>
    only_relinked a (addr ` set ks) (set (iaddrs (ks ! i))) h h' \<and>
    strs h' = drop_all (saddrs (ks ! i)) (strs h) \<and>
    hooks h' = (hooks h)\<lparr>live := live (hooks h) - blocks (child x ! i)\<rparr>"
  using assms by (rule delete_item_rep)

theorem cJSON_DeleteItemFromArray_frees_witness:
  "\<exists>h'. cJSON_DeleteItemFromArray (Some 0) 1 sample_heap = ret h' \<and>
     rep h' (Shape 0 None None [Shape 1 None None []])
       (CJSON cJSON_Array None 0 double_zero None [CJSON cJSON_True None 1 double_zero None []]) \<and>
     items h' 2 = None \<and> items h' 4 = items sample_heap 4 \<and> strs h' 3 = None \<and> live (hooks h') = 3"
proof -
  have "live (hooks sample_heap) = 5" by (simp add: sample_heap_def)
  then show ?thesis
    using cJSON_DeleteItemFromArray_frees [OF sample_rep(1,2,6), of 1]
    by (auto simp: sample_array_def remove_at_def drop_all_def only_relinked_def simp del: rep.simps)
qed

text \<open>
  C39. \<open>cJSON_ReplaceItemInArray\<close> puts the new item in the place of the one at the index and
  frees that one, in a tree in which no item is a reference or has a constant name: the array has the tree with the new child,
  exactly the blocks of the old child are gone, of the array only the \<open>child\<close> pointer and of the new item
  and the other children only \<open>next\<close> and \<open>prev\<close> may differ, and every other item and string is as it was.
\<close>

theorem cJSON_ReplaceItemInArray_refines:
  assumes "heap_ok h" "rep h (Shape a v m ks) x" "plain x" "rep h sh y"
    "distinct (a # concat (map iaddrs (sh # ks)))"
    "distinct (opt_list v @ opt_list m @ concat (map saddrs (sh # ks)))" "i < length ks"
  shows "\<exists>h'. cJSON_ReplaceItemInArray (Some a) (int i) (Some (addr sh)) h = ret h' \<and>
    rep h' (Shape a v m (replace_at i sh ks)) (set_child (replace_at i y (child x)) x) \<and>
    only_relinked a (addr ` set (sh # ks)) (set (iaddrs (ks ! i))) h h' \<and>
    strs h' = drop_all (saddrs (ks ! i)) (strs h) \<and>
    hooks h' = (hooks h)\<lparr>live := live (hooks h) - blocks (child x ! i)\<rparr>"
  using assms by (rule replace_item_rep)

theorem cJSON_ReplaceItemInArray_refines_witness:
  "\<exists>h'. cJSON_ReplaceItemInArray (Some 0) 0 (Some 4) sample_heap = ret h' \<and>
     rep h' (Shape 0 None None [Shape 4 None None [], Shape 2 (Some 3) None []])
       (CJSON cJSON_Array None 0 double_zero None
          [sample_null, CJSON cJSON_String (Some [104, 105]) 0 double_zero None []]) \<and>
     items h' 1 = None"
  using cJSON_ReplaceItemInArray_refines [OF sample_rep(1,2,6,3), of 0]
  by (auto simp: sample_array_def replace_at_def only_relinked_def simp del: rep.simps)

text \<open>
  C40. \<open>cJSON_Duplicate\<close> of an item, with all that is below it, in a tree in which no item is a reference or has a
  constant name, returns: either an unlinked item in
  new blocks that has the same tree, with every old block as it was, or null with
  exactly the blocks in use that were in use before (the partial copy is freed again); null
  only when the allocator refuses a request.
\<close>

theorem cJSON_Duplicate_correct:
  assumes "heap_ok h" "rep h sh x" "plain x" "distinct (iaddrs sh)"
  shows "(\<exists>copy h'. cJSON_Duplicate (Some (addr sh)) True h = ret (Some (addr copy), h') \<and> grown h h' copy x) \<or>
    (\<exists>h'. cJSON_Duplicate (Some (addr sh)) True h = ret (None, h') \<and> unchanged h h' \<and> \<not> always_grants (hooks h))"
  using Duplicate_post [OF assms] unfolding dup_post_def by blast

theorem cJSON_Duplicate_correct_witness:
  "\<exists>copy h'. cJSON_Duplicate (Some 0) True sample_heap = ret (Some (addr copy), h') \<and> grown sample_heap h' copy sample_array"
proof -
  have "always_grants (hooks sample_heap)" by (simp add: sample_heap_def always_grants_def granting_hooks_def)
  then show ?thesis using cJSON_Duplicate_correct [OF sample_rep(1,2,6)] by auto
qed


section \<open>Deviations\<close>

text \<open>Inserting a null pointer before an existing item, where \<open>cJSON_AddItemToArray\<close> would ignore it.\<close>

lemma insert_null_item: "cJSON_InsertItemInArray (Some 0) 0 None sample_heap = Some (Inl NullDeref)"
  by (simp add: cJSON_InsertItemInArray_def get_array_item_def sample_heap_def sample_node_def fuel_def
      granting_hooks_def insert_before_def deref_def numeral_eq_Suc upd_item_def rd_item_def)

text \<open>Replacing with the name taken from the replacement: the name is freed before it is copied.\<close>

lemma replace_own_name: "replace_item_in_object (Some 0) (Some 2) (Some 1) True named_heap = Some (Inl UseAfterFree)"
  by (simp add: replace_item_in_object_def named_heap_def sample_node_def free_opt_str_def free_str_def strdup_def
      rd_str_def)

text \<open>Success is reported although there was nothing to replace; the replacement stays unlinked.\<close>

lemma replace_missing_reports_success:
  "\<exists>h'. replace_item_in_object (Some 0) (Some 3) (Some 1) True named_heap = ret (True, h') \<and>
     items h' 0 = items named_heap 0 \<and> unlinked h' 1"
  by (simp add: replace_item_in_object_def named_heap_def sample_node_def free_opt_str_def free_str_def strdup_def
      rd_str_def allocate_def granting_hooks_def get_object_item_def fuel_def cJSON_ReplaceItemViaPointer_def unlinked_def)

text \<open>Adding an item under its own name as a constant key: the name is freed and still referred to.\<close>

lemma add_constant_own_name:
  "\<exists>h' n. cJSON_AddItemToObjectCS (Some 0) (Some 2) (Some 1) named_heap = ret h' \<and>
     items h' 1 = Some n \<and> nstring n = Some 2 \<and> strs h' 2 = None"
  by (simp add: cJSON_AddItemToObjectCS_def add_item_to_object_def make_key_def named_heap_def sample_node_def
      free_opt_str_def free_str_def add_item_to_array_def)

end
