(* ===== verification/CJsonMinify.thy ===== *)
theory CJsonMinify
  imports CJsonHeap
begin

text \<open>
  \<open>cJSON_Minify\<close> of \<open>cJSON.c\<close>, which removes white space and comments from a text in place, with its
  helpers; the model works on the bytes of the block with a reading and a writing position, and an
  access past the block is \<open>OutOfBounds\<close>. Shown: on every text it ends, stays in the block and writes
  what a reference function on lists gives. Also the functions that set and use the hooks.
\<close>

section \<open>Minifying\<close>

lemma bind_res_cong [fundef_cong]:
  "r = r' \<Longrightarrow> (\<And>a. r' = Inr a \<Longrightarrow> f a = g a) \<Longrightarrow> bind_res r f = bind_res r' g"
  by (cases r') auto

definition rd_byte :: "u8 list \<Rightarrow> nat \<Rightarrow> u8 res" where
  "rd_byte m i = (if i < length m then Inr (m ! i) else Inl OutOfBounds)"

definition wr_byte :: "u8 list \<Rightarrow> nat \<Rightarrow> u8 \<Rightarrow> u8 list res" where
  "wr_byte m i c = (if i < length m then Inr (m[i := c]) else Inl OutOfBounds)"

function oneline_loop :: "u8 list \<Rightarrow> nat \<Rightarrow> nat res" where
  "oneline_loop m i =
     bind_res (rd_byte m i) (\<lambda>c.
     if c = 0 then Inr i
     else if c = byte (CHR ''\<newline>'') then Inr (i + 1)
     else oneline_loop m (i + 1))"
  by pat_completeness auto
termination
  by (relation "measure (\<lambda>(m, i). length m - i)") (auto simp: rd_byte_def split: if_splits)

declare oneline_loop.simps [simp del]

definition skip_oneline_comment :: "u8 list \<Rightarrow> nat \<Rightarrow> nat res" where
  "skip_oneline_comment m i = oneline_loop m (i + 2)"

function multiline_loop :: "u8 list \<Rightarrow> nat \<Rightarrow> nat res" where
  "multiline_loop m i =
     bind_res (rd_byte m i) (\<lambda>c.
     if c = 0 then Inr i
     else
       bind_res (if c = byte (CHR ''*'') then bind_res (rd_byte m (i + 1)) (\<lambda>d. Inr (d = byte (CHR ''/''))) else Inr False) (\<lambda>closed.
       if closed then Inr (i + 2) else multiline_loop m (i + 1)))"
  by pat_completeness auto
termination
  by (relation "measure (\<lambda>(m, i). length m - i)") (auto simp: rd_byte_def split: if_splits)

declare multiline_loop.simps [simp del]

definition skip_multiline_comment :: "u8 list \<Rightarrow> nat \<Rightarrow> nat res" where
  "skip_multiline_comment m i = multiline_loop m (i + 2)"

text \<open>The loop of \<open>minify_string\<close>: the bytes, the reading and the writing position.\<close>

function string_loop :: "u8 list \<Rightarrow> nat \<Rightarrow> nat \<Rightarrow> (u8 list \<times> nat \<times> nat) res" where
  "string_loop m i p =
     bind_res (rd_byte m i) (\<lambda>c.
     if c = 0 then Inr (m, i, p)
     else
       bind_res (wr_byte m p c) (\<lambda>m.
       bind_res (rd_byte m i) (\<lambda>c.
       if c = byte (CHR 0x22) then bind_res (wr_byte m p (byte (CHR 0x22))) (\<lambda>m. Inr (m, i + 1, p + 1))
       else
         bind_res (if c = byte (CHR 0x5C) then bind_res (rd_byte m (i + 1)) (\<lambda>d. Inr (d = byte (CHR 0x22))) else Inr False) (\<lambda>escaped.
         if escaped then
           bind_res (rd_byte m (i + 1)) (\<lambda>d.
           bind_res (wr_byte m (p + 1) d) (\<lambda>m.
           string_loop m (i + 2) (p + 2)))
         else string_loop m (i + 1) (p + 1)))))"
  by pat_completeness auto
termination
  by (relation "measure (\<lambda>(m, i, p). length m - i)") (auto simp: rd_byte_def wr_byte_def split: if_splits)

declare string_loop.simps [simp del]

definition minify_string :: "u8 list \<Rightarrow> nat \<Rightarrow> nat \<Rightarrow> (u8 list \<times> nat \<times> nat) res" where
  "minify_string m i p =
     bind_res (rd_byte m i) (\<lambda>c.
     bind_res (wr_byte m p c) (\<lambda>m.
     string_loop m (i + 1) (p + 1)))"

lemma oneline_advances: "oneline_loop m i = Inr j \<Longrightarrow> i \<le> j"
  by (induction m i rule: oneline_loop.induct)
    (subst (asm) (2) oneline_loop.simps, fastforce simp: bind_res_Inr_iff split: if_splits)

lemma multiline_advances: "multiline_loop m i = Inr j \<Longrightarrow> i \<le> j"
  by (induction m i rule: multiline_loop.induct)
    (subst (asm) (2) multiline_loop.simps, fastforce simp: bind_res_Inr_iff split: if_splits)

lemma string_advances: "string_loop m i p = Inr (m', j, q) \<Longrightarrow> i \<le> j \<and> length m' = length m"
proof (induction m i p rule: string_loop.induct)
  case (1 m i p)
  obtain c where c: "rd_byte m i = Inr c"
    using "1.prems" by (subst (asm) string_loop.simps) (auto simp only: bind_res_Inr_iff)
  show ?case
  proof (cases "c = 0")
    case True
    then show ?thesis using "1.prems" c by (subst (asm) string_loop.simps) simp
  next
    case c0: False
    obtain m1 where m1: "wr_byte m p c = Inr m1" using "1.prems" c c0 by (subst (asm) string_loop.simps) (auto simp only: bind_res_Inr_iff bind_res_simps if_False)
    then have len: "length m1 = length m" by (auto simp: wr_byte_def split: if_splits)
    obtain d where d: "rd_byte m1 i = Inr d" using "1.prems" c c0 m1 by (subst (asm) string_loop.simps) (auto simp only: bind_res_Inr_iff bind_res_simps if_False)
    show ?thesis
    proof (cases "d = byte (CHR 0x22)")
      case True
      then show ?thesis using "1.prems" c c0 m1 d len
        by (subst (asm) string_loop.simps) (auto simp: bind_res_Inr_iff wr_byte_def split: if_splits)
    next
      case no: False
      let ?e = "if d = byte (CHR 0x5C) then bind_res (rd_byte m1 (i + 1)) (\<lambda>d. Inr (d = byte (CHR 0x22))) else Inr False"
      obtain e where e: "?e = Inr e" using "1.prems" c c0 m1 d no by (subst (asm) string_loop.simps) (auto simp only: bind_res_Inr_iff bind_res_simps if_False)
      show ?thesis
      proof (cases e)
        case True
        obtain f m2 where f: "rd_byte m1 (i + 1) = Inr f" "wr_byte m1 (p + 1) f = Inr m2" "string_loop m2 (i + 2) (p + 2) = Inr (m', j, q)"
          using "1.prems" c c0 m1 d no e True by (subst (asm) string_loop.simps) (auto simp only: bind_res_Inr_iff bind_res_simps if_False if_True)
        have "length m2 = length m1" using f(2) by (auto simp: wr_byte_def split: if_splits)
        with "1.IH"(1) [OF c c0 m1 d no e True f(1,2,3)] len show ?thesis by simp
      next
        case False
        have "string_loop m1 (i + 1) (p + 1) = Inr (m', j, q)"
          using "1.prems" c c0 m1 d no e False by (subst (asm) string_loop.simps) (auto simp only: bind_res_simps if_False)
        with "1.IH"(2) [OF c c0 m1 d no e False] len show ?thesis by simp
      qed
    qed
  qed
qed

function minify_loop :: "u8 list \<Rightarrow> nat \<Rightarrow> nat \<Rightarrow> (u8 list \<times> nat) res" where
  "minify_loop m json into =
     bind_res (rd_byte m json) (\<lambda>c.
     if c = 0 then Inr (m, into)
     else if c \<in> {byte (CHR '' ''), byte (CHR 0x09), byte (CHR 0x0D), byte (CHR 0x0A)} then minify_loop m (json + 1) into
     else if c = byte (CHR ''/'') then
       bind_res (rd_byte m (json + 1)) (\<lambda>d.
       if d = byte (CHR ''/'') then bind_res (skip_oneline_comment m json) (\<lambda>j. minify_loop m j into)
       else if d = byte (CHR ''*'') then bind_res (skip_multiline_comment m json) (\<lambda>j. minify_loop m j into)
       else minify_loop m (json + 1) into)
     else if c = byte (CHR 0x22) then
       bind_res (minify_string m json into) (\<lambda>(m, j, p). minify_loop m j p)
     else bind_res (wr_byte m into c) (\<lambda>m. minify_loop m (json + 1) (into + 1)))"
  by pat_completeness auto
termination
proof (relation "measure (\<lambda>(m, json, into). length m - json)", goal_cases)
  case (3 m json into c d j)
  then show ?case using oneline_advances [of m "json + 2" j] by (auto simp: skip_oneline_comment_def rd_byte_def split: if_splits)
next
  case (4 m json into c d j)
  then show ?case using multiline_advances [of m "json + 2" j] by (auto simp: skip_multiline_comment_def rd_byte_def split: if_splits)
next
  case (6 m json into c a m' x j p)
  obtain m1 where "wr_byte m into c = Inr m1" "string_loop m1 (json + 1) (into + 1) = Inr (m', j, p)"
    using 6 by (auto simp: minify_string_def bind_res_Inr_iff)
  then have "json + 1 \<le> j" "length m' = length m"
    using string_advances [of m1 "json + 1" "into + 1" m' j p] by (auto simp: wr_byte_def split: if_splits)
  then show ?case using 6 by (auto simp: rd_byte_def split: if_splits)
qed (auto simp: rd_byte_def wr_byte_def split: if_splits)

declare minify_loop.simps [simp del]

definition cJSON_Minify :: "u8 list option \<Rightarrow> u8 list option res" where
  "cJSON_Minify json =
     (case json of
        None \<Rightarrow> Inr None
      | Some m \<Rightarrow>
          bind_res (minify_loop m 0 0) (\<lambda>(m, into).
          bind_res (wr_byte m into 0) (\<lambda>m. Inr (Some m))))"

section \<open>Reference\<close>

fun after_line :: "u8 list \<Rightarrow> u8 list" where
  "after_line [] = []"
| "after_line (c # cs) = (if c = 10 then cs else after_line cs)"

fun after_block :: "u8 list \<Rightarrow> u8 list" where
  "after_block [] = []"
| "after_block (c # cs) = (if c = 42 \<and> cs \<noteq> [] \<and> hd cs = 47 then tl cs else after_block cs)"

text \<open>What \<open>minify_string\<close> takes for the rest of a string literal.\<close>

fun string_part :: "u8 list \<Rightarrow> u8 list" where
  "string_part [] = []"
| "string_part (c # cs) =
     (if c = 34 then [c]
      else if c = 92 \<and> cs \<noteq> [] \<and> hd cs = 34 then c # hd cs # string_part (tl cs)
      else c # string_part cs)"

lemma after_line_le: "length (after_line cs) \<le> length cs"
  by (induction cs) auto

lemma after_block_le: "length (after_block cs) \<le> length cs"
  by (induction cs) (auto simp: le_diff_conv)

function minified :: "u8 list \<Rightarrow> u8 list" where
  "minified [] = []"
| "minified (c # cs) =
     (if c \<in> {32, 9, 13, 10} then minified cs
      else if c = 47 then
        (if cs \<noteq> [] \<and> hd cs = 47 then minified (after_line (tl cs))
         else if cs \<noteq> [] \<and> hd cs = 42 then minified (after_block (tl cs))
         else minified cs)
      else if c = 34 then c # string_part cs @ minified (drop (length (string_part cs)) cs)
      else c # minified cs)"
  by pat_completeness auto
termination
proof (relation "measure length", goal_cases)
  case (3 c cs)
  then show ?case using after_line_le [of "tl cs"] by (cases cs) auto
next
  case (4 c cs)
  then show ?case using after_block_le [of "tl cs"] by (cases cs) auto
qed auto

section \<open>Agreement\<close>

lemma rd_byte_at [simp]: "rd_byte (pre @ c # cs) (length pre) = Inr c"
  by (simp add: rd_byte_def)

lemma rd_byte_next [simp]: "rd_byte (pre @ c # d # cs) (Suc (length pre)) = Inr d"
  by (simp add: rd_byte_def nth_append)

lemma oneline_text:
  "0 \<notin> set s \<Longrightarrow> oneline_loop (pre @ s @ 0 # rest) (length pre) = Inr (length pre + (length s - length (after_line s)))"
proof (induction s arbitrary: pre)
  case Nil
  then show ?case by (subst oneline_loop.simps) simp
next
  case (Cons c s)
  have "Suc (length pre) + (length s - length (after_line s)) = length pre + (Suc (length s) - length (after_line s))"
    using after_line_le [of s] by simp
  moreover have "oneline_loop ((pre @ [c]) @ s @ 0 # rest) (length (pre @ [c])) =
      Inr (length (pre @ [c]) + (length s - length (after_line s)))"
    using Cons.prems by (intro Cons.IH) simp
  ultimately show ?case using Cons.prems by (subst oneline_loop.simps) auto
qed

lemma multiline_text:
  "0 \<notin> set s \<Longrightarrow> multiline_loop (pre @ s @ 0 # rest) (length pre) = Inr (length pre + (length s - length (after_block s)))"
proof (induction s arbitrary: pre)
  case Nil
  then show ?case by (subst multiline_loop.simps) simp
next
  case (Cons c s)
  have "Suc (length pre) + (length s - length (after_block s)) = length pre + (Suc (length s) - length (after_block s))"
    using after_block_le [of s] by simp
  moreover have "multiline_loop ((pre @ [c]) @ s @ 0 # rest) (length (pre @ [c])) =
      Inr (length (pre @ [c]) + (length s - length (after_block s)))"
    using Cons.prems by (intro Cons.IH) simp
  ultimately show ?case using Cons.prems by (cases s) (subst multiline_loop.simps, auto)+
qed

text \<open>Writing at the writing position: the written bytes \<open>out\<close>, the bytes \<open>mid\<close> in between, the bytes still to be read.\<close>

lemma wr_byte_at [simp]: "wr_byte (pre @ c # cs) (length pre) d = Inr (pre @ d # cs)"
  by (simp add: wr_byte_def)

lemma wr_byte_out:
  "wr_byte (out @ mid @ c # s) (length out) d = Inr ((out @ [d]) @ tl (mid @ [c]) @ s)"
  by (cases mid) simp_all

lemma string_part_split: "\<exists>r. cs = string_part cs @ r"
  by (induction cs rule: string_part.induct) (auto simp: neq_Nil_conv)

lemma string_text:
  "0 \<notin> set s \<Longrightarrow> string_loop (out @ mid @ s @ 0 # rest) (length out + length mid) (length out) =
     Inr (out @ string_part s @ drop (length (string_part s)) (mid @ s @ 0 # rest),
          length out + length mid + length (string_part s), length out + length (string_part s))"
proof (induction s arbitrary: out mid rule: string_part.induct)
  case 1
  have "rd_byte (out @ mid @ 0 # rest) (length out + length mid) = Inr 0"
    using rd_byte_at [of "out @ mid" 0 rest] by simp
  then show ?case by (subst string_loop.simps) simp
next
  case (2 c s)
  let ?m = "out @ mid @ (c # s) @ 0 # rest"
  let ?m1 = "(out @ [c]) @ tl (mid @ [c]) @ s @ 0 # rest"
  have len: "length (tl (mid @ [c])) = length mid" by simp
  have rd: "rd_byte ?m (length out + length mid) = Inr c" using rd_byte_at [of "out @ mid" c "s @ 0 # rest"] by simp
  have wr: "wr_byte ?m (length out) c = Inr ?m1" using wr_byte_out [of out mid c "s @ 0 # rest" c] by simp
  have rd1: "rd_byte ?m1 (length out + length mid) = Inr c"
    by (cases mid) (simp_all add: rd_byte_def nth_append)
  have rd2: "rd_byte ?m1 (length out + length mid + 1) = Inr (if s = [] then 0 else hd s)"
    using rd_byte_at [of "(out @ [c]) @ tl (mid @ [c])" "if s = [] then 0 else hd s" "tl (s @ 0 # rest)"]
    by (cases s) (simp_all del: rd_byte_at)
  have c0: "c \<noteq> 0" using 2(3) by auto
  consider (close) "c = 34" | (esc) "c = 92" "s \<noteq> []" "hd s = 34" | (other) "c \<noteq> 34" "\<not> (c = 92 \<and> s \<noteq> [] \<and> hd s = 34)"
    by auto
  then show ?case
  proof cases
    case close
    have "wr_byte ?m1 (length out) c = Inr ?m1"
      by (simp add: wr_byte_def list_update_append)
    then show ?thesis
      using close rd wr rd1 by (subst string_loop.simps) (cases mid; simp)
  next
    case esc
    then obtain t where s: "s = 34 # t" by (cases s) auto
    let ?m2 = "(out @ [c, 34]) @ tl (tl (mid @ [c]) @ [34]) @ t @ 0 # rest"
    have wr2: "wr_byte ?m1 (length out + 1) 34 = Inr ?m2"
      using wr_byte_out [of "out @ [c]" "tl (mid @ [c])" 34 "t @ 0 # rest" 34] s by simp
    have "c \<noteq> 34" unfolding esc(1) by simp
    moreover have "c = 92 \<and> s \<noteq> [] \<and> hd s = 34" using esc by simp
    moreover have "0 \<notin> set (tl s)" using 2(3) s by simp
    ultimately have ih: "string_loop ?m2 (length out + length mid + 2) (length out + 2) =
        Inr ((out @ [c, 34]) @ string_part t @ drop (length (string_part t)) (tl (tl (mid @ [c]) @ [34]) @ t @ 0 # rest),
             length out + length mid + 2 + length (string_part t), length out + 2 + length (string_part t))"
      using "2.IH"(1) [of "out @ [c, 34]" "tl (tl (mid @ [c]) @ [34])"] s by (simp add: add.commute)
    have "tl (tl (mid @ [c]) @ [34]) @ t @ 0 # rest = drop 2 (mid @ (c # s) @ 0 # rest)"
      using s by (cases mid; cases "tl mid") (simp_all add: numeral_2_eq_2)
    then have rest: "drop (length (string_part t)) (tl (tl (mid @ [c]) @ [34]) @ t @ 0 # rest) =
        drop (length (string_part (c # s))) (mid @ (c # s) @ 0 # rest)"
      using esc s by (simp only: drop_drop) simp
    show ?thesis
      using rd c0 wr rd1 rd2 wr2 ih rest esc s
      by (subst string_loop.simps) (simp del: append_assoc append_Cons append_Nil tl_append2)
  next
    case other
    have ih: "string_loop ?m1 (length out + length mid + 1) (length out + 1) =
        Inr ((out @ [c]) @ string_part s @ drop (length (string_part s)) (tl (mid @ [c]) @ s @ 0 # rest),
             length out + length mid + 1 + length (string_part s), length out + 1 + length (string_part s))"
      using "2.IH"(2) [of "out @ [c]" "tl (mid @ [c])"] other 2(3) by simp
    have "tl (mid @ [c]) @ s @ 0 # rest = drop 1 (mid @ (c # s) @ 0 # rest)" by (cases mid) simp_all
    moreover have "length (string_part (c # s)) = length (string_part s) + 1" using other by auto
    ultimately have rest: "drop (length (string_part s)) (tl (mid @ [c]) @ s @ 0 # rest) =
        drop (length (string_part (c # s))) (mid @ (c # s) @ 0 # rest)"
      by (simp only: drop_drop)
    show ?thesis
      using rd c0 wr rd1 rd2 ih rest other
      by (subst string_loop.simps) (auto simp del: append_assoc append_Cons append_Nil tl_append2)
  qed
qed

lemma after_line_suffix: "\<exists>pre. cs = pre @ after_line cs"
proof (induction cs)
  case (Cons c cs)
  then obtain pre where "cs = pre @ after_line cs" by blast
  then have "c # cs = (if c = 10 then [c] else c # pre) @ after_line (c # cs)" by simp
  then show ?case by blast
qed simp

lemma after_block_suffix: "\<exists>pre. cs = pre @ after_block cs"
proof (induction cs)
  case (Cons c cs)
  then obtain pre where pre: "cs = pre @ after_block cs" by blast
  show ?case
  proof (cases "c = 42 \<and> cs \<noteq> [] \<and> hd cs = 47")
    case True
    then have "c # cs = [c, hd cs] @ after_block (c # cs)" by (cases cs) simp_all
    then show ?thesis by blast
  next
    case False
    then have "after_block (c # cs) = after_block cs" by (simp only: after_block.simps if_False)
    then have "c # cs = (c # pre) @ after_block (c # cs)" using pre by simp
    then show ?thesis by blast
  qed
qed simp

lemma drop_append_part: "s = q @ r \<Longrightarrow> drop (length q) (xs @ s @ ys) = drop (length q) (xs @ q) @ r @ ys"
  by simp

text \<open>What \<open>minify_loop\<close> does with a text \<open>s\<close>, whatever was written and read before it.\<close>

definition minifies :: "u8 list \<Rightarrow> u8 list \<Rightarrow> bool" where
  "minifies s rest \<longleftrightarrow> length (minified s) \<le> length s \<and>
     (\<forall>out mid. minify_loop (out @ mid @ s @ 0 # rest) (length out + length mid) (length out) =
       Inr (out @ minified s @ drop (length (minified s)) (mid @ s @ 0 # rest), length out + length (minified s)))"

lemma read_at:
  "rd_byte (out @ mid @ (c # s) @ 0 # rest) (length out + length mid) = Inr c"
  "rd_byte (out @ mid @ (c # s) @ 0 # rest) (length out + length mid + 1) = Inr (if s = [] then 0 else hd s)"
  using rd_byte_at [of "out @ mid" c "s @ 0 # rest"]
    rd_byte_at [of "out @ mid @ [c]" "if s = [] then 0 else hd s" "tl (s @ 0 # rest)"]
  by (cases s; simp del: rd_byte_at)+

text \<open>Skipping to a suffix of the text.\<close>

lemma minifies_skip:
  assumes "minifies t rest" "s = pre @ t" "minified s = minified t"
    and "\<And>out mid. minify_loop (out @ mid @ s @ 0 # rest) (length out + length mid) (length out) =
      minify_loop (out @ mid @ s @ 0 # rest) (length out + length mid + length pre) (length out)"
  shows "minifies s rest"
proof -
  have run: "minify_loop (out @ (mid @ pre) @ t @ 0 # rest) (length out + length (mid @ pre)) (length out) =
      Inr (out @ minified t @ drop (length (minified t)) ((mid @ pre) @ t @ 0 # rest), length out + length (minified t))" for out mid
    using assms(1) unfolding minifies_def by blast
  have "length (minified s) \<le> length s" using assms(1-3) by (simp add: minifies_def)
  then show ?thesis
    unfolding minifies_def using assms(2-4) run by (simp add: add.assoc)
qed

lemma minifies_line:
  assumes "minifies (after_line t) rest" "0 \<notin> set t"
  shows "minifies (47 # 47 # t) rest"
proof -
  obtain pre where pre: "t = pre @ after_line t" using after_line_suffix by blast
  show ?thesis
  proof (rule minifies_skip [OF assms(1)])
    show "47 # 47 # t = (47 # 47 # pre) @ after_line t" using pre by simp
    fix out mid
    let ?m = "out @ mid @ (47 # 47 # t) @ 0 # rest" and ?i = "length out + length mid"
    have "oneline_loop ((out @ mid @ [47, 47]) @ t @ 0 # rest) (length (out @ mid @ [47, 47])) =
        Inr (length (out @ mid @ [47, 47]) + (length t - length (after_line t)))"
      using assms(2) by (rule oneline_text)
    moreover have "length t - length (after_line t) = length pre" using pre by (metis add_diff_cancel_right' length_append)
    ultimately have "skip_oneline_comment ?m ?i = Inr (?i + length (47 # 47 # pre))"
      by (simp add: skip_oneline_comment_def add.assoc)
    then show "minify_loop ?m ?i (length out) = minify_loop ?m (?i + length (47 # 47 # pre)) (length out)"
      using read_at [of out mid 47 "47 # t" rest] by (subst minify_loop.simps) simp
  qed simp
qed

lemma minifies_block:
  assumes "minifies (after_block t) rest" "0 \<notin> set t"
  shows "minifies (47 # 42 # t) rest"
proof -
  obtain pre where pre: "t = pre @ after_block t" using after_block_suffix by blast
  show ?thesis
  proof (rule minifies_skip [OF assms(1)])
    show "47 # 42 # t = (47 # 42 # pre) @ after_block t" using pre by simp
    fix out mid
    let ?m = "out @ mid @ (47 # 42 # t) @ 0 # rest" and ?i = "length out + length mid"
    have "multiline_loop ((out @ mid @ [47, 42]) @ t @ 0 # rest) (length (out @ mid @ [47, 42])) =
        Inr (length (out @ mid @ [47, 42]) + (length t - length (after_block t)))"
      using assms(2) by (rule multiline_text)
    moreover have "length t - length (after_block t) = length pre" using pre by (metis add_diff_cancel_right' length_append)
    ultimately have "skip_multiline_comment ?m ?i = Inr (?i + length (47 # 42 # pre))"
      by (simp add: skip_multiline_comment_def add.assoc)
    then show "minify_loop ?m ?i (length out) = minify_loop ?m (?i + length (47 # 42 # pre)) (length out)"
      using read_at [of out mid 47 "42 # t" rest] by (subst minify_loop.simps) simp
  qed simp
qed

text \<open>A string literal \<open>c # q\<close> is copied; \<open>mid'\<close> are the bytes in between afterwards.\<close>

lemma minify_string_text:
  assumes "0 \<notin> set s" "c = 34" "s = string_part s @ r"
  obtains mid' where
    "minify_loop (out @ mid @ (c # s) @ 0 # rest) (length out + length mid) (length out) =
       minify_loop ((out @ c # string_part s) @ mid' @ r @ 0 # rest)
         (length (out @ c # string_part s) + length mid') (length (out @ c # string_part s))"
    "drop (length (c # string_part s)) (mid @ (c # s) @ 0 # rest) = mid' @ r @ 0 # rest"
proof -
  let ?m = "out @ mid @ (c # s) @ 0 # rest" and ?i = "length out + length mid"
  let ?q = "string_part s" let ?mid = "drop (length ?q) (tl (mid @ [c]) @ ?q)"
  have "minify_string ?m ?i (length out) = string_loop ((out @ [c]) @ tl (mid @ [c]) @ s @ 0 # rest) (?i + 1) (length out + 1)"
    using read_at(1) [of out mid c s rest] wr_byte_out [of out mid c "s @ 0 # rest" c] by (simp add: minify_string_def)
  also have "\<dots> = Inr ((out @ [c]) @ ?q @ drop (length ?q) (tl (mid @ [c]) @ s @ 0 # rest),
      ?i + 1 + length ?q, length out + 1 + length ?q)"
    using string_text [OF assms(1), of "out @ [c]" "tl (mid @ [c])" rest] by simp
  also have drop: "drop (length ?q) (tl (mid @ [c]) @ s @ 0 # rest) = ?mid @ r @ 0 # rest"
    using drop_append_part [OF assms(3)] by simp
  finally have "minify_string ?m ?i (length out) =
      Inr ((out @ [c]) @ ?q @ ?mid @ r @ 0 # rest, ?i + 1 + length ?q, length out + 1 + length ?q)" .
  moreover have "c \<noteq> 0" "c \<notin> {32, 9, 13, 10}" "c \<noteq> 47" using assms(2) by auto
  ultimately have run: "minify_loop ?m ?i (length out) =
      minify_loop ((out @ [c]) @ ?q @ ?mid @ r @ 0 # rest) (?i + 1 + length ?q) (length out + 1 + length ?q)"
    using read_at(1) [of out mid c s rest] assms(2)
    by (subst minify_loop.simps) (simp del: append_assoc append_Cons append_Nil tl_append2)
  have len: "length ?mid = length mid" by simp
  have i1: "?i + 1 + length ?q = length (out @ c # ?q) + length ?mid" unfolding len by simp
  have p1: "length out + 1 + length ?q = length (out @ c # ?q)" by simp
  have m1: "(out @ [c]) @ ?q @ z = (out @ c # ?q) @ z" for z by simp
  have "drop (length (c # ?q)) (mid @ (c # s) @ 0 # rest) = ?mid @ r @ 0 # rest"
    using drop by (cases mid) simp_all
  then show ?thesis using that [of ?mid] run [unfolded m1 i1 p1] by blast
qed

lemma minifies_string:
  assumes "0 \<notin> set s" "c = 34" "s = string_part s @ r" "minifies r rest"
  shows "minifies (c # s) rest"
proof -
  have "drop (length (string_part s)) s = r" using assms(3) by (metis append_eq_conv_conj)
  then have min: "minified (c # s) = (c # string_part s) @ minified r" using assms(2) by simp
  have "length s = length (string_part s) + length r" using assms(3) by (metis length_append)
  then have "length (minified (c # s)) \<le> length (c # s)" unfolding min using assms(4) by (simp add: minifies_def)
  moreover have "minify_loop (out @ mid @ (c # s) @ 0 # rest) (length out + length mid) (length out) =
      Inr (out @ minified (c # s) @ drop (length (minified (c # s))) (mid @ (c # s) @ 0 # rest), length out + length (minified (c # s)))"
    for out mid
  proof -
    obtain mid' where mid': "minify_loop (out @ mid @ (c # s) @ 0 # rest) (length out + length mid) (length out) =
         minify_loop ((out @ c # string_part s) @ mid' @ r @ 0 # rest)
           (length (out @ c # string_part s) + length mid') (length (out @ c # string_part s))"
      "drop (length (c # string_part s)) (mid @ (c # s) @ 0 # rest) = mid' @ r @ 0 # rest"
      using minify_string_text [OF assms(1-3)] by blast
    have "length ((c # string_part s) @ minified r) = length (minified r) + length (c # string_part s)" by simp
    then have "drop (length ((c # string_part s) @ minified r)) (mid @ (c # s) @ 0 # rest) =
        drop (length (minified r)) (mid' @ r @ 0 # rest)"
      using mid'(2) drop_drop [of "length (minified r)" "length (c # string_part s)" "mid @ (c # s) @ 0 # rest"] by metis
    moreover have "minify_loop ((out @ c # string_part s) @ mid' @ r @ 0 # rest)
        (length (out @ c # string_part s) + length mid') (length (out @ c # string_part s)) =
      Inr ((out @ c # string_part s) @ minified r @ drop (length (minified r)) (mid' @ r @ 0 # rest),
        length (out @ c # string_part s) + length (minified r))"
      using assms(4) unfolding minifies_def by blast
    ultimately show ?thesis unfolding min mid'(1) by simp
  qed
  ultimately show ?thesis unfolding minifies_def by blast
qed

lemma minifies_other:
  assumes "c \<noteq> 0" "c \<notin> {32, 9, 13, 10, 47, 34}" "minifies s rest"
  shows "minifies (c # s) rest"
proof -
  have min: "minified (c # s) = c # minified s" using assms(2) by simp
  have "minify_loop (out @ mid @ (c # s) @ 0 # rest) (length out + length mid) (length out) =
      Inr (out @ (c # minified s) @ drop (length (c # minified s)) (mid @ (c # s) @ 0 # rest), length out + length (c # minified s))"
    for out mid
  proof -
    have "minify_loop (out @ mid @ (c # s) @ 0 # rest) (length out + length mid) (length out) =
        minify_loop ((out @ [c]) @ tl (mid @ [c]) @ s @ 0 # rest) (length (out @ [c]) + length (tl (mid @ [c]))) (length (out @ [c]))"
      using read_at(1) [of out mid c s rest] assms(1,2) wr_byte_out [of out mid c "s @ 0 # rest" c]
      by (subst minify_loop.simps) auto
    also have "\<dots> = Inr ((out @ [c]) @ minified s @ drop (length (minified s)) (tl (mid @ [c]) @ s @ 0 # rest),
        length (out @ [c]) + length (minified s))"
      using assms(3) unfolding minifies_def by blast
    also have "drop (length (minified s)) (tl (mid @ [c]) @ s @ 0 # rest) = drop (length (c # minified s)) (mid @ (c # s) @ 0 # rest)"
      by (cases mid) simp_all
    finally show ?thesis by simp
  qed
  then show ?thesis using assms(3) unfolding minifies_def min by simp
qed

lemma minify_text: "0 \<notin> set s \<Longrightarrow> minifies s rest"
proof (induction s rule: minified.induct)
  case 1
  have "rd_byte (out @ mid @ 0 # rest) (length out + length mid) = Inr 0" for out mid
    using rd_byte_at [of "out @ mid" 0 rest] by simp
  then show ?case unfolding minifies_def by (subst minify_loop.simps) simp
next
  case (2 c s)
  have c0: "c \<noteq> 0" and s0: "0 \<notin> set s" using "2.prems" by auto
  consider (space) "c \<in> {32, 9, 13, 10}" | (line) "c = 47" "s \<noteq> []" "hd s = 47" | (block) "c = 47" "s \<noteq> []" "hd s = 42"
    | (slash) "c = 47" "\<not> (s \<noteq> [] \<and> hd s \<in> {47, 42})" | (string) "c = 34" | (other) "c \<notin> {32, 9, 13, 10, 47, 34}"
    by auto
  then show ?case
  proof cases
    case space
    then have min: "minified (c # s) = minified s" by simp
    have run: "minify_loop (out @ mid @ (c # s) @ 0 # rest) (length out + length mid) (length out) =
        minify_loop (out @ mid @ (c # s) @ 0 # rest) (length out + length mid + length [c]) (length out)" for out mid
      using read_at(1) [of out mid c s rest] c0 space by (subst minify_loop.simps) auto
    show ?thesis by (rule minifies_skip [OF "2.IH"(1) [OF space s0] _ min run]) simp
  next
    case line
    then obtain t where s: "s = 47 # t" by (cases s) auto
    have t0: "0 \<notin> set t" using s0 s by simp
    then have "0 \<notin> set (after_line t)" using after_line_suffix [of t] by (metis Un_iff set_append)
    then show ?thesis using minifies_line [OF _ t0, of rest] "2.IH"(2) line s by simp
  next
    case block
    then obtain t where s: "s = 42 # t" by (cases s) auto
    have t0: "0 \<notin> set t" using s0 s by simp
    then have "0 \<notin> set (after_block t)" using after_block_suffix [of t] by (metis Un_iff set_append)
    then show ?thesis using minifies_block [OF _ t0, of rest] "2.IH"(3) block s by simp
  next
    case slash
    then have min: "minified (c # s) = minified s" by auto
    have run: "minify_loop (out @ mid @ (c # s) @ 0 # rest) (length out + length mid) (length out) =
        minify_loop (out @ mid @ (c # s) @ 0 # rest) (length out + length mid + length [c]) (length out)" for out mid
      using read_at [of out mid c s rest] c0 slash by (subst minify_loop.simps) auto
    have "minifies s rest" using "2.IH"(4) s0 slash by auto
    then show ?thesis by (rule minifies_skip [OF _ _ min run]) simp
  next
    case string
    obtain r where r: "s = string_part s @ r" using string_part_split by blast
    have "0 \<notin> set r" using s0 r by (metis Un_iff set_append)
    moreover have "drop (length (string_part s)) s = r" using r by (metis append_eq_conv_conj)
    ultimately show ?thesis using minifies_string [OF s0 string r] "2.IH"(5) string by simp
  next
    case other
    then show ?thesis using minifies_other [OF c0 other] "2.IH"(6) s0 by auto
  qed
qed

text \<open>
  On every text, that is, up to the first zero byte, \<open>cJSON_Minify\<close> ends without an access outside the block,
  writes the minified text and a zero byte, and leaves the bytes behind as they were.
\<close>

lemma cJSON_Minify_correct:
  assumes "0 \<notin> set s"
  shows "cJSON_Minify (Some (s @ 0 # rest)) =
    Inr (Some (minified s @ 0 # drop (Suc (length (minified s))) (s @ 0 # rest)))"
proof -
  let ?n = "length (minified s)"
  have le: "?n \<le> length s" using minify_text [OF assms, of rest] by (simp add: minifies_def)
  have "minify_loop (s @ 0 # rest) 0 0 = Inr (minified s @ drop ?n (s @ 0 # rest), ?n)"
    using minify_text [OF assms, of rest, unfolded minifies_def, THEN conjunct2, rule_format, of "[]" "[]"] by simp
  moreover have "drop ?n (s @ 0 # rest) = (s @ 0 # rest) ! ?n # drop (Suc ?n) (s @ 0 # rest)"
    using le by (intro Cons_nth_drop_Suc [symmetric]) simp
  ultimately show ?thesis by (simp add: cJSON_Minify_def)
qed

text \<open>
  A backslash before a quotation mark is taken for its escape even when it is itself escaped: in
  \<open>["\\", "b c"]\<close> the first string does not end where it should, and the blank in the second one is removed.
\<close>

lemma minify_escaped_backslash:
  "minified [91, 34, 92, 92, 34, 44, 32, 34, 98, 32, 99, 34, 93] = [91, 34, 92, 92, 34, 44, 32, 34, 98, 99, 34, 93]"
  by simp

section \<open>Hooks\<close>

text \<open>The functions a hook can point to: those of the standard library, or one of the user's.\<close>

datatype hook_fn = Std_malloc | Std_free | Std_realloc | User nat

record hook_table =
  allocate_fn :: hook_fn
  deallocate_fn :: hook_fn
  reallocate_fn :: "hook_fn option"

text \<open>The argument is null or the pair of \<open>malloc_fn\<close> and \<open>free_fn\<close>, each possibly null.\<close>

definition cJSON_InitHooks :: "(hook_fn option \<times> hook_fn option) option \<Rightarrow> hook_table" where
  "cJSON_InitHooks user =
     (case user of
        None \<Rightarrow> \<lparr>allocate_fn = Std_malloc, deallocate_fn = Std_free, reallocate_fn = Some Std_realloc\<rparr>
      | Some (malloc_fn, free_fn) \<Rightarrow>
          let a = (case malloc_fn of None \<Rightarrow> Std_malloc | Some f \<Rightarrow> f);
              d = (case free_fn of None \<Rightarrow> Std_free | Some f \<Rightarrow> f)
          in \<lparr>allocate_fn = a, deallocate_fn = d,
              reallocate_fn = if a = Std_malloc \<and> d = Std_free then Some Std_realloc else None\<rparr>)"

text \<open>\<open>realloc\<close> is never combined with an allocator that is not the standard library's.\<close>

lemma InitHooks_realloc:
  "reallocate_fn (cJSON_InitHooks user) =
     (if allocate_fn (cJSON_InitHooks user) = Std_malloc \<and> deallocate_fn (cJSON_InitHooks user) = Std_free
      then Some Std_realloc else None)"
  by (auto simp: cJSON_InitHooks_def Let_def split: option.split)

definition cJSON_malloc :: "nat \<Rightarrow> internal_hooks \<Rightarrow> internal_hooks \<times> u8 list option" where
  "cJSON_malloc sz global_hooks = allocate global_hooks sz"

definition cJSON_free :: "internal_hooks \<Rightarrow> internal_hooks" where
  "cJSON_free global_hooks = deallocate global_hooks"

text \<open>A block that was granted and freed again leaves the balance as it was.\<close>

lemma malloc_free_balance: "cJSON_malloc n h = (h', Some b) \<Longrightarrow> live (cJSON_free h') = live h \<and> length b = n"
  by (auto simp: cJSON_malloc_def cJSON_free_def allocate_def deallocate_def split: if_splits)

end
