(* ===== verification/Spec2Isabelle.thy ===== *)
theory Spec2Isabelle
  imports RingBuffer ChainBufferProps SkipListProps LockedQueue ProducerConsumerQueue MsgQueue MPSCIntrusive SpinLock
    Timers MemPool MemPoolUnfixed DeadlockProps CJsonRoundTrip CJsonEditProps CJsonMinify
begin

text \<open>
  A verification development for the components of the High-performance-Component repository: network
  buffers, queues, locks, timers, memory pools, a deadlock detector and the JSON library cJSON. The components do
  not call each other; each is a building block for servers, with its own state, and the development has one
  group of theories per component. File names below are relative to the root of the repository.

  \<^bold>\<open>Conventions.\<close> A struct or class is a record, an enum or a tagged pointer a datatype, a fixed-width integer a word
  of its width; where the code computes with \<open>int\<close> the value is an integer and leaving the type is the fault
  \<open>SignedOverflow\<close>. An operation returns \<open>Inl\<close> of a fault (null dereference, use after free, invalid free, access out
  of bounds, failed assertion, division by zero) or \<open>Inr\<close> of its result and the new state, so that a theorem that
  gives an \<open>Inr\<close> excludes every fault. Pointers are addresses into an explicit heap, a map from addresses to
  records, wherever the code allocates, links or frees. \<open>malloc\<close>, random draws, clocks and callbacks are arguments of the
  definitions. A concurrent component is a step relation in which one step is one critical section, or
  one atomic access where there is no lock; its theorems hold in every reachable state.
  Loops that end by a measure are total functions. A loop the code gives no bound is a partial function whose
  value \<open>None\<close> is non-termination, or has fuel and the value \<open>None\<close> when it is used up; the theorems that give a
  result show that it ends.

  \<^bold>\<open>Shared theories.\<close> \<open>Prelude\<close>: faults, results and their composition, bounded \<open>memcpy\<close> and \<open>memcmp\<close>, lemmas on
  words and lists, the reference search \<open>first_match_end\<close>. \<open>Interfaces\<close>: the locales \<open>invariant_system\<close> (a step relation
  with an inductive invariant, interpreted on every concurrent or stateful component), \<open>byte_stream\<close> (interpreted on
  the ring buffer) and \<open>fifo_queue\<close> (interpreted on the locked queue). The locale \<open>comparator\<close> in \<open>SkipList\<close> is the contract of
  the template argument of the skip list.

  \<^bold>\<open>Ring buffer.\<close> \<open>RingBuffer\<close> models \<open>Network_Buffer_Design/RingBuffer/ringbuffer.c\<close>, with unsigned 32-bit indices that
  wrap around. Shown: runs of additions and deletions refine a byte list; what \<open>buffer_remove\<close> and \<open>buffer_search\<close> return,
  with the conditions under which they are right, and the calls for which they are not.

  \<^bold>\<open>Chain buffer.\<close> \<open>ChainBuffer\<close> models \<open>Network_Buffer_Design/ChainBuffer/chainbuffer.c\<close> on a heap of blocks; the pointer to a
  pointer \<open>last_with_data\<close> is a slot, the head or the \<open>next\<close> field of a block. \<open>ChainBufferCorrect\<close> defines
  well-formed buffers and their contents and shows adding, deleting and freeing; \<open>ChainBufferSearch\<close> searching and
  gathering; \<open>ChainBufferProps\<close> has the properties. Fuel: the number of allocations so far plus one, more than
  there can be blocks in a chain.

  \<^bold>\<open>Skip list.\<close> \<open>SkipList\<close> models \<open>Atomic & Lock/skiplist.h\<close> as a sequential structure: nodes are never freed, so the heap is
  the list of nodes. \<open>SkipListCorrect\<close> and \<open>SkipListInsert\<close> relate it to an ascending list of keys, including the cached
  predecessors of the last insertion; \<open>SkipListProps\<close> shows insertion, duplicates, lookup, the iterator and the
  client of \<open>test_skiplist.cc\<close> with its \<open>IntComparator\<close>, for keys whose differences fit.

  \<^bold>\<open>Queues.\<close> \<open>LockedQueue\<close> (\<open>Queue_Design/LockedQueue.h\<close>), \<open>ProducerConsumerQueue\<close> (\<open>ProducerConsumerQueue.h\<close>, with the waiters of
  the condition variable), \<open>MsgQueue\<close> (\<open>msgqueue.c\<close>, two lists that are swapped), \<open>MPSCQueue\<close> and \<open>MPSCIntrusive\<close> (the two
  lock-free variants of \<open>MPSCQueue.h\<close>). Shown: order, no loss, no lost wakeup, no access to freed nodes under every
  interleaving, and that destruction ends and frees everything.

  \<^bold>\<open>Spin lock.\<close> \<open>SpinLock\<close> models \<open>Atomic & Lock/spinlock.h\<close>: mutual exclusion in every reachable state, and progress in every
  infinite run of a fair scheduler.

  \<^bold>\<open>Timers.\<close> \<open>Timers\<close> models the containers of \<open>Timers/timers.cc\<close> and \<open>Timers/timer_with_timerfd.cc\<close>: due timers run once and in order,
  deletion undoes addition, and the time to sleep misses no timer.

  \<^bold>\<open>Memory pools.\<close> \<open>MemPool\<close> (\<open>mempool/mempool_fixed_block.c\<close>, with the free list stored in the page itself) and \<open>MemPoolUnfixed\<close>
  (\<open>mempool/mempool_unfixed.c\<close>): blocks handed out lie in their page or node and do not overlap.

  \<^bold>\<open>Deadlock detector.\<close> \<open>Deadlock\<close> models \<open>Deadlock/deadlock.c\<close>: the wait-for graph, the lock hooks that build it and the depth-first
  search with its global arrays. \<open>DeadlockCorrect\<close> and \<open>DeadlockProps\<close> show that the search ends within its arrays,
  reports every cycle, and reports nothing else where each vertex waits for at most one other.

  \<^bold>\<open>cJSON.\<close> (\<open>ProtoBuf/cjson_test/cJSON.c\<close> and \<open>cJSON.h\<close>.) \<open>CJsonDouble\<close> is what the code uses of floating-point numbers, \<open>CJsonBase\<close>
  the items and the allocator behind the hooks. Parser: \<open>CJsonString\<close> and \<open>CJsonParse\<close>, shown in \<open>CJsonStringCorrect\<close>, \<open>CJsonParseCorrect\<close>,
  \<open>CJsonParseComplete\<close> and \<open>CJsonParseProps\<close> to stay in bounds, to leak nothing, and to accept exactly an inductive grammar.
  Its fuel is three times the length of the text plus six, which is shown to suffice for every text. Printer: \<open>CJsonPrint\<close>, with
  \<open>CJsonPrintBuffer\<close>, \<open>CJsonPrintCorrect\<close> and \<open>CJsonPrintProps\<close> for the growing buffer and the text that is written; \<open>CJsonNumberText\<close> and
  \<open>CJsonRoundTrip\<close> show that what is printed is read back. Trees in memory: \<open>CJsonHeap\<close> and \<open>CJsonEdit\<close> model the functions that
  create, look up, link, detach, replace, delete, duplicate and compare items, on a heap of items with \<open>next\<close>, \<open>prev\<close> and
  \<open>child\<close> pointers; \<open>CJsonChain\<close> has the lemmas on chains, \<open>CJsonTree\<close> and \<open>CJsonDuplicate\<close> those on trees, \<open>CJsonEditProps\<close> the
  properties, with a frame for everything that is not touched. The fuel of the loops along chains is the number of requests
  to the allocator plus one. \<open>CJsonMinify\<close> has \<open>cJSON_Minify\<close> and the functions for the hooks.

  \<^bold>\<open>Deviations.\<close> Where the code does not do what its name or its comments say, a lemma evaluates it on a concrete
  input or characterises the failing case; these lemmas stand in the theory of the component, most of them in its last section. The conditions such a case needs
  are hypotheses of the properties, named in the text above each.

  \<^bold>\<open>Not modelled.\<close> Orders weaker than sequential consistency: the atomics of the lock-free queues, the spin lock and the
  skip list are taken in program order, and a reader of the skip list concurrent with its writer is outside the model. The failing
  allocation of a skip-list node. The variants of the spin lock on other primitives. The demonstration and timing programs
  (\<open>main\<close> functions, \<open>test_*.cpp\<close>, \<open>Atomic & Lock/*.cc\<close> but \<open>test_skiplist.cc\<close>, \<open>cjson_speed.c\<close>, \<open>rapidjson_test\<close>, \<open>MySQL_pool_test\<close>,
  \<open>spdlog\<close>), generated code (\<open>ProtoBuf_test\<close>), vendored libraries (\<open>jsoncpp_test\<close>, \<open>Distributed_Lock\<close>, whose behaviour
  rests on the replies of Redis servers), and the leak detectors of \<open>Memory_Leak\<close>, which consist of file operations around \<open>malloc\<close>
  and \<open>free\<close>.
\<close>

end
